(* ===== verification/Prelude.thy ===== *)
theory Prelude
  imports Complex_Main "HOL-Library.AList"
begin

text \<open>
  Shared vocabulary of the development. A TypeScript function that may \<open>throw\<close> is a function
  into a sum \<open>'e + 'a\<close> whose left summand is the error; \<open>bind_result\<close> is the sequencing of two
  such statements and \<open>ensure\<close> is a guard \<open>if (!b) throw e\<close>. The array operations
  \<open>indexOf\<close>, \<open>slice\<close> and \<open>splice\<close> are given on lists. A JavaScript \<open>Map\<close> iterates in
  insertion order, which is what \<open>AList.update\<close> does (a known key keeps its place, a new one is
  appended), so maps whose order is observable are association lists.

  The second half is the event-sourcing contract that most components of the program share: a
  projection is a fold of a step function over an append-only log, the step sees the log before
  the event, and an event it rejects stops the replay. The locale \<open>log_replay\<close> states what such a
  component promises and derives the invariant, prefix and incremental-replay facts once.
\<close>

named_theorems result_simps \<open>characterisations of successful and failed results\<close>

section \<open>Results\<close>

definition bind_result :: "'e + 'a \<Rightarrow> ('a \<Rightarrow> 'e + 'b) \<Rightarrow> 'e + 'b" where
  "bind_result r f = (case r of Inl e \<Rightarrow> Inl e | Inr x \<Rightarrow> f x)"

definition ensure :: "bool \<Rightarrow> 'e \<Rightarrow> 'e + unit" where
  "ensure b e = (if b then Inr () else Inl e)"

lemma bind_result_simps [simp]:
  "bind_result (Inl e) f = Inl e"
  "bind_result (Inr x) f = f x"
  by (simp_all add: bind_result_def)

lemma ensure_simps [simp]:
  "ensure True e = Inr ()"
  "ensure False e = Inl e"
  by (simp_all add: ensure_def)

lemma bind_result_Inr [result_simps]:
  "bind_result r f = Inr y \<longleftrightarrow> (\<exists>x. r = Inr x \<and> f x = Inr y)"
  by (cases r) simp_all

lemma bind_result_Inl [result_simps]:
  "bind_result r f = Inl e \<longleftrightarrow> r = Inl e \<or> (\<exists>x. r = Inr x \<and> f x = Inl e)"
  by (cases r) auto

lemma ensure_Inr [result_simps]: "ensure b e = Inr u \<longleftrightarrow> b"
  by (cases b) simp_all

lemma ensure_Inl [result_simps]: "ensure b e = Inl e' \<longleftrightarrow> \<not> b \<and> e' = e"
  by (cases b) auto

lemma bind_ensure_Inr [result_simps]:
  "bind_result (ensure b e) f = Inr y \<longleftrightarrow> b \<and> f () = Inr y"
  by (cases b) simp_all

lemma bind_result_assoc:
  "bind_result (bind_result r f) g = bind_result r (\<lambda>x. bind_result (f x) g)"
  by (cases r) simp_all

section \<open>Array operations\<close>

fun index_of :: "'a \<Rightarrow> 'a list \<Rightarrow> nat option" where
  "index_of x [] = None"
| "index_of x (y # ys) = (if x = y then Some 0 else map_option Suc (index_of x ys))"

definition slice :: "'a list \<Rightarrow> nat \<Rightarrow> nat \<Rightarrow> 'a list" where
  "slice xs i j = take (j - i) (drop i xs)"

definition splice_list :: "'a list \<Rightarrow> nat \<Rightarrow> nat \<Rightarrow> 'a list \<Rightarrow> 'a list" where
  "splice_list xs i d ins = take i xs @ ins @ drop (i + d) xs"

lemma index_of_None: "index_of x xs = None \<longleftrightarrow> x \<notin> set xs"
  by (induction xs) auto

lemma index_of_Some:
  "index_of x xs = Some i \<Longrightarrow> i < length xs \<and> xs ! i = x \<and> x \<notin> set (take i xs)"
  by (induction xs arbitrary: i) (auto split: if_splits)

lemma index_of_nth: "distinct xs \<Longrightarrow> i < length xs \<Longrightarrow> index_of (xs ! i) xs = Some i"
proof (induction xs arbitrary: i)
  case (Cons a xs)
  then show ?case by (cases i) auto
qed simp

lemma set_slice: "set (slice xs i j) \<subseteq> set xs"
  by (auto simp: slice_def dest: in_set_takeD in_set_dropD)

lemma slice_split: "i \<le> j \<Longrightarrow> take i xs @ slice xs i j @ drop j xs = xs"
proof -
  assume "i \<le> j"
  then have "slice xs i j @ drop j xs = drop i xs"
    by (metis append_take_drop_id drop_drop le_add_diff_inverse2 slice_def)
  then show ?thesis by simp
qed

lemma length_slice: "length (slice xs i j) = min (j - i) (length xs - i)"
  by (simp add: slice_def)

lemma splice_list_append: "i = length xs \<Longrightarrow> splice_list xs i 0 ins = xs @ ins"
  by (simp add: splice_list_def)

lemma set_splice_list:
  "set (splice_list xs i d ins) = set (take i xs) \<union> set ins \<union> set (drop (i + d) xs)"
  by (auto simp: splice_list_def)

lemma length_splice_list:
  "i + d \<le> length xs \<Longrightarrow> length (splice_list xs i d ins) = length xs - d + length ins"
  by (simp add: splice_list_def)

section \<open>Decimal rendering\<close>

text \<open>The string a safe integer interpolates to in a template literal.\<close>

fun nat_string :: "nat \<Rightarrow> string" where
  "nat_string n =
     (if n < 10 then [char_of (48 + n)] else nat_string (n div 10) @ [char_of (48 + n mod 10)])"

declare nat_string.simps [simp del]

definition int_string :: "int \<Rightarrow> string" where
  "int_string i = (if i < 0 then ''-'' @ nat_string (nat (- i)) else nat_string (nat i))"

text \<open>The number a string of digits denotes, and the digits a number renders to.\<close>

definition is_decimal :: "char \<Rightarrow> bool" where
  "is_decimal c \<longleftrightarrow> (let n = of_char c :: nat in 48 \<le> n \<and> n \<le> 57)"

definition decimal_value :: "string \<Rightarrow> nat" where
  "decimal_value s = foldl (\<lambda>n c. 10 * n + (of_char c - 48)) 0 s"

lemma decimal_value_snoc: "decimal_value (s @ [c]) = 10 * decimal_value s + (of_char c - 48)"
  by (simp add: decimal_value_def)

lemma of_char_digit: "d < 10 \<Longrightarrow> (of_char (char_of (48 + d :: nat) :: char) :: nat) = 48 + d"
  by (simp add: of_char_of)

lemma nat_string_digits: "decimal_value (nat_string n) = n \<and> nat_string n \<noteq> [] \<and> list_all is_decimal (nat_string n)"
proof (induction n rule: nat_string.induct)
  case (1 n)
  show ?case
  proof (cases "n < 10")
    case True
    then show ?thesis
      by (simp add: nat_string.simps [of n] decimal_value_def is_decimal_def of_char_digit del: of_char_of)
  next
    case False
    with 1 have d: "decimal_value (nat_string (n div 10)) = n div 10" "list_all is_decimal (nat_string (n div 10))"
      by auto
    have "is_decimal (char_of (48 + n mod 10))"
      using of_char_digit [of "n mod 10"] by (simp add: is_decimal_def del: of_char_of)
    with d False of_char_digit [of "n mod 10"] show ?thesis
      by (simp add: nat_string.simps [of n] decimal_value_snoc del: of_char_of)
  qed
qed

lemma nat_string_inject: "nat_string m = nat_string n \<longleftrightarrow> m = n"
  by (metis nat_string_digits)

text \<open>
  A counter that skips numbered names already taken: each step leaves fewer taken names ahead, because
  the names are distinct and finitely many are taken.
\<close>

lemma fresh_search_decreases:
  fixes name :: "nat \<Rightarrow> 'a"
  assumes "inj name" "name n \<in> set taken"
  shows "card {k. Suc n \<le> k \<and> name k \<in> set taken} < card {k. n \<le> k \<and> name k \<in> set taken}"
proof (rule psubset_card_mono)
  have "{k. n \<le> k \<and> name k \<in> set taken} \<subseteq> name -` set taken" by auto
  then show "finite {k. n \<le> k \<and> name k \<in> set taken}"
    using finite_vimageI [OF finite_set assms(1)] finite_subset by blast
  have "n \<in> {k. n \<le> k \<and> name k \<in> set taken}" "n \<notin> {k. Suc n \<le> k \<and> name k \<in> set taken}"
    "{k. Suc n \<le> k \<and> name k \<in> set taken} \<subseteq> {k. n \<le> k \<and> name k \<in> set taken}"
    using assms(2) by auto
  then show "{k. Suc n \<le> k \<and> name k \<in> set taken} \<subset> {k. n \<le> k \<and> name k \<in> set taken}" by blast
qed

section \<open>Strings\<close>

text \<open>
  Strings are lists of characters with codes below 256; on these the white space that
  \<open>String.prototype.trim\<close> removes is the one listed here.
\<close>

definition is_js_space :: "char \<Rightarrow> bool" where
  "is_js_space c \<longleftrightarrow> of_char c \<in> {9, 10, 11, 12, 13, 32, 160 :: nat}"

definition js_trim :: "string \<Rightarrow> string" where
  "js_trim s = rev (dropWhile is_js_space (rev (dropWhile is_js_space s)))"

lemma js_trim_Nil: "js_trim s = [] \<longleftrightarrow> list_all is_js_space s"
proof -
  have "js_trim s = [] \<longleftrightarrow> dropWhile is_js_space s = []"
  proof
    assume "js_trim s = []"
    then have "\<forall>c \<in> set (dropWhile is_js_space s). is_js_space c" by (simp add: js_trim_def)
    then show "dropWhile is_js_space s = []" by (metis hd_dropWhile hd_in_set)
  qed (auto simp: js_trim_def dest: set_dropWhileD)
  then show ?thesis by (simp add: list_all_iff)
qed

lemma js_trim_trim [simp]: "js_trim (js_trim s) = js_trim s"
proof -
  have id: "dropWhile P xs = xs" if "xs = [] \<or> \<not> P (hd xs)" for P and xs :: string
    using that by (cases xs) auto
  define b where "b = rev (dropWhile is_js_space s)"
  have s: "js_trim s = rev (dropWhile is_js_space b)" by (simp add: js_trim_def b_def)
  have last: "b = [] \<or> \<not> is_js_space (last b)"
    by (cases "dropWhile is_js_space s = []") (simp_all add: b_def last_rev hd_dropWhile)
  have "last (dropWhile is_js_space b) = last b" if "dropWhile is_js_space b \<noteq> []"
    using last_appendR [OF that, of "takeWhile is_js_space b"] by simp
  then have "dropWhile is_js_space b = [] \<or> \<not> is_js_space (last (dropWhile is_js_space b))"
    using last dropWhile.simps(1) by metis
  then have "dropWhile is_js_space (js_trim s) = js_trim s"
    by (intro id) (simp add: s hd_rev)
  moreover have "dropWhile is_js_space (rev (js_trim s)) = rev (js_trim s)"
    by (simp add: s)
  ultimately show ?thesis by (simp add: js_trim_def)
qed

lemma js_trim_id: "\<not> is_js_space (hd s) \<Longrightarrow> \<not> is_js_space (last s) \<Longrightarrow> js_trim s = s"
proof (cases s)
  case (Cons a s')
  assume "\<not> is_js_space (hd s)" "\<not> is_js_space (last s)"
  moreover from this have "dropWhile is_js_space s = s" using Cons by simp
  moreover have "hd (rev s) = last s" "rev s \<noteq> []" using Cons by (simp_all add: hd_rev)
  ultimately have "dropWhile is_js_space (rev s) = rev s" by (metis dropWhile_eq_self_iff)
  with \<open>dropWhile is_js_space s = s\<close> show ?thesis by (simp add: js_trim_def)
qed (simp add: js_trim_def)

section \<open>Numbers\<close>

text \<open>
  An argument of type \<open>number\<close>: a finite double other than negative zero, negative zero, not-a-number
  or an infinity. \<open>trunc_rat\<close> is the value of \<open>Math.trunc\<close> on the finite ones.
\<close>

datatype js_number = JsFin rat | JsNegZero | JsNaN | JsInf | JsNegInf

definition trunc_rat :: "rat \<Rightarrow> int" where
  "trunc_rat q = (if q < 0 then \<lceil>q\<rceil> else \<lfloor>q\<rfloor>)"

section \<open>Maps in insertion order\<close>

abbreviation map_set :: "'k \<Rightarrow> 'v \<Rightarrow> ('k \<times> 'v) list \<Rightarrow> ('k \<times> 'v) list" where
  "map_set \<equiv> AList.update"

abbreviation map_delete :: "'k \<Rightarrow> ('k \<times> 'v) list \<Rightarrow> ('k \<times> 'v) list" where
  "map_delete \<equiv> AList.delete"

abbreviation map_keys :: "('k \<times> 'v) list \<Rightarrow> 'k list" where
  "map_keys xs \<equiv> map fst xs"

lemma map_of_map_set [simp]: "map_of (map_set k v xs) = (map_of xs)(k \<mapsto> v)"
  by (rule AList.update_conv')

lemma map_of_map_delete [simp]: "map_of (map_delete k xs) = (map_of xs)(k := None)"
  by (rule AList.delete_conv')

lemma map_set_new: "map_of xs k = None \<Longrightarrow> map_set k v xs = xs @ [(k, v)]"
  by (induction xs) (auto split: if_splits)

lemma distinct_map_set [simp]:
  "distinct (map_keys xs) \<Longrightarrow> distinct (map_keys (map_set k v xs))"
  by (rule AList.distinct_update)

lemma keys_map_set: "set (map_keys (map_set k v xs)) = insert k (set (map_keys xs))"
  by (auto simp: AList.update_keys)

section \<open>Event sourcing: replaying a log\<close>

fun replay_from :: "('a list \<Rightarrow> 's \<Rightarrow> 'a \<Rightarrow> 'e + 's) \<Rightarrow> 'a list \<Rightarrow> 's \<Rightarrow> 'a list \<Rightarrow> 'e + 's" where
  "replay_from step pre s [] = Inr s"
| "replay_from step pre s (x # xs) =
     bind_result (step pre s x) (\<lambda>s'. replay_from step (pre @ [x]) s' xs)"

lemma replay_from_append:
  "replay_from step pre s (xs @ ys) =
     bind_result (replay_from step pre s xs) (\<lambda>s'. replay_from step (pre @ xs) s' ys)"
  by (induction xs arbitrary: pre s) (simp_all add: bind_result_assoc)

lemma replay_from_snoc:
  "replay_from step pre s (xs @ [x]) =
     bind_result (replay_from step pre s xs) (\<lambda>s'. step (pre @ xs) s' x)"
proof -
  have "replay_from step p t [x] = step p t x" for p t
    by (cases "step p t x") simp_all
  then show ?thesis by (simp add: replay_from_append)
qed

text \<open>
  The contract of a projection: an initial state, a step that may reject an event, and an
  invariant relating the projected state to the log it was folded from.
\<close>

locale log_replay =
  fixes step :: "'a list \<Rightarrow> 's \<Rightarrow> 'a \<Rightarrow> 'e + 's"
    and init :: 's
    and inv :: "'a list \<Rightarrow> 's \<Rightarrow> bool"
  assumes inv_init: "inv [] init"
    and inv_step: "inv pre s \<Longrightarrow> step pre s x = Inr s' \<Longrightarrow> inv (pre @ [x]) s'"
begin

definition project :: "'a list \<Rightarrow> 'e + 's" where
  "project xs = replay_from step [] init xs"

lemma project_Nil [simp]: "project [] = Inr init"
  by (simp add: project_def)

lemma replay_inv:
  "inv pre s \<Longrightarrow> replay_from step pre s xs = Inr s' \<Longrightarrow> inv (pre @ xs) s'"
proof (induction xs arbitrary: pre s)
  case (Cons x xs)
  then obtain t where "step pre s x = Inr t" "replay_from step (pre @ [x]) t xs = Inr s'"
    by (auto simp: result_simps)
  with Cons.IH [of "pre @ [x]" t] inv_step [OF Cons.prems(1)] show ?case by simp
qed simp

lemma project_inv: "project xs = Inr s \<Longrightarrow> inv xs s"
  using replay_inv [OF inv_init] by (simp add: project_def)

lemma project_append:
  "project (xs @ ys) = bind_result (project xs) (\<lambda>s. replay_from step xs s ys)"
  by (simp add: project_def replay_from_append)

lemma project_snoc: "project (xs @ [x]) = bind_result (project xs) (\<lambda>s. step xs s x)"
  by (simp add: project_def replay_from_snoc)

lemma project_prefix: "project (xs @ ys) = Inr s \<Longrightarrow> \<exists>t. project xs = Inr t"
  by (auto simp: project_append result_simps)

lemma project_error_sticks: "project xs = Inl e \<Longrightarrow> project (xs @ ys) = Inl e"
  by (simp add: project_append)

end

end
