(* ===== verification/Json.thy ===== *)
theory Json
  imports Prelude
begin

text \<open>
  The lossless-JSON value domain of \<open>core/session/src/json.ts\<close> and the structural equality that
  \<open>surface.ts\<close> uses over it. A JSON number is a finite double other than negative zero, hence a
  rational; an object is its list of own enumerable properties in order, with distinct keys
  (\<open>json_wf\<close>). Reading a missing property yields \<open>undefined\<close>, here \<open>None\<close>.
\<close>

section \<open>Values\<close>

datatype json =
    JNull
  | JBool bool
  | JNum rat
  | JStr string
  | JArr "json list"
  | JObj "(string \<times> json) list"

type_synonym json_record = "(string \<times> json) list"

fun json_wf :: "json \<Rightarrow> bool" where
  "json_wf (JArr xs) = list_all json_wf xs"
| "json_wf (JObj ps) = (distinct (map fst ps) \<and> list_all (\<lambda>v. json_wf v) (map snd ps))"
| "json_wf _ = True"

text \<open>Property reads and the runtime type tests of the validators.\<close>

definition jget :: "json_record \<Rightarrow> string \<Rightarrow> json option" where
  "jget ps k = map_of ps k"

fun as_record :: "json \<Rightarrow> json_record option" where
  "as_record (JObj ps) = Some ps"
| "as_record _ = None"

fun as_string :: "json option \<Rightarrow> string option" where
  "as_string (Some (JStr s)) = Some s"
| "as_string _ = None"

fun as_number :: "json option \<Rightarrow> rat option" where
  "as_number (Some (JNum q)) = Some q"
| "as_number _ = None"

definition max_safe_integer :: int where
  "max_safe_integer = 9007199254740991"

definition safe_int :: "int \<Rightarrow> bool" where
  "safe_int i \<longleftrightarrow> \<bar>i\<bar> \<le> max_safe_integer"

text \<open>\<open>Number.isSafeInteger\<close> on a JSON number, returning the integer it denotes.\<close>

definition safe_integer_of :: "rat \<Rightarrow> int option" where
  "safe_integer_of q = (if of_int \<lfloor>q\<rfloor> = q \<and> safe_int \<lfloor>q\<rfloor> then Some \<lfloor>q\<rfloor> else None)"

fun as_safe_integer :: "json option \<Rightarrow> int option" where
  "as_safe_integer (Some (JNum q)) = safe_integer_of q"
| "as_safe_integer _ = None"

text \<open>\<open>hasExactKeys\<close>: every listed key is own and there is no other.\<close>

definition has_exact_keys :: "json_record \<Rightarrow> string list \<Rightarrow> bool" where
  "has_exact_keys ps ks \<longleftrightarrow> length ps = length ks \<and> list_all (\<lambda>k. jget ps k \<noteq> None) ks"

lemma size_json_lookup: "map_of ps k = Some v \<Longrightarrow> size v < Suc (size_list (size_prod (\<lambda>_. 0) size) ps)"
proof -
  assume "map_of ps k = Some v"
  then have "(k, v) \<in> set ps" by (rule map_of_SomeD)
  then have "size_prod (\<lambda>_. 0) size (k, v) \<le> size_list (size_prod (\<lambda>_. 0) size) ps"
    by (rule size_list_estimation') simp
  then show ?thesis by simp
qed

lemma size_json_prod: "(k, v) \<in> set ps \<Longrightarrow> size v < Suc (size_list (size_prod (\<lambda>_. 0) size) ps)"
proof -
  assume "(k, v) \<in> set ps"
  then have "size_prod (\<lambda>_. 0) size (k, v) \<le> size_list (size_prod (\<lambda>_. 0) size) ps"
    by (rule size_list_estimation') simp
  then show ?thesis by simp
qed

section \<open>Structural equality\<close>

text \<open>
  \<open>isDeepEqualJson\<close> of \<open>surface.ts\<close>. The initial \<open>a === b\<close> test settles equal primitives; on
  objects and arrays it is pointer identity, which the element-wise comparison subsumes.
\<close>

function (sequential) isDeepEqualJson :: "json \<Rightarrow> json \<Rightarrow> bool" where
  "isDeepEqualJson (JArr xs) (JArr ys) =
     (length xs = length ys \<and> (\<forall>(x, y) \<in> set (zip xs ys). isDeepEqualJson x y))"
| "isDeepEqualJson (JObj ps) (JObj qs) =
     (length ps = length qs \<and>
      (\<forall>(k, v) \<in> set ps. case map_of qs k of None \<Rightarrow> False | Some w \<Rightarrow> isDeepEqualJson v w))"
| "isDeepEqualJson a b = (a = b)"
  by pat_completeness auto
termination
proof (relation "measure (\<lambda>(a, b). size a)")
  fix xs ys :: "json list" and p x y
  assume "p \<in> set (zip xs ys)" "(x, y) = p"
  then have "x \<in> set xs" by (auto dest: set_zip_leftD)
  then have "size x \<le> size_list size xs" by (rule size_list_estimation') simp
  then show "((x, y), (JArr xs, JArr ys)) \<in> measure (\<lambda>(a, b). size a)" by simp
next
  fix ps qs :: "(string \<times> json) list" and p k v w
  assume "p \<in> set ps" "(k, v) = p" "map_of qs k = Some w"
  then show "((v, w), (JObj ps, JObj qs)) \<in> measure (\<lambda>(a, b). size a)"
    using size_json_prod by fastforce
qed simp

text \<open>
  On well-formed values (objects with distinct keys) the comparison is an equivalence. Symmetry is
  where the key count matters: every key of the left object is one of the right, and the counts
  agree, so the key sets are equal.
\<close>

lemma keys_eq_if_subset:
  assumes "distinct (map fst ps)" "distinct (map fst qs)" "length ps = length qs"
    and "fst ` set ps \<subseteq> fst ` set qs"
  shows "fst ` set ps = fst ` set qs"
proof (rule card_subset_eq [OF _ assms(4)])
  show "card (fst ` set ps) = card (fst ` set qs)"
    using assms(1-3) by (metis distinct_card length_map list.set_map)
qed simp

lemma wf_JObj_value: "json_wf (JObj ps) \<Longrightarrow> map_of ps k = Some v \<Longrightarrow> json_wf v"
  by (auto simp: list_all_iff dest!: map_of_SomeD)

lemma wf_JObj_map_of: "json_wf (JObj ps) \<Longrightarrow> (k, v) \<in> set ps \<longleftrightarrow> map_of ps k = Some v"
  by (simp add: map_of_eq_Some_iff)

lemma isDeepEqualJson_refl: "json_wf a \<Longrightarrow> isDeepEqualJson a a"
proof (induction a)
  case (JArr xs)
  have "isDeepEqualJson x y" if "(x, y) \<in> set (zip xs xs)" for x y
    using that JArr by (auto simp: list_all_iff zip_same_conv_map)
  then show ?case by auto
next
  case (JObj ps)
  have "case map_of ps k of None \<Rightarrow> False | Some w \<Rightarrow> isDeepEqualJson v w"
    if kv: "(k, v) \<in> set ps" for k v
  proof -
    have "map_of ps k = Some v" using wf_JObj_map_of [OF JObj.prems] kv by blast
    moreover from this have "json_wf v" by (rule wf_JObj_value [OF JObj.prems])
    with JObj.IH [OF kv, of v] have "isDeepEqualJson v v" by simp
    ultimately show ?thesis by simp
  qed
  then show ?case unfolding isDeepEqualJson.simps by blast
qed simp_all

lemma isDeepEqualJson_JObjD:
  assumes eq: "isDeepEqualJson (JObj ps) (JObj qs)"
    and wf: "json_wf (JObj ps)" "json_wf (JObj qs)"
  shows "rel_option isDeepEqualJson (map_of ps k) (map_of qs k)"
proof (cases "map_of ps k")
  case None
  from eq have "length ps = length qs" and "fst ` set ps \<subseteq> fst ` set qs"
    by (force split: option.splits dest: map_of_SomeD)+
  with wf have "fst ` set ps = fst ` set qs" by (intro keys_eq_if_subset) simp_all
  with None show ?thesis by (metis map_of_eq_None_iff option.rel_intros(1))
next
  case (Some v)
  then have "(k, v) \<in> set ps" by (rule map_of_SomeD)
  with eq Some show ?thesis by (fastforce split: option.splits)
qed

lemma isDeepEqualJson_JObjI:
  assumes wf: "json_wf (JObj ps)" "json_wf (JObj qs)"
    and rel: "\<And>k. rel_option isDeepEqualJson (map_of ps k) (map_of qs k)"
  shows "isDeepEqualJson (JObj ps) (JObj qs)"
proof -
  have "fst ` set ps = fst ` set qs"
  proof -
    have "map_of ps k = None \<longleftrightarrow> map_of qs k = None" for k
      using rel [of k] by (auto elim: option.rel_cases)
    then have "dom (map_of ps) = dom (map_of qs)" by (auto simp: dom_def)
    then show ?thesis by (simp add: dom_map_of_conv_image_fst)
  qed
  then have "length ps = length qs"
    using wf by (metis distinct_card json_wf.simps(2) length_map list.set_map)
  moreover have "case map_of qs k of None \<Rightarrow> False | Some w \<Rightarrow> isDeepEqualJson v w"
    if "(k, v) \<in> set ps" for k v
    using rel [of k] that wf_JObj_map_of [OF wf(1)] by (auto elim: option.rel_cases)
  ultimately show ?thesis by auto
qed

lemma isDeepEqualJson_sym:
  "isDeepEqualJson a b \<Longrightarrow> json_wf a \<Longrightarrow> json_wf b \<Longrightarrow> isDeepEqualJson b a"
proof (induction a b rule: isDeepEqualJson.induct)
  case (1 xs ys)
  have "isDeepEqualJson y x" if "(y, x) \<in> set (zip ys xs)" for x y
  proof -
    from that have xy: "(x, y) \<in> set (zip xs ys)" by (force simp: set_zip)
    with "1.prems" have "isDeepEqualJson x y" "json_wf x" "json_wf y"
      by (auto simp: list_all_iff dest: set_zip_leftD set_zip_rightD)
    with "1.IH" [OF xy] show ?thesis by simp
  qed
  with "1.prems" show ?case by auto
next
  case (2 ps qs)
  have "rel_option isDeepEqualJson (map_of qs k) (map_of ps k)" for k
    using isDeepEqualJson_JObjD [OF "2.prems", of k] "2.IH" [OF map_of_SomeD]
      wf_JObj_value "2.prems" by (auto simp: option_rel_Some1 option_rel_Some2 elim!: option.rel_cases)
  with "2.prems" show ?case by (intro isDeepEqualJson_JObjI)
qed simp_all

lemma isDeepEqualJson_trans:
  "isDeepEqualJson a b \<Longrightarrow> isDeepEqualJson b c \<Longrightarrow> json_wf a \<Longrightarrow> json_wf b \<Longrightarrow> json_wf c
    \<Longrightarrow> isDeepEqualJson a c"
proof (induction a b arbitrary: c rule: isDeepEqualJson.induct)
  case (1 xs ys)
  then obtain zs where c: "c = JArr zs" by (cases c) auto
  have "isDeepEqualJson x z" if "(x, z) \<in> set (zip xs zs)" for x z
  proof -
    from that obtain i where i: "i < length xs" "i < length zs" "x = xs ! i" "z = zs ! i"
      by (auto simp: set_zip)
    with "1.prems" c have "(x, ys ! i) \<in> set (zip xs ys)" "(ys ! i, z) \<in> set (zip ys zs)"
      by (auto simp: set_zip)
    moreover from this "1.prems" c have "isDeepEqualJson x (ys ! i)" "isDeepEqualJson (ys ! i) z"
      by auto
    moreover have "json_wf x" "json_wf (ys ! i)" "json_wf z"
      using calculation(1,2) "1.prems"(3-5) c
      by (auto simp: list_all_iff dest: set_zip_leftD set_zip_rightD)
    ultimately show ?thesis using "1.IH" [of "(x, ys ! i)" x "ys ! i" z] by simp
  qed
  with "1.prems" c show ?case by auto
next
  case (2 ps qs)
  then obtain rs where c: "c = JObj rs" by (cases c) auto
  have "rel_option isDeepEqualJson (map_of ps k) (map_of rs k)" for k
    using isDeepEqualJson_JObjD [OF "2.prems"(1,3,4), of k]
      isDeepEqualJson_JObjD [of qs rs k] "2.prems" c "2.IH" [OF map_of_SomeD]
      wf_JObj_value by (auto elim!: option.rel_cases)
  with "2.prems" c show ?case by (intro isDeepEqualJson_JObjI [of ps rs, folded c]) simp_all
qed (auto elim: isDeepEqualJson.elims)

end
