(* ===== verification/Session_Types.thy ===== *)
theory Session_Types
  imports Json
begin

text \<open>
  The message, stream and session-event vocabulary: \<open>llm/llm/src/types.ts\<close>,
  \<open>llm/llm/src/message.ts\<close>, \<open>core/session/src/types.ts\<close> and the events that
  \<open>core/agent\<close> and \<open>compaction/compaction\<close> merge into the session-event map. The unions of the
  source are merge-extensible; each datatype ends with a constructor for the variants other
  packages add, carrying the raw tag and payload. An event keeps its surface metadata
  (\<open>surfaceOp\<close>, \<open>sourceEventSeqs\<close>) as raw JSON, because the code validates it at run time.
\<close>

section \<open>Messages\<close>

type_synonym session_id = string
type_synonym call_id = string
type_synonym message_id = string

record tool_schema =
  ts_name :: string
  ts_description :: string
  ts_parameters :: json

record image_ref =
  attachmentId :: string
  mediaType :: string
  img_bytes :: nat
  img_width :: nat
  img_height :: nat
  img_name :: "string option"
  originalDimensions :: "(nat \<times> nat) option"

datatype content_block =
    TextBlock string
  | ReasoningBlock string
  | ImageBlock image_ref
  | ToolCallBlock call_id string string
  | ToolResultBlock call_id "content_block list" "bool option" "tool_schema list option"
  | OtherBlock string json_record

fun block_type :: "content_block \<Rightarrow> string" where
  "block_type (TextBlock _) = ''text''"
| "block_type (ReasoningBlock _) = ''reasoning''"
| "block_type (ImageBlock _) = ''image''"
| "block_type (ToolCallBlock _ _ _) = ''tool-call''"
| "block_type (ToolResultBlock _ _ _ _) = ''tool-result''"
| "block_type (OtherBlock t _) = t"

datatype message_source =
    UserSource
  | PluginSource string json_record
  | ModelSource string string "json option"
  | ToolSource call_id
  | RawSource string json_record

fun source_kind :: "message_source \<Rightarrow> string" where
  "source_kind UserSource = ''user''"
| "source_kind (PluginSource _ _) = ''plugin''"
| "source_kind (ModelSource _ _ _) = ''model''"
| "source_kind (ToolSource _) = ''tool''"
| "source_kind (RawSource k _) = k"

datatype role = SystemRole | UserRole | AssistantRole

record message =
  msg_id :: message_id
  msg_role :: role
  msg_content :: "content_block list"
  msg_source :: message_source

section \<open>Stream chunks\<close>

record llm_failure =
  lf_message :: string
  lf_code :: string
  lf_status :: "int option"
  lf_providerRetryAfterMs :: "rat option"
  lf_requestId :: "string option"

datatype finish_reason =
    FinishStop
  | FinishToolCalls
  | FinishMaxTokens
  | FinishAborted llm_failure
  | FinishError llm_failure
  | FinishOther string json_record

record token_usage =
  inputTokens :: nat
  outputTokens :: nat
  cacheReadTokens :: "nat option"
  cacheWriteTokens :: "nat option"
  reasoningTokens :: "nat option"

record replay_envelope =
  re_response :: json
  re_blocks :: "json list option"

datatype stream_chunk =
    BlockStart int string
  | TextDelta int string
  | ReasoningDelta int string
  | ToolCallDelta int call_id "string option" string
  | BlockEnd int content_block
  | Usage token_usage
  | Finish finish_reason "replay_envelope option"

section \<open>Request headers\<close>

record call_config =
  cc_provider :: string
  cc_model :: string
  cc_reasoningEffort :: "string option"
  cc_temperature :: "rat option"
  cc_maxTokens :: "rat option"
  cc_stop :: "string list option"

record adapter_defaults =
  ad_reasoningEffort :: bool
  ad_maxTokens :: bool

record epoch_header =
  eh_config :: call_config
  eh_adapterDefaults :: "adapter_defaults option"
  eh_system :: "string option"
  eh_tools :: "tool_schema list option"

record request_context =
  rc_provider :: string
  rc_model :: string
  rc_contextWindow :: "rat option"

section \<open>Session events\<close>

datatype cancel_cause = CancelUser | CancelParent | CancelHook string | CancelDisposed | CancelLegacy

datatype turn_end_reason =
    TurnCompleted
  | TurnAborted cancel_cause
  | TurnBlocked
  | TurnError llm_failure
  | TurnMaxTokens
  | TurnInterrupted
  | TurnOther string json_record

datatype todo_status = TodoPending | TodoInProgress | TodoCompleted

record todo_item =
  td_content :: string
  td_status :: todo_status

datatype inbox_target = NextTurn | NextStep

record inbox_splice =
  is_target :: inbox_target
  is_start :: int
  is_removedCount :: "int option"
  is_inserted :: "message list"
  is_canceled :: bool

record compaction_start =
  cs_compactionId :: string
  cs_sourceCommandId :: "string option"
  cs_turn :: "int option"

record compaction_summary =
  cy_compactionId :: string
  cy_sourceCommandId :: "string option"
  cy_summary :: "content_block list"
  cy_rangeStart :: int
  cy_rangeEnd :: int
  cy_shadowedSeqs :: "int list"
  cy_shadowedTokenCount :: rat
  cy_provider :: string
  cy_model :: string
  cy_maxTokens :: "rat option"
  cy_usage :: "token_usage option"
  cy_rawOutput :: "content_block list option"
  cy_llmStreamCall :: bool

record compaction_end =
  ce_compactionId :: string
  ce_sourceCommandId :: "string option"
  ce_turn :: "int option"
  ce_error :: "string option"

datatype event_data =
    TurnStart int
  | TurnEnd int turn_end_reason
  | StepStart int int
  | StepEnd int int
  | UserMessage message
  | AssistantChunk int int stream_chunk
  | AssistantMessage int int message "token_usage option" bool
  | ToolCall int int call_id string string
  | ToolResult int int message "(string \<times> string) option" "json option"
  | TodoWrite "todo_item list"
  | RequestHeader epoch_header string
  | RequestContext request_context
  | EndSeed
  | InboxSpliced inbox_splice
  | CompactionStart compaction_start
  | CompactionSummary compaction_summary
  | CompactionEnd compaction_end
  | OtherEvent string json

fun event_type :: "event_data \<Rightarrow> string" where
  "event_type (TurnStart _) = ''turn/start''"
| "event_type (TurnEnd _ _) = ''turn/end''"
| "event_type (StepStart _ _) = ''step/start''"
| "event_type (StepEnd _ _) = ''step/end''"
| "event_type (UserMessage _) = ''user/message''"
| "event_type (AssistantChunk _ _ _) = ''assistant/chunk''"
| "event_type (AssistantMessage _ _ _ _ _) = ''assistant/message''"
| "event_type (ToolCall _ _ _ _ _) = ''tool/call''"
| "event_type (ToolResult _ _ _ _ _) = ''tool/result''"
| "event_type (TodoWrite _) = ''todo/write''"
| "event_type (RequestHeader _ _) = ''request/header''"
| "event_type (RequestContext _) = ''request/context''"
| "event_type EndSeed = ''session/end-seed''"
| "event_type (InboxSpliced _) = ''agent/inbox/spliced''"
| "event_type (CompactionStart _) = ''compaction/start''"
| "event_type (CompactionSummary _) = ''compaction/summary''"
| "event_type (CompactionEnd _) = ''compaction/end''"
| "event_type (OtherEvent t _) = t"

record session_event =
  ev_seq :: int
  ev_time :: int
  ev_data :: event_data
  ev_surfaceOp :: "json option"
  ev_sourceEventSeqs :: "json option"
  ev_ignorable :: bool

text \<open>
  The types merged by other packages never reuse one of the tags above, which is how
  TypeScript's declaration merging keys the map.
\<close>

definition core_event_types :: "string list" where
  "core_event_types =
     [''turn/start'', ''turn/end'', ''step/start'', ''step/end'', ''user/message'',
      ''assistant/chunk'', ''assistant/message'', ''tool/call'', ''tool/result'', ''todo/write'',
      ''request/header'', ''request/context'', ''session/end-seed'', ''agent/inbox/spliced'',
      ''compaction/start'', ''compaction/summary'', ''compaction/end'']"

fun event_data_wf :: "event_data \<Rightarrow> bool" where
  "event_data_wf (OtherEvent t _) = (t \<notin> set core_event_types)"
| "event_data_wf _ = True"

section \<open>JSON images of typed values\<close>

text \<open>
  The plain objects behind the typed values, for the places where the code compares whole values
  structurally. Optional fields are absent rather than null.
\<close>

definition opt_field :: "string \<Rightarrow> ('a \<Rightarrow> json) \<Rightarrow> 'a option \<Rightarrow> json_record" where
  "opt_field k f x = (case x of None \<Rightarrow> [] | Some v \<Rightarrow> [(k, f v)])"

definition schema_json :: "tool_schema \<Rightarrow> json" where
  "schema_json t = JObj [(''name'', JStr (ts_name t)), (''description'', JStr (ts_description t)),
     (''parameters'', ts_parameters t)]"

definition image_ref_json :: "image_ref \<Rightarrow> json" where
  "image_ref_json r = JObj ([(''attachmentId'', JStr (attachmentId r)), (''mediaType'', JStr (mediaType r)),
     (''bytes'', JNum (of_nat (img_bytes r))), (''width'', JNum (of_nat (img_width r))),
     (''height'', JNum (of_nat (img_height r)))] @ opt_field ''name'' JStr (img_name r)
     @ opt_field ''originalDimensions'' (\<lambda>(w, h). JObj [(''width'', JNum (of_nat w)), (''height'', JNum (of_nat h))])
         (originalDimensions r))"

fun source_json :: "message_source \<Rightarrow> json" where
  "source_json UserSource = JObj [(''kind'', JStr ''user'')]"
| "source_json (PluginSource p fs) = JObj ((''kind'', JStr ''plugin'') # (''plugin'', JStr p) # fs)"
| "source_json (ModelSource p m r) =
     JObj ([(''kind'', JStr ''model''), (''provider'', JStr p), (''model'', JStr m)]
       @ opt_field ''replayState'' id r)"
| "source_json (ToolSource c) = JObj [(''kind'', JStr ''tool''), (''callId'', JStr c)]"
| "source_json (RawSource k fs) = JObj ((''kind'', JStr k) # fs)"

fun role_json :: "role \<Rightarrow> json" where
  "role_json SystemRole = JStr ''system''"
| "role_json UserRole = JStr ''user''"
| "role_json AssistantRole = JStr ''assistant''"

end
