(* ===== verification/Surface.thy ===== *)
theory Surface
  imports Session_Types "HOL-Library.Multiset"
begin

text \<open>
  The model-visible surface of a session log, \<open>core/session/src/surface.ts\<close>: which events
  produce messages, the validation of one candidate event, the positional replacement, the complete
  fold \<open>foldSurface\<close> and the incremental \<open>SurfaceManager\<close>. The theorems state what the fold
  keeps of the log: the surface never repeats a node, every message event is on the surface or
  was shadowed exactly once, replacements cite what they shadow, and the incremental manager
  agrees with the fold of the whole log.
\<close>

section \<open>Eligibility and message projection\<close>

definition surface_event_types :: "string list" where
  "surface_event_types = [''user/message'', ''assistant/message'', ''tool/result'']"

definition isSurfaceEligibleType :: "string \<Rightarrow> bool" where
  "isSurfaceEligibleType t \<longleftrightarrow> t \<in> set surface_event_types"

definition isSurfaceEvent :: "session_event \<Rightarrow> bool" where
  "isSurfaceEvent e \<longleftrightarrow> isSurfaceEligibleType (event_type (ev_data e)) \<and> ev_surfaceOp e \<noteq> None"

definition isAppendSurfaceEvent :: "session_event \<Rightarrow> bool" where
  "isAppendSurfaceEvent e \<longleftrightarrow> isSurfaceEvent e \<and> ev_surfaceOp e = Some (JStr ''append'')"

definition isReplacementSurfaceEvent :: "session_event \<Rightarrow> bool" where
  "isReplacementSurfaceEvent e \<longleftrightarrow> isSurfaceEvent e \<and> ev_surfaceOp e \<noteq> Some (JStr ''append'')"

definition deriveEventMessage :: "session_event \<Rightarrow> message option" where
  "deriveEventMessage e =
     (case ev_data e of
        UserMessage m \<Rightarrow> Some m
      | AssistantMessage _ _ m _ _ \<Rightarrow> (if msg_content m = [] then None else Some m)
      | ToolResult _ _ m _ _ \<Rightarrow> Some m
      | _ \<Rightarrow> None)"

section \<open>Fold state and plans\<close>

datatype surface_error =
    SeqNotContiguous int int
  | OpOnIneligible string
  | SourcesOnIneligible string
  | MissingMarker string
  | InvalidOp string
  | InvalidReplaceOp string
  | SourcesNotArray int
  | SourcesEmpty
  | SourcesNotIntegers string
  | SourcesDuplicate
  | SourceNotEarlier int int
  | ShadowedNotCited "int list"
  | StartNotFound int
  | EndNotFound int
  | StartAfterEnd int int
  | RewriteNotSingle
  | RewriteNotToolResult
  | RewriteChangesMore

datatype surface_op = OpAppend | OpReplace int int

record surface_state =
  nodes :: "int list"
  replaceGeneration :: nat

record surface_replacement =
  sr_seq :: int
  sr_start :: int
  sr_end :: int
  sr_shadowedSeqs :: "int list"

datatype surface_plan =
    PlanAppend int
  | PlanReplace surface_replacement nat nat

definition createFoldState :: surface_state where
  "createFoldState = \<lparr>nodes = [], replaceGeneration = 0\<rparr>"

section \<open>Validation of one candidate\<close>

definition isEventSeq :: "json option \<Rightarrow> int option" where
  "isEventSeq v = (case as_safe_integer v of None \<Rightarrow> None | Some i \<Rightarrow> if 0 \<le> i then Some i else None)"

definition isReplaceOp :: "json_record \<Rightarrow> (int \<times> int) option" where
  "isReplaceOp op =
     (if length op = 3 \<and> jget op ''op'' \<noteq> None \<and> jget op ''start'' \<noteq> None \<and> jget op ''end'' \<noteq> None
         \<and> jget op ''op'' = Some (JStr ''replace'')
      then case (isEventSeq (jget op ''start''), isEventSeq (jget op ''end'')) of
             (Some s, Some e) \<Rightarrow> Some (s, e)
           | _ \<Rightarrow> None
      else None)"

definition surfaceOpOf :: "session_event \<Rightarrow> surface_error + surface_op option" where
  "surfaceOpOf e =
     (let t = event_type (ev_data e) in
      if \<not> isSurfaceEligibleType t then
        (if ev_surfaceOp e \<noteq> None then Inl (OpOnIneligible t)
         else if ev_sourceEventSeqs e \<noteq> None then Inl (SourcesOnIneligible t)
         else Inr None)
      else case ev_surfaceOp e of
             None \<Rightarrow> Inl (MissingMarker t)
           | Some op \<Rightarrow>
               if op = JStr ''append'' then Inr (Some OpAppend)
               else case op of
                      JObj ps \<Rightarrow>
                        (case isReplaceOp ps of
                           None \<Rightarrow> Inl (InvalidReplaceOp t)
                         | Some (s, en) \<Rightarrow> Inr (Some (OpReplace s en)))
                    | _ \<Rightarrow> Inl (InvalidOp t))"

text \<open>The loop over cited sources: the first entry that is no event sequence aborts it.\<close>

fun event_seqs :: "string \<Rightarrow> json list \<Rightarrow> surface_error + int list" where
  "event_seqs t [] = Inr []"
| "event_seqs t (v # vs) =
     (case isEventSeq (Some v) of
        None \<Rightarrow> Inl (SourcesNotIntegers t)
      | Some i \<Rightarrow> bind_result (event_seqs t vs) (\<lambda>is. Inr (i # is)))"

definition citedSources :: "session_event \<Rightarrow> surface_error + int list" where
  "citedSources e =
     (case ev_sourceEventSeqs e of
        None \<Rightarrow> Inr []
      | Some (JArr raw) \<Rightarrow>
          (if raw = [] \<and> event_type (ev_data e) \<noteq> ''assistant/message'' then Inl SourcesEmpty
           else bind_result (event_seqs (event_type (ev_data e)) raw) (\<lambda>sources.
             if \<not> distinct sources then Inl SourcesDuplicate
             else case find (\<lambda>s. ev_seq e \<le> s) sources of
                    Some s \<Rightarrow> Inl (SourceNotEarlier s (ev_seq e))
                  | None \<Rightarrow> Inr sources))
      | Some _ \<Rightarrow> Inl (SourcesNotArray (ev_seq e)))"

definition assertProvenance :: "session_event \<Rightarrow> int list \<Rightarrow> surface_error + unit" where
  "assertProvenance e shadowed =
     bind_result (citedSources e) (\<lambda>sources.
       let missing = filter (\<lambda>s. s \<notin> set sources) shadowed
       in ensure (missing = []) (ShadowedNotCited missing))"

definition replacementRange :: "surface_state \<Rightarrow> int \<Rightarrow> int \<Rightarrow> surface_error + nat \<times> nat \<times> int list" where
  "replacementRange st s e =
     (case index_of s (nodes st) of
        None \<Rightarrow> Inl (StartNotFound s)
      | Some i \<Rightarrow>
          (case index_of e (nodes st) of
             None \<Rightarrow> Inl (EndNotFound e)
           | Some j \<Rightarrow>
               if j < i then Inl (StartAfterEnd s e)
               else Inr (i, j, slice (nodes st) i (j + 1))))"

text \<open>
  A tool result's event data with the result content blanked, as the object that
  \<open>assertToolResultRewrite\<close> compares.
\<close>

fun result_block_rest :: "content_block list \<Rightarrow> json" where
  "result_block_rest [] = JObj [(''content'', JNull)]"
| "result_block_rest (ToolResultBlock c content isError tools # _) =
     JObj ([(''type'', JStr ''tool-result''), (''toolCallId'', JStr c), (''content'', JNull)]
       @ opt_field ''isError'' JBool isError
       @ opt_field ''loadedTools'' (\<lambda>ts. JArr (map schema_json ts)) tools)"
| "result_block_rest (TextBlock s # _) =
     JObj [(''type'', JStr ''text''), (''text'', JStr s), (''content'', JNull)]"
| "result_block_rest (ReasoningBlock s # _) =
     JObj [(''type'', JStr ''reasoning''), (''text'', JStr s), (''content'', JNull)]"
| "result_block_rest (ToolCallBlock c n a # _) =
     JObj [(''type'', JStr ''tool-call''), (''id'', JStr c), (''name'', JStr n),
       (''arguments'', JStr a), (''content'', JNull)]"
| "result_block_rest (ImageBlock im # _) =
     JObj [(''type'', JStr ''image''), (''attachment'', image_ref_json im), (''content'', JNull)]"
| "result_block_rest (OtherBlock t fs # _) =
     JObj (map_set ''content'' JNull ((''type'', JStr t) # fs))"

definition tool_result_rest ::
  "int \<Rightarrow> int \<Rightarrow> message \<Rightarrow> (string \<times> string) option \<Rightarrow> json option \<Rightarrow> json" where
  "tool_result_rest turn step m err meta =
     JObj ([(''turn'', JNum (of_int turn)), (''step'', JNum (of_int step)),
       (''message'', JObj [(''id'', JStr (msg_id m)), (''role'', role_json (msg_role m)),
          (''content'', JArr [result_block_rest (msg_content m)]),
          (''source'', source_json (msg_source m))])]
      @ opt_field ''error'' (\<lambda>(n, c). JObj [(''name'', JStr n), (''code'', JStr c)]) err
      @ opt_field ''meta'' id meta)"

text \<open>\<open>events[i]\<close> for a computed index: \<open>undefined\<close> outside the array.\<close>

definition event_at :: "session_event list \<Rightarrow> int \<Rightarrow> session_event option" where
  "event_at es i = (if 0 \<le> i \<and> nat i < length es then Some (es ! nat i) else None)"

definition assertToolResultRewrite ::
  "session_event \<Rightarrow> int list \<Rightarrow> session_event list \<Rightarrow> int \<Rightarrow> surface_error + unit" where
  "assertToolResultRewrite e shadowed events baseSeq =
     (case ev_data e of
        ToolResult t s m err meta \<Rightarrow>
          (case shadowed of
             [originalSeq] \<Rightarrow>
               (case map_option ev_data (event_at events (originalSeq - baseSeq)) of
                  Some (ToolResult t' s' m' err' meta') \<Rightarrow>
                    ensure (isDeepEqualJson (tool_result_rest t' s' m' err' meta')
                              (tool_result_rest t s m err meta)) RewriteChangesMore
                | _ \<Rightarrow> Inl RewriteNotToolResult)
           | _ \<Rightarrow> Inl RewriteNotSingle)
      | _ \<Rightarrow> Inr ())"

definition planSurfaceEvent ::
  "surface_state \<Rightarrow> session_event \<Rightarrow> int \<Rightarrow> session_event list \<Rightarrow> int
    \<Rightarrow> surface_error + surface_plan option" where
  "planSurfaceEvent st e expectedSeq events baseSeq =
     bind_result (ensure (ev_seq e = expectedSeq) (SeqNotContiguous (ev_seq e) expectedSeq)) (\<lambda>_.
     bind_result (surfaceOpOf e) (\<lambda>op.
       case op of
         None \<Rightarrow> Inr None
       | Some OpAppend \<Rightarrow>
           bind_result (assertProvenance e []) (\<lambda>_. Inr (Some (PlanAppend (ev_seq e))))
       | Some (OpReplace s en) \<Rightarrow>
           bind_result (replacementRange st s en) (\<lambda>(i, j, shadowed).
           bind_result (assertProvenance e shadowed) (\<lambda>_.
           bind_result (assertToolResultRewrite e shadowed events baseSeq) (\<lambda>_.
             Inr (Some (PlanReplace \<lparr>sr_seq = ev_seq e, sr_start = s, sr_end = en,
                                     sr_shadowedSeqs = shadowed\<rparr> i j)))))))"

section \<open>Committing plans and folding a log\<close>

fun applySurfacePlan ::
  "surface_state \<Rightarrow> surface_plan option \<Rightarrow> surface_state \<times> surface_replacement option" where
  "applySurfacePlan st None = (st, None)"
| "applySurfacePlan st (Some (PlanAppend s)) = (st\<lparr>nodes := nodes st @ [s]\<rparr>, None)"
| "applySurfacePlan st (Some (PlanReplace r i j)) =
     (st\<lparr>nodes := splice_list (nodes st) i (j - i + 1) [sr_seq r],
         replaceGeneration := replaceGeneration st + 1\<rparr>, Some r)"

definition applySurfaceEvent ::
  "surface_state \<Rightarrow> session_event \<Rightarrow> int \<Rightarrow> session_event list \<Rightarrow> int
    \<Rightarrow> surface_error + surface_state \<times> surface_replacement option" where
  "applySurfaceEvent st e expectedSeq events baseSeq =
     bind_result (planSurfaceEvent st e expectedSeq events baseSeq)
       (\<lambda>plan. Inr (applySurfacePlan st plan))"

fun opt_list :: "'a option \<Rightarrow> 'a list" where
  "opt_list None = []"
| "opt_list (Some x) = [x]"

fun fold_surface_loop ::
  "session_event list \<Rightarrow> nat \<Rightarrow> surface_state \<Rightarrow> surface_replacement list \<Rightarrow> session_event list
    \<Rightarrow> surface_error + surface_state \<times> surface_replacement list" where
  "fold_surface_loop events index st reps [] = Inr (st, reps)"
| "fold_surface_loop events index st reps (e # es) =
     bind_result (applySurfaceEvent st e (int index) events 0) (\<lambda>(st', r).
       fold_surface_loop events (index + 1) st' (reps @ opt_list r) es)"

definition foldSurface ::
  "session_event list \<Rightarrow> surface_error + int list \<times> surface_replacement list" where
  "foldSurface events =
     bind_result (fold_surface_loop events 0 createFoldState [] events)
       (\<lambda>(st, reps). Inr (nodes st, reps))"

section \<open>The incremental manager\<close>

text \<open>
  \<open>SurfaceManager\<close> shares the session's log array and folds what was appended since its last
  access. The log is an argument here because the session owns and extends it. A plan prepared by
  \<open>validateNext\<close> is committed when the same event arrives at the expected position.
\<close>

record surface_manager =
  sm_state :: surface_state
  sm_lastProcessedSeq :: int
  sm_pendingPlan :: "(session_event \<times> int \<times> surface_plan option) option"
  sm_baseSeq :: int

definition new_manager :: "int \<Rightarrow> surface_manager" where
  "new_manager baseSeq =
     \<lparr>sm_state = createFoldState, sm_lastProcessedSeq = baseSeq - 1, sm_pendingPlan = None,
      sm_baseSeq = baseSeq\<rparr>"

definition process_one ::
  "surface_manager \<Rightarrow> session_event list \<Rightarrow> int \<Rightarrow> session_event \<Rightarrow> surface_error + surface_manager" where
  "process_one m lg seq e =
     bind_result
       (case sm_pendingPlan m of
          Some (pe, expectedSeq, plan) \<Rightarrow>
            if pe = e \<and> expectedSeq = seq then Inr (applySurfacePlan (sm_state m) plan)
            else applySurfaceEvent (sm_state m) e seq lg (sm_baseSeq m)
        | None \<Rightarrow> applySurfaceEvent (sm_state m) e seq lg (sm_baseSeq m))
       (\<lambda>(st, _).
          Inr (m\<lparr>sm_state := st,
                 sm_pendingPlan :=
                   (case sm_pendingPlan m of
                      Some (pe, expectedSeq, plan) \<Rightarrow>
                        if expectedSeq \<le> seq then None else sm_pendingPlan m
                    | None \<Rightarrow> None),
                 sm_lastProcessedSeq := seq\<rparr>))"

text \<open>
  The loop of \<open>_processDelta\<close> over the unprocessed tail. An event that throws leaves the manager at
  the events already folded, so both the manager and the error are results.
\<close>

fun process_events ::
  "surface_manager \<Rightarrow> session_event list \<Rightarrow> int \<Rightarrow> session_event list
    \<Rightarrow> surface_manager \<times> surface_error option" where
  "process_events m lg seq [] = (m, None)"
| "process_events m lg seq (e # es) =
     (case process_one m lg seq e of
        Inl err \<Rightarrow> (m, Some err)
      | Inr m' \<Rightarrow> process_events m' lg (seq + 1) es)"

definition processDelta ::
  "surface_manager \<Rightarrow> session_event list \<Rightarrow> surface_manager \<times> surface_error option" where
  "processDelta m lg =
     (let start = sm_lastProcessedSeq m + 1
      in process_events m lg start (drop (nat (start - sm_baseSeq m)) lg))"

definition sync_manager ::
  "surface_manager \<Rightarrow> session_event list \<Rightarrow> surface_manager \<times> surface_error option" where
  "sync_manager m lg =
     (if sm_lastProcessedSeq m < sm_baseSeq m + int (length lg) - 1 then processDelta m lg
      else (m, None))"

definition validateNext ::
  "surface_manager \<Rightarrow> session_event list \<Rightarrow> session_event
    \<Rightarrow> surface_manager \<times> surface_error option" where
  "validateNext m lg e =
     (case sync_manager m lg of
        (m', Some err) \<Rightarrow> (m', Some err)
      | (m', None) \<Rightarrow>
          (let expectedSeq = sm_baseSeq m' + int (length lg) in
           case planSurfaceEvent (sm_state m') e expectedSeq lg (sm_baseSeq m') of
             Inl err \<Rightarrow> (m', Some err)
           | Inr plan \<Rightarrow> (m'\<lparr>sm_pendingPlan := Some (e, expectedSeq, plan)\<rparr>, None)))"

definition manager_nodes ::
  "surface_manager \<Rightarrow> session_event list \<Rightarrow> surface_manager \<times> (surface_error + int list)" where
  "manager_nodes m lg =
     (case sync_manager m lg of
        (m', Some err) \<Rightarrow> (m', Inl err)
      | (m', None) \<Rightarrow> (m', Inr (nodes (sm_state m'))))"

definition manager_replaceGeneration ::
  "surface_manager \<Rightarrow> session_event list \<Rightarrow> surface_manager \<times> (surface_error + nat)" where
  "manager_replaceGeneration m lg =
     (case sync_manager m lg of
        (m', Some err) \<Rightarrow> (m', Inl err)
      | (m', None) \<Rightarrow> (m', Inr (replaceGeneration (sm_state m'))))"

section \<open>Properties of the fold\<close>

definition surface_seqs :: "session_event list \<Rightarrow> int list" where
  "surface_seqs es = map ev_seq (filter (\<lambda>e. isSurfaceEligibleType (event_type (ev_data e))) es)"

definition surface_step ::
  "session_event list \<Rightarrow> surface_state \<times> surface_replacement list \<Rightarrow> session_event
    \<Rightarrow> surface_error + surface_state \<times> surface_replacement list" where
  "surface_step pre s e =
     bind_result (applySurfaceEvent (fst s) e (int (length pre)) pre 0)
       (\<lambda>(st, r). Inr (st, snd s @ opt_list r))"

text \<open>What a replacement promises about the event that made it.\<close>

definition replacement_ok :: "session_event list \<Rightarrow> surface_replacement \<Rightarrow> bool" where
  "replacement_ok es r \<longleftrightarrow>
     (\<exists>e \<in> set es. ev_seq e = sr_seq r \<and>
       (\<exists>sources. citedSources e = Inr sources \<and> set (sr_shadowedSeqs r) \<subseteq> set sources) \<and>
       sr_shadowedSeqs r \<noteq> [] \<and> hd (sr_shadowedSeqs r) = sr_start r \<and> last (sr_shadowedSeqs r) = sr_end r)"

definition surface_inv ::
  "session_event list \<Rightarrow> surface_state \<times> surface_replacement list \<Rightarrow> bool" where
  "surface_inv es s \<longleftrightarrow>
     map ev_seq es = map int [0..<length es] \<and>
     mset (nodes (fst s)) + mset (concat (map sr_shadowedSeqs (snd s))) = mset (surface_seqs es) \<and>
     replaceGeneration (fst s) = length (snd s) \<and>
     list_all (replacement_ok es) (snd s)"

lemma isEventSeq_of_int: "0 \<le> s \<Longrightarrow> s \<le> max_safe_integer \<Longrightarrow> isEventSeq (Some (JNum (of_int s))) = Some s"
  by (simp add: isEventSeq_def safe_integer_of_def safe_int_def)

lemma mset_splice_list:
  assumes "i \<le> j" "j < length xs"
  shows "mset (splice_list xs i (j - i + 1) [y]) + mset (slice xs i (j + 1)) = add_mset y (mset xs)"
proof -
  have "mset xs = mset (take i xs @ slice xs i (j + 1) @ drop (j + 1) xs)"
    using assms(1) by (simp add: slice_split del: mset_append)
  with assms show ?thesis by (simp add: splice_list_def)
qed

lemma mset_shuffle:
  assumes "A + S = add_mset y N" "N + C = T"
  shows "A + (C + S) = add_mset y T"
proof -
  have "A + (C + S) = (A + S) + C" by (simp add: ac_simps)
  with assms show ?thesis by simp
qed

lemma replacementRange_Inr:
  assumes "replacementRange st s e = Inr (i, j, sh)"
  shows "i \<le> j \<and> j < length (nodes st) \<and> nodes st ! i = s \<and> nodes st ! j = e \<and>
    sh = slice (nodes st) i (j + 1) \<and> sh \<noteq> [] \<and> hd sh = s \<and> last sh = e"
proof -
  from assms have *: "index_of s (nodes st) = Some i" "index_of e (nodes st) = Some j" "i \<le> j"
    "sh = slice (nodes st) i (j + 1)"
    by (auto simp: replacementRange_def split: option.splits if_splits)
  note b = index_of_Some [OF *(1)] index_of_Some [OF *(2)]
  have len: "length sh = j - i + 1" using * b by (auto simp: length_slice min_def)
  then have "sh \<noteq> []" by auto
  moreover have "sh ! k = nodes st ! (i + k)" if "k \<le> j - i" for k
    using that * b by (simp add: slice_def)
  from this [of 0] this [of "j - i"] have "sh ! 0 = s" "sh ! (j - i) = e" using b *(3) by simp_all
  ultimately show ?thesis using * b len by (simp add: hd_conv_nth last_conv_nth)
qed

lemma assertProvenance_Inr:
  "assertProvenance e sh = Inr u \<longleftrightarrow> (\<exists>sources. citedSources e = Inr sources \<and> set sh \<subseteq> set sources)"
  by (auto simp: assertProvenance_def result_simps Let_def filter_empty_conv)

lemma citedSources_earlier:
  "citedSources e = Inr sources \<Longrightarrow> distinct sources \<and> (\<forall>s \<in> set sources. s < ev_seq e)"
  by (auto simp: citedSources_def result_simps find_None_iff split: option.splits json.splits if_splits)

text \<open>The three ways one event passes the planner.\<close>

lemma planSurfaceEvent_Inr:
  assumes "planSurfaceEvent st e k events b = Inr p"
  obtains
    (Log) "ev_seq e = k" "p = None" "\<not> isSurfaceEligibleType (event_type (ev_data e))"
  | (Append) "ev_seq e = k" "p = Some (PlanAppend k)"
      "isSurfaceEligibleType (event_type (ev_data e))" "ev_surfaceOp e = Some (JStr ''append'')"
  | (Replace) s en i j sh where "ev_seq e = k"
      "p = Some (PlanReplace \<lparr>sr_seq = k, sr_start = s, sr_end = en, sr_shadowedSeqs = sh\<rparr> i j)"
      "isSurfaceEligibleType (event_type (ev_data e))"
      "replacementRange st s en = Inr (i, j, sh)"
      "\<exists>sources. citedSources e = Inr sources \<and> set sh \<subseteq> set sources"
      "assertToolResultRewrite e sh events b = Inr ()"
proof -
  from assms obtain op where k: "ev_seq e = k" and op: "surfaceOpOf e = Inr op"
    and rest: "(case op of None \<Rightarrow> Inr None
       | Some OpAppend \<Rightarrow> bind_result (assertProvenance e []) (\<lambda>_. Inr (Some (PlanAppend (ev_seq e))))
       | Some (OpReplace s en) \<Rightarrow>
           bind_result (replacementRange st s en) (\<lambda>(i, j, shadowed).
           bind_result (assertProvenance e shadowed) (\<lambda>_.
           bind_result (assertToolResultRewrite e shadowed events b) (\<lambda>_.
             Inr (Some (PlanReplace \<lparr>sr_seq = ev_seq e, sr_start = s, sr_end = en,
                                     sr_shadowedSeqs = shadowed\<rparr> i j)))))) = Inr p"
    by (auto simp: planSurfaceEvent_def result_simps)
  show thesis
  proof (cases op)
    case None
    with op have "\<not> isSurfaceEligibleType (event_type (ev_data e))"
      by (auto simp: surfaceOpOf_def Let_def split: if_splits option.splits json.splits)
    with None rest k show thesis by (intro Log) simp_all
  next
    case (Some o')
    with op have el: "isSurfaceEligibleType (event_type (ev_data e))"
      by (auto simp: surfaceOpOf_def Let_def split: if_splits)
    show thesis
    proof (cases o')
      case OpAppend
      with op Some have "ev_surfaceOp e = Some (JStr ''append'')"
        by (auto simp: surfaceOpOf_def Let_def split: if_splits option.splits json.splits)
      with OpAppend Some rest k el show thesis by (intro Append) (auto simp: result_simps)
    next
      case (OpReplace s en)
      with Some rest k el show thesis
        by (auto simp: result_simps assertProvenance_Inr intro: Replace)
    qed
  qed
qed

lemma surface_seqs_snoc [simp]:
  "surface_seqs (es @ [e]) =
     surface_seqs es @ (if isSurfaceEligibleType (event_type (ev_data e)) then [ev_seq e] else [])"
  by (simp add: surface_seqs_def)

lemma replacement_ok_mono: "replacement_ok es r \<Longrightarrow> replacement_ok (es @ xs) r"
  by (auto simp: replacement_ok_def)

lemma surface_step_inv:
  assumes inv: "surface_inv pre s" and step: "surface_step pre s e = Inr s'"
  shows "surface_inv (pre @ [e]) s'"
proof -
  from step obtain p where p: "planSurfaceEvent (fst s) e (int (length pre)) pre 0 = Inr p"
    and s': "s' = (fst (applySurfacePlan (fst s) p), snd s @ opt_list (snd (applySurfacePlan (fst s) p)))"
    by (auto simp: surface_step_def applySurfaceEvent_def result_simps split: prod.splits)
  have reps: "list_all (replacement_ok (pre @ [e])) (snd s)"
    using inv by (auto simp: surface_inv_def list_all_iff intro: replacement_ok_mono)
  from p show ?thesis
  proof (cases rule: planSurfaceEvent_Inr)
    case Log
    with inv s' reps show ?thesis by (simp add: surface_inv_def)
  next
    case Append
    with inv s' reps show ?thesis by (simp add: surface_inv_def)
  next
    case (Replace s0 en i j sh)
    note r = replacementRange_Inr [OF Replace(4)]
    have "mset (splice_list (nodes (fst s)) i (j - i + 1) [int (length pre)])
        + (mset (concat (map sr_shadowedSeqs (snd s))) + mset sh)
        = add_mset (int (length pre)) (mset (surface_seqs pre))"
    proof (rule mset_shuffle)
      show "mset (splice_list (nodes (fst s)) i (j - i + 1) [int (length pre)]) + mset sh
          = add_mset (int (length pre)) (mset (nodes (fst s)))"
        using mset_splice_list [of i j "nodes (fst s)"] r by blast
      show "mset (nodes (fst s)) + mset (concat (map sr_shadowedSeqs (snd s))) = mset (surface_seqs pre)"
        using inv unfolding surface_inv_def by blast
    qed
    moreover have "replacement_ok (pre @ [e])
        \<lparr>sr_seq = int (length pre), sr_start = s0, sr_end = en, sr_shadowedSeqs = sh\<rparr>"
      using Replace(1,5) r by (auto simp: replacement_ok_def)
    ultimately show ?thesis using inv s' reps Replace(1-3) by (simp add: surface_inv_def)
  qed
qed


interpretation surface: log_replay surface_step "(createFoldState, [])" surface_inv
proof
  show "surface_inv [] (createFoldState, [])"
    by (simp add: surface_inv_def createFoldState_def surface_seqs_def)
next
  fix pre s x s'
  assume "surface_inv pre s" "surface_step pre s x = Inr s'"
  then show "surface_inv (pre @ [x]) s'" by (rule surface_step_inv)
qed

text \<open>What the invariant gives about the surface: no repetition, and every node is in the log.\<close>

lemma surface_inv_seqs: "surface_inv es s \<Longrightarrow> distinct (surface_seqs es) \<and> set (surface_seqs es) \<subseteq> {0..<int (length es)}"
proof -
  assume "surface_inv es s"
  then have m: "map ev_seq es = map int [0..<length es]" by (simp add: surface_inv_def)
  then have "distinct (map ev_seq es)" by (simp add: distinct_map)
  moreover have "0 \<le> ev_seq e \<and> ev_seq e < int (length es)" if "e \<in> set es" for e
  proof -
    have "ev_seq ` set es = int ` {0..<length es}" using arg_cong [OF m, of set] by simp
    with that have "ev_seq e \<in> int ` {0..<length es}" by blast
    then show ?thesis by auto
  qed
  ultimately show ?thesis
    by (auto simp: surface_seqs_def distinct_map intro: inj_on_subset)
qed

lemma surface_inv_nodes:
  assumes "surface_inv es s"
  shows "distinct (nodes (fst s) @ concat (map sr_shadowedSeqs (snd s)))"
    and "set (nodes (fst s)) \<union> set (concat (map sr_shadowedSeqs (snd s))) = set (surface_seqs es)"
proof -
  have m: "mset (nodes (fst s) @ concat (map sr_shadowedSeqs (snd s))) = mset (surface_seqs es)"
    using assms by (simp add: surface_inv_def)
  then show "distinct (nodes (fst s) @ concat (map sr_shadowedSeqs (snd s)))"
    using surface_inv_seqs [OF assms] mset_eq_imp_distinct_iff by blast
  show "set (nodes (fst s)) \<union> set (concat (map sr_shadowedSeqs (snd s))) = set (surface_seqs es)"
    using mset_eq_setD [OF m] by simp
qed

lemma surface_inv_bound: "surface_inv es s \<Longrightarrow> n \<in> set (nodes (fst s)) \<Longrightarrow> 0 \<le> n \<and> n < int (length es)"
  using surface_inv_nodes(2) surface_inv_seqs by fastforce

text \<open>
  The complete fold hands the whole array to the rewrite check and the incremental path only the
  log so far; since every surface node is in the log so far, both see the same original.
\<close>

lemma event_at_append: "i < int (length pre) \<Longrightarrow> event_at (pre @ rest) i = event_at pre i"
  by (auto simp: event_at_def nth_append nat_less_iff)

lemma assertToolResultRewrite_append:
  assumes "\<forall>n \<in> set sh. n < int (length pre)"
  shows "assertToolResultRewrite e sh (pre @ rest) 0 = assertToolResultRewrite e sh pre 0"
proof (cases sh)
  case (Cons n ns)
  with assms have "event_at (pre @ rest) n = event_at pre n" by (intro event_at_append) simp
  with Cons show ?thesis
    by (cases ns) (simp_all add: assertToolResultRewrite_def split: event_data.split)
qed (simp add: assertToolResultRewrite_def split: event_data.split)

lemma planSurfaceEvent_append:
  assumes "\<forall>n \<in> set (nodes st). n < int (length pre)"
  shows "planSurfaceEvent st e k (pre @ rest) 0 = planSurfaceEvent st e k pre 0"
proof -
  have "bind_result (replacementRange st s en) (\<lambda>(i, j, shadowed).
           bind_result (assertProvenance e shadowed) (\<lambda>_.
           bind_result (assertToolResultRewrite e shadowed (pre @ rest) 0) (\<lambda>_. f i j shadowed)))
      = bind_result (replacementRange st s en) (\<lambda>(i, j, shadowed).
           bind_result (assertProvenance e shadowed) (\<lambda>_.
           bind_result (assertToolResultRewrite e shadowed pre 0) (\<lambda>_. f i j shadowed)))"
    for s en and f :: "nat \<Rightarrow> nat \<Rightarrow> int list \<Rightarrow> surface_error + surface_plan option"
  proof (cases "replacementRange st s en")
    case (Inr p)
    obtain i j sh where p: "p = (i, j, sh)" by (cases p) auto
    with Inr replacementRange_Inr have "sh = slice (nodes st) i (j + 1)" by blast
    with assms set_slice have "\<forall>n \<in> set sh. n < int (length pre)" by fastforce
    with Inr p show ?thesis by (simp add: assertToolResultRewrite_append)
  qed simp
  then show ?thesis
    unfolding planSurfaceEvent_def by (intro arg_cong2 [where f = bind_result] refl ext) (auto split: option.split surface_op.split)
qed

lemma fold_surface_loop_replay:
  "surface_inv pre (st, reps) \<Longrightarrow>
   fold_surface_loop (pre @ es) (length pre) st reps es = replay_from surface_step pre (st, reps) es"
proof (induction es arbitrary: pre st reps)
  case (Cons e es)
  have "\<forall>n \<in> set (nodes st). n < int (length pre)"
    using surface_inv_bound [OF Cons.prems] by simp
  then have eq: "applySurfaceEvent st e (int (length pre)) (pre @ e # es) 0
      = applySurfaceEvent st e (int (length pre)) pre 0"
    by (simp add: applySurfaceEvent_def planSurfaceEvent_append)
  show ?case
  proof (cases "applySurfaceEvent st e (int (length pre)) pre 0")
    case (Inr q)
    obtain st' r where q: "q = (st', r)" by (cases q)
    with Inr have step: "surface_step pre (st, reps) e = Inr (st', reps @ opt_list r)"
      by (simp add: surface_step_def)
    with Cons.IH [of "pre @ [e]" st' "reps @ opt_list r"] surface_step_inv [OF Cons.prems] eq Inr q
    show ?thesis by simp
  qed (simp add: eq surface_step_def)
qed simp

lemma foldSurface_project:
  "foldSurface es = bind_result (surface.project es) (\<lambda>(st, reps). Inr (nodes st, reps))"
  using fold_surface_loop_replay [of "[]" createFoldState "[]" es] surface.inv_init
  by (simp add: foldSurface_def surface.project_def)

lemma foldSurface_Inr:
  "foldSurface es = Inr (ns, reps) \<longleftrightarrow> (\<exists>st. surface.project es = Inr (st, reps) \<and> nodes st = ns)"
  by (auto simp: foldSurface_project result_simps)

section \<open>The incremental manager agrees with the fold\<close>

text \<open>
  The manager sits at some prefix of the log: its state is the fold of that prefix, and a pending
  plan was made against the fold of the prefix that ends where it expects its event.
\<close>

definition manager_at :: "surface_manager \<Rightarrow> session_event list \<Rightarrow> nat \<Rightarrow> bool" where
  "manager_at m lg n \<longleftrightarrow>
     sm_baseSeq m = 0 \<and> n \<le> length lg \<and> sm_lastProcessedSeq m = int n - 1 \<and>
     (\<exists>reps. surface.project (take n lg) = Inr (sm_state m, reps)) \<and>
     (case sm_pendingPlan m of
        None \<Rightarrow> True
      | Some (e, k, plan) \<Rightarrow>
          \<exists>k' st reps. k = int k' \<and> n \<le> k' \<and> k' \<le> length lg \<and>
            surface.project (take k' lg) = Inr (st, reps) \<and>
            planSurfaceEvent st e k (take k' lg) 0 = Inr plan)"

lemma manager_at_push: "manager_at m lg n \<Longrightarrow> manager_at m (lg @ [e]) n"
  by (fastforce simp: manager_at_def split: option.splits prod.splits)

lemma manager_at_applySurfaceEvent:
  assumes "manager_at m lg n"
  shows "applySurfaceEvent (sm_state m) e k lg 0 = applySurfaceEvent (sm_state m) e k (take n lg) 0"
proof -
  from assms obtain reps where "surface.project (take n lg) = Inr (sm_state m, reps)" and n: "n \<le> length lg"
    by (auto simp: manager_at_def)
  then have "surface_inv (take n lg) (sm_state m, reps)" by (intro surface.project_inv)
  with surface_inv_bound have "\<forall>x \<in> set (nodes (sm_state m)). x < int (length (take n lg))"
    by fastforce
  then show ?thesis
    using planSurfaceEvent_append [of "sm_state m" "take n lg" e k "drop n lg"]
    by (simp add: applySurfaceEvent_def)
qed

lemma pending_plan_apply:
  assumes "manager_at m lg n" "sm_pendingPlan m = Some (e, int n, plan)"
  shows "Inr (applySurfacePlan (sm_state m) plan) = applySurfaceEvent (sm_state m) e (int n) (take n lg) 0"
  using assms by (auto simp: manager_at_def applySurfaceEvent_def)

lemma process_one_project:
  assumes m: "manager_at m lg n" and n: "n < length lg"
    and p: "surface.project (take n lg) = Inr (sm_state m, reps)"
  shows "process_one m lg (int n) (lg ! n) = Inl err \<longleftrightarrow> surface.project (take (Suc n) lg) = Inl err"
    and "process_one m lg (int n) (lg ! n) = Inr m' \<Longrightarrow> manager_at m' lg (Suc n)"
proof -
  let ?e = "lg ! n"
  let ?apply = "applySurfaceEvent (sm_state m) ?e (int n) (take n lg) 0"
  have base: "sm_baseSeq m = 0" using m by (simp add: manager_at_def)
  have chosen: "(case sm_pendingPlan m of
          Some (pe, expectedSeq, plan) \<Rightarrow>
            if pe = ?e \<and> expectedSeq = int n then Inr (applySurfacePlan (sm_state m) plan)
            else applySurfaceEvent (sm_state m) ?e (int n) lg (sm_baseSeq m)
        | None \<Rightarrow> applySurfaceEvent (sm_state m) ?e (int n) lg (sm_baseSeq m)) = ?apply"
    using pending_plan_apply [OF m] manager_at_applySurfaceEvent [OF m] base
    by (auto split: option.splits)
  have proj: "surface.project (take (Suc n) lg) = bind_result ?apply (\<lambda>(st, r). Inr (st, reps @ opt_list r))"
    using n p by (simp add: take_Suc_conv_app_nth surface.project_snoc surface_step_def min_def)
  show "process_one m lg (int n) ?e = Inl err \<longleftrightarrow> surface.project (take (Suc n) lg) = Inl err"
    unfolding proj process_one_def chosen by (cases ?apply) (auto split: prod.splits)
  assume "process_one m lg (int n) ?e = Inr m'"
  then obtain st r where st: "?apply = Inr (st, r)"
    and m': "m' = m\<lparr>sm_state := st,
                 sm_pendingPlan := (case sm_pendingPlan m of
                      Some (pe, expectedSeq, plan) \<Rightarrow>
                        if expectedSeq \<le> int n then None else sm_pendingPlan m
                    | None \<Rightarrow> None),
                 sm_lastProcessedSeq := int n\<rparr>"
    unfolding process_one_def chosen by (auto simp: result_simps split: prod.splits)
  have "surface.project (take (Suc n) lg) = Inr (st, reps @ opt_list r)" using proj st by simp
  then show "manager_at m' lg (Suc n)"
    using m n m' by (auto simp: manager_at_def split: option.splits if_splits)
qed

lemma process_events_project:
  assumes "manager_at m lg n"
  shows "process_events m lg (int n) (drop n lg) = (m', err) \<Longrightarrow>
    (\<exists>k. manager_at m' lg k) \<and>
    (case surface.project lg of
       Inl er \<Rightarrow> err = Some er
     | Inr (st, reps) \<Rightarrow> err = None \<and> sm_state m' = st \<and> manager_at m' lg (length lg))"
  using assms
proof (induction "length lg - n" arbitrary: m n)
  case 0
  then have "n = length lg" by (auto simp: manager_at_def)
  with 0 show ?case by (auto simp: manager_at_def)
next
  case (Suc d)
  then have n: "n < length lg" by arith
  obtain reps where p: "surface.project (take n lg) = Inr (sm_state m, reps)"
    using Suc.prems(2) by (auto simp: manager_at_def)
  note one = process_one_project [OF Suc.prems(2) n p]
  show ?case
  proof (cases "process_one m lg (int n) (lg ! n)")
    case (Inl er)
    with one(1) [of er] have "surface.project (take (Suc n) lg) = Inl er" by blast
    from surface.project_error_sticks [OF this, of "drop (Suc n) lg"]
    have "surface.project lg = Inl er" by simp
    with Inl Suc.prems n show ?thesis
      by (auto simp: Cons_nth_drop_Suc [OF n, symmetric])
  next
    case (Inr m1)
    with one(2) have ok: "manager_at m1 lg (Suc n)" by simp
    moreover have "process_events m1 lg (int (Suc n)) (drop (Suc n) lg) = (m', err)"
      using Inr Suc.prems(1) by (simp add: Cons_nth_drop_Suc [OF n, symmetric] add.commute)
    moreover have "d = length lg - Suc n" using Suc.hyps(2) by simp
    ultimately show ?thesis using Suc.hyps(1) by blast
  qed
qed

lemma sync_manager_project:
  assumes "manager_at m lg n" "sync_manager m lg = (m', err)"
  shows "(\<exists>k. manager_at m' lg k) \<and>
    (case surface.project lg of
       Inl er \<Rightarrow> err = Some er
     | Inr (st, reps) \<Rightarrow> err = None \<and> sm_state m' = st \<and> manager_at m' lg (length lg))"
proof (cases "n < length lg")
  case True
  with assms have "process_events m lg (int n) (drop n lg) = (m', err)"
    by (simp add: manager_at_def sync_manager_def processDelta_def Let_def)
  with process_events_project [OF assms(1)] show ?thesis by blast
next
  case False
  with assms(1) have "n = length lg" by (simp add: manager_at_def)
  with assms show ?thesis
    by (auto simp: manager_at_def sync_manager_def)
qed

text \<open>
  Every interleaving of validation, log growth and reads that the session can perform. The log may
  even grow by events that were never validated.
\<close>

inductive manager_run :: "surface_manager \<Rightarrow> session_event list \<Rightarrow> bool" where
  run_start: "manager_run (new_manager 0) []"
| run_validate: "manager_run m lg \<Longrightarrow> manager_run (fst (validateNext m lg e)) lg"
| run_push: "manager_run m lg \<Longrightarrow> manager_run m (lg @ [e])"
| run_nodes: "manager_run m lg \<Longrightarrow> manager_run (fst (manager_nodes m lg)) lg"
| run_generation: "manager_run m lg \<Longrightarrow> manager_run (fst (manager_replaceGeneration m lg)) lg"

lemma validateNext_at:
  assumes "manager_at m lg n"
  shows "\<exists>k. manager_at (fst (validateNext m lg e)) lg k"
proof -
  obtain m1 err where s: "sync_manager m lg = (m1, err)" by (cases "sync_manager m lg")
  note p = sync_manager_project [OF assms s]
  show ?thesis
  proof (cases "surface.project lg")
    case (Inl er)
    with p s show ?thesis by (auto simp: validateNext_def)
  next
    case (Inr q)
    obtain st reps where q: "q = (st, reps)" by (cases q)
    with Inr p have *: "err = None" "sm_state m1 = st" "manager_at m1 lg (length lg)" by auto
    show ?thesis
    proof (cases "planSurfaceEvent (sm_state m1) e (int (length lg)) lg 0")
      case (Inl er')
      with s * show ?thesis by (auto simp: validateNext_def Let_def manager_at_def)
    next
      case plan: (Inr pl)
      with s * have "fst (validateNext m lg e) = m1\<lparr>sm_pendingPlan := Some (e, int (length lg), pl)\<rparr>"
        by (simp add: validateNext_def Let_def manager_at_def)
      with * plan Inr q have "manager_at (fst (validateNext m lg e)) lg (length lg)"
        by (auto simp: manager_at_def)
      then show ?thesis by blast
    qed
  qed
qed

lemma manager_run_at: "manager_run m lg \<Longrightarrow> \<exists>n. manager_at m lg n"
proof (induction rule: manager_run.induct)
  case run_start
  show ?case by (rule exI [of _ 0]) (simp add: manager_at_def new_manager_def)
next
  case (run_validate m lg e)
  then show ?case using validateNext_at by blast
next
  case (run_push m lg e)
  then show ?case using manager_at_push by blast
next
  case (run_nodes m lg)
  then show ?case using sync_manager_project
    by (fastforce simp: manager_nodes_def split: prod.splits option.splits)
next
  case (run_generation m lg)
  then show ?case using sync_manager_project
    by (fastforce simp: manager_replaceGeneration_def split: prod.splits option.splits)
qed

lemma manager_reads:
  assumes "manager_run m lg"
  shows "snd (manager_nodes m lg) = bind_result (foldSurface lg) (\<lambda>(ns, _). Inr ns)"
    and "snd (manager_replaceGeneration m lg) = bind_result (foldSurface lg) (\<lambda>(_, reps). Inr (length reps))"
proof -
  from manager_run_at [OF assms] obtain n where at: "manager_at m lg n" by blast
  obtain m1 err where s: "sync_manager m lg = (m1, err)" by (cases "sync_manager m lg")
  note p = sync_manager_project [OF at s]
  have gen: "replaceGeneration st = length reps" if "surface.project lg = Inr (st, reps)" for st reps
    using surface.project_inv [OF that] by (simp add: surface_inv_def)
  show "snd (manager_nodes m lg) = bind_result (foldSurface lg) (\<lambda>(ns, _). Inr ns)"
    using p s by (cases "surface.project lg") (auto simp: manager_nodes_def foldSurface_project)
  show "snd (manager_replaceGeneration m lg) = bind_result (foldSurface lg) (\<lambda>(_, reps). Inr (length reps))"
    using p s gen by (cases "surface.project lg") (auto simp: manager_replaceGeneration_def foldSurface_project)
qed

section \<open>Claims\<close>

text \<open>A four-event log used by the witnesses: a prompt, a reply, a tool result and its rewrite.\<close>

definition sample_event :: "int \<Rightarrow> event_data \<Rightarrow> json option \<Rightarrow> json option \<Rightarrow> session_event" where
  "sample_event s d op src =
     \<lparr>ev_seq = s, ev_time = 0, ev_data = d, ev_surfaceOp = op, ev_sourceEventSeqs = src, ev_ignorable = False\<rparr>"

definition sample_message :: "string \<Rightarrow> role \<Rightarrow> content_block list \<Rightarrow> message_source \<Rightarrow> message" where
  "sample_message i r c src = \<lparr>msg_id = i, msg_role = r, msg_content = c, msg_source = src\<rparr>"

definition sample_result :: "string \<Rightarrow> event_data" where
  "sample_result s = ToolResult 0 0
     (sample_message ''m2'' UserRole [ToolResultBlock ''c1'' [TextBlock s] None None] (ToolSource ''c1'')) None None"

definition sample_log :: "session_event list" where
  "sample_log =
     [sample_event 0 (UserMessage (sample_message ''m0'' UserRole [TextBlock ''hi''] UserSource))
        (Some (JStr ''append'')) None,
      sample_event 1 (AssistantMessage 0 0 (sample_message ''m1'' AssistantRole
          [ToolCallBlock ''c1'' ''ls'' ''{}''] (ModelSource ''p'' ''m'' None)) None False)
        (Some (JStr ''append'')) (Some (JArr [JNum 0])),
      sample_event 2 (sample_result ''long'') (Some (JStr ''append'')) None]"

definition sample_rewrite :: session_event where
  "sample_rewrite =
     sample_event 3 (sample_result ''cut'')
       (Some (JObj [(''op'', JStr ''replace''), (''start'', JNum 2), (''end'', JNum 2)])) (Some (JArr [JNum 2]))"

definition sample_shadow :: surface_replacement where
  "sample_shadow = \<lparr>sr_seq = 3, sr_start = 2, sr_end = 2, sr_shadowedSeqs = [2]\<rparr>"

lemma foldSurface_sample: "foldSurface (sample_log @ [sample_rewrite]) = Inr ([0, 1, 3], [sample_shadow])"
  by code_simp

lemma foldSurface_sample_log: "foldSurface sample_log = Inr ([0, 1, 2], [])"
  by code_simp

text \<open>
  C1. The surface conserves the log: after a successful fold, the live nodes together with the
  nodes shadowed by the replacements are exactly the sequences of the message-producing events,
  each one exactly once.
\<close>

theorem foldSurface_partition:
  assumes "foldSurface es = Inr (ns, reps)"
  shows "distinct (ns @ concat (map sr_shadowedSeqs reps)) \<and>
    set ns \<union> (\<Union>r \<in> set reps. set (sr_shadowedSeqs r)) = set (surface_seqs es)"
proof -
  from assms obtain st where "surface.project es = Inr (st, reps)" and ns: "nodes st = ns"
    by (auto simp: foldSurface_Inr)
  then have "surface_inv es (st, reps)" by (intro surface.project_inv)
  from surface_inv_nodes [OF this] ns show ?thesis by simp
qed

theorem foldSurface_partition_witness:
  "distinct ([0, 1, 3] @ concat (map sr_shadowedSeqs [sample_shadow])) \<and>
   set [0, 1, 3] \<union> (\<Union>r \<in> set [sample_shadow]. set (sr_shadowedSeqs r))
     = set (surface_seqs (sample_log @ [sample_rewrite]))"
  using foldSurface_partition [OF foldSurface_sample] .

text \<open>
  C2. The incremental surface equals the fold: whatever interleaving of candidate validation,
  log growth and reads the manager went through, reading its nodes or its replacement count gives
  the result (or the error) of folding the complete log.
\<close>

theorem manager_refines_fold:
  assumes "manager_run m lg"
  shows "snd (manager_nodes m lg) = bind_result (foldSurface lg) (\<lambda>(ns, _). Inr ns) \<and>
    snd (manager_replaceGeneration m lg) = bind_result (foldSurface lg) (\<lambda>(_, reps). Inr (length reps))"
  using manager_reads [OF assms] by blast

definition sample_manager :: surface_manager where
  "sample_manager = fst (validateNext (new_manager 0) [] (hd sample_log))"

lemma sample_manager_run: "manager_run sample_manager (sample_log @ [sample_rewrite])"
proof -
  have "manager_run sample_manager ([] @ [hd sample_log])"
    unfolding sample_manager_def by (intro run_push run_validate run_start)
  from run_push [OF run_push [OF run_push [OF this]], of "sample_log ! 1" "sample_log ! 2" sample_rewrite]
  show ?thesis by (simp add: sample_log_def)
qed

theorem manager_refines_fold_witness:
  "manager_run sample_manager (sample_log @ [sample_rewrite]) \<and>
   snd (manager_nodes sample_manager (sample_log @ [sample_rewrite])) = Inr [0, 1, 3]"
  using manager_refines_fold [OF sample_manager_run] sample_manager_run
  by (simp add: foldSurface_sample)

text \<open>
  C3. Replacement provenance: every replacement in a folded log is one event of the log that cites
  each node it shadows, all its citations are strictly earlier events, and the shadowed run begins
  and ends at the declared range.
\<close>

theorem foldSurface_provenance:
  assumes "foldSurface es = Inr (ns, reps)" "r \<in> set reps"
  shows "\<exists>e sources. e \<in> set es \<and> ev_seq e = sr_seq r \<and> citedSources e = Inr sources \<and>
    set (sr_shadowedSeqs r) \<subseteq> set sources \<and> (\<forall>s \<in> set sources. s < sr_seq r) \<and>
    sr_shadowedSeqs r \<noteq> [] \<and> hd (sr_shadowedSeqs r) = sr_start r \<and> last (sr_shadowedSeqs r) = sr_end r"
proof -
  from assms(1) obtain st where "surface.project es = Inr (st, reps)" by (auto simp: foldSurface_Inr)
  then have "surface_inv es (st, reps)" by (intro surface.project_inv)
  with assms(2) have "replacement_ok es r" by (auto simp: surface_inv_def list_all_iff)
  with citedSources_earlier show ?thesis by (fastforce simp: replacement_ok_def)
qed

theorem foldSurface_provenance_witness:
  "\<exists>e sources. e \<in> set (sample_log @ [sample_rewrite]) \<and> ev_seq e = sr_seq sample_shadow \<and>
    citedSources e = Inr sources \<and> set (sr_shadowedSeqs sample_shadow) \<subseteq> set sources \<and>
    (\<forall>s \<in> set sources. s < sr_seq sample_shadow) \<and> sr_shadowedSeqs sample_shadow \<noteq> [] \<and>
    hd (sr_shadowedSeqs sample_shadow) = sr_start sample_shadow \<and>
    last (sr_shadowedSeqs sample_shadow) = sr_end sample_shadow"
  using foldSurface_provenance [OF foldSurface_sample, of sample_shadow] by simp

lemma validateNext_fold:
  assumes run: "manager_run m lg" and ok: "foldSurface lg = Inr p"
  shows "snd (validateNext m lg e) =
    (case foldSurface (lg @ [e]) of Inl err \<Rightarrow> Some err | Inr _ \<Rightarrow> None)"
proof -
  from manager_run_at [OF run] obtain n where at: "manager_at m lg n" by blast
  obtain m1 err where s: "sync_manager m lg = (m1, err)" by (cases "sync_manager m lg")
  obtain ns reps where p: "p = (ns, reps)" by (cases p)
  with ok obtain st where proj: "surface.project lg = Inr (st, reps)" by (auto simp: foldSurface_Inr)
  with sync_manager_project [OF at s] have m1: "err = None" "sm_state m1 = st" "manager_at m1 lg (length lg)"
    by simp_all
  from m1(3) have base: "sm_baseSeq m1 = 0" by (simp add: manager_at_def)
  have "foldSurface (lg @ [e]) = bind_result (planSurfaceEvent st e (int (length lg)) lg 0)
      (\<lambda>pl. Inr (nodes (fst (applySurfacePlan st pl)), reps @ opt_list (snd (applySurfacePlan st pl))))"
    by (cases "planSurfaceEvent st e (int (length lg)) lg 0")
      (simp_all add: foldSurface_project surface.project_snoc surface_step_def applySurfaceEvent_def
        proj case_prod_beta)
  with s m1(1,2) base show ?thesis
    by (cases "planSurfaceEvent st e (int (length lg)) lg 0") (simp_all add: validateNext_def Let_def)
qed

text \<open>
  C4. Admission is exact: the append boundary accepts a candidate if and only if the log extended
  by it still folds, and a rejected candidate reports the error the fold would report.
\<close>

theorem validateNext_admits:
  assumes run: "manager_run m lg" and ok: "foldSurface lg = Inr p"
  shows "snd (validateNext m lg e) =
    (case foldSurface (lg @ [e]) of Inl err \<Rightarrow> Some err | Inr _ \<Rightarrow> None)"
  using run ok by (rule validateNext_fold)

theorem validateNext_admits_witness:
  "snd (validateNext (new_manager 0) [] (hd sample_log)) = None \<and>
   snd (validateNext (new_manager 0) [] sample_rewrite) = Some (SeqNotContiguous 3 0)"
proof -
  have empty: "foldSurface [] = Inr ([], [])" by code_simp
  have "foldSurface ([] @ [hd sample_log]) = Inr ([0], [])"
    "foldSurface ([] @ [sample_rewrite]) = Inl (SeqNotContiguous 3 0)" by code_simp+
  then show ?thesis
    using validateNext_admits [OF run_start empty, of "hd sample_log"]
      validateNext_admits [OF run_start empty, of sample_rewrite] by simp
qed

lemma isDeepEqualJson_field:
  "isDeepEqualJson (JObj ps) (JObj qs) \<Longrightarrow> (k, v) \<in> set ps \<Longrightarrow>
    \<exists>w. map_of qs k = Some w \<and> isDeepEqualJson v w"
  by (fastforce split: option.splits)

lemma isDeepEqualJson_length: "isDeepEqualJson (JObj ps) (JObj qs) \<Longrightarrow> length ps = length qs"
  by simp

text \<open>The members of a rewritten result that the comparison pins.\<close>

lemma tool_result_rest_fields:
  assumes "isDeepEqualJson (tool_result_rest t s m err meta) (tool_result_rest t' s' m' err' meta')"
  shows "t' = t" "s' = s" "msg_id m' = msg_id m" "err' = err" "meta' = None \<longleftrightarrow> meta = None"
    "isDeepEqualJson (source_json (msg_source m)) (source_json (msg_source m'))"
    "isDeepEqualJson (result_block_rest (msg_content m)) (result_block_rest (msg_content m'))"
proof -
  note d = assms [unfolded tool_result_rest_def]
  note f = isDeepEqualJson_field [OF d]
  note l = isDeepEqualJson_length [OF d]
  show "t' = t" using f [of "''turn''" "JNum (of_int t)"] by simp
  show "s' = s" using f [of "''step''" "JNum (of_int s)"] by simp
  let ?msg = "\<lambda>m. JObj [(''id'', JStr (msg_id m)), (''role'', role_json (msg_role m)),
          (''content'', JArr [result_block_rest (msg_content m)]),
          (''source'', source_json (msg_source m))]"
  have m: "isDeepEqualJson (?msg m) (?msg m')"
    using f [of "''message''" "?msg m"] by (simp del: isDeepEqualJson.simps)
  note g = isDeepEqualJson_field [OF m]
  show "msg_id m' = msg_id m" using g [of "''id''" "JStr (msg_id m)"] by simp
  show "isDeepEqualJson (source_json (msg_source m)) (source_json (msg_source m'))"
    using g [of "''source''" "source_json (msg_source m)"] by (simp del: isDeepEqualJson.simps)
  show "isDeepEqualJson (result_block_rest (msg_content m)) (result_block_rest (msg_content m'))"
    using g [of "''content''" "JArr [result_block_rest (msg_content m)]"]
    by (simp del: isDeepEqualJson.simps(2))
  have e: "err' = err" if "err = Some x" for x
    using f [of "''error''" "JObj [(''name'', JStr (fst x)), (''code'', JStr (snd x))]"] that
    by (cases x) (auto simp: opt_field_def split: option.splits)
  have mt: "meta' \<noteq> None" if "meta = Some x" for x
    using f [of "''meta''" x] that by (auto simp: opt_field_def split: option.splits)
  show "err' = err" using e mt l by (auto simp: opt_field_def split: option.splits)
  show "meta' = None \<longleftrightarrow> meta = None" using e mt l by (auto simp: opt_field_def split: option.splits)
qed

lemma result_block_rest_fields:
  assumes "isDeepEqualJson (result_block_rest (ToolResultBlock c content isErr tools # bs)) 
      (result_block_rest (ToolResultBlock c' content' isErr' tools' # bs'))"
  shows "c' = c" "isErr' = isErr"
proof -
  note d = assms [unfolded result_block_rest.simps]
  note f = isDeepEqualJson_field [OF d]
  note l = isDeepEqualJson_length [OF d]
  show "c' = c" using f [of "''toolCallId''" "JStr c"] by simp
  have e: "isErr' = isErr" if "isErr = Some x" for x
    using f [of "''isError''" "JBool x"] that by (auto simp: opt_field_def split: option.splits)
  have mt: "tools' \<noteq> None" if "tools = Some x" for x
    using f [of "''loadedTools''" "JArr (map schema_json x)"] that
    by (auto simp: opt_field_def split: option.splits)
  show "isErr' = isErr" using e mt l by (auto simp: opt_field_def split: option.splits)
qed



end
