(* ===== verification/Session_Trace.thy ===== *)
theory Session_Trace
  imports Surface
begin

text \<open>
  The relational invariants of a session log, \<open>core/session/src/invariant.ts\<close>: the per-session
  trace, the validation of one candidate event against it, the deferred transition and the
  companion that stages a transition at dispatch and applies it at publication. \<open>fail\<close> never
  returns, so a failed check is an error value. The theorems give what an accepted log is: strictly
  increasing sequences, turns numbered from one and closed one at a time, and step-scoped events
  inside their step.
\<close>

section \<open>The trace\<close>

record session_trace =
  lastSeq :: int
  openTurn :: "int option"
  openStep :: "int option"
  nextTurn :: int
  nextStep :: int
  pendingCalls :: "call_id set"

datatype pending_change = PendNone | PendAdd call_id | PendDelete call_id | PendClear

record trace_transition =
  tt_lastSeq :: int
  tt_openTurn :: "int option"
  tt_openStep :: "int option"
  tt_nextTurn :: int
  tt_nextStep :: int
  tt_pendingCalls :: pending_change

datatype trace_error =
    SeqNotIncreasing int int
  | TurnStartWhileOpen int
  | TurnStartUnexpected int int
  | TurnEndMismatch int
  | TurnEndOpenStep int
  | StepStartTurnMismatch int
  | StepStartWhileOpen int
  | StepStartUnexpected int int
  | NotInOpenStep string int int
  | RewriteOutsideTurn
  | ResultWithoutCall call_id
  | OutsideTurn string
  | NoMatchingValidation

definition TOOL_NOT_STARTED :: string where
  "TOOL_NOT_STARTED = ''TOOL_NOT_STARTED''"

definition TOOL_OUTCOME_UNKNOWN :: string where
  "TOOL_OUTCOME_UNKNOWN = ''TOOL_OUTCOME_UNKNOWN''"

definition freshTrace :: session_trace where
  "freshTrace = \<lparr>lastSeq = -1, openTurn = None, openStep = None, nextTurn = 1, nextStep = 1,
     pendingCalls = {}\<rparr>"

text \<open>
  \<open>message.source.callId\<close> and \<open>message.content[0].isError\<close> of a tool result. The message type
  fixes a tool source and one result block; anything else reads as \<open>undefined\<close>.
\<close>

fun source_callId :: "message_source \<Rightarrow> call_id option" where
  "source_callId (ToolSource c) = Some c"
| "source_callId _ = None"

fun first_result_isError :: "content_block list \<Rightarrow> bool" where
  "first_result_isError (ToolResultBlock _ _ (Some True) _ # _) = True"
| "first_result_isError _ = False"

section \<open>Validating one event\<close>

definition requireOpenStep :: "session_trace \<Rightarrow> string \<Rightarrow> int \<Rightarrow> int \<Rightarrow> trace_error + unit" where
  "requireOpenStep tr kind turn step =
     ensure (openTurn tr = Some turn \<and> openStep tr = Some step) (NotInOpenStep kind turn step)"

definition unchanged_transition :: "session_trace \<Rightarrow> session_event \<Rightarrow> trace_transition" where
  "unchanged_transition tr e =
     \<lparr>tt_lastSeq = ev_seq e, tt_openTurn = openTurn tr, tt_openStep = openStep tr,
      tt_nextTurn = nextTurn tr, tt_nextStep = nextStep tr, tt_pendingCalls = PendNone\<rparr>"

fun event_transition ::
  "session_trace \<Rightarrow> session_event \<Rightarrow> event_data \<Rightarrow> trace_error + trace_transition" where
  "event_transition tr e (TurnStart turn) =
     bind_result (ensure (openTurn tr = None) (TurnStartWhileOpen turn)) (\<lambda>_.
     bind_result (ensure (turn = nextTurn tr) (TurnStartUnexpected (nextTurn tr) turn)) (\<lambda>_.
       Inr ((unchanged_transition tr e)\<lparr>tt_openTurn := Some turn, tt_nextStep := 1\<rparr>)))"
| "event_transition tr e (TurnEnd turn _) =
     bind_result (ensure (openTurn tr = Some turn) (TurnEndMismatch turn)) (\<lambda>_.
     bind_result (ensure (openStep tr = None) (TurnEndOpenStep turn)) (\<lambda>_.
       Inr ((unchanged_transition tr e)\<lparr>tt_openTurn := None, tt_nextTurn := nextTurn tr + 1\<rparr>)))"
| "event_transition tr e (StepStart turn step) =
     bind_result (ensure (openTurn tr = Some turn) (StepStartTurnMismatch turn)) (\<lambda>_.
     bind_result (ensure (openStep tr = None) (StepStartWhileOpen step)) (\<lambda>_.
     bind_result (ensure (step = nextStep tr) (StepStartUnexpected (nextStep tr) step)) (\<lambda>_.
       Inr ((unchanged_transition tr e)\<lparr>tt_openStep := Some step\<rparr>))))"
| "event_transition tr e (StepEnd turn step) =
     bind_result (requireOpenStep tr ''step/end'' turn step) (\<lambda>_.
       Inr ((unchanged_transition tr e)\<lparr>tt_openStep := None, tt_nextStep := nextStep tr + 1,
              tt_pendingCalls := PendClear\<rparr>))"
| "event_transition tr e (AssistantChunk turn step _) =
     bind_result (requireOpenStep tr ''assistant/chunk'' turn step) (\<lambda>_. Inr (unchanged_transition tr e))"
| "event_transition tr e (AssistantMessage turn step _ _ _) =
     bind_result (requireOpenStep tr ''assistant/message'' turn step) (\<lambda>_. Inr (unchanged_transition tr e))"
| "event_transition tr e (ToolCall turn step callId _ _) =
     bind_result (requireOpenStep tr ''tool/call'' turn step) (\<lambda>_.
       Inr ((unchanged_transition tr e)\<lparr>tt_pendingCalls := PendAdd callId\<rparr>))"
| "event_transition tr e (ToolResult turn step m err _) =
     (if ev_surfaceOp e \<noteq> Some (JStr ''append'') then
        bind_result (ensure (openTurn tr \<noteq> None) RewriteOutsideTurn) (\<lambda>_. Inr (unchanged_transition tr e))
      else
        bind_result (requireOpenStep tr ''tool/result'' turn step) (\<lambda>_.
          let syntheticNotStarted = first_result_isError (msg_content m) \<and> map_option snd err = Some TOOL_NOT_STARTED
          in case source_callId (msg_source m) of
               Some callId \<Rightarrow>
                 bind_result (ensure (callId \<in> pendingCalls tr \<or> syntheticNotStarted) (ResultWithoutCall callId)) (\<lambda>_.
                   Inr ((unchanged_transition tr e)\<lparr>tt_pendingCalls := PendDelete callId\<rparr>))
             | None \<Rightarrow>
                 bind_result (ensure syntheticNotStarted (ResultWithoutCall ''undefined'')) (\<lambda>_.
                   Inr (unchanged_transition tr e))))"
| "event_transition tr e (TodoWrite _) =
     bind_result (ensure (openTurn tr \<noteq> None) (OutsideTurn ''todo/write'')) (\<lambda>_. Inr (unchanged_transition tr e))"
| "event_transition tr e (RequestHeader _ _) =
     bind_result (ensure (openTurn tr \<noteq> None) (OutsideTurn ''request/header'')) (\<lambda>_. Inr (unchanged_transition tr e))"
| "event_transition tr e (RequestContext _) =
     bind_result (ensure (openTurn tr \<noteq> None) (OutsideTurn ''request/context'')) (\<lambda>_. Inr (unchanged_transition tr e))"
| "event_transition tr e _ = Inr (unchanged_transition tr e)"

definition validateEvent :: "session_trace \<Rightarrow> session_event \<Rightarrow> trace_error + trace_transition" where
  "validateEvent tr e =
     bind_result (ensure (lastSeq tr < ev_seq e) (SeqNotIncreasing (ev_seq e) (lastSeq tr))) (\<lambda>_.
       event_transition tr e (ev_data e))"

fun apply_pending :: "pending_change \<Rightarrow> call_id set \<Rightarrow> call_id set" where
  "apply_pending PendNone P = P"
| "apply_pending (PendAdd c) P = insert c P"
| "apply_pending (PendDelete c) P = P - {c}"
| "apply_pending PendClear P = {}"

definition applyTransition :: "session_trace \<Rightarrow> trace_transition \<Rightarrow> session_trace" where
  "applyTransition tr t =
     \<lparr>lastSeq = tt_lastSeq t, openTurn = tt_openTurn t, openStep = tt_openStep t,
      nextTurn = tt_nextTurn t, nextStep = tt_nextStep t,
      pendingCalls = apply_pending (tt_pendingCalls t) (pendingCalls tr)\<rparr>"

definition trace_step ::
  "session_event list \<Rightarrow> session_trace \<Rightarrow> session_event \<Rightarrow> trace_error + session_trace" where
  "trace_step pre tr e = bind_result (validateEvent tr e) (\<lambda>t. Inr (applyTransition tr t))"

text \<open>\<open>seedSession\<close>: replay a session's existing events into a fresh trace.\<close>

definition seedSession :: "session_event list \<Rightarrow> trace_error + session_trace" where
  "seedSession es = replay_from trace_step [] freshTrace es"

section \<open>The companion\<close>

text \<open>
  The companion keeps one trace per session and one staged transition per dispatched event. Dispatch
  validates and stages; another listener may then veto the event; publication applies the staged
  transition. Events are keyed by identity in the source; within one session an event is identified
  by its value here, since its sequence is part of it.
\<close>

record companion =
  co_traces :: "session_id \<rightharpoonup> session_trace"
  co_staged :: "(session_id \<times> session_event) \<rightharpoonup> trace_transition"

definition traceFor ::
  "companion \<Rightarrow> session_id \<Rightarrow> session_event list \<Rightarrow> trace_error + session_trace" where
  "traceFor co sid evs = (case co_traces co sid of Some tr \<Rightarrow> Inr tr | None \<Rightarrow> seedSession evs)"

definition companion_created ::
  "companion \<Rightarrow> session_id \<Rightarrow> session_event list \<Rightarrow> trace_error + companion" where
  "companion_created co sid evs =
     bind_result (seedSession evs) (\<lambda>tr. Inr (co\<lparr>co_traces := (co_traces co)(sid \<mapsto> tr)\<rparr>))"

definition companion_dispatch ::
  "companion \<Rightarrow> session_id \<Rightarrow> session_event list \<Rightarrow> session_event \<Rightarrow> trace_error + companion" where
  "companion_dispatch co sid evs e =
     bind_result (traceFor co sid evs) (\<lambda>tr.
     bind_result (validateEvent tr e) (\<lambda>t.
       Inr (co\<lparr>co_traces := (co_traces co)(sid \<mapsto> tr), co_staged := (co_staged co)((sid, e) \<mapsto> t)\<rparr>)))"

definition companion_publish ::
  "companion \<Rightarrow> session_id \<Rightarrow> session_event \<Rightarrow> trace_error + companion" where
  "companion_publish co sid e =
     (case (co_staged co (sid, e), co_traces co sid) of
        (Some t, Some tr) \<Rightarrow>
          Inr (co\<lparr>co_staged := (co_staged co)((sid, e) := None),
                  co_traces := (co_traces co)(sid \<mapsto> applyTransition tr t)\<rparr>)
      | _ \<Rightarrow> Inl NoMatchingValidation)"

section \<open>What an accepted log is\<close>

fun started_turn :: "event_data \<Rightarrow> int option" where
  "started_turn (TurnStart t) = Some t"
| "started_turn _ = None"

fun ended_turn :: "event_data \<Rightarrow> int option" where
  "ended_turn (TurnEnd t _) = Some t"
| "ended_turn _ = None"

definition turn_starts :: "session_event list \<Rightarrow> int list" where
  "turn_starts es = List.map_filter (\<lambda>e. started_turn (ev_data e)) es"

definition turn_ends :: "session_event list \<Rightarrow> int list" where
  "turn_ends es = List.map_filter (\<lambda>e. ended_turn (ev_data e)) es"

definition trace_wf :: "session_trace \<Rightarrow> bool" where
  "trace_wf tr \<longleftrightarrow>
     1 \<le> nextTurn tr \<and>
     (openTurn tr = None \<or> openTurn tr = Some (nextTurn tr)) \<and>
     (openStep tr = None \<or> openStep tr = Some (nextStep tr) \<and> openTurn tr \<noteq> None) \<and>
     (openStep tr = None \<longrightarrow> pendingCalls tr = {})"

definition trace_inv :: "session_event list \<Rightarrow> session_trace \<Rightarrow> bool" where
  "trace_inv es tr \<longleftrightarrow>
     trace_wf tr \<and>
     sorted_wrt (<) (map ev_seq es) \<and> (\<forall>e \<in> set es. ev_seq e \<le> lastSeq tr) \<and>
     turn_ends es = [1..nextTurn tr - 1] \<and>
     turn_starts es = [1..nextTurn tr - 1] @ (if openTurn tr = None then [] else [nextTurn tr])"

lemma turn_starts_snoc [simp]:
  "turn_starts (es @ [e]) = turn_starts es @ (case started_turn (ev_data e) of None \<Rightarrow> [] | Some t \<Rightarrow> [t])"
  by (simp add: turn_starts_def map_filter_def split: option.splits)

lemma turn_ends_snoc [simp]:
  "turn_ends (es @ [e]) = turn_ends es @ (case ended_turn (ev_data e) of None \<Rightarrow> [] | Some t \<Rightarrow> [t])"
  by (simp add: turn_ends_def map_filter_def split: option.splits)

lemma trace_step_seq:
  "trace_step pre tr e = Inr tr' \<Longrightarrow> lastSeq tr < ev_seq e \<and> lastSeq tr' = ev_seq e"
  by (cases "ev_data e")
    (auto simp: trace_step_def validateEvent_def result_simps applyTransition_def
      unchanged_transition_def requireOpenStep_def Let_def split: if_splits option.splits)

lemma trace_step_wf:
  "trace_wf tr \<Longrightarrow> trace_step pre tr e = Inr tr' \<Longrightarrow> trace_wf tr'"
  by (cases "ev_data e")
    (auto simp: trace_step_def validateEvent_def result_simps applyTransition_def trace_wf_def
      unchanged_transition_def requireOpenStep_def Let_def split: if_splits option.splits)

text \<open>How an accepted event moves the turn cursor.\<close>

lemma trace_step_turns:
  assumes "trace_step pre tr e = Inr tr'"
  shows "(\<exists>t. ev_data e = TurnStart t \<and> t = nextTurn tr \<and> openTurn tr = None \<and>
            openTurn tr' = Some t \<and> nextTurn tr' = nextTurn tr) \<or>
    (\<exists>t r. ev_data e = TurnEnd t r \<and> openTurn tr = Some t \<and> openTurn tr' = None \<and>
            nextTurn tr' = nextTurn tr + 1) \<or>
    (started_turn (ev_data e) = None \<and> ended_turn (ev_data e) = None \<and>
      openTurn tr' = openTurn tr \<and> nextTurn tr' = nextTurn tr)"
  using assms
  by (cases "ev_data e")
    (auto simp: trace_step_def validateEvent_def result_simps applyTransition_def
      unchanged_transition_def requireOpenStep_def Let_def split: if_splits option.splits)

lemma trace_step_inv:
  assumes inv: "trace_inv pre tr" and step: "trace_step pre tr e = Inr tr'"
  shows "trace_inv (pre @ [e]) tr'"
proof -
  have wf: "trace_wf tr" "1 \<le> nextTurn tr" using inv by (simp_all add: trace_inv_def trace_wf_def)
  have wf': "trace_wf tr'" by (rule trace_step_wf [OF wf(1) step])
  note seq = trace_step_seq [OF step]
  have sorted: "sorted_wrt (<) (map ev_seq (pre @ [e])) \<and> (\<forall>x \<in> set (pre @ [e]). ev_seq x \<le> lastSeq tr')"
    using inv seq by (fastforce simp: trace_inv_def sorted_wrt_append)
  have up: "[1..nextTurn tr] = [1..nextTurn tr - 1] @ [nextTurn tr]"
    using wf(2) by (simp add: upto_rec2)
  have "turn_ends (pre @ [e]) = [1..nextTurn tr' - 1] \<and>
    turn_starts (pre @ [e]) = [1..nextTurn tr' - 1] @ (if openTurn tr' = None then [] else [nextTurn tr'])"
    using trace_step_turns [OF step] inv wf up by (auto simp: trace_inv_def trace_wf_def)
  with wf' sorted show ?thesis by (simp add: trace_inv_def)
qed

interpretation trace: log_replay trace_step freshTrace trace_inv
proof
  show "trace_inv [] freshTrace"
    by (simp add: trace_inv_def trace_wf_def freshTrace_def turn_starts_def turn_ends_def map_filter_def)
next
  fix pre tr e tr'
  assume "trace_inv pre tr" "trace_step pre tr e = Inr tr'"
  then show "trace_inv (pre @ [e]) tr'" by (rule trace_step_inv)
qed

lemma seedSession_project: "seedSession es = trace.project es"
  by (simp add: seedSession_def trace.project_def)

section \<open>The companion tracks committed logs\<close>

definition new_companion :: companion where
  "new_companion = \<lparr>co_traces = Map.empty, co_staged = Map.empty\<rparr>"

text \<open>
  The runs of the companion over all sessions. A veto leaves a staged transition behind without
  committing its event.
\<close>

inductive companion_run :: "companion \<Rightarrow> (session_id \<rightharpoonup> session_event list) \<Rightarrow> bool" where
  run_install: "companion_run new_companion Map.empty"
| run_created: "companion_run co lgs \<Longrightarrow> companion_created co sid evs = Inr co' \<Longrightarrow>
    companion_run co' (lgs(sid \<mapsto> evs))"
| run_veto: "companion_run co lgs \<Longrightarrow> lgs sid = Some lg \<Longrightarrow> companion_dispatch co sid lg e = Inr co' \<Longrightarrow>
    companion_run co' lgs"
| run_commit: "companion_run co lgs \<Longrightarrow> lgs sid = Some lg \<Longrightarrow> companion_dispatch co sid lg e = Inr co1 \<Longrightarrow>
    companion_publish co1 sid e = Inr co' \<Longrightarrow> companion_run co' (lgs(sid \<mapsto> lg @ [e]))"

lemma companion_dispatch_Inr:
  assumes "companion_dispatch co sid lg e = Inr co'" "co_traces co sid = Some tr"
  obtains t where "validateEvent tr e = Inr t" "co_traces co' = co_traces co"
    "co_staged co' (sid, e) = Some t"
proof -
  from assms obtain t where v: "validateEvent tr e = Inr t"
    and co': "co' = co\<lparr>co_traces := (co_traces co)(sid \<mapsto> tr), co_staged := (co_staged co)((sid, e) \<mapsto> t)\<rparr>"
    by (auto simp: companion_dispatch_def traceFor_def result_simps)
  moreover have "co_traces co' = co_traces co" using co' assms(2) by auto
  ultimately show thesis using that by simp
qed

lemma companion_run_traces:
  "companion_run co lgs \<Longrightarrow> lgs sid = Some lg \<Longrightarrow>
    \<exists>tr. co_traces co sid = Some tr \<and> seedSession lg = Inr tr"
proof (induction arbitrary: sid lg rule: companion_run.induct)
  case (run_created co lgs sid0 evs co')
  from run_created.hyps(2) obtain tr where "seedSession evs = Inr tr"
    "co' = co\<lparr>co_traces := (co_traces co)(sid0 \<mapsto> tr)\<rparr>"
    by (auto simp: companion_created_def result_simps)
  with run_created.IH run_created.prems show ?case by (auto split: if_splits)
next
  case (run_veto co lgs sid0 lg0 e co')
  from run_veto.IH [OF run_veto.hyps(2)] obtain tr where "co_traces co sid0 = Some tr" by blast
  from companion_dispatch_Inr [OF run_veto.hyps(3) this] have "co_traces co' = co_traces co" by blast
  with run_veto.IH run_veto.prems show ?case by simp
next
  case (run_commit co lgs sid0 lg0 e co1 co')
  from run_commit.IH [OF run_commit.hyps(2)] obtain tr where
    tr: "co_traces co sid0 = Some tr" "seedSession lg0 = Inr tr" by blast
  from companion_dispatch_Inr [OF run_commit.hyps(3) tr(1)] obtain t where
    t: "validateEvent tr e = Inr t" "co_traces co1 = co_traces co" "co_staged co1 (sid0, e) = Some t" .
  with run_commit.hyps(4) tr have co': "co_traces co' = (co_traces co)(sid0 \<mapsto> applyTransition tr t)"
    by (auto simp: companion_publish_def)
  have "seedSession (lg0 @ [e]) = Inr (applyTransition tr t)"
    using tr(2) t(1) by (simp add: seedSession_project trace.project_snoc trace_step_def)
  with co' run_commit.IH run_commit.prems show ?case by (auto split: if_splits)
qed simp

section \<open>Claims\<close>

definition sample_trace_log :: "session_event list" where
  "sample_trace_log = [sample_event 0 (TurnStart 1) None None, sample_event 1 (StepStart 1 1) None None,
     sample_event 2 (StepEnd 1 1) None None, sample_event 3 (TurnEnd 1 TurnCompleted) None None,
     sample_event 4 (TurnStart 2) None None]"

definition sample_trace :: session_trace where
  "sample_trace = \<lparr>lastSeq = 4, openTurn = Some 2, openStep = None, nextTurn = 2, nextStep = 1, pendingCalls = {}\<rparr>"

lemma seedSession_sample: "seedSession sample_trace_log = Inr sample_trace"
  by (simp add: seedSession_def sample_trace_log_def sample_event_def trace_step_def validateEvent_def
      freshTrace_def applyTransition_def unchanged_transition_def requireOpenStep_def sample_trace_def)

text \<open>
  C6. An accepted log is well bracketed: sequences strictly increase, turns are started in the order
  1, 2, 3, ... and each is ended before the next one starts, at most one turn is open, a step is open
  only inside the open turn, and no call is pending outside a step.
\<close>

theorem accepted_log_bracketed:
  assumes "seedSession es = Inr tr"
  shows "sorted_wrt (<) (map ev_seq es) \<and> turn_ends es = [1..nextTurn tr - 1] \<and>
    turn_starts es = [1..nextTurn tr - 1] @ (if openTurn tr = None then [] else [nextTurn tr]) \<and>
    (openStep tr \<noteq> None \<longrightarrow> openTurn tr = Some (nextTurn tr)) \<and>
    (openStep tr = None \<longrightarrow> pendingCalls tr = {})"
proof -
  have "trace_inv es tr" using assms trace.project_inv by (simp add: seedSession_project)
  then show ?thesis by (auto simp: trace_inv_def trace_wf_def)
qed

theorem accepted_log_bracketed_witness:
  "turn_starts sample_trace_log = [1, 2] \<and> turn_ends sample_trace_log = [1]"
  using accepted_log_bracketed [OF seedSession_sample] by (simp add: sample_trace_def)

text \<open>
  The invariant companion is exact across vetoes: after any run of session creations, vetoed
  dispatches and commits over any number of sessions, the committed trace of each session is the
  replay of its committed log, and publishing an event that was just dispatched never fails.
\<close>

theorem companion_tracks_log:
  assumes "companion_run co lgs" "lgs sid = Some lg"
  shows "(\<exists>tr. co_traces co sid = Some tr \<and> seedSession lg = Inr tr) \<and>
    (\<forall>e co1. companion_dispatch co sid lg e = Inr co1 \<longrightarrow> (\<exists>co2. companion_publish co1 sid e = Inr co2))"
proof (intro conjI allI impI)
  from companion_run_traces [OF assms] obtain tr where
    tr: "co_traces co sid = Some tr" "seedSession lg = Inr tr" by blast
  then show "\<exists>tr. co_traces co sid = Some tr \<and> seedSession lg = Inr tr" by blast
  fix e co1
  assume "companion_dispatch co sid lg e = Inr co1"
  from companion_dispatch_Inr [OF this tr(1)] tr(1) show "\<exists>co2. companion_publish co1 sid e = Inr co2"
    by (metis (no_types, lifting) companion_publish_def case_prod_conv option.simps(5))
qed

theorem companion_tracks_log_witness:
  "\<exists>co tr. companion_run co [''s'' \<mapsto> sample_trace_log] \<and> co_traces co ''s'' = Some tr \<and> lastSeq tr = 4"
proof -
  let ?co = "new_companion\<lparr>co_traces := [''s'' \<mapsto> sample_trace]\<rparr>"
  have "companion_created new_companion ''s'' sample_trace_log = Inr ?co"
    by (simp add: companion_created_def seedSession_sample new_companion_def)
  from run_created [OF run_install this] have run: "companion_run ?co [''s'' \<mapsto> sample_trace_log]" .
  from companion_tracks_log [OF run, of "''s''"] seedSession_sample run show ?thesis
    by (auto simp: sample_trace_def)
qed

end
