(* ===== verification/Repair.thy ===== *)
theory Repair
  imports Session_Trace
begin

text \<open>
  Crash recovery of a session log, \<open>core/session/src/repair.ts\<close>: one scan finds the open tail turn,
  its open step and the tool calls without a result; the synthetic closers answer those calls and
  close the step and the turn. The theorems show that the repaired log is accepted by the session
  invariants of \<open>Session_Trace\<close> and by the surface fold, that every requested call is answered,
  and that a repaired log needs no repair.
\<close>

section \<open>Scanning the log\<close>

record repair_scan =
  rs_openTurn :: "int option"
  rs_openStep :: "int option"
  rs_pendingCalls :: "(call_id \<times> int \<times> int option) list"

definition fresh_scan :: repair_scan where
  "fresh_scan = \<lparr>rs_openTurn = None, rs_openStep = None, rs_pendingCalls = []\<rparr>"

fun register_calls ::
  "int \<Rightarrow> content_block list \<Rightarrow> (call_id \<times> int \<times> int option) list \<Rightarrow> (call_id \<times> int \<times> int option) list" where
  "register_calls step [] pend = pend"
| "register_calls step (b # bs) pend =
     register_calls step bs
       (case b of ToolCallBlock c _ _ \<Rightarrow> map_set c (step, None) pend | _ \<Rightarrow> pend)"

definition scan_event :: "repair_scan \<Rightarrow> session_event \<Rightarrow> repair_scan" where
  "scan_event sc e =
     (case ev_data e of
        TurnStart turn \<Rightarrow> \<lparr>rs_openTurn = Some turn, rs_openStep = None, rs_pendingCalls = []\<rparr>
      | TurnEnd _ _ \<Rightarrow> \<lparr>rs_openTurn = None, rs_openStep = None, rs_pendingCalls = []\<rparr>
      | StepStart _ step \<Rightarrow> sc\<lparr>rs_openStep := Some step\<rparr>
      | StepEnd _ _ \<Rightarrow> sc\<lparr>rs_openStep := None, rs_pendingCalls := []\<rparr>
      | AssistantMessage _ step m _ _ \<Rightarrow>
          sc\<lparr>rs_pendingCalls := register_calls step (msg_content m) (rs_pendingCalls sc)\<rparr>
      | ToolCall _ _ callId _ _ \<Rightarrow>
          (case map_of (rs_pendingCalls sc) callId of
             Some (step, _) \<Rightarrow>
               sc\<lparr>rs_pendingCalls := map_set callId (step, Some (ev_seq e)) (rs_pendingCalls sc)\<rparr>
           | None \<Rightarrow> sc)
      | ToolResult _ _ m _ _ \<Rightarrow>
          (case source_callId (msg_source m) of
             Some callId \<Rightarrow> sc\<lparr>rs_pendingCalls := map_delete callId (rs_pendingCalls sc)\<rparr>
           | None \<Rightarrow> sc)
      | _ \<Rightarrow> sc)"

definition scan_log :: "session_event list \<Rightarrow> repair_scan" where
  "scan_log es = foldl scan_event fresh_scan es"

section \<open>The synthetic closers\<close>

definition outcome_unknown_text :: string where
  "outcome_unknown_text = ''The tool call was interrupted after it was recorded, but no result was durably recorded. Its outcome is unknown. Decide whether to retry from the tool semantics: retry only if the operation is read-only or idempotent; if it may have side effects, first verify external state or ask the user. Do not retry blindly.''"

definition not_started_text :: string where
  "not_started_text = ''The tool call was interrupted before the Harness recorded it as started. Retry it if it is still needed.''"

definition call_closer ::
  "int \<Rightarrow> int \<Rightarrow> int \<Rightarrow> call_id \<Rightarrow> int \<Rightarrow> int option \<Rightarrow> session_event" where
  "call_closer turn time seq callId step callSeq =
     \<lparr>ev_seq = seq, ev_time = time,
      ev_data = ToolResult turn step
        \<lparr>msg_id = ''interrupted-tool-result-'' @ callId @ ''-'' @ int_string seq,
         msg_role = UserRole,
         msg_content = [ToolResultBlock callId
           [TextBlock (if callSeq \<noteq> None then outcome_unknown_text else not_started_text)] (Some True) None],
         msg_source = ToolSource callId\<rparr>
        (Some (if callSeq \<noteq> None then (''ToolOutcomeUnknownError'', TOOL_OUTCOME_UNKNOWN)
               else (''ToolNotStartedError'', TOOL_NOT_STARTED)))
        None,
      ev_surfaceOp = Some (JStr ''append''),
      ev_sourceEventSeqs = map_option (\<lambda>s. JArr [JNum (of_int s)]) callSeq,
      ev_ignorable = False\<rparr>"

fun call_closers ::
  "int \<Rightarrow> int \<Rightarrow> int \<Rightarrow> (call_id \<times> int \<times> int option) list \<Rightarrow> session_event list" where
  "call_closers turn time seq [] = []"
| "call_closers turn time seq ((callId, step, callSeq) # rest) =
     call_closer turn time seq callId step callSeq # call_closers turn time (seq + 1) rest"

definition boundary_event :: "int \<Rightarrow> int \<Rightarrow> event_data \<Rightarrow> session_event" where
  "boundary_event time seq d =
     \<lparr>ev_seq = seq, ev_time = time, ev_data = d, ev_surfaceOp = None, ev_sourceEventSeqs = None,
      ev_ignorable = False\<rparr>"

definition boundary_closers :: "int \<Rightarrow> int \<Rightarrow> int \<Rightarrow> int option \<Rightarrow> session_event list" where
  "boundary_closers turn time seq ostep =
     (case ostep of
        Some step \<Rightarrow> [boundary_event time seq (StepEnd turn step),
                      boundary_event time (seq + 1) (TurnEnd turn TurnInterrupted)]
      | None \<Rightarrow> [boundary_event time seq (TurnEnd turn TurnInterrupted)])"

definition interruptedTurnClosers :: "session_event list \<Rightarrow> session_event list" where
  "interruptedTurnClosers es =
     (let sc = scan_log es in
      case rs_openTurn sc of
        None \<Rightarrow> []
      | Some turn \<Rightarrow>
          if es = [] then []
          else
            let seq = ev_seq (last es) + 1; time = ev_time (last es);
                calls = call_closers turn time seq (rs_pendingCalls sc)
            in calls @ boundary_closers turn time (seq + int (length calls)) (rs_openStep sc))"

section \<open>The scan follows the trace\<close>

lemma scan_log_snoc [simp]: "scan_log (es @ [e]) = scan_event (scan_log es) e"
  by (simp add: scan_log_def)

definition call_tracked ::
  "session_event list \<Rightarrow> session_trace \<Rightarrow> call_id \<times> int \<times> int option \<Rightarrow> bool" where
  "call_tracked es tr p \<longleftrightarrow>
     (case p of (c, step, callSeq) \<Rightarrow>
        openStep tr = Some step \<and>
        (case callSeq of None \<Rightarrow> True | Some s \<Rightarrow> c \<in> pendingCalls tr \<and> s \<in> ev_seq ` set es))"

definition scan_tracks :: "session_event list \<Rightarrow> session_trace \<Rightarrow> repair_scan \<Rightarrow> bool" where
  "scan_tracks es tr sc \<longleftrightarrow>
     rs_openTurn sc = openTurn tr \<and> rs_openStep sc = openStep tr \<and>
     distinct (map_keys (rs_pendingCalls sc)) \<and>
     list_all (call_tracked es tr) (rs_pendingCalls sc)"

lemma register_calls_distinct:
  "distinct (map_keys pend) \<Longrightarrow> distinct (map_keys (register_calls step bs pend))"
  by (induction bs arbitrary: pend) (auto split: content_block.split)

lemma set_map_set: "set (map_set k v xs) \<subseteq> insert (k, v) (set xs)"
proof (induction xs)
  case (Cons p xs)
  then show ?case by (cases p) auto
qed simp

lemma set_map_delete: "set (map_delete k xs) = {p \<in> set xs. fst p \<noteq> k}"
  by (auto simp: AList.delete_eq)

lemma register_calls_all:
  assumes "list_all P pend" "\<And>c. P (c, step, None)"
  shows "list_all P (register_calls step bs pend)"
  using assms
proof (induction bs arbitrary: pend)
  case (Cons b bs)
  have "list_all P (case b of ToolCallBlock c _ _ \<Rightarrow> map_set c (step, None) pend | _ \<Rightarrow> pend)"
    using Cons.prems set_map_set by (fastforce simp: list_all_iff split: content_block.split)
  with Cons show ?case by simp
qed simp

lemma call_tracked_mono:
  "call_tracked es tr p \<Longrightarrow> openStep tr' = openStep tr \<Longrightarrow>
   (fst p \<in> pendingCalls tr \<Longrightarrow> fst p \<in> pendingCalls tr') \<Longrightarrow> call_tracked (es @ xs) tr' p"
  by (auto simp: call_tracked_def split: option.splits)

lemma scan_tracks_step:
  assumes sc: "scan_tracks es tr sc" and wf: "trace_wf tr" and step: "trace_step es tr e = Inr tr'"
  shows "scan_tracks (es @ [e]) tr' (scan_event sc e)"
proof -
  have keep: "list_all (call_tracked (es @ [e]) tr') (rs_pendingCalls sc)"
    if "openStep tr' = openStep tr" "pendingCalls tr \<subseteq> pendingCalls tr'"
    using sc that call_tracked_mono by (fastforce simp: scan_tracks_def list_all_iff)
  have drop: "list_all (call_tracked (es @ [e]) tr') (map_delete c (rs_pendingCalls sc))"
    if "openStep tr' = openStep tr" "pendingCalls tr - {c} \<subseteq> pendingCalls tr'" for c
    using sc that call_tracked_mono by (fastforce simp: scan_tracks_def list_all_iff set_map_delete)
  note unf = trace_step_def validateEvent_def result_simps applyTransition_def unchanged_transition_def
    requireOpenStep_def
  have idle: "rs_pendingCalls sc = []" if "openStep tr = None"
    using sc that by (cases "rs_pendingCalls sc") (auto simp: scan_tracks_def call_tracked_def)
  show ?thesis
  proof (cases "ev_data e")
    case (AssistantMessage t s m u i)
    with step have tr': "openStep tr = Some s" "openTurn tr' = openTurn tr"
      "openStep tr' = openStep tr" "pendingCalls tr' = pendingCalls tr"
      by (auto simp: unf)
    have "call_tracked (es @ [e]) tr' (c, s, None)" for c using tr' by (simp add: call_tracked_def)
    with keep tr' have "list_all (call_tracked (es @ [e]) tr') (register_calls s (msg_content m) (rs_pendingCalls sc))"
      by (intro register_calls_all) simp_all
    with AssistantMessage tr' sc show ?thesis
      by (simp add: scan_tracks_def scan_event_def register_calls_distinct)
  next
    case (ToolCall t s c n a)
    with step have tr': "openTurn tr' = openTurn tr"
      "openStep tr' = openStep tr" "pendingCalls tr' = insert c (pendingCalls tr)"
      by (auto simp: unf)
    show ?thesis
    proof (cases "map_of (rs_pendingCalls sc) c")
      case None
      with keep tr' ToolCall sc show ?thesis by (auto simp: scan_tracks_def scan_event_def)
    next
      case (Some p)
      obtain st q where p: "p = (st, q)" by (cases p)
      with Some have "(c, st, q) \<in> set (rs_pendingCalls sc)" by (auto dest: map_of_SomeD)
      with sc have "openStep tr = Some st" by (auto simp: scan_tracks_def list_all_iff call_tracked_def)
      with tr' have "call_tracked (es @ [e]) tr' (c, st, Some (ev_seq e))" by (simp add: call_tracked_def)
      with keep tr' set_map_set
      have "list_all (call_tracked (es @ [e]) tr') (map_set c (st, Some (ev_seq e)) (rs_pendingCalls sc))"
        by (fastforce simp: list_all_iff)
      with Some p tr' ToolCall sc show ?thesis by (simp add: scan_tracks_def scan_event_def)
    qed
  next
    case (ToolResult t s m err meta)
    have dist: "distinct (map_keys (map_delete c (rs_pendingCalls sc)))" for c
      using sc by (auto simp: scan_tracks_def intro: AList.distinct_delete)
    from ToolResult step have tr': "openTurn tr' = openTurn tr" "openStep tr' = openStep tr"
      "\<And>c. source_callId (msg_source m) = Some c \<Longrightarrow> pendingCalls tr - {c} \<subseteq> pendingCalls tr'"
      "source_callId (msg_source m) = None \<Longrightarrow> pendingCalls tr \<subseteq> pendingCalls tr'"
      by (auto simp: unf Let_def split: if_splits option.splits)
    with ToolResult sc keep drop dist show ?thesis
      by (auto simp: scan_tracks_def scan_event_def split: option.split)
  next
    case (OtherEvent x y)
    with step sc keep show ?thesis by (auto simp: unf scan_tracks_def scan_event_def)
  qed (use step sc wf keep idle in \<open>auto simp: unf scan_tracks_def scan_event_def trace_wf_def Let_def split: if_splits\<close>)
qed

lemma scan_log_tracks: "trace.project es = Inr tr \<Longrightarrow> scan_tracks es tr (scan_log es)"
proof (induction es arbitrary: tr rule: rev_induct)
  case Nil
  then have "tr = freshTrace" by simp
  then show ?case by (simp add: scan_tracks_def scan_log_def fresh_scan_def freshTrace_def)
next
  case (snoc e es)
  then obtain tr0 where tr0: "trace.project es = Inr tr0" "trace_step es tr0 e = Inr tr"
    by (auto simp: trace.project_snoc result_simps)
  have "trace_wf tr0" using trace.project_inv [OF tr0(1)] by (simp add: trace_inv_def)
  with scan_tracks_step [OF snoc.IH [OF tr0(1)] _ tr0(2)] show ?case by simp
qed

section \<open>The closers are accepted\<close>

lemma call_closers_replay:
  assumes "list_all (call_tracked es tr) pend" "distinct (map_keys pend)"
    "openTurn tr = Some turn" "lastSeq tr < seq"
  shows "\<exists>tr'. replay_from trace_step pre tr (call_closers turn time seq pend) = Inr tr' \<and>
    openTurn tr' = openTurn tr \<and> openStep tr' = openStep tr \<and>
    lastSeq tr' < seq + int (length (call_closers turn time seq pend))"
  using assms
proof (induction pend arbitrary: tr seq pre)
  case (Cons p pend)
  obtain c st cs where p: "p = (c, st, cs)" by (cases p) auto
  let ?e = "call_closer turn time seq c st cs"
  let ?tr = "tr\<lparr>lastSeq := seq, pendingCalls := pendingCalls tr - {c}\<rparr>"
  have ct: "openStep tr = Some st" "cs \<noteq> None \<longrightarrow> c \<in> pendingCalls tr"
    using Cons.prems(1) p by (auto simp: call_tracked_def split: option.splits)
  have step: "trace_step pre tr ?e = Inr ?tr"
    using ct Cons.prems(3,4)
    by (auto simp: trace_step_def validateEvent_def call_closer_def requireOpenStep_def Let_def
        unchanged_transition_def applyTransition_def TOOL_NOT_STARTED_def TOOL_OUTCOME_UNKNOWN_def)
  have "list_all (call_tracked es ?tr) pend"
    using Cons.prems(1,2) p unfolding list_all_iff
    by (auto simp: call_tracked_def image_iff split: option.splits)
  from Cons.IH [OF this, of "seq + 1" "pre @ [?e]"] Cons.prems p step show ?case by auto
qed simp

lemma boundary_closers_replay:
  assumes "openTurn tr = Some turn" "lastSeq tr < seq"
  shows "\<exists>tr'. replay_from trace_step pre tr (boundary_closers turn time seq (openStep tr)) = Inr tr' \<and>
    openTurn tr' = None \<and> openStep tr' = None"
  using assms
  by (auto simp: boundary_closers_def boundary_event_def trace_step_def validateEvent_def requireOpenStep_def
      unchanged_transition_def applyTransition_def split: option.split)

lemma replay_closers:
  assumes "trace.project es = Inr tr"
  shows "\<exists>tr'. trace.project (es @ interruptedTurnClosers es) = Inr tr' \<and> openTurn tr' = None \<and> openStep tr' = None"
proof -
  note tracks = scan_log_tracks [OF assms]
  have inv: "trace_inv es tr" by (rule trace.project_inv [OF assms])
  show ?thesis
  proof (cases "openTurn tr")
    case None
    with tracks inv assms show ?thesis
      by (auto simp: interruptedTurnClosers_def Let_def scan_tracks_def trace_inv_def trace_wf_def)
  next
    case (Some turn)
    have "tr = freshTrace" if "es = []" using that assms by simp
    with Some have ne: "es \<noteq> []" by (auto simp: freshTrace_def)
    obtain es0 e where es: "es = es0 @ [e]" using ne by (metis rev_exhaust)
    then have last: "lastSeq tr = ev_seq (last es)"
      using assms trace_step_seq by (auto simp: trace.project_snoc result_simps)
    let ?seq = "ev_seq (last es) + 1" and ?time = "ev_time (last es)" and ?p = "rs_pendingCalls (scan_log es)"
    let ?calls = "call_closers turn ?time ?seq ?p"
    have closers: "interruptedTurnClosers es =
        ?calls @ boundary_closers turn ?time (?seq + int (length ?calls)) (openStep tr)"
      using Some ne tracks by (simp add: interruptedTurnClosers_def Let_def scan_tracks_def)
    have "\<exists>tr1. replay_from trace_step es tr ?calls = Inr tr1 \<and> openTurn tr1 = openTurn tr \<and>
        openStep tr1 = openStep tr \<and> lastSeq tr1 < ?seq + int (length ?calls)"
      using tracks Some last by (intro call_closers_replay) (auto simp: scan_tracks_def)
    then obtain tr1 where tr1: "replay_from trace_step es tr ?calls = Inr tr1" "openTurn tr1 = Some turn"
      "openStep tr1 = openStep tr" "lastSeq tr1 < ?seq + int (length ?calls)" using Some by auto
    from boundary_closers_replay [OF tr1(2,4), of "es @ ?calls" ?time] tr1(1,3) assms
    show ?thesis by (simp add: closers trace.project_append replay_from_append)
  qed
qed

section \<open>Every requested call is answered\<close>

definition answers :: "call_id \<Rightarrow> session_event \<Rightarrow> bool" where
  "answers c e \<longleftrightarrow>
     (case ev_data e of ToolResult _ _ m _ _ \<Rightarrow> source_callId (msg_source m) = Some c | _ \<Rightarrow> False)"

fun is_boundary :: "event_data \<Rightarrow> bool" where
  "is_boundary (TurnStart _) = True"
| "is_boundary (TurnEnd _ _) = True"
| "is_boundary (StepEnd _ _) = True"
| "is_boundary _ = False"

lemma keys_map_set_iff: "c \<in> fst ` set (map_set k v xs) \<longleftrightarrow> c = k \<or> c \<in> fst ` set xs"
  using keys_map_set [of k v xs] by auto

lemma register_calls_keys:
  "c \<in> fst ` set (register_calls step bs pend) \<longleftrightarrow>
     c \<in> fst ` set pend \<or> (\<exists>n a. ToolCallBlock c n a \<in> set bs)"
  by (induction bs arbitrary: pend) (auto simp: keys_map_set_iff split: content_block.split)

lemma keys_map_delete_iff: "c \<in> fst ` set (map_delete k xs) \<longleftrightarrow> c \<noteq> k \<and> c \<in> fst ` set xs"
  by (auto simp: set_map_delete)

lemma scan_event_keeps:
  assumes "c \<in> fst ` set (rs_pendingCalls sc)" "\<not> is_boundary (ev_data e)" "\<not> answers c e"
  shows "c \<in> fst ` set (rs_pendingCalls (scan_event sc e))"
  using assms
  by (cases "ev_data e")
    (auto simp: scan_event_def answers_def register_calls_keys keys_map_set_iff keys_map_delete_iff
      simp del: fst_eq_Domain split: option.split)

lemma scan_keeps:
  "c \<in> fst ` set (rs_pendingCalls sc) \<Longrightarrow> \<forall>e \<in> set es. \<not> is_boundary (ev_data e) \<and> \<not> answers c e \<Longrightarrow>
    c \<in> fst ` set (rs_pendingCalls (foldl scan_event sc es))"
  by (induction es arbitrary: sc) (simp_all add: scan_event_keeps)

lemma call_closers_answer:
  "c \<in> fst ` set pend \<Longrightarrow> \<exists>e \<in> set (call_closers turn time seq pend). answers c e"
  by (induction turn time seq pend rule: call_closers.induct) (auto simp: call_closer_def answers_def)

lemma closers_answer_pending:
  assumes "trace.project es = Inr tr" "c \<in> fst ` set (rs_pendingCalls (scan_log es))"
  shows "\<exists>e \<in> set (interruptedTurnClosers es). answers c e"
proof -
  note tracks = scan_log_tracks [OF assms(1)]
  have "trace_wf tr" using trace.project_inv [OF assms(1)] by (simp add: trace_inv_def)
  moreover from tracks assms(2) have "openStep tr \<noteq> None"
    by (auto simp: scan_tracks_def list_all_iff call_tracked_def split: prod.splits)
  ultimately obtain turn where "rs_openTurn (scan_log es) = Some turn"
    using tracks by (auto simp: scan_tracks_def trace_wf_def)
  moreover have "es \<noteq> []" using assms(2) by (auto simp: scan_log_def fresh_scan_def)
  ultimately show ?thesis
    using call_closers_answer [OF assms(2)] by (fastforce simp: interruptedTurnClosers_def Let_def)
qed

section \<open>The closers extend the surface\<close>

lemma surface_step_append:
  assumes "ev_seq e = int (length pre)" "isSurfaceEligibleType (event_type (ev_data e))"
    "ev_surfaceOp e = Some (JStr ''append'')" "citedSources e = Inr src"
  shows "surface_step pre (st, reps) e = Inr (st\<lparr>nodes := nodes st @ [ev_seq e]\<rparr>, reps)"
  using assms
  by (simp add: surface_step_def applySurfaceEvent_def planSurfaceEvent_def surfaceOpOf_def assertProvenance_def)

lemma surface_step_log_only:
  assumes "ev_seq e = int (length pre)" "\<not> isSurfaceEligibleType (event_type (ev_data e))"
    "ev_surfaceOp e = None" "ev_sourceEventSeqs e = None"
  shows "surface_step pre s e = Inr s"
  using assms
  by (simp add: surface_step_def applySurfaceEvent_def planSurfaceEvent_def surfaceOpOf_def split_beta)

lemma eligible_tool_result: "isSurfaceEligibleType ''tool/result''"
  by (simp add: isSurfaceEligibleType_def surface_event_types_def)

lemma ineligible_boundaries:
  "\<not> isSurfaceEligibleType ''step/end''" "\<not> isSurfaceEligibleType ''turn/end''"
  by (simp_all add: isSurfaceEligibleType_def surface_event_types_def)

lemma call_closers_eligible:
  "e \<in> set (call_closers turn time seq pend) \<Longrightarrow> isSurfaceEligibleType (event_type (ev_data e))"
  by (induction turn time seq pend rule: call_closers.induct)
    (auto simp: call_closer_def eligible_tool_result)

lemma call_closer_cited:
  assumes "case cs of None \<Rightarrow> True | Some s \<Rightarrow> 0 \<le> s \<and> s < seq \<and> s \<le> max_safe_integer"
  shows "\<exists>src. citedSources (call_closer turn time seq c st cs) = Inr src"
  using assms by (cases cs) (auto simp: citedSources_def call_closer_def isEventSeq_of_int find_None_iff)

lemma call_closers_surface:
  assumes "\<forall>(c, st, cs) \<in> set pend. case cs of None \<Rightarrow> True | Some s \<Rightarrow> 0 \<le> s \<and> s < seq \<and> s \<le> max_safe_integer"
    and "seq = int (length pre)"
  shows "replay_from surface_step pre (sf, reps) (call_closers turn time seq pend) =
    Inr (sf\<lparr>nodes := nodes sf @ map ev_seq (call_closers turn time seq pend)\<rparr>, reps)"
  using assms
proof (induction pend arbitrary: pre seq sf)
  case (Cons p pend)
  obtain c st cs where p: "p = (c, st, cs)" by (cases p) auto
  let ?e = "call_closer turn time seq c st cs"
  obtain src where "citedSources ?e = Inr src"
    using call_closer_cited [of seq cs turn time c st] Cons.prems(1) p by auto
  then have step: "surface_step pre (sf, reps) ?e = Inr (sf\<lparr>nodes := nodes sf @ [ev_seq ?e]\<rparr>, reps)"
    using Cons.prems(2) by (intro surface_step_append) (simp_all add: call_closer_def eligible_tool_result)
  have "\<forall>(c, st, cs) \<in> set pend. case cs of None \<Rightarrow> True | Some s \<Rightarrow> 0 \<le> s \<and> s < seq + 1 \<and> s \<le> max_safe_integer"
    using Cons.prems(1) by (fastforce split: option.splits)
  from Cons.IH [OF this, of "pre @ [?e]" "sf\<lparr>nodes := nodes sf @ [ev_seq ?e]\<rparr>"] Cons.prems(2) step p
  show ?case by simp
qed simp

lemma boundary_closers_surface:
  "seq = int (length pre) \<Longrightarrow> replay_from surface_step pre s (boundary_closers turn time seq ostep) = Inr s"
  by (auto simp: boundary_closers_def boundary_event_def surface_step_log_only ineligible_boundaries
      split: option.split)

lemma surface_inv_last: "surface_inv es s \<Longrightarrow> es \<noteq> [] \<Longrightarrow> ev_seq (last es) + 1 = int (length es)"
proof -
  assume "surface_inv es s" and ne: "es \<noteq> []"
  then have "map ev_seq es = map int [0..<length es]" by (simp add: surface_inv_def)
  then have "map ev_seq es ! (length es - 1) = map int [0..<length es] ! (length es - 1)" by simp
  with ne have "ev_seq (last es) = int (length es - 1)" by (simp add: last_conv_nth)
  with ne show ?thesis by (cases es) simp_all
qed

lemma surface_inv_seq_range: "surface_inv es s \<Longrightarrow> e \<in> set es \<Longrightarrow> 0 \<le> ev_seq e \<and> ev_seq e < int (length es)"
proof -
  assume "surface_inv es s" and e: "e \<in> set es"
  then have "map ev_seq es = map int [0..<length es]" by (simp add: surface_inv_def)
  then have "set (map ev_seq es) = set (map int [0..<length es])" by (rule arg_cong)
  with e have "ev_seq e \<in> int ` {0..<length es}" by (metis imageI image_set set_upt)
  then show ?thesis by auto
qed

section \<open>Claims\<close>

definition sample_crash_log :: "session_event list" where
  "sample_crash_log =
     [sample_event 0 (TurnStart 1) None None,
      sample_event 1 (StepStart 1 1) None None,
      sample_event 2 (AssistantMessage 1 1 (sample_message ''m1'' AssistantRole
          [ToolCallBlock ''a'' ''ls'' ''{}'', ToolCallBlock ''b'' ''rm'' ''{}''] (ModelSource ''p'' ''m'' None)) None False)
        (Some (JStr ''append'')) None,
      sample_event 3 (ToolCall 1 1 ''b'' ''rm'' ''{}'') None None]"

definition sample_crash_trace :: session_trace where
  "sample_crash_trace = \<lparr>lastSeq = 3, openTurn = Some 1, openStep = Some 1, nextTurn = 1, nextStep = 1,
     pendingCalls = {''b''}\<rparr>"

lemma seedSession_crash: "seedSession sample_crash_log = Inr sample_crash_trace"
  by (simp add: seedSession_def sample_crash_log_def sample_event_def trace_step_def validateEvent_def
      freshTrace_def applyTransition_def unchanged_transition_def requireOpenStep_def sample_crash_trace_def)

lemma foldSurface_crash: "foldSurface sample_crash_log = Inr ([2], [])"
  by code_simp

lemma closers_crash:
  "map (\<lambda>e. event_type (ev_data e)) (interruptedTurnClosers sample_crash_log)
     = [''tool/result'', ''tool/result'', ''step/end'', ''turn/end'']"
  by code_simp

text \<open>
  C8. Repair restores the session invariants: the closers extend every accepted log to an accepted
  log with no open turn and no open step, and a repaired log needs no further closers.
\<close>

theorem repair_restores_invariants:
  assumes "seedSession es = Inr tr"
  shows "\<exists>tr'. seedSession (es @ interruptedTurnClosers es) = Inr tr' \<and> openTurn tr' = None \<and>
    openStep tr' = None \<and> interruptedTurnClosers (es @ interruptedTurnClosers es) = []"
proof -
  from assms replay_closers obtain tr' where tr':
    "trace.project (es @ interruptedTurnClosers es) = Inr tr'" "openTurn tr' = None" "openStep tr' = None"
    by (fastforce simp: seedSession_project)
  have "rs_openTurn (scan_log (es @ interruptedTurnClosers es)) = None"
    using scan_log_tracks [OF tr'(1)] tr'(2) by (simp add: scan_tracks_def)
  then have "interruptedTurnClosers (es @ interruptedTurnClosers es) = []"
    by (subst interruptedTurnClosers_def) (simp add: Let_def)
  with tr' show ?thesis by (simp add: seedSession_project)
qed

theorem repair_restores_invariants_witness:
  "\<exists>tr'. seedSession (sample_crash_log @ interruptedTurnClosers sample_crash_log) = Inr tr' \<and>
    openTurn tr' = None \<and> openStep tr' = None"
  using repair_restores_invariants [OF seedSession_crash] by blast

text \<open>
  C9. No dangling calls: in an accepted log, every tool call of an assistant message whose step was
  never closed has a result for its call id later in the repaired log.
\<close>

theorem repair_answers_calls:
  assumes ok: "seedSession (pre @ e # post) = Inr tr"
    and msg: "ev_data e = AssistantMessage t s m u i" "ToolCallBlock c n a \<in> set (msg_content m)"
    and tail: "\<forall>x \<in> set post. \<not> is_boundary (ev_data x)"
  shows "\<exists>r \<in> set (post @ interruptedTurnClosers (pre @ e # post)). answers c r"
proof (cases "\<exists>r \<in> set post. answers c r")
  case False
  have "c \<in> fst ` set (rs_pendingCalls (scan_event (scan_log pre) e))"
    using msg by (auto simp: scan_event_def register_calls_keys)
  then have "c \<in> fst ` set (rs_pendingCalls (scan_log (pre @ e # post)))"
    using scan_keeps [of c "scan_event (scan_log pre) e" post] tail False by (simp add: scan_log_def)
  with closers_answer_pending ok show ?thesis by (fastforce simp: seedSession_project)
qed auto

theorem repair_answers_calls_witness:
  "\<exists>r \<in> set (drop 3 sample_crash_log @ interruptedTurnClosers sample_crash_log). answers ''a'' r"
proof -
  have split: "sample_crash_log = take 2 sample_crash_log @ (sample_crash_log ! 2) # drop 3 sample_crash_log"
    by (simp add: sample_crash_log_def)
  have ok: "seedSession (take 2 sample_crash_log @ (sample_crash_log ! 2) # drop 3 sample_crash_log) = Inr sample_crash_trace"
    using seedSession_crash split by simp
  have "\<forall>x \<in> set (drop 3 sample_crash_log). \<not> is_boundary (ev_data x)"
    by (simp add: sample_crash_log_def sample_event_def)
  moreover have "ev_data (sample_crash_log ! 2) = AssistantMessage 1 1 (sample_message ''m1'' AssistantRole
      [ToolCallBlock ''a'' ''ls'' ''{}'', ToolCallBlock ''b'' ''rm'' ''{}''] (ModelSource ''p'' ''m'' None)) None False"
    by (simp add: sample_crash_log_def sample_event_def)
  moreover have "ToolCallBlock ''a'' ''ls'' ''{}'' \<in> set (msg_content (sample_message ''m1'' AssistantRole
      [ToolCallBlock ''a'' ''ls'' ''{}'', ToolCallBlock ''b'' ''rm'' ''{}''] (ModelSource ''p'' ''m'' None)))"
    by (simp add: sample_message_def)
  ultimately have "\<exists>r \<in> set (drop 3 sample_crash_log @ interruptedTurnClosers
      (take 2 sample_crash_log @ (sample_crash_log ! 2) # drop 3 sample_crash_log)). answers ''a'' r"
    using repair_answers_calls [OF ok] by blast
  then show ?thesis using split by simp
qed

text \<open>
  Repair only appends to the surface: when the log folds, so does the repaired log, its nodes
  are the old nodes followed by the synthetic tool results, and no replacement is added.
\<close>

theorem repair_extends_surface:
  assumes fold: "foldSurface es = Inr (ns, reps)" and ok: "seedSession es = Inr tr"
    and small: "int (length es) \<le> max_safe_integer"
  shows "foldSurface (es @ interruptedTurnClosers es) =
    Inr (ns @ map ev_seq (filter (\<lambda>e. isSurfaceEligibleType (event_type (ev_data e))) (interruptedTurnClosers es)), reps)"
proof (cases "rs_openTurn (scan_log es)")
  case None
  with fold show ?thesis by (simp add: interruptedTurnClosers_def Let_def)
next
  case (Some turn)
  then have ne: "es \<noteq> []" by (auto simp: scan_log_def fresh_scan_def)
  from fold obtain st where st: "surface.project es = Inr (st, reps)" "nodes st = ns" by (auto simp: foldSurface_Inr)
  have inv: "surface_inv es (st, reps)" by (rule surface.project_inv [OF st(1)])
  let ?seq = "ev_seq (last es) + 1" and ?time = "ev_time (last es)" and ?p = "rs_pendingCalls (scan_log es)"
  let ?calls = "call_closers turn ?time ?seq ?p"
  let ?bs = "boundary_closers turn ?time (?seq + int (length ?calls)) (rs_openStep (scan_log es))"
  have closers: "interruptedTurnClosers es = ?calls @ ?bs"
    using Some ne by (simp add: interruptedTurnClosers_def Let_def)
  have seq: "?seq = int (length es)" by (rule surface_inv_last [OF inv ne])
  have tracked: "list_all (call_tracked es tr) ?p"
    using scan_log_tracks ok by (simp add: seedSession_project scan_tracks_def)
  have "case cs of None \<Rightarrow> True | Some s \<Rightarrow> 0 \<le> s \<and> s < ?seq \<and> s \<le> max_safe_integer"
    if "(c, stp, cs) \<in> set ?p" for c stp cs
  proof (cases cs)
    case (Some s)
    with tracked that obtain x where "x \<in> set es" "s = ev_seq x"
      by (fastforce simp: list_all_iff call_tracked_def)
    with surface_inv_seq_range [OF inv] small seq Some show ?thesis by fastforce
  qed simp
  then have "\<forall>(c, stp, cs) \<in> set ?p. case cs of None \<Rightarrow> True | Some s \<Rightarrow> 0 \<le> s \<and> s < ?seq \<and> s \<le> max_safe_integer"
    by blast
  from call_closers_surface [OF this seq, of st reps turn ?time] boundary_closers_surface [of _ "es @ ?calls"] seq
  have "surface.project (es @ interruptedTurnClosers es) = Inr (st\<lparr>nodes := nodes st @ map ev_seq ?calls\<rparr>, reps)"
    by (simp add: closers surface.project_append replay_from_append st(1))
  moreover have "filter (\<lambda>e. isSurfaceEligibleType (event_type (ev_data e))) ?calls = ?calls"
    by (rule filter_True) (simp add: call_closers_eligible)
  moreover have "filter (\<lambda>e. isSurfaceEligibleType (event_type (ev_data e))) ?bs = []"
    by (auto simp: boundary_closers_def boundary_event_def ineligible_boundaries split: option.split)
  ultimately show ?thesis by (simp add: foldSurface_project closers st(2))
qed

theorem repair_extends_surface_witness:
  "foldSurface (sample_crash_log @ interruptedTurnClosers sample_crash_log) = Inr ([2, 4, 5], [])"
proof -
  have "int (length sample_crash_log) \<le> max_safe_integer"
    by (simp add: sample_crash_log_def max_safe_integer_def)
  moreover have "map ev_seq (filter (\<lambda>e. isSurfaceEligibleType (event_type (ev_data e)))
      (interruptedTurnClosers sample_crash_log)) = [4, 5]" by code_simp
  ultimately show ?thesis
    using repair_extends_surface [OF foldSurface_crash seedSession_crash] by simp
qed

end
