(* ===== verification/Session_Log.thy ===== *)
theory Session_Log
  imports Surface
begin

text \<open>
  The event-sourced \<open>Session\<close> of \<open>core/session/src/index.ts\<close> with the request-header folds of
  \<open>request-header.ts\<close> and \<open>callConfigEquals\<close> of \<open>llm/src/call-config.ts\<close>: header and seed
  validation, the constructor, \<open>append\<close>, the cached event snapshot and the three incremental
  projections (\<open>requestHeader\<close>, \<open>requestContext\<close>, \<open>deriveMessages\<close>). Event data is typed here, so
  the lossless-JSON snapshot of the data is the data itself and its rejection branch does not
  occur; freezing is the immutability of values. The theorems show that the log only grows by
  accepted events and that every cached projection equals its full recomputation.
\<close>

section \<open>Request headers\<close>

definition callConfigEquals :: "call_config \<Rightarrow> call_config \<Rightarrow> bool" where
  "callConfigEquals a b \<longleftrightarrow>
     cc_provider a = cc_provider b \<and> cc_model a = cc_model b \<and>
     cc_reasoningEffort a = cc_reasoningEffort b \<and> cc_temperature a = cc_temperature b \<and>
     cc_maxTokens a = cc_maxTokens b \<and>
     (case (cc_stop a, cc_stop b) of
        (Some s, Some t) \<Rightarrow> length s = length t \<and> list_all (\<lambda>(x, y). x = y) (zip s t)
      | (x, y) \<Rightarrow> x = None \<and> y = None)"

definition canonicalHeader :: "epoch_header \<Rightarrow> epoch_header" where
  "canonicalHeader h =
     \<lparr>eh_config = eh_config h,
      eh_adapterDefaults =
        (case eh_adapterDefaults h of
           Some d \<Rightarrow> if ad_reasoningEffort d \<or> ad_maxTokens d then Some d else None
         | None \<Rightarrow> None),
      eh_system = (case eh_system h of Some s \<Rightarrow> if 0 < length s then Some s else None | None \<Rightarrow> None),
      eh_tools = (case eh_tools h of Some ts \<Rightarrow> if 0 < length ts then Some ts else None | None \<Rightarrow> None)\<rparr>"

text \<open>
  Schemas are compared by their serialized text. The text of two JSON values is equal exactly when
  the values are, property order included, which is equality of the schema records.
\<close>

definition sameSchema :: "tool_schema \<Rightarrow> tool_schema \<Rightarrow> bool" where
  "sameSchema a b \<longleftrightarrow> a = b"

definition default_marker :: "(adapter_defaults \<Rightarrow> bool) \<Rightarrow> epoch_header \<Rightarrow> bool" where
  "default_marker f h = (case eh_adapterDefaults h of Some d \<Rightarrow> f d | None \<Rightarrow> False)"

definition headerEquals :: "epoch_header \<Rightarrow> epoch_header \<Rightarrow> bool" where
  "headerEquals a b \<longleftrightarrow>
     callConfigEquals (eh_config a) (eh_config b) \<and>
     default_marker ad_reasoningEffort a = default_marker ad_reasoningEffort b \<and>
     default_marker ad_maxTokens a = default_marker ad_maxTokens b \<and>
     eh_system a = eh_system b \<and>
     (let ats = (case eh_tools a of Some ts \<Rightarrow> ts | None \<Rightarrow> []);
          bts = (case eh_tools b of Some ts \<Rightarrow> ts | None \<Rightarrow> [])
      in length ats = length bts \<and> list_all (\<lambda>(x, y). sameSchema x y) (zip ats bts))"

fun foldRequestHeader :: "session_event list \<Rightarrow> epoch_header option \<Rightarrow> epoch_header option" where
  "foldRequestHeader [] st = st"
| "foldRequestHeader (e # es) st =
     foldRequestHeader es
       (case ev_data e of RequestHeader h _ \<Rightarrow> Some (canonicalHeader h) | _ \<Rightarrow> st)"

fun fold_request_context :: "session_event list \<Rightarrow> request_context option \<Rightarrow> request_context option" where
  "fold_request_context [] st = st"
| "fold_request_context (e # es) st =
     fold_request_context es (case ev_data e of RequestContext c \<Rightarrow> Some c | _ \<Rightarrow> st)"

section \<open>Session headers\<close>

datatype session_error =
    HeaderNotRecord
  | HeaderVersion
  | HeaderId
  | HeaderCreatedAt
  | HeaderCwd
  | HeaderCwdNotAbsolute string
  | HeaderParentSession
  | HeaderSeedLength
  | HeaderOrigin
  | HeaderDelegationDepth
  | HeaderAgentPreset
  | LegacyHeaderDelta
  | LegacyFallbackReason
  | InvalidEnvelope nat
  | HeaderLacksModel nat
  | InvalidReasoningEffort nat
  | InvalidAdapterDefaults nat
  | LacksIdentifiedMessage
  | WrongRole
  | InvalidSource
  | NotModelSource
  | NotToolSource
  | NotOneToolResult
  | MismatchedCallIds
  | SeedSeqMismatch nat int
  | SeedSurface nat surface_error
  | SurfaceRejected surface_error
  | AppendReentered
  | DispatchVetoed

definition SESSION_FORMAT_VERSION :: rat where
  "SESSION_FORMAT_VERSION = 0"

record session_header =
  sh_id :: session_id
  sh_createdAt :: int
  sh_cwd :: "string option"
  sh_parentSession :: "session_id option"
  sh_seedLength :: "int option"
  sh_origin :: bool
  sh_delegationDepth :: "int option"
  sh_agentPreset :: "string option"

text \<open>\<open>path.isAbsolute\<close> on POSIX.\<close>

fun isAbsolute :: "string \<Rightarrow> bool" where
  "isAbsolute [] = False"
| "isAbsolute (c # _) = (c = CHR ''/'')"

definition opt_string :: "json_record \<Rightarrow> string \<Rightarrow> session_error \<Rightarrow> session_error + string option" where
  "opt_string ps k err =
     (case jget ps k of
        None \<Rightarrow> Inr None
      | Some v \<Rightarrow> (case as_string (Some v) of Some s \<Rightarrow> Inr (Some s) | None \<Rightarrow> Inl err))"

definition opt_count :: "json_record \<Rightarrow> string \<Rightarrow> session_error \<Rightarrow> session_error + int option" where
  "opt_count ps k err =
     (case jget ps k of
        None \<Rightarrow> Inr None
      | Some v \<Rightarrow> (case isEventSeq (Some v) of Some i \<Rightarrow> Inr (Some i) | None \<Rightarrow> Inl err))"

definition validateSessionHeader :: "session_id \<Rightarrow> json \<Rightarrow> session_error + session_header" where
  "validateSessionHeader sid input =
     (case as_record input of
        None \<Rightarrow> Inl HeaderNotRecord
      | Some ps \<Rightarrow>
          bind_result (ensure (jget ps ''version'' = Some (JNum SESSION_FORMAT_VERSION)) HeaderVersion) (\<lambda>_.
          bind_result (ensure (jget ps ''id'' = Some (JStr sid)) HeaderId) (\<lambda>_.
          bind_result (case isEventSeq (jget ps ''createdAt'') of Some i \<Rightarrow> Inr i | None \<Rightarrow> Inl HeaderCreatedAt) (\<lambda>createdAt.
          bind_result (opt_string ps ''cwd'' HeaderCwd) (\<lambda>cwd.
          bind_result (case cwd of
              Some p \<Rightarrow> ensure (isAbsolute p) (HeaderCwdNotAbsolute p) | None \<Rightarrow> Inr ()) (\<lambda>_.
          bind_result (opt_string ps ''parentSession'' HeaderParentSession) (\<lambda>parentSession.
          bind_result (opt_count ps ''seedLength'' HeaderSeedLength) (\<lambda>seedLength.
          bind_result (ensure (jget ps ''origin'' = None \<or> jget ps ''origin'' = Some (JStr ''subagent'')) HeaderOrigin) (\<lambda>_.
          bind_result (opt_count ps ''delegationDepth'' HeaderDelegationDepth) (\<lambda>delegationDepth.
          bind_result (opt_string ps ''agentPreset'' HeaderAgentPreset) (\<lambda>agentPreset.
            Inr \<lparr>sh_id = sid, sh_createdAt = createdAt, sh_cwd = cwd, sh_parentSession = parentSession,
                 sh_seedLength = seedLength, sh_origin = (jget ps ''origin'' \<noteq> None),
                 sh_delegationDepth = delegationDepth, sh_agentPreset = agentPreset\<rparr>)))))))))))"

definition header_json :: "session_header \<Rightarrow> json" where
  "header_json h =
     JObj ([(''version'', JNum SESSION_FORMAT_VERSION), (''id'', JStr (sh_id h)),
            (''createdAt'', JNum (of_int (sh_createdAt h)))]
       @ opt_field ''cwd'' JStr (sh_cwd h)
       @ opt_field ''parentSession'' JStr (sh_parentSession h)
       @ opt_field ''seedLength'' (\<lambda>i. JNum (of_int i)) (sh_seedLength h)
       @ opt_field ''origin'' JStr (if sh_origin h then Some ''subagent'' else None)
       @ opt_field ''delegationDepth'' (\<lambda>i. JNum (of_int i)) (sh_delegationDepth h)
       @ opt_field ''agentPreset'' JStr (sh_agentPreset h))"

section \<open>Seed validation\<close>

definition hasProviderModel :: "string \<Rightarrow> string \<Rightarrow> bool" where
  "hasProviderModel p m \<longleftrightarrow> 0 < length p \<and> 0 < length m"

text \<open>
  \<open>assertMessageEventShape\<close> on a typed message: the record tests hold by typing, the remaining ones
  are checked in the order of the source.
\<close>

definition identified :: "message \<Rightarrow> role \<Rightarrow> session_error + unit" where
  "identified m expectedRole =
     bind_result (ensure (msg_id m \<noteq> []) LacksIdentifiedMessage) (\<lambda>_.
     bind_result (ensure (msg_role m = expectedRole) WrongRole) (\<lambda>_.
       ensure (source_kind (msg_source m) \<noteq> []) InvalidSource))"

definition assertMessageEventShape :: "event_data \<Rightarrow> session_error + unit" where
  "assertMessageEventShape d =
     (case d of
        UserMessage m \<Rightarrow> identified m UserRole
      | AssistantMessage _ _ m _ _ \<Rightarrow>
          bind_result (identified m AssistantRole) (\<lambda>_.
            case msg_source m of
              ModelSource p md _ \<Rightarrow> ensure (hasProviderModel p md) NotModelSource
            | _ \<Rightarrow> Inl NotModelSource)
      | ToolResult _ _ m _ _ \<Rightarrow>
          bind_result (identified m UserRole) (\<lambda>_.
            case msg_source m of
              ToolSource c \<Rightarrow>
                bind_result (ensure (c \<noteq> []) NotToolSource) (\<lambda>_.
                  case msg_content m of
                    [ToolResultBlock c' _ _ _] \<Rightarrow> ensure (c' = c) MismatchedCallIds
                  | _ \<Rightarrow> Inl NotOneToolResult)
            | _ \<Rightarrow> Inl NotToolSource)
      | _ \<Rightarrow> Inr ())"

definition assertAdapterDefaults ::
  "adapter_defaults option \<Rightarrow> call_config \<Rightarrow> nat \<Rightarrow> session_error + unit" where
  "assertAdapterDefaults v config index =
     (case v of
        None \<Rightarrow> Inr ()
      | Some d \<Rightarrow>
          ensure (\<not> (ad_reasoningEffort d \<and> cc_reasoningEffort config = None) \<and>
                  \<not> (ad_maxTokens d \<and> cc_maxTokens config = None)) (InvalidAdapterDefaults index))"

definition assertCurrentLlmShape :: "event_data \<Rightarrow> nat \<Rightarrow> session_error + unit" where
  "assertCurrentLlmShape d index =
     (case d of
        RequestHeader h _ \<Rightarrow>
          bind_result (ensure (hasProviderModel (cc_provider (eh_config h)) (cc_model (eh_config h)))
                         (HeaderLacksModel index)) (\<lambda>_.
          bind_result (ensure (cc_reasoningEffort (eh_config h) \<noteq> Some []) (InvalidReasoningEffort index)) (\<lambda>_.
            assertAdapterDefaults (eh_adapterDefaults h) (eh_config h) index))
      | _ \<Rightarrow> assertMessageEventShape d)"

definition assertSessionEventEnvelope :: "session_event \<Rightarrow> nat \<Rightarrow> session_error + unit" where
  "assertSessionEventEnvelope e index =
     bind_result (ensure (event_type (ev_data e) \<noteq> ''request/header-delta'') LegacyHeaderDelta) (\<lambda>_.
     bind_result (ensure (safe_int (ev_seq e) \<and> 0 \<le> ev_seq e \<and> safe_int (ev_time e)) (InvalidEnvelope index)) (\<lambda>_.
       assertCurrentLlmShape (ev_data e) index))"

definition assertSupportedRequestHeader :: "event_data \<Rightarrow> session_error + unit" where
  "assertSupportedRequestHeader d =
     bind_result (ensure (event_type d \<noteq> ''request/header-delta'') LegacyHeaderDelta) (\<lambda>_.
       case d of RequestHeader _ reason \<Rightarrow> ensure (reason \<noteq> ''fallback'') LegacyFallbackReason
       | _ \<Rightarrow> Inr ())"

section \<open>The session\<close>

record session =
  se_header :: session_header
  se_log :: "session_event list"
  se_surface :: surface_manager
  se_firstLiveSeq :: nat
  se_eventsSnapshot :: "session_event list option"
  se_headerFold :: "epoch_header option"
  se_headerFoldSeq :: nat
  se_contextFold :: "request_context option"
  se_contextFoldSeq :: nat
  se_derived :: "message list"
  se_derivedNodes :: nat
  se_derivedGeneration :: nat

record append_opts =
  ao_surfaceOp :: "json option"
  ao_sourceEventSeqs :: "json option"
  ao_ignorable :: bool

definition plain_opts :: append_opts where
  "plain_opts = \<lparr>ao_surfaceOp = None, ao_sourceEventSeqs = None, ao_ignorable = False\<rparr>"

definition session_seq :: "session \<Rightarrow> nat" where
  "session_seq s = length (se_log s)"

definition session_events :: "session \<Rightarrow> session \<times> session_event list" where
  "session_events s =
     (case se_eventsSnapshot s of
        Some es \<Rightarrow> (s, es)
      | None \<Rightarrow> (s\<lparr>se_eventsSnapshot := Some (se_log s)\<rparr>, se_log s))"

text \<open>
  One append. \<open>appending\<close> is the flag of the store entry the session is attached to, \<open>veto\<close> the
  internal dispatch checks that may throw before the log changes, \<open>now\<close> the clock. Observers run
  after the commit with their failures contained, so they do not appear. A rejected candidate may
  leave the surface manager advanced, so the session is returned in both cases.
\<close>

definition candidate_event :: "session \<Rightarrow> int \<Rightarrow> event_data \<Rightarrow> append_opts \<Rightarrow> session_event" where
  "candidate_event s now d opts =
     \<lparr>ev_seq = int (length (se_log s)), ev_time = now, ev_data = d, ev_surfaceOp = ao_surfaceOp opts,
      ev_sourceEventSeqs = (if ao_surfaceOp opts = None then None else ao_sourceEventSeqs opts),
      ev_ignorable = ao_ignorable opts\<rparr>"

definition session_append ::
  "session \<Rightarrow> bool \<Rightarrow> (session_event \<Rightarrow> bool) \<Rightarrow> int \<Rightarrow> event_data \<Rightarrow> append_opts
    \<Rightarrow> session \<times> (session_error + session_event)" where
  "session_append s appending veto now d opts =
     (case assertSupportedRequestHeader d of
        Inl err \<Rightarrow> (s, Inl err)
      | Inr _ \<Rightarrow>
          if appending then (s, Inl AppendReentered)
          else
            let e = candidate_event s now d opts in
            case validateNext (se_surface s) (se_log s) e of
              (m, Some err) \<Rightarrow> (s\<lparr>se_surface := m\<rparr>, Inl (SurfaceRejected err))
            | (m, None) \<Rightarrow>
                if veto e then (s\<lparr>se_surface := m\<rparr>, Inl DispatchVetoed)
                else (s\<lparr>se_surface := m, se_log := se_log s @ [e], se_eventsSnapshot := None\<rparr>, Inr e))"

definition requestHeader :: "session \<Rightarrow> session \<times> epoch_header option" where
  "requestHeader s =
     (if se_headerFoldSeq s < length (se_log s) then
        let h = foldRequestHeader (drop (se_headerFoldSeq s) (se_log s)) (se_headerFold s)
        in (s\<lparr>se_headerFold := h, se_headerFoldSeq := length (se_log s)\<rparr>, h)
      else (s, se_headerFold s))"

definition requestContext :: "session \<Rightarrow> session \<times> request_context option" where
  "requestContext s =
     (if se_contextFoldSeq s < length (se_log s) then
        let c = fold_request_context (drop (se_contextFoldSeq s) (se_log s)) (se_contextFold s)
        in (s\<lparr>se_contextFold := c, se_contextFoldSeq := length (se_log s)\<rparr>, c)
      else (s, se_contextFold s))"

definition project_nodes :: "session_event list \<Rightarrow> int list \<Rightarrow> message list" where
  "project_nodes lg ns =
     List.map_filter (\<lambda>q. case event_at lg q of Some e \<Rightarrow> deriveEventMessage e | None \<Rightarrow> None) ns"

definition deriveMessages :: "session \<Rightarrow> session \<times> (session_error + message list)" where
  "deriveMessages s =
     (case manager_nodes (se_surface s) (se_log s) of
        (m, Inl err) \<Rightarrow> (s\<lparr>se_surface := m\<rparr>, Inl (SurfaceRejected err))
      | (m, Inr ns) \<Rightarrow>
          (case manager_replaceGeneration m (se_log s) of
             (m', Inl err) \<Rightarrow> (s\<lparr>se_surface := m'\<rparr>, Inl (SurfaceRejected err))
           | (m', Inr generation) \<Rightarrow>
               let (derived, n) = (if generation \<noteq> se_derivedGeneration s then ([], 0)
                                   else (se_derived s, se_derivedNodes s));
                   derived' = derived @ project_nodes (se_log s) (drop n ns)
               in (s\<lparr>se_surface := m', se_derivedGeneration := generation, se_derived := derived',
                     se_derivedNodes := length ns\<rparr>, Inr derived')))"

section \<open>Construction\<close>

definition blank_session :: "session_header \<Rightarrow> session" where
  "blank_session h =
     \<lparr>se_header = h, se_log = [], se_surface = new_manager 0, se_firstLiveSeq = 0,
      se_eventsSnapshot = None, se_headerFold = None, se_headerFoldSeq = 0, se_contextFold = None,
      se_contextFoldSeq = 0, se_derived = [], se_derivedNodes = 0, se_derivedGeneration = 0\<rparr>"

fun seed_loop :: "nat \<Rightarrow> surface_manager \<Rightarrow> session_event list \<Rightarrow> session_event list
    \<Rightarrow> session_error + surface_manager \<times> session_event list" where
  "seed_loop index m lg [] = Inr (m, lg)"
| "seed_loop index m lg (e # es) =
     bind_result (assertSessionEventEnvelope e index) (\<lambda>_.
     bind_result (assertSupportedRequestHeader (ev_data e)) (\<lambda>_.
     bind_result (ensure (ev_seq e = int index) (SeedSeqMismatch index (ev_seq e))) (\<lambda>_.
       case validateNext m lg e of
         (m', Some err) \<Rightarrow> Inl (SeedSurface index err)
       | (m', None) \<Rightarrow> seed_loop (index + 1) m' (lg @ [e]) es)))"

text \<open>
  The constructor. A restored session validates its header before the seed, a snapshot session
  after it; the seed marker is appended unless the seed already ends in one.
\<close>

definition new_session ::
  "bool \<Rightarrow> session_id \<Rightarrow> session_event list option \<Rightarrow> json \<Rightarrow> int \<Rightarrow> session_error + session" where
  "new_session restore sid seed header now =
     bind_result (if restore then bind_result (validateSessionHeader sid header) (\<lambda>_. Inr ()) else Inr ()) (\<lambda>_.
     bind_result (seed_loop 0 (new_manager 0) [] (case seed of Some es \<Rightarrow> es | None \<Rightarrow> [])) (\<lambda>(m, lg).
     bind_result (validateSessionHeader sid header) (\<lambda>h.
       let s = (blank_session h)\<lparr>se_log := lg, se_surface := m, se_firstLiveSeq := length lg\<rparr>
       in if seed \<noteq> None \<and> (lg = [] \<or> event_type (ev_data (last lg)) \<noteq> ''session/end-seed'') then
            (case session_append s False (\<lambda>_. False) now EndSeed
                    \<lparr>ao_surfaceOp = None, ao_sourceEventSeqs = None, ao_ignorable = False\<rparr> of
               (s', Inr _) \<Rightarrow> Inr s'
             | (_, Inl err) \<Rightarrow> Inl err)
          else Inr s)))"

section \<open>Request headers\<close>

lemma list_all_zip_eq: "length xs = length ys \<Longrightarrow> list_all (\<lambda>(x, y). x = y) (zip xs ys) \<longleftrightarrow> xs = ys"
  by (induction xs ys rule: list_induct2) auto

lemma callConfigEquals_eq: "callConfigEquals a b \<longleftrightarrow> a = b"
  by (cases a; cases b) (auto simp: callConfigEquals_def list_all_zip_eq split: option.splits)

definition canonical :: "epoch_header \<Rightarrow> bool" where
  "canonical h \<longleftrightarrow>
     (\<forall>d. eh_adapterDefaults h = Some d \<longrightarrow> ad_reasoningEffort d \<or> ad_maxTokens d) \<and>
     eh_system h \<noteq> Some [] \<and> eh_tools h \<noteq> Some []"

lemma canonicalHeader_canonical: "canonical (canonicalHeader h)"
  by (auto simp: canonical_def canonicalHeader_def split: option.splits if_splits)

lemma canonicalHeader_id: "canonical h \<Longrightarrow> canonicalHeader h = h"
  by (cases h) (auto simp: canonical_def canonicalHeader_def split: option.splits)

lemma default_markers_eq:
  "canonical a \<Longrightarrow> canonical b \<Longrightarrow>
   (default_marker ad_reasoningEffort a = default_marker ad_reasoningEffort b \<and>
    default_marker ad_maxTokens a = default_marker ad_maxTokens b)
   \<longleftrightarrow> eh_adapterDefaults a = eh_adapterDefaults b"
  by (cases "eh_adapterDefaults a"; cases "eh_adapterDefaults b")
    (auto simp: default_marker_def canonical_def)

lemma tools_eq:
  "canonical a \<Longrightarrow> canonical b \<Longrightarrow>
   (case eh_tools a of Some ts \<Rightarrow> ts | None \<Rightarrow> []) = (case eh_tools b of Some ts \<Rightarrow> ts | None \<Rightarrow> [])
   \<longleftrightarrow> eh_tools a = eh_tools b"
  by (auto simp: canonical_def split: option.splits)

lemma headerEquals_tools:
  "(let ats = (case eh_tools a of Some ts \<Rightarrow> ts | None \<Rightarrow> []); bts = (case eh_tools b of Some ts \<Rightarrow> ts | None \<Rightarrow> [])
    in length ats = length bts \<and> list_all (\<lambda>(x, y). sameSchema x y) (zip ats bts))
   \<longleftrightarrow> (case eh_tools a of Some ts \<Rightarrow> ts | None \<Rightarrow> []) = (case eh_tools b of Some ts \<Rightarrow> ts | None \<Rightarrow> [])"
  by (auto simp: Let_def sameSchema_def list_all_zip_eq)

lemma foldRequestHeader_append:
  "foldRequestHeader (xs @ ys) st = foldRequestHeader ys (foldRequestHeader xs st)"
  by (induction xs arbitrary: st) simp_all

lemma fold_request_context_append:
  "fold_request_context (xs @ ys) st = fold_request_context ys (fold_request_context xs st)"
  by (induction xs arbitrary: st) simp_all

lemma foldRequestHeader_canonical:
  "(\<forall>h. st = Some h \<longrightarrow> canonical h) \<Longrightarrow> foldRequestHeader es st = Some h \<Longrightarrow> canonical h"
proof (induction es arbitrary: st)
  case (Cons e es)
  have "\<forall>h. (case ev_data e of RequestHeader h _ \<Rightarrow> Some (canonicalHeader h) | _ \<Rightarrow> st) = Some h \<longrightarrow> canonical h"
    using Cons.prems(1) by (auto simp: canonicalHeader_canonical split: event_data.splits)
  from Cons.IH [OF this] Cons.prems(2) show ?case by simp
qed simp

section \<open>The surface between two reads\<close>

lemma surface_step_grows:
  assumes "surface_step pre (st, reps) e = Inr (st', reps')"
  shows "\<exists>ys. reps' = reps @ ys \<and> (ys = [] \<longrightarrow> (\<exists>more. nodes st' = nodes st @ more))"
proof -
  from assms obtain p where p: "planSurfaceEvent st e (int (length pre)) pre 0 = Inr p"
    and eq: "st' = fst (applySurfacePlan st p)" "reps' = reps @ opt_list (snd (applySurfacePlan st p))"
    by (auto simp: surface_step_def applySurfaceEvent_def result_simps split: prod.splits)
  from p show ?thesis
    by (cases rule: planSurfaceEvent_Inr) (use eq in simp_all)
qed

lemma surface_replay_grows:
  "replay_from surface_step pre (st, reps) es = Inr (st', reps') \<Longrightarrow>
   \<exists>ys. reps' = reps @ ys \<and> (ys = [] \<longrightarrow> (\<exists>more. nodes st' = nodes st @ more))"
proof (induction es arbitrary: pre st reps)
  case (Cons e es)
  then obtain st1 reps1 where 1: "surface_step pre (st, reps) e = Inr (st1, reps1)"
    "replay_from surface_step (pre @ [e]) (st1, reps1) es = Inr (st', reps')"
    by (auto simp: result_simps)
  from surface_step_grows [OF 1(1)] Cons.IH [OF 1(2)] show ?case by fastforce
qed simp

lemma foldSurface_grows:
  assumes "foldSurface (take k lg) = Inr (ns, reps)" "foldSurface lg = Inr (ns', reps')"
    "length reps' = length reps"
  shows "\<exists>more. ns' = ns @ more"
proof -
  from assms obtain st st' where 1: "surface.project (take k lg) = Inr (st, reps)" "nodes st = ns"
    and 2: "surface.project (take k lg @ drop k lg) = Inr (st', reps')" "nodes st' = ns'"
    by (auto simp: foldSurface_Inr)
  have "replay_from surface_step (take k lg) (st, reps) (drop k lg) = Inr (st', reps')"
    using 1(1) 2(1) unfolding surface.project_append by simp
  from surface_replay_grows [OF this] assms(3) 1(2) 2(2) show ?thesis by auto
qed

lemma project_nodes_append: "project_nodes lg (xs @ ys) = project_nodes lg xs @ project_nodes lg ys"
  by (simp add: project_nodes_def map_filter_def)

lemma event_at_take: "i < int (length (take k lg)) \<Longrightarrow> event_at (take k lg) i = event_at lg i"
  using event_at_append [of i "take k lg" "drop k lg"] by simp

lemma project_nodes_take:
  assumes "foldSurface (take k lg) = Inr (ns, reps)"
  shows "project_nodes (take k lg) ns = project_nodes lg ns"
proof -
  from assms obtain st where "surface.project (take k lg) = Inr (st, reps)" "nodes st = ns"
    by (auto simp: foldSurface_Inr)
  then have "\<forall>n \<in> set ns. n < int (length (take k lg))"
    using surface_inv_bound surface.project_inv by fastforce
  then show ?thesis
    unfolding project_nodes_def map_filter_def by (induction ns) (auto simp: event_at_take)
qed

section \<open>Reachable sessions\<close>

definition session_ok :: "session \<Rightarrow> bool" where
  "session_ok s \<longleftrightarrow>
     manager_run (se_surface s) (se_log s) \<and> (\<exists>p. foldSurface (se_log s) = Inr p) \<and>
     (\<forall>es. se_eventsSnapshot s = Some es \<longrightarrow> es = se_log s) \<and>
     se_headerFoldSeq s \<le> length (se_log s) \<and>
     se_headerFold s = foldRequestHeader (take (se_headerFoldSeq s) (se_log s)) None \<and>
     se_contextFoldSeq s \<le> length (se_log s) \<and>
     se_contextFold s = fold_request_context (take (se_contextFoldSeq s) (se_log s)) None"

definition derived_ok :: "session \<Rightarrow> bool" where
  "derived_ok s \<longleftrightarrow>
     (\<exists>k ns reps. k \<le> length (se_log s) \<and> foldSurface (take k (se_log s)) = Inr (ns, reps) \<and>
        se_derivedNodes s = length ns \<and> se_derivedGeneration s = length reps \<and>
        se_derived s = project_nodes (take k (se_log s)) ns)"

inductive session_run :: "session \<Rightarrow> bool" where
  session_start: "new_session restore sid seed header now = Inr s \<Longrightarrow> session_run s"
| session_appended: "session_run s \<Longrightarrow> session_run (fst (session_append s appending veto now d opts))"
| session_read_events: "session_run s \<Longrightarrow> session_run (fst (session_events s))"
| session_read_header: "session_run s \<Longrightarrow> session_run (fst (requestHeader s))"
| session_read_context: "session_run s \<Longrightarrow> session_run (fst (requestContext s))"
| session_derived: "session_run s \<Longrightarrow> session_run (fst (deriveMessages s))"

lemma foldSurface_Nil: "foldSurface [] = Inr ([], [])"
  by (simp add: foldSurface_def createFoldState_def)

lemma seed_loop_run:
  "manager_run m lg \<Longrightarrow> foldSurface lg = Inr p \<Longrightarrow> seed_loop index m lg es = Inr (m', lg') \<Longrightarrow>
   manager_run m' lg' \<and> (\<exists>p. foldSurface lg' = Inr p) \<and> lg' = lg @ es"
proof (induction index m lg es arbitrary: p rule: seed_loop.induct)
  case (2 index m lg e es)
  obtain m1 err where v: "validateNext m lg e = (m1, err)" by (cases "validateNext m lg e")
  have err: "err = None" and rest: "seed_loop (index + 1) m1 (lg @ [e]) es = Inr (m', lg')"
    using "2.prems"(3) v by (auto simp: result_simps split: option.splits)
  have "manager_run m1 (lg @ [e])"
    using run_push [OF run_validate [OF "2.prems"(1), of e]] v by simp
  moreover from validateNext_fold [OF "2.prems"(1,2), of e] v err obtain q where
    "foldSurface (lg @ [e]) = Inr q" by (auto split: sum.splits)
  ultimately show ?case
    using "2.IH" [OF v [symmetric] err _ _ rest] by auto
qed auto

lemma session_append_cases:
  assumes "session_append s appending veto now d opts = (s', r)"
  obtains
    (Rejected) m err where "r = Inl err" "s' = s\<lparr>se_surface := m\<rparr>"
      "m = se_surface s \<or> m = fst (validateNext (se_surface s) (se_log s) (candidate_event s now d opts))"
  | (Accepted) m e where "r = Inr e" "e = candidate_event s now d opts" "\<not> appending" "\<not> veto e"
      "validateNext (se_surface s) (se_log s) e = (m, None)"
      "s' = s\<lparr>se_surface := m, se_log := se_log s @ [e], se_eventsSnapshot := None\<rparr>"
proof -
  have id: "s = s\<lparr>se_surface := se_surface s\<rparr>" by simp
  obtain m err where v: "validateNext (se_surface s) (se_log s) (candidate_event s now d opts) = (m, err)"
    by (cases "validateNext (se_surface s) (se_log s) (candidate_event s now d opts)")
  show thesis
  proof (cases "assertSupportedRequestHeader d")
    case (Inl er)
    with assms id show thesis by (intro Rejected [of er "se_surface s"]) (auto simp: session_append_def)
  next
    case (Inr u)
    show thesis
    proof (cases "appending \<or> err \<noteq> None \<or> veto (candidate_event s now d opts)")
      case True
      with assms Inr v id show thesis
        by (auto simp: session_append_def Let_def split: if_splits option.splits
            intro: Rejected [of _ "se_surface s"] Rejected [of _ m])
    next
      case False
      with assms Inr v show thesis
        by (intro Accepted [of "candidate_event s now d opts" m]) (auto simp: session_append_def Let_def)
    qed
  qed
qed

text \<open>Every operation keeps the caches exact.\<close>

lemma session_append_ok:
  assumes ok: "session_ok s" and step: "session_append s appending veto now d opts = (s', r)"
  shows "session_ok s'"
  using step
proof (cases rule: session_append_cases)
  case (Rejected m err)
  then show ?thesis using ok run_validate by (auto simp: session_ok_def)
next
  case (Accepted m e)
  from ok obtain p where "manager_run (se_surface s) (se_log s)" "foldSurface (se_log s) = Inr p"
    by (auto simp: session_ok_def)
  from validateNext_fold [OF this, of e] Accepted(5)
  have "\<exists>q. foldSurface (se_log s @ [e]) = Inr q" by (auto split: sum.splits)
  moreover have "manager_run m (se_log s @ [e])"
    using run_push [OF run_validate] ok Accepted(5) by (metis fst_conv session_ok_def)
  ultimately show ?thesis using ok Accepted(6) by (simp add: session_ok_def)
qed

lemma session_append_derived:
  assumes ok: "derived_ok s" and step: "session_append s appending veto now d opts = (s', r)"
  shows "derived_ok s'"
  using step
proof (cases rule: session_append_cases)
  case (Rejected m err)
  with ok show ?thesis by (simp add: derived_ok_def)
next
  case (Accepted m e)
  from ok obtain k ns reps where k: "k \<le> length (se_log s)"
    "foldSurface (take k (se_log s)) = Inr (ns, reps)"
    "se_derivedNodes s = length ns" "se_derivedGeneration s = length reps"
    "se_derived s = project_nodes (take k (se_log s)) ns" by (auto simp: derived_ok_def)
  then have "take k (se_log s @ [e]) = take k (se_log s)" by simp
  with k Accepted(6) show ?thesis unfolding derived_ok_def
    by (intro exI [of _ k] exI [of _ ns] exI [of _ reps]) simp
qed

lemma requestHeader_result:
  assumes "session_ok s"
  shows "snd (requestHeader s) = foldRequestHeader (se_log s) None"
proof (cases "se_headerFoldSeq s < length (se_log s)")
  case True
  have "foldRequestHeader (take (se_headerFoldSeq s) (se_log s) @ drop (se_headerFoldSeq s) (se_log s)) None
      = foldRequestHeader (drop (se_headerFoldSeq s) (se_log s)) (se_headerFold s)"
    using assms by (simp only: foldRequestHeader_append session_ok_def)
  with True show ?thesis by (simp add: requestHeader_def Let_def)
next
  case False
  with assms show ?thesis by (simp add: requestHeader_def session_ok_def)
qed

lemma requestContext_result:
  assumes "session_ok s"
  shows "snd (requestContext s) = fold_request_context (se_log s) None"
proof (cases "se_contextFoldSeq s < length (se_log s)")
  case True
  have "fold_request_context (take (se_contextFoldSeq s) (se_log s) @ drop (se_contextFoldSeq s) (se_log s)) None
      = fold_request_context (drop (se_contextFoldSeq s) (se_log s)) (se_contextFold s)"
    using assms by (simp only: fold_request_context_append session_ok_def)
  with True show ?thesis by (simp add: requestContext_def Let_def)
next
  case False
  with assms show ?thesis by (simp add: requestContext_def session_ok_def)
qed

lemma requestHeader_ok: "session_ok s \<Longrightarrow> session_ok (fst (requestHeader s))"
  using requestHeader_result [of s] unfolding session_ok_def requestHeader_def Let_def
  by (cases "se_headerFoldSeq s < length (se_log s)") simp_all

lemma requestContext_ok: "session_ok s \<Longrightarrow> session_ok (fst (requestContext s))"
  using requestContext_result [of s] unfolding session_ok_def requestContext_def Let_def
  by (cases "se_contextFoldSeq s < length (se_log s)") simp_all

lemma session_events_ok: "session_ok s \<Longrightarrow> session_ok (fst (session_events s)) \<and> snd (session_events s) = se_log s"
  by (auto simp: session_ok_def session_events_def split: option.splits)

lemma derived_ok_reads:
  "derived_ok s \<Longrightarrow> derived_ok (fst (requestHeader s))" "derived_ok s \<Longrightarrow> derived_ok (fst (requestContext s))"
  "derived_ok s \<Longrightarrow> derived_ok (fst (session_events s))"
  by (simp_all add: derived_ok_def requestHeader_def requestContext_def session_events_def Let_def
      split: option.split)

lemma deriveMessages_run:
  assumes ok: "session_ok s" and der: "derived_ok s"
  obtains s' ns reps where "foldSurface (se_log s) = Inr (ns, reps)"
    "deriveMessages s = (s', Inr (project_nodes (se_log s) ns))" "session_ok s'" "derived_ok s'"
proof -
  obtain ns reps where f: "foldSurface (se_log s) = Inr (ns, reps)" using ok by (auto simp: session_ok_def)
  have run: "manager_run (se_surface s) (se_log s)" using ok by (simp add: session_ok_def)
  obtain m where m: "manager_nodes (se_surface s) (se_log s) = (m, Inr ns)"
    using manager_reads(1) [OF run] f by (cases "manager_nodes (se_surface s) (se_log s)") simp
  then have run1: "manager_run m (se_log s)" using run_nodes [OF run] by simp
  obtain m' where m': "manager_replaceGeneration m (se_log s) = (m', Inr (length reps))"
    using manager_reads(2) [OF run1] f by (cases "manager_replaceGeneration m (se_log s)") simp
  then have run2: "manager_run m' (se_log s)" using run_generation [OF run1] by simp
  obtain k ns0 reps0 where k: "k \<le> length (se_log s)"
    "foldSurface (take k (se_log s)) = Inr (ns0, reps0)"
    "se_derivedNodes s = length ns0" "se_derivedGeneration s = length reps0"
    "se_derived s = project_nodes (take k (se_log s)) ns0" using der by (auto simp: derived_ok_def)
  have kept: "se_derived s @ project_nodes (se_log s) (drop (se_derivedNodes s) ns) = project_nodes (se_log s) ns"
    if gen: "length reps = se_derivedGeneration s"
  proof -
    obtain more where "ns = ns0 @ more" using foldSurface_grows [OF k(2) f] gen k(4) by auto
    with k(3,5) project_nodes_take [OF k(2)] show ?thesis by (simp add: project_nodes_append)
  qed
  define s' where "s' = s\<lparr>se_surface := m', se_derivedGeneration := length reps,
      se_derived := project_nodes (se_log s) ns, se_derivedNodes := length ns\<rparr>"
  have "deriveMessages s = (s', Inr (project_nodes (se_log s) ns))"
    using m m' kept by (simp add: deriveMessages_def s'_def Let_def)
  moreover have "session_ok s'" using ok run2 by (simp add: session_ok_def s'_def)
  moreover have "derived_ok s'" using f by (auto simp: derived_ok_def s'_def intro: exI [of _ "length (se_log s)"])
  ultimately show thesis using that f by blast
qed

lemma new_session_ok:
  assumes "new_session restore sid seed header now = Inr s"
  shows "session_ok s \<and> derived_ok s"
proof -
  from assms obtain m lg h where
    loop: "seed_loop 0 (new_manager 0) [] (case seed of Some es \<Rightarrow> es | None \<Rightarrow> []) = Inr (m, lg)"
    by (auto simp: new_session_def result_simps)
  let ?s = "\<lambda>h. (blank_session h)\<lparr>se_log := lg, se_surface := m, se_firstLiveSeq := length lg\<rparr>"
  from seed_loop_run [OF run_start foldSurface_Nil loop] obtain p where
    lg: "manager_run m lg" "foldSurface lg = Inr p" by blast
  then have ok: "session_ok (?s h)" for h by (simp add: session_ok_def blank_session_def)
  have der: "derived_ok (?s h)" for h unfolding derived_ok_def
    by (intro exI [of _ 0] exI [of _ "[]"])
      (simp add: blank_session_def project_nodes_def map_filter_def foldSurface_Nil)
  from assms loop obtain h where "s = ?s h \<or> (\<exists>r. session_append (?s h) False (\<lambda>_. False) now EndSeed
      \<lparr>ao_surfaceOp = None, ao_sourceEventSeqs = None, ao_ignorable = False\<rparr> = (s, r))"
    by (auto simp: new_session_def result_simps Let_def split: if_splits prod.splits sum.splits)
  then show ?thesis using ok der session_append_ok session_append_derived by blast
qed

lemma session_run_ok: "session_run s \<Longrightarrow> session_ok s \<and> derived_ok s"
proof (induction rule: session_run.induct)
  case (session_start restore sid seed header now s)
  then show ?case by (rule new_session_ok)
next
  case (session_appended s appending veto now d opts)
  then show ?case using session_append_ok session_append_derived by (metis prod.collapse)
next
  case (session_derived s)
  then obtain s' ns reps where "deriveMessages s = (s', Inr (project_nodes (se_log s) ns))"
    "session_ok s'" "derived_ok s'" using deriveMessages_run by blast
  then show ?case by simp
qed (simp_all add: session_events_ok requestHeader_ok requestContext_ok derived_ok_reads)

lemma session_ok_seqs:
  assumes "session_ok s"
  shows "map ev_seq (se_log s) = map int [0..<length (se_log s)]" "\<exists>p. foldSurface (se_log s) = Inr p"
proof -
  from assms show f: "\<exists>p. foldSurface (se_log s) = Inr p" by (auto simp: session_ok_def)
  then show "map ev_seq (se_log s) = map int [0..<length (se_log s)]"
    using surface.project_inv by (fastforce simp: foldSurface_Inr surface_inv_def)
qed

section \<open>Header round trip\<close>

definition count_ok :: "int option \<Rightarrow> bool" where
  "count_ok x = (case x of None \<Rightarrow> True | Some i \<Rightarrow> 0 \<le> i \<and> i \<le> max_safe_integer)"

definition header_ok :: "session_header \<Rightarrow> bool" where
  "header_ok h \<longleftrightarrow>
     0 \<le> sh_createdAt h \<and> sh_createdAt h \<le> max_safe_integer \<and>
     (case sh_cwd h of None \<Rightarrow> True | Some p \<Rightarrow> isAbsolute p) \<and>
     count_ok (sh_seedLength h) \<and> count_ok (sh_delegationDepth h)"

lemma isEventSeq_Some: "isEventSeq v = Some i \<Longrightarrow> 0 \<le> i \<and> i \<le> max_safe_integer"
  by (auto simp: isEventSeq_def safe_integer_of_def safe_int_def split: option.splits if_splits
      elim!: as_safe_integer.elims)

lemma opt_field_lookup:
  "k \<noteq> k' \<Longrightarrow> map_of (opt_field k f x) k' = None" "map_of (opt_field k f x) k = map_option f x"
  by (simp_all add: opt_field_def split: option.split)

lemma opt_string_json: "jget ps k = map_option JStr x \<Longrightarrow> opt_string ps k err = Inr x"
  by (cases x) (simp_all add: opt_string_def)

lemma opt_count_json:
  "jget ps k = map_option (\<lambda>i. JNum (of_int i)) x \<Longrightarrow> count_ok x \<Longrightarrow> opt_count ps k err = Inr x"
  by (cases x) (simp_all add: opt_count_def count_ok_def isEventSeq_of_int)

lemma opt_count_Inr: "opt_count ps k err = Inr x \<Longrightarrow> count_ok x"
  by (auto simp: opt_count_def count_ok_def split: option.splits dest!: isEventSeq_Some)

lemma header_json_valid:
  assumes "header_ok h"
  shows "validateSessionHeader (sh_id h) (header_json h) = Inr h"
proof -
  obtain ps where ps: "header_json h = JObj ps"
    and scal: "jget ps ''version'' = Some (JNum SESSION_FORMAT_VERSION)" "jget ps ''id'' = Some (JStr (sh_id h))"
      "jget ps ''createdAt'' = Some (JNum (of_int (sh_createdAt h)))"
      "jget ps ''origin'' = (if sh_origin h then Some (JStr ''subagent'') else None)"
    and opts: "jget ps ''cwd'' = map_option JStr (sh_cwd h)"
      "jget ps ''parentSession'' = map_option JStr (sh_parentSession h)"
      "jget ps ''agentPreset'' = map_option JStr (sh_agentPreset h)"
      "jget ps ''seedLength'' = map_option (\<lambda>i. JNum (of_int i)) (sh_seedLength h)"
      "jget ps ''delegationDepth'' = map_option (\<lambda>i. JNum (of_int i)) (sh_delegationDepth h)"
    by (simp add: header_json_def jget_def map_add_def opt_field_lookup split: option.split)
  have "opt_string ps ''cwd'' HeaderCwd = Inr (sh_cwd h)"
    "opt_string ps ''parentSession'' HeaderParentSession = Inr (sh_parentSession h)"
    "opt_string ps ''agentPreset'' HeaderAgentPreset = Inr (sh_agentPreset h)"
    using opts(1-3) by (simp_all add: opt_string_json)
  moreover have "opt_count ps ''seedLength'' HeaderSeedLength = Inr (sh_seedLength h)"
    "opt_count ps ''delegationDepth'' HeaderDelegationDepth = Inr (sh_delegationDepth h)"
    using opts(4,5) assms by (simp_all add: opt_count_json header_ok_def)
  moreover have "isEventSeq (jget ps ''createdAt'') = Some (sh_createdAt h)"
    using assms scal(3) by (simp add: header_ok_def isEventSeq_of_int)
  moreover have "(case sh_cwd h of Some p \<Rightarrow> ensure (isAbsolute p) (HeaderCwdNotAbsolute p) | None \<Rightarrow> Inr ()) = Inr ()"
    using assms by (auto simp: header_ok_def split: option.splits)
  ultimately show ?thesis
    using scal by (simp add: ps validateSessionHeader_def)
qed

lemma validateSessionHeader_Inr:
  assumes "validateSessionHeader sid j = Inr h"
  shows "sh_id h = sid \<and> header_ok h"
proof -
  from assms obtain ps where "j = JObj ps" by (cases j) (auto simp: validateSessionHeader_def)
  with assms have "\<exists>c cwd par seed del pre. isEventSeq (jget ps ''createdAt'') = Some c \<and>
      (\<forall>p. cwd = Some p \<longrightarrow> isAbsolute p) \<and>
      opt_count ps ''seedLength'' HeaderSeedLength = Inr seed \<and>
      opt_count ps ''delegationDepth'' HeaderDelegationDepth = Inr del \<and>
      h = \<lparr>sh_id = sid, sh_createdAt = c, sh_cwd = cwd, sh_parentSession = par,
           sh_seedLength = seed, sh_origin = (jget ps ''origin'' \<noteq> None),
           sh_delegationDepth = del, sh_agentPreset = pre\<rparr>"
    by (auto simp: validateSessionHeader_def result_simps split: option.splits)
  then show ?thesis
    by (auto simp: header_ok_def split: option.splits dest: isEventSeq_Some opt_count_Inr)
qed

section \<open>The append interface\<close>

text \<open>
  What the owners of durable projections rely on when they append: success extends the log by one
  event with the given data, failure leaves it as it was.
\<close>

locale event_appender =
  fixes commit :: "'s \<Rightarrow> event_data \<Rightarrow> 's \<times> ('e + session_event)"
    and log_of :: "'s \<Rightarrow> session_event list"
  assumes commit_Inr: "commit s d = (s', Inr e) \<Longrightarrow> log_of s' = log_of s @ [e] \<and> ev_data e = d"
    and commit_Inl: "commit s d = (s', Inl err) \<Longrightarrow> log_of s' = log_of s"

interpretation session_log: event_appender
  "\<lambda>s d. session_append s appending veto now d opts" se_log for appending veto now opts
proof
  fix s d s' e
  assume "session_append s appending veto now d opts = (s', Inr e)"
  then show "se_log s' = se_log s @ [e] \<and> ev_data e = d"
    by (cases rule: session_append_cases) (auto simp: candidate_event_def)
next
  fix s d s' err
  assume "session_append s appending veto now d opts = (s', Inl err)"
  then show "se_log s' = se_log s"
    by (cases rule: session_append_cases) auto
qed

section \<open>Claims\<close>

definition sample_header :: session_header where
  "sample_header = \<lparr>sh_id = ''s'', sh_createdAt = 7, sh_cwd = Some ''/w'', sh_parentSession = None,
     sh_seedLength = Some 3, sh_origin = False, sh_delegationDepth = None, sh_agentPreset = None\<rparr>"

definition sample_session :: session where
  "sample_session = (case new_session False ''s'' (Some (sample_log @ [sample_rewrite])) (header_json sample_header) 0 of
     Inr s \<Rightarrow> s | Inl _ \<Rightarrow> blank_session sample_header)"

lemma sample_session_new:
  "new_session False ''s'' (Some (sample_log @ [sample_rewrite])) (header_json sample_header) 0 = Inr sample_session"
proof -
  have "\<not> isl (new_session False ''s'' (Some (sample_log @ [sample_rewrite])) (header_json sample_header) 0)"
    by code_simp
  then show ?thesis by (auto simp: sample_session_def split: sum.splits)
qed

lemma sample_session_run: "session_run sample_session"
  by (rule session_start [OF sample_session_new])

text \<open>
  C11. The derived-message cache is exact: in every reachable session, after any sequence of
  accepted and rejected appends and reads, \<open>deriveMessages\<close> succeeds and returns the projection of
  the surface of the whole log.
\<close>

theorem deriveMessages_exact:
  assumes "session_run s"
  shows "\<exists>ns reps. foldSurface (se_log s) = Inr (ns, reps) \<and>
    snd (deriveMessages s) = Inr (project_nodes (se_log s) ns)"
proof -
  obtain s' ns reps where "foldSurface (se_log s) = Inr (ns, reps)"
    "deriveMessages s = (s', Inr (project_nodes (se_log s) ns))"
    using deriveMessages_run session_run_ok [OF assms] by blast
  then show ?thesis by simp
qed

theorem deriveMessages_exact_witness:
  "\<exists>ms. snd (deriveMessages sample_session) = Inr ms \<and>
    (\<exists>ns. ms = project_nodes (se_log sample_session) ns)"
  using deriveMessages_exact [OF sample_session_run] by blast

text \<open>
  The incremental request projections are exact: in every reachable session the cached request
  header and route metadata are the folds of the whole log, and the event snapshot is the log.
\<close>

theorem request_projections_exact:
  assumes "session_run s"
  shows "snd (requestHeader s) = foldRequestHeader (se_log s) None \<and>
    snd (requestContext s) = fold_request_context (se_log s) None \<and> snd (session_events s) = se_log s"
  using session_run_ok [OF assms] requestHeader_result requestContext_result session_events_ok by blast

theorem request_projections_exact_witness:
  "snd (session_events sample_session) = se_log sample_session"
  using request_projections_exact [OF sample_session_run] by blast

text \<open>
  Appends are atomic: a rejected append leaves the log unchanged; an accepted one extends it by
  exactly one event that carries the given data at the next sequence, was neither vetoed nor
  reentrant, and keeps the log foldable and contiguously numbered.
\<close>

theorem append_atomic:
  assumes run: "session_run s" and step: "session_append s appending veto now d opts = (s', r)"
  shows "case r of
      Inl err \<Rightarrow> se_log s' = se_log s
    | Inr e \<Rightarrow> se_log s' = se_log s @ [e] \<and> ev_data e = d \<and> ev_seq e = int (length (se_log s)) \<and>
        \<not> appending \<and> \<not> veto e \<and> (\<exists>p. foldSurface (se_log s') = Inr p) \<and>
        map ev_seq (se_log s') = map int [0..<length (se_log s')]"
proof -
  have "session_ok s'" using session_append_ok [OF _ step] session_run_ok [OF run] by blast
  then obtain ns reps where f: "foldSurface (se_log s') = Inr (ns, reps)" by (auto simp: session_ok_def)
  then have "map ev_seq (se_log s') = map int [0..<length (se_log s')]"
    using surface.project_inv by (fastforce simp: foldSurface_Inr surface_inv_def)
  note log = f this
  from step show ?thesis
    by (cases rule: session_append_cases) (use log in \<open>auto simp: candidate_event_def\<close>)
qed

theorem append_atomic_witness:
  "\<exists>s' e. session_append sample_session False (\<lambda>_. False) 9 (TurnStart 1)
      \<lparr>ao_surfaceOp = None, ao_sourceEventSeqs = None, ao_ignorable = False\<rparr> = (s', Inr e) \<and>
    se_log s' = se_log sample_session @ [e] \<and> ev_data e = TurnStart 1"
proof -
  let ?r = "session_append sample_session False (\<lambda>_. False) 9 (TurnStart 1)
      \<lparr>ao_surfaceOp = None, ao_sourceEventSeqs = None, ao_ignorable = False\<rparr>"
  have "\<not> isl (snd ?r)" by code_simp
  then obtain s' e where r: "?r = (s', Inr e)" by (cases ?r; cases "snd ?r") auto
  from append_atomic [OF sample_session_run r] r show ?thesis by auto
qed

text \<open>
  Header comparison decides equality: on canonical headers, and so on every header folded from
  a log, \<open>headerEquals\<close> holds exactly for equal headers; canonicalization is idempotent.
\<close>

theorem headerEquals_decides:
  "headerEquals (canonicalHeader a) (canonicalHeader b) \<longleftrightarrow> canonicalHeader a = canonicalHeader b"
proof -
  let ?a = "canonicalHeader a" and ?b = "canonicalHeader b"
  note c = canonicalHeader_canonical [of a] canonicalHeader_canonical [of b]
  have "headerEquals ?a ?b \<longleftrightarrow> eh_config ?a = eh_config ?b \<and> eh_adapterDefaults ?a = eh_adapterDefaults ?b \<and>
      eh_system ?a = eh_system ?b \<and> eh_tools ?a = eh_tools ?b"
    unfolding headerEquals_def headerEquals_tools tools_eq [OF c] callConfigEquals_eq
    using default_markers_eq [OF c] by blast
  then show ?thesis by (auto intro: epoch_header.equality)
qed

text \<open>
  Header round trip: a header with in-range fields validates to itself from its stored record,
  and every header that validates carries the requested id, an absolute working directory when it
  has one, and in-range counters.
\<close>

theorem sessionHeader_roundtrip:
  "(header_ok h \<longrightarrow> validateSessionHeader (sh_id h) (header_json h) = Inr h) \<and>
   (validateSessionHeader sid j = Inr h' \<longrightarrow> sh_id h' = sid \<and> header_ok h')"
  using header_json_valid validateSessionHeader_Inr by blast

theorem sessionHeader_roundtrip_witness:
  "header_ok sample_header \<and> validateSessionHeader ''s'' (header_json sample_header) = Inr sample_header"
proof -
  have "header_ok sample_header" "sh_id sample_header = ''s''"
    by (simp_all add: header_ok_def sample_header_def count_ok_def max_safe_integer_def)
  with sessionHeader_roundtrip [of sample_header "''s''" "header_json sample_header" sample_header]
  show ?thesis by simp
qed

end
