(* ===== verification/Inbox.thy ===== *)
theory Inbox
  imports Session_Log
begin

text \<open>
  The durable agent inbox of \<open>core/agent/src/inbox.ts\<close> and the account of consumed work of
  \<open>consumed-work.ts\<close>. The inbox is a projection of the \<open>agent/inbox/spliced\<close> events of its session;
  a mutation normalizes its coordinates, validates, appends the durable event and only then changes
  the live lists. The operations take the append function of the session as an argument and are
  verified over the \<open>event_appender\<close> interface of \<open>Session_Log\<close>.
\<close>

section \<open>State\<close>

record inbox =
  ib_nextTurn :: "message list"
  ib_nextStep :: "message list"

datatype inbox_note =
    NoteInserted message
  | NoteDiscarded message
  | NoteClaimed message int

datatype 'e inbox_error =
    InvalidInboxSplice
  | AlreadyPending message_id
  | NotLosslessStart
  | AppendFailed 'e
  | InvalidPersistedSplice int

record 's inbox_world =
  iw_session :: 's
  iw_inbox :: inbox
  iw_notes :: "inbox_note list"

fun inbox_list :: "inbox \<Rightarrow> inbox_target \<Rightarrow> message list" where
  "inbox_list ib NextTurn = ib_nextTurn ib"
| "inbox_list ib NextStep = ib_nextStep ib"

fun set_inbox_list :: "inbox \<Rightarrow> inbox_target \<Rightarrow> message list \<Rightarrow> inbox" where
  "set_inbox_list ib NextTurn ms = ib\<lparr>ib_nextTurn := ms\<rparr>"
| "set_inbox_list ib NextStep ms = ib\<lparr>ib_nextStep := ms\<rparr>"

definition hasPending :: "inbox \<Rightarrow> bool" where
  "hasPending ib \<longleftrightarrow> 0 < length (ib_nextTurn ib) \<or> 0 < length (ib_nextStep ib)"

section \<open>Durable splices\<close>

fun check_ids :: "message_id list \<Rightarrow> message list \<Rightarrow> 'e inbox_error + unit" where
  "check_ids seen [] = Inr ()"
| "check_ids seen (m # ms) =
     (if msg_id m \<in> set seen then Inl (AlreadyPending (msg_id m)) else check_ids (msg_id m # seen) ms)"

definition removed_count :: "inbox_splice \<Rightarrow> int" where
  "removed_count sp = (case is_removedCount sp of Some n \<Rightarrow> n | None \<Rightarrow> 0)"

definition spliced_list :: "inbox \<Rightarrow> inbox_splice \<Rightarrow> message list" where
  "spliced_list ib sp =
     splice_list (inbox_list ib (is_target sp)) (nat (is_start sp)) (nat (removed_count sp)) (is_inserted sp)"

definition validate_splice :: "inbox \<Rightarrow> inbox_splice \<Rightarrow> 'e inbox_error + unit" where
  "validate_splice ib sp =
     (let len = int (length (inbox_list ib (is_target sp))); removedCount = removed_count sp in
      if \<not> safe_int (is_start sp) \<or> is_start sp < 0 \<or> is_start sp > len
         \<or> \<not> safe_int removedCount \<or> removedCount < 0 \<or> is_start sp + removedCount > len
      then Inl InvalidInboxSplice
      else let candidate = spliced_list ib sp
           in check_ids [] (case is_target sp of
                              NextTurn \<Rightarrow> candidate @ ib_nextStep ib
                            | NextStep \<Rightarrow> ib_nextTurn ib @ candidate))"

definition apply_splice :: "inbox \<Rightarrow> inbox_splice \<Rightarrow> 'e inbox_error + inbox \<times> message list" where
  "apply_splice ib sp =
     bind_result (validate_splice ib sp) (\<lambda>_.
       Inr (set_inbox_list ib (is_target sp) (spliced_list ib sp),
            slice (inbox_list ib (is_target sp)) (nat (is_start sp)) (nat (is_start sp) + nat (removed_count sp))))"

definition empty_inbox :: inbox where
  "empty_inbox = \<lparr>ib_nextTurn = [], ib_nextStep = []\<rparr>"

definition inbox_step :: "session_event list \<Rightarrow> inbox \<Rightarrow> session_event \<Rightarrow> 'e inbox_error + inbox" where
  "inbox_step pre ib e =
     (case ev_data e of
        InboxSpliced sp \<Rightarrow>
          (case apply_splice ib sp :: unit inbox_error + inbox \<times> message list of
             Inl _ \<Rightarrow> Inl (InvalidPersistedSplice (ev_seq e))
           | Inr (ib', _) \<Rightarrow> Inr ib')
      | _ \<Rightarrow> Inr ib)"

text \<open>The constructor: replay the events after the inherited seed.\<close>

definition inbox_of :: "session_event list \<Rightarrow> int option \<Rightarrow> 'e inbox_error + inbox" where
  "inbox_of events seedLength =
     replay_from inbox_step [] empty_inbox
       (drop (nat (case seedLength of Some n \<Rightarrow> n | None \<Rightarrow> 0)) events)"

section \<open>Mutations\<close>

definition actual_start :: "nat \<Rightarrow> js_number \<Rightarrow> int" where
  "actual_start len start =
     (case start of
        JsFin q \<Rightarrow> (let offset = trunc_rat q in
                    if offset < 0 then max (int len + offset) 0 else min offset (int len))
      | JsInf \<Rightarrow> int len
      | _ \<Rightarrow> 0)"

definition actual_delete_count :: "nat \<Rightarrow> int \<Rightarrow> js_number \<Rightarrow> int" where
  "actual_delete_count len actualStart deleteCount =
     (case deleteCount of
        JsFin q \<Rightarrow> min (max (trunc_rat q) 0) (int len - actualStart)
      | JsInf \<Rightarrow> int len - actualStart
      | _ \<Rightarrow> 0)"

text \<open>
  \<open>Math.trunc\<close> maps the open interval from minus one to zero, and negative zero itself, to negative
  zero; \<open>Math.min\<close> keeps it, and a durable event cannot carry it.
\<close>

definition negative_zero_start :: "js_number \<Rightarrow> bool" where
  "negative_zero_start start =
     (case start of JsFin q \<Rightarrow> -1 < q \<and> q < 0 | JsNegZero \<Rightarrow> True | _ \<Rightarrow> False)"

definition normalized_splice ::
  "inbox \<Rightarrow> inbox_target \<Rightarrow> js_number \<Rightarrow> js_number \<Rightarrow> message list \<Rightarrow> bool \<Rightarrow> inbox_splice" where
  "normalized_splice ib target start deleteCount inserted discardRemoved =
     (let len = length (inbox_list ib target); i = actual_start len start;
          d = actual_delete_count len i deleteCount
      in \<lparr>is_target = target, is_start = i, is_removedCount = (if d = 0 then None else Some d),
          is_inserted = inserted, is_canceled = (discardRemoved \<and> d > 0)\<rparr>)"

definition mutate ::
  "('s \<Rightarrow> event_data \<Rightarrow> 's \<times> ('e + session_event)) \<Rightarrow> 's inbox_world \<Rightarrow> inbox_target \<Rightarrow> js_number
    \<Rightarrow> js_number \<Rightarrow> message list \<Rightarrow> bool \<Rightarrow> 's inbox_world \<times> ('e inbox_error + message list)" where
  "mutate commit w target start deleteCount inserted discardRemoved =
     (let ib = iw_inbox w; sp = normalized_splice ib target start deleteCount inserted discardRemoved in
      if is_removedCount sp = None \<and> inserted = [] then (w, Inr [])
      else case validate_splice ib sp of
             Inl err \<Rightarrow> (w, Inl err)
           | Inr _ \<Rightarrow>
               if negative_zero_start start then (w, Inl NotLosslessStart)
               else case commit (iw_session w) (InboxSpliced sp) of
                      (s', Inl err) \<Rightarrow> (w\<lparr>iw_session := s'\<rparr>, Inl (AppendFailed err))
                    | (s', Inr e) \<Rightarrow>
                        let removed = slice (inbox_list ib target) (nat (is_start sp))
                                        (nat (is_start sp) + nat (removed_count sp))
                        in (w\<lparr>iw_session := s',
                              iw_inbox := set_inbox_list ib target (spliced_list ib sp),
                              iw_notes := iw_notes w
                                @ (if discardRemoved then map NoteDiscarded removed else [])
                                @ map NoteInserted inserted\<rparr>, Inr removed))"

definition inbox_splice_op where
  "inbox_splice_op commit w target start deleteCount inserted =
     mutate commit w target start deleteCount inserted True"

definition inbox_append where
  "inbox_append commit w target m =
     inbox_splice_op commit w target (JsFin (of_nat (length (inbox_list (iw_inbox w) target)))) (JsFin 0) [m]"

definition inbox_prepend where
  "inbox_prepend commit w target m = inbox_splice_op commit w target (JsFin 0) (JsFin 0) [m]"

text \<open>\<open>clear\<close>: a throw of the first splice propagates before the second runs.\<close>

definition inbox_clear where
  "inbox_clear commit w =
     (case inbox_splice_op commit w NextStep (JsFin 0)
             (JsFin (of_nat (length (ib_nextStep (iw_inbox w))))) [] of
        (w1, Inl err) \<Rightarrow> (w1, Inl err)
      | (w1, Inr _) \<Rightarrow>
          inbox_splice_op commit w1 NextTurn (JsFin 0)
            (JsFin (of_nat (length (ib_nextTurn (iw_inbox w1))))) [])"

definition inbox_claim where
  "inbox_claim commit w target turn =
     (case mutate commit w NextStep (JsFin 0) (JsFin (of_nat (length (ib_nextStep (iw_inbox w))))) [] False of
        (w1, Inl err) \<Rightarrow> (w1, Inl err)
      | (w1, Inr claimed) \<Rightarrow>
          (case (if target = NextTurn then mutate commit w1 NextTurn (JsFin 0) (JsFin 1) [] False
                 else (w1, Inr [])) of
             (w2, Inl err) \<Rightarrow> (w2, Inl err)
           | (w2, Inr queued) \<Rightarrow>
               (w2\<lparr>iw_notes := iw_notes w2 @ map (\<lambda>m. NoteClaimed m turn) (claimed @ queued)\<rparr>,
                Inr (claimed @ queued))))"

definition find_index :: "message_id \<Rightarrow> message list \<Rightarrow> nat option" where
  "find_index i ms = index_of i (map msg_id ms)"

definition locate :: "inbox \<Rightarrow> message_id \<Rightarrow> (inbox_target \<times> nat) option" where
  "locate ib i =
     (case find_index i (ib_nextTurn ib) of
        Some n \<Rightarrow> Some (NextTurn, n)
      | None \<Rightarrow> map_option (Pair NextStep) (find_index i (ib_nextStep ib)))"

definition inbox_replace where
  "inbox_replace commit w i m =
     (case locate (iw_inbox w) i of
        None \<Rightarrow> (w, Inr False)
      | Some (target, n) \<Rightarrow>
          (case inbox_splice_op commit w target (JsFin (of_nat n)) (JsFin 1) [m] of
             (w', Inl err) \<Rightarrow> (w', Inl err)
           | (w', Inr _) \<Rightarrow> (w', Inr True)))"

definition inbox_remove where
  "inbox_remove commit w i =
     (case locate (iw_inbox w) i of
        None \<Rightarrow> (w, Inr False)
      | Some (target, n) \<Rightarrow>
          (case inbox_splice_op commit w target (JsFin (of_nat n)) (JsFin 1) [] of
             (w', Inl err) \<Rightarrow> (w', Inl err)
           | (w', Inr _) \<Rightarrow> (w', Inr True)))"

section \<open>Consumed work\<close>

fun accountsForClaim :: "turn_end_reason \<Rightarrow> bool" where
  "accountsForClaim TurnCompleted = False"
| "accountsForClaim _ = True"

record work_fold =
  wf_stepped :: "int set"
  wf_claimed :: "int set"
  wf_open :: "int option"
  wf_end :: "session_event option"
  wf_droppedUnrun :: bool

definition fresh_work :: work_fold where
  "fresh_work = \<lparr>wf_stepped = {}, wf_claimed = {}, wf_open = None, wf_end = None, wf_droppedUnrun = False\<rparr>"

text \<open>
  The \<open>turn/end\<close> branch: \<open>stepped.delete(turn)\<close> removes the turn and tells whether it was there;
  the claim set is only touched when it was not.
\<close>

definition work_event :: "work_fold \<Rightarrow> session_event \<Rightarrow> work_fold" where
  "work_event w e =
     (case ev_data e of
        TurnStart turn \<Rightarrow> w\<lparr>wf_open := Some turn\<rparr>
      | StepStart turn _ \<Rightarrow> w\<lparr>wf_stepped := insert turn (wf_stepped w)\<rparr>
      | InboxSpliced sp \<Rightarrow>
          (if is_removedCount sp = None then w
           else if is_canceled sp then w\<lparr>wf_droppedUnrun := (wf_droppedUnrun w \<or> is_inserted sp = [])\<rparr>
           else case wf_open w of
                  Some turn \<Rightarrow> w\<lparr>wf_claimed := insert turn (wf_claimed w)\<rparr>
                | None \<Rightarrow> w)
      | TurnEnd turn reason \<Rightarrow>
          (let w1 = w\<lparr>wf_open := None\<rparr> in
           if turn \<in> wf_stepped w then
             w1\<lparr>wf_stepped := wf_stepped w - {turn}, wf_end := Some e, wf_droppedUnrun := False\<rparr>
           else let w2 = w1\<lparr>wf_claimed := wf_claimed w - {turn}\<rparr> in
             if turn \<in> wf_claimed w \<and> accountsForClaim reason then
               w2\<lparr>wf_end := Some e, wf_droppedUnrun := False\<rparr>
             else w2)
      | _ \<Rightarrow> w)"

definition foldConsumedWork :: "session_event list \<Rightarrow> session_event option \<times> bool" where
  "foldConsumedWork es = (let w = foldl work_event fresh_work es in (wf_end w, wf_droppedUnrun w))"

section \<open>The projection keeps identities distinct\<close>

definition pending_messages :: "inbox \<Rightarrow> message list" where
  "pending_messages ib = ib_nextTurn ib @ ib_nextStep ib"

definition inbox_inv :: "session_event list \<Rightarrow> inbox \<Rightarrow> bool" where
  "inbox_inv es ib \<longleftrightarrow> distinct (map msg_id (pending_messages ib))"

lemma check_ids_Inr:
  "check_ids seen ms = Inr u \<longleftrightarrow> distinct (map msg_id ms) \<and> set (map msg_id ms) \<inter> set seen = {}"
  by (induction seen ms rule: check_ids.induct) auto

lemma validate_splice_Inr:
  assumes "validate_splice ib sp = Inr u"
  shows "0 \<le> is_start sp \<and> 0 \<le> removed_count sp \<and>
    is_start sp + removed_count sp \<le> int (length (inbox_list ib (is_target sp))) \<and>
    distinct (map msg_id (pending_messages (set_inbox_list ib (is_target sp) (spliced_list ib sp))))"
  using assms
  by (cases "is_target sp")
    (auto simp: validate_splice_def Let_def check_ids_Inr pending_messages_def split: if_splits)

lemma validate_splice_error_indep:
  "(\<exists>err. validate_splice ib sp = (Inl err :: 'e inbox_error + unit)) \<longleftrightarrow>
   (\<exists>err. validate_splice ib sp = (Inl err :: 'f inbox_error + unit))"
proof -
  have "(check_ids seen ms = (Inr () :: 'e inbox_error + unit)) \<longleftrightarrow> (check_ids seen ms = (Inr () :: 'f inbox_error + unit))"
    for seen ms by (simp add: check_ids_Inr)
  then have "(validate_splice ib sp = (Inr () :: 'e inbox_error + unit)) \<longleftrightarrow>
      (validate_splice ib sp = (Inr () :: 'f inbox_error + unit))"
    by (auto simp: validate_splice_def Let_def)
  then show ?thesis by (metis old.unit.exhaust obj_sumE sum.distinct(1))
qed

interpretation inbox: log_replay "inbox_step :: _ \<Rightarrow> _ \<Rightarrow> _ \<Rightarrow> 'e inbox_error + inbox" empty_inbox inbox_inv
proof
  show "inbox_inv [] empty_inbox" by (simp add: inbox_inv_def empty_inbox_def pending_messages_def)
next
  fix pre ib e and ib' :: inbox
  assume "inbox_inv pre ib" "inbox_step pre ib e = (Inr ib' :: 'e inbox_error + inbox)"
  then show "inbox_inv (pre @ [e]) ib'"
    by (auto simp: inbox_step_def inbox_inv_def apply_splice_def result_simps
        dest!: validate_splice_Inr split: event_data.splits sum.splits)
qed

lemma inbox_step_splice:
  assumes "validate_splice ib sp = (Inr () :: 'f inbox_error + unit)" "ev_data e = InboxSpliced sp"
  shows "inbox_step pre ib e = (Inr (set_inbox_list ib (is_target sp) (spliced_list ib sp)) :: 'e inbox_error + inbox)"
proof -
  have "validate_splice ib sp = (Inr () :: unit inbox_error + unit)"
    using validate_splice_error_indep [where 'e = 'f and 'f = unit] assms(1)
    by (metis (full_types) old.unit.exhaust obj_sumE sum.distinct(1))
  with assms(2) show ?thesis by (simp add: inbox_step_def apply_splice_def)
qed

lemma inbox_step_foreign:
  "(\<And>sp. d \<noteq> InboxSpliced sp) \<Longrightarrow> ev_data e = d \<Longrightarrow> inbox_step pre ib e = Inr ib"
  by (cases d) (auto simp: inbox_step_def)

lemma replay_inbox_snoc:
  "k \<le> length lg \<Longrightarrow> replay_from inbox_step [] empty_inbox (drop k (lg @ [e]))
     = bind_result (replay_from inbox_step [] empty_inbox (drop k lg)) (\<lambda>ib. inbox_step (drop k lg) ib e)"
  by (simp add: replay_from_snoc)

section \<open>Runs of the inbox\<close>

datatype inbox_op =
    DoAppend inbox_target message
  | DoPrepend inbox_target message
  | DoReplace message_id message
  | DoRemove message_id
  | DoClear
  | DoClaim inbox_target int
  | DoSplice inbox_target js_number js_number "message list"
  | DoForeign event_data

fun op_step ::
  "('s \<Rightarrow> event_data \<Rightarrow> 's \<times> ('e + session_event)) \<Rightarrow> 's inbox_world \<Rightarrow> inbox_op \<Rightarrow> 's inbox_world \<times> bool" where
  "op_step commit w (DoAppend t m) = map_prod id (\<lambda>r. \<not> isl r) (inbox_append commit w t m)"
| "op_step commit w (DoPrepend t m) = map_prod id (\<lambda>r. \<not> isl r) (inbox_prepend commit w t m)"
| "op_step commit w (DoReplace i m) = map_prod id (\<lambda>r. \<not> isl r) (inbox_replace commit w i m)"
| "op_step commit w (DoRemove i) = map_prod id (\<lambda>r. \<not> isl r) (inbox_remove commit w i)"
| "op_step commit w DoClear = map_prod id (\<lambda>r. \<not> isl r) (inbox_clear commit w)"
| "op_step commit w (DoClaim t n) = map_prod id (\<lambda>r. \<not> isl r) (inbox_claim commit w t n)"
| "op_step commit w (DoSplice t a b ms) = map_prod id (\<lambda>r. \<not> isl r) (inbox_splice_op commit w t a b ms)"
| "op_step commit w (DoForeign d) =
     (case d of InboxSpliced _ \<Rightarrow> (w, True)
      | _ \<Rightarrow> (case commit (iw_session w) d of (s', _) \<Rightarrow> (w\<lparr>iw_session := s'\<rparr>, True)))"

definition run_ops where
  "run_ops commit w ops = foldl (\<lambda>w x. fst (op_step commit w x)) w ops"

fun claims_succeed ::
  "('s \<Rightarrow> event_data \<Rightarrow> 's \<times> ('e + session_event)) \<Rightarrow> 's inbox_world \<Rightarrow> inbox_op list \<Rightarrow> bool" where
  "claims_succeed commit w [] = True"
| "claims_succeed commit w (x # xs) =
     ((snd (op_step commit w x) \<or> (case x of DoClaim _ _ \<Rightarrow> False | _ \<Rightarrow> True)) \<and>
      claims_succeed commit (fst (op_step commit w x)) xs)"

fun discarded :: "inbox_note list \<Rightarrow> message list" where
  "discarded [] = []"
| "discarded (NoteDiscarded m # ns) = m # discarded ns"
| "discarded (_ # ns) = discarded ns"

fun claimed_notes :: "inbox_note list \<Rightarrow> message list" where
  "claimed_notes [] = []"
| "claimed_notes (NoteClaimed m _ # ns) = m # claimed_notes ns"
| "claimed_notes (_ # ns) = claimed_notes ns"

fun inserted_notes :: "inbox_note list \<Rightarrow> message list" where
  "inserted_notes [] = []"
| "inserted_notes (NoteInserted m # ns) = m # inserted_notes ns"
| "inserted_notes (_ # ns) = inserted_notes ns"

lemma notes_append [simp]:
  "discarded (xs @ ys) = discarded xs @ discarded ys"
  "claimed_notes (xs @ ys) = claimed_notes xs @ claimed_notes ys"
  "inserted_notes (xs @ ys) = inserted_notes xs @ inserted_notes ys"
  by (induction xs rule: discarded.induct; simp; fail)
    (induction xs rule: claimed_notes.induct; simp; fail | induction xs rule: inserted_notes.induct; simp)+

lemma notes_map [simp]:
  "discarded (map NoteDiscarded ms) = ms" "discarded (map NoteInserted ms) = []"
  "discarded (map (\<lambda>m. NoteClaimed m t) ms) = []"
  "claimed_notes (map NoteDiscarded ms) = []" "claimed_notes (map NoteInserted ms) = []"
  "claimed_notes (map (\<lambda>m. NoteClaimed m t) ms) = ms"
  "inserted_notes (map NoteDiscarded ms) = []" "inserted_notes (map NoteInserted ms) = ms"
  "inserted_notes (map (\<lambda>m. NoteClaimed m t) ms) = []"
  by (induction ms) simp_all

text \<open>Where a message can be: pending, published as discarded, or published as claimed.\<close>

definition accounted :: "'s inbox_world \<Rightarrow> message multiset" where
  "accounted w = mset (pending_messages (iw_inbox w)) + mset (discarded (iw_notes w)) + mset (claimed_notes (iw_notes w))"

definition entered :: "'s inbox_world \<Rightarrow> message multiset" where
  "entered w = mset (inserted_notes (iw_notes w))"

lemma mset_splice_conserve:
  assumes "i + d \<le> length xs"
  shows "mset (splice_list xs i d ins) + mset (slice xs i (i + d)) = mset xs + mset ins"
proof -
  have "mset xs = mset (take i xs @ slice xs i (i + d) @ drop (i + d) xs)"
    by (simp add: slice_split del: mset_append)
  then show ?thesis by (simp add: splice_list_def)
qed

lemma pending_set_inbox_list:
  "mset (pending_messages (set_inbox_list ib t ms)) + mset (inbox_list ib t) = mset (pending_messages ib) + mset ms"
  by (cases t) (simp_all add: pending_messages_def)

lemma mset_move:
  assumes "S + R = L + I" "P' + L = P + (S :: 'a multiset)"
  shows "P' + R = P + I"
proof -
  have "P' + R + L = P + S + R" by (simp only: assms(2) [symmetric] ac_simps)
  also have "\<dots> = P + I + L" by (simp only: assms(1) add.assoc) (simp only: ac_simps)
  finally show ?thesis by simp
qed

lemma map_prod_id_Pair: "map_prod id f p = (a, b) \<longleftrightarrow> (\<exists>c. p = (a, c) \<and> b = f c)"
  by (cases p) auto

context event_appender
begin

lemma mutate_cases:
  assumes "mutate commit w target start deleteCount inserted discardRemoved = (w', r)"
  obtains
    (Failed) err where "r = Inl err" "log_of (iw_session w') = log_of (iw_session w)"
      "iw_inbox w' = iw_inbox w" "iw_notes w' = iw_notes w"
  | (Noop) "r = Inr []" "w' = w" "inserted = []"
      "is_removedCount (normalized_splice (iw_inbox w) target start deleteCount inserted discardRemoved) = None"
  | (Done) sp e removed where "r = Inr removed" "log_of (iw_session w') = log_of (iw_session w) @ [e]"
      "sp = normalized_splice (iw_inbox w) target start deleteCount inserted discardRemoved"
      "ev_data e = InboxSpliced sp" "is_target sp = target" "is_inserted sp = inserted"
      "validate_splice (iw_inbox w) sp = (Inr () :: 'e inbox_error + unit)"
      "removed = slice (inbox_list (iw_inbox w) target) (nat (is_start sp)) (nat (is_start sp) + nat (removed_count sp))"
      "iw_inbox w' = set_inbox_list (iw_inbox w) target (spliced_list (iw_inbox w) sp)"
      "iw_notes w' = iw_notes w @ (if discardRemoved then map NoteDiscarded removed else []) @ map NoteInserted inserted"
proof -
  define sp where "sp = normalized_splice (iw_inbox w) target start deleteCount inserted discardRemoved"
  have sp: "is_target sp = target" "is_inserted sp = inserted"
    by (simp_all add: sp_def normalized_splice_def Let_def)
  note m = assms [unfolded mutate_def Let_def, folded sp_def]
  show thesis
  proof (cases "is_removedCount sp = None \<and> inserted = []")
    case True
    with m show thesis by (intro Noop) (auto simp: sp_def)
  next
    case False
    show thesis
    proof (cases "validate_splice (iw_inbox w) sp :: 'e inbox_error + unit")
      case (Inl err)
      with m False show thesis by (intro Failed [of err]) auto
    next
      case (Inr u)
      show thesis
      proof (cases "negative_zero_start start")
        case True
        with m False Inr show thesis by (intro Failed [of NotLosslessStart]) auto
      next
        case nz: False
        obtain s' q where c: "commit (iw_session w) (InboxSpliced sp) = (s', q)"
          by (cases "commit (iw_session w) (InboxSpliced sp)")
        show thesis
        proof (cases q)
          case (Inl err)
          with m False Inr nz c commit_Inl [of "iw_session w" "InboxSpliced sp" s' err] show thesis
            by (intro Failed [of "AppendFailed err"]) auto
        next
          case q: (Inr e)
          with c commit_Inr have "log_of s' = log_of (iw_session w) @ [e] \<and> ev_data e = InboxSpliced sp" by blast
          with m False Inr nz c q sp show thesis
            by (intro Done [OF _ _ sp_def, of _ e]) auto
        qed
      qed
    qed
  qed
qed

definition synced :: "nat \<Rightarrow> 's inbox_world \<Rightarrow> bool" where
  "synced k w \<longleftrightarrow> k \<le> length (log_of (iw_session w)) \<and>
     replay_from inbox_step [] empty_inbox (drop k (log_of (iw_session w))) = (Inr (iw_inbox w) :: 'e inbox_error + inbox)"

lemma mutate_synced:
  assumes "synced k w" "mutate commit w t a b ins disc = (w', r)"
  shows "synced k w'"
  using assms(2)
proof (cases rule: mutate_cases)
  case (Done sp e removed)
  with assms(1) inbox_step_splice [OF Done(7,4)] show ?thesis
    by (simp add: synced_def replay_inbox_snoc del: drop_append)
qed (use assms(1) in \<open>simp_all add: synced_def\<close>)

lemma mutate_accounted:
  assumes "mutate commit w t a b ins disc = (w', r)"
  shows "entered w' = entered w + (case r of Inl _ \<Rightarrow> {#} | Inr _ \<Rightarrow> mset ins)"
    and "accounted w' + (case r of Inl _ \<Rightarrow> {#} | Inr removed \<Rightarrow> if disc then {#} else mset removed)
      = accounted w + (case r of Inl _ \<Rightarrow> {#} | Inr _ \<Rightarrow> mset ins)"
proof -
  have "entered w' = entered w + (case r of Inl _ \<Rightarrow> {#} | Inr _ \<Rightarrow> mset ins) \<and>
    accounted w' + (case r of Inl _ \<Rightarrow> {#} | Inr removed \<Rightarrow> if disc then {#} else mset removed)
      = accounted w + (case r of Inl _ \<Rightarrow> {#} | Inr _ \<Rightarrow> mset ins)"
    using assms
  proof (cases rule: mutate_cases)
    case (Done sp e removed)
    note v = validate_splice_Inr [OF Done(7)]
    have "nat (is_start sp) + nat (removed_count sp) \<le> length (inbox_list (iw_inbox w) t)"
      using v unfolding Done(5) by (simp add: nat_add_distrib [symmetric] nat_le_iff)
    from mset_splice_conserve [OF this, of ins] Done(5,6,8)
    have "mset (spliced_list (iw_inbox w) sp) + mset removed = mset (inbox_list (iw_inbox w) t) + mset ins"
      by (simp add: spliced_list_def)
    from mset_move [OF this pending_set_inbox_list]
    have p: "mset (pending_messages (iw_inbox w')) + mset removed = mset (pending_messages (iw_inbox w)) + mset ins"
      unfolding Done(9) .
    have "accounted w' + (if disc then {#} else mset removed)
        = (mset (pending_messages (iw_inbox w')) + mset removed) + (mset (discarded (iw_notes w)) + mset (claimed_notes (iw_notes w)))"
      by (simp add: accounted_def Done(10))
    then have "accounted w' + (if disc then {#} else mset removed) = accounted w + mset ins"
      unfolding p by (simp add: accounted_def)
    with Done(1,10) show ?thesis by (simp add: entered_def)
  qed (auto simp: accounted_def entered_def)
  then show "entered w' = entered w + (case r of Inl _ \<Rightarrow> {#} | Inr _ \<Rightarrow> mset ins)"
    and "accounted w' + (case r of Inl _ \<Rightarrow> {#} | Inr removed \<Rightarrow> if disc then {#} else mset removed)
      = accounted w + (case r of Inl _ \<Rightarrow> {#} | Inr _ \<Rightarrow> mset ins)" by blast+
qed


lemma splice_op_mutate:
  "inbox_splice_op commit w t a b ms = (w', r) \<longleftrightarrow> mutate commit w t a b ms True = (w', r)"
  by (simp add: inbox_splice_op_def)

text \<open>Each operation is at most two mutations; a claim adds its notifications at the end.\<close>

lemma op_step_synced:
  assumes "synced k w" "op_step commit w x = (w', ok)"
  shows "synced k w'"
proof (cases x)
  case DoClear
  with assms show ?thesis
    by (auto simp: map_prod_id_Pair inbox_clear_def splice_op_mutate dest: mutate_synced split: prod.splits sum.splits)
next
  case (DoClaim t n)
  with assms have "\<exists>w1. synced k w1 \<and> iw_session w' = iw_session w1 \<and> iw_inbox w' = iw_inbox w1"
    by (fastforce simp: inbox_claim_def dest: mutate_synced split: prod.splits sum.splits if_splits)
  then show ?thesis by (auto simp: synced_def)
next
  case (DoForeign d)
  show ?thesis
  proof (cases "\<exists>sp. d = InboxSpliced sp")
    case True
    with DoForeign assms show ?thesis by auto
  next
    case False
    obtain s' r where c: "commit (iw_session w) d = (s', r)" by (cases "commit (iw_session w) d")
    with DoForeign False assms(2) have w': "w' = w\<lparr>iw_session := s'\<rparr>" by (cases d) auto
    show ?thesis
    proof (cases r)
      case (Inl err)
      with commit_Inl c w' assms(1) show ?thesis by (simp add: synced_def)
    next
      case (Inr e)
      with commit_Inr c have "log_of s' = log_of (iw_session w) @ [e]" "ev_data e = d" by blast+
      with inbox_step_foreign [of d e] False w' assms(1) show ?thesis
        by (simp add: synced_def replay_inbox_snoc del: drop_append)
    qed
  qed
qed (use assms in \<open>auto simp: map_prod_id_Pair inbox_append_def inbox_prepend_def inbox_replace_def inbox_remove_def
      splice_op_mutate dest: mutate_synced split: prod.splits sum.splits option.splits\<close>)

definition balanced :: "'s inbox_world \<Rightarrow> 's inbox_world \<Rightarrow> bool" where
  "balanced w w' \<longleftrightarrow> accounted w' + entered w = accounted w + entered w'"

lemma balanced_refl [simp]: "balanced w w"
  by (simp add: balanced_def)

lemma balanced_trans: "balanced w1 w2 \<Longrightarrow> balanced w2 w3 \<Longrightarrow> balanced w1 w3"
proof -
  assume "balanced w1 w2" "balanced w2 w3"
  then have "accounted w3 + entered w1 + (accounted w2 + entered w2)
      = accounted w1 + entered w3 + (accounted w2 + entered w2)"
    unfolding balanced_def by (metis (no_types, lifting) add.assoc add.commute)
  then show ?thesis by (simp add: balanced_def)
qed

lemma mutate_balanced: "mutate commit w t a b ms True = (w', r) \<Longrightarrow> balanced w w'"
  using mutate_accounted [of w t a b ms True w' r] by (auto simp: balanced_def ac_simps split: sum.splits)

lemma claim_balanced:
  assumes "inbox_claim commit w t n = (w', Inr ms)"
  shows "balanced w w'"
proof -
  from assms obtain w1 w2 c q where
    1: "mutate commit w NextStep (JsFin 0) (JsFin (of_nat (length (ib_nextStep (iw_inbox w))))) [] False = (w1, Inr c)"
    and 2: "(if t = NextTurn then mutate commit w1 NextTurn (JsFin 0) (JsFin 1) [] False else (w1, Inr [])) = (w2, Inr q)"
    and 3: "w' = w2\<lparr>iw_notes := iw_notes w2 @ map (\<lambda>m. NoteClaimed m n) (c @ q)\<rparr>"
    by (auto simp: inbox_claim_def split: prod.splits sum.splits)
  from mutate_accounted [OF 1] have a1: "accounted w1 + mset c = accounted w" "entered w1 = entered w" by simp_all
  have a2: "accounted w2 + mset q = accounted w1" "entered w2 = entered w1"
    using mutate_accounted [of w1 NextTurn "JsFin 0" "JsFin 1" "[]" False w2 "Inr q"] 2
    by (simp_all split: if_splits)
  have "accounted w' = accounted w2 + mset q + mset c" "entered w' = entered w2"
    by (simp_all add: 3 accounted_def entered_def ac_simps)
  with a1 a2 show ?thesis by (simp add: balanced_def)
qed

lemma op_step_balanced:
  assumes "op_step commit w x = (w', ok)" "ok \<or> (\<forall>t n. x \<noteq> DoClaim t n)"
  shows "balanced w w'"
proof (cases x)
  case DoClear
  with assms(1) show ?thesis
    by (auto simp: map_prod_id_Pair inbox_clear_def splice_op_mutate dest!: mutate_balanced
        intro: balanced_trans split: prod.splits sum.splits)
next
  case (DoClaim t n)
  with assms obtain ms where "inbox_claim commit w t n = (w', Inr ms)"
    by (cases "inbox_claim commit w t n"; cases "snd (inbox_claim commit w t n)") auto
  then show ?thesis by (rule claim_balanced)
next
  case (DoForeign d)
  with assms(1) have "iw_inbox w' = iw_inbox w" "iw_notes w' = iw_notes w"
    by (cases d; auto split: prod.splits)+
  then show ?thesis by (simp add: balanced_def accounted_def entered_def)
qed (use assms(1) in \<open>auto simp: map_prod_id_Pair inbox_append_def inbox_prepend_def inbox_replace_def inbox_remove_def
      splice_op_mutate dest: mutate_balanced split: prod.splits sum.splits option.splits\<close>)

lemma run_ops_synced: "synced k w \<Longrightarrow> synced k (run_ops commit w ops)"
proof (induction ops arbitrary: w)
  case (Cons x ops)
  with op_step_synced [of k w x] show ?case
    by (cases "op_step commit w x") (simp add: run_ops_def)
qed (simp add: run_ops_def)

lemma run_ops_balanced: "claims_succeed commit w ops \<Longrightarrow> balanced w (run_ops commit w ops)"
proof (induction ops arbitrary: w)
  case (Cons x ops)
  then have "balanced w (fst (op_step commit w x))"
    using op_step_balanced [of w x] by (cases "op_step commit w x") (auto split: inbox_op.splits)
  with Cons balanced_trans show ?case by (fastforce simp: run_ops_def)
qed (simp add: run_ops_def)


lemma mutate_prefix:
  assumes "mutate commit w t (JsFin 0) (JsFin (of_nat n)) [] False = (w', Inr ms)"
  shows "ms = take n (inbox_list (iw_inbox w) t) \<and>
    iw_inbox w' = set_inbox_list (iw_inbox w) t (drop n (inbox_list (iw_inbox w) t))"
proof -
  have d: "actual_delete_count len 0 (JsFin (of_nat n)) = int (min n len)" for len
    by (simp add: actual_delete_count_def trunc_rat_def)
  have s: "actual_start len (JsFin 0) = 0" for len
    by (simp add: actual_start_def trunc_rat_def)
  let ?xs = "inbox_list (iw_inbox w) t"
  from assms show ?thesis
  proof (cases rule: mutate_cases)
    case Noop
    then have "min n (length ?xs) = 0"
      by (auto simp: normalized_splice_def Let_def s d split: if_splits)
    then have "take n ?xs = [] \<and> drop n ?xs = ?xs" by (cases n; cases ?xs) auto
    moreover have "set_inbox_list (iw_inbox w) t ?xs = iw_inbox w" by (cases t) simp_all
    ultimately show ?thesis using Noop(1,2) by simp
  next
    case (Done sp e removed)
    have "is_start sp = 0" "removed_count sp = int (min n (length ?xs))"
      by (simp_all add: Done(3) normalized_splice_def Let_def s d removed_count_def)
    moreover have "drop (min n (length ?xs)) ?xs = drop n ?xs" "take (min n (length ?xs)) ?xs = take n ?xs"
      by (simp_all add: min_def)
    ultimately show ?thesis
      using Done by (simp add: spliced_list_def splice_list_def slice_def)
  qed simp
qed

lemma claim_result:
  assumes "inbox_claim commit w t n = (w', Inr ms)"
  shows "ms = ib_nextStep (iw_inbox w) @ (if t = NextTurn then take 1 (ib_nextTurn (iw_inbox w)) else []) \<and>
    iw_inbox w' = \<lparr>ib_nextTurn = (if t = NextTurn then drop 1 (ib_nextTurn (iw_inbox w)) else ib_nextTurn (iw_inbox w)),
      ib_nextStep = []\<rparr>"
proof -
  from assms obtain w1 w2 c q where
    1: "mutate commit w NextStep (JsFin 0) (JsFin (of_nat (length (ib_nextStep (iw_inbox w))))) [] False = (w1, Inr c)"
    and 2: "(if t = NextTurn then mutate commit w1 NextTurn (JsFin 0) (JsFin 1) [] False else (w1, Inr [])) = (w2, Inr q)"
    and 3: "w' = w2\<lparr>iw_notes := iw_notes w2 @ map (\<lambda>m. NoteClaimed m n) (c @ q)\<rparr>" "ms = c @ q"
    by (auto simp: inbox_claim_def split: prod.splits sum.splits)
  note m1 = mutate_prefix [OF 1]
  have m2: "t = NextTurn \<Longrightarrow> q = take 1 (ib_nextTurn (iw_inbox w1)) \<and>
      iw_inbox w2 = set_inbox_list (iw_inbox w1) NextTurn (drop 1 (ib_nextTurn (iw_inbox w1)))"
    using mutate_prefix [of w1 NextTurn 1 w2 q] 2 by simp
  show ?thesis
  proof (cases "t = NextTurn")
    case True
    with m1 m2 3 show ?thesis by (auto intro: inbox.equality)
  next
    case False
    with m1 2 3 show ?thesis by (auto intro: inbox.equality)
  qed
qed

end

section \<open>The account of consumed work\<close>

definition drops_unrun :: "session_event \<Rightarrow> bool" where
  "drops_unrun e \<longleftrightarrow>
     (case ev_data e of
        InboxSpliced sp \<Rightarrow> is_removedCount sp \<noteq> None \<and> is_canceled sp \<and> is_inserted sp = []
      | _ \<Rightarrow> False)"

lemma foldConsumedWork_snoc:
  "foldl work_event fresh_work (es @ [e]) = work_event (foldl work_event fresh_work es) e"
  by simp

lemma work_event_end:
  "(wf_end (work_event w e) = Some e \<and> \<not> wf_droppedUnrun (work_event w e)) \<or>
   (wf_end (work_event w e) = wf_end w \<and> (wf_droppedUnrun (work_event w e) \<longleftrightarrow> wf_droppedUnrun w \<or> drops_unrun e))"
  by (cases "ev_data e") (auto simp: work_event_def drops_unrun_def Let_def split: option.splits)

lemma dropped_since_end:
  "case wf_end (foldl work_event fresh_work es) of
     None \<Rightarrow> wf_droppedUnrun (foldl work_event fresh_work es) \<longleftrightarrow> (\<exists>x \<in> set es. drops_unrun x)
   | Some e \<Rightarrow> \<exists>pre post. es = pre @ e # post \<and>
       (wf_droppedUnrun (foldl work_event fresh_work es) \<longleftrightarrow> (\<exists>x \<in> set post. drops_unrun x))"
proof (induction es rule: rev_induct)
  case Nil
  then show ?case by (simp add: fresh_work_def)
next
  case (snoc e es)
  let ?w = "foldl work_event fresh_work es"
  from work_event_end [of ?w e] show ?case
  proof
    assume "wf_end (work_event ?w e) = Some e \<and> \<not> wf_droppedUnrun (work_event ?w e)"
    then show ?thesis by (auto intro: exI [of _ es] exI [of _ "[]"])
  next
    assume k: "wf_end (work_event ?w e) = wf_end ?w \<and> (wf_droppedUnrun (work_event ?w e) \<longleftrightarrow> wf_droppedUnrun ?w \<or> drops_unrun e)"
    show ?thesis
    proof (cases "wf_end ?w")
      case None
      with snoc k show ?thesis by auto
    next
      case (Some x)
      with snoc have "\<exists>pre post. es = pre @ x # post \<and> (wf_droppedUnrun ?w \<longleftrightarrow> (\<exists>y \<in> set post. drops_unrun y))" by simp
      then obtain pre post where "es = pre @ x # post"
        "wf_droppedUnrun ?w \<longleftrightarrow> (\<exists>y \<in> set post. drops_unrun y)" by blast
      then have "es @ [e] = pre @ x # (post @ [e])"
        "wf_droppedUnrun (work_event ?w e) \<longleftrightarrow> (\<exists>y \<in> set (post @ [e]). drops_unrun y)" using k by auto
      moreover have "wf_end (work_event ?w e) = Some x" using Some k by simp
      ultimately show ?thesis unfolding foldConsumedWork_snoc by (simp only: option.simps) blast
    qed
  qed
qed

lemma stepped_survives:
  "turn \<in> wf_stepped w \<Longrightarrow> \<forall>x \<in> set es. \<forall>r. ev_data x \<noteq> TurnEnd turn r \<Longrightarrow> turn \<in> wf_stepped (foldl work_event w es)"
proof (induction es arbitrary: w)
  case (Cons x es)
  then have "turn \<in> wf_stepped (work_event w x)"
    by (cases "ev_data x") (auto simp: work_event_def Let_def split: option.split)
  with Cons show ?case by simp
qed simp

section \<open>Claims\<close>

definition sample_prompt :: "string \<Rightarrow> message" where
  "sample_prompt i = sample_message i UserRole [TextBlock i] UserSource"

definition sample_commit :: "session \<Rightarrow> event_data \<Rightarrow> session \<times> (session_error + session_event)" where
  "sample_commit s d = session_append s False (\<lambda>_. False) 0 d plain_opts"

definition sample_world :: "session inbox_world" where
  "sample_world = \<lparr>iw_session = blank_session sample_header, iw_inbox = empty_inbox, iw_notes = []\<rparr>"

definition sample_ops :: "inbox_op list" where
  "sample_ops = [DoAppend NextTurn (sample_prompt ''a''), DoAppend NextTurn (sample_prompt ''b''),
     DoPrepend NextStep (sample_prompt ''c''), DoForeign (TurnStart 1), DoClaim NextTurn 1,
     DoReplace ''b'' (sample_prompt ''d'')]"

text \<open>
  C16. The inbox is its log: starting from a replayed inbox, after any sequence of inbox operations,
  failed ones included, and of foreign events appended to the same session, the live lists are
  exactly the replay of the durable splices, and no message identity is pending twice.
\<close>

theorem inbox_refines_log:
  assumes start: "inbox_of (se_log s) seed = (Inr ib :: session_error inbox_error + inbox)"
    and len: "(case seed of Some n \<Rightarrow> nat n | None \<Rightarrow> 0) \<le> length (se_log s)"
    and run: "w = run_ops (\<lambda>s d. session_append s appending veto now d opts)
      \<lparr>iw_session = s, iw_inbox = ib, iw_notes = []\<rparr> ops"
  shows "inbox_of (se_log (iw_session w)) seed = (Inr (iw_inbox w) :: session_error inbox_error + inbox) \<and>
    distinct (map msg_id (ib_nextTurn (iw_inbox w) @ ib_nextStep (iw_inbox w)))"
proof -
  let ?k = "case seed of Some n \<Rightarrow> nat n | None \<Rightarrow> 0"
  have k: "nat (case seed of Some n \<Rightarrow> n | None \<Rightarrow> 0) = ?k" by (cases seed) simp_all
  have "session_log.synced ?k \<lparr>iw_session = s, iw_inbox = ib, iw_notes = []\<rparr>"
    using start len by (simp add: session_log.synced_def inbox_of_def k)
  from session_log.run_ops_synced [OF this] have sy: "session_log.synced ?k w" unfolding run .
  then have "replay_from inbox_step [] empty_inbox (drop ?k (se_log (iw_session w)))
      = (Inr (iw_inbox w) :: session_error inbox_error + inbox)"
    by (simp add: session_log.synced_def)
  moreover from inbox.project_inv [unfolded inbox.project_def, OF this]
  have "distinct (map msg_id (pending_messages (iw_inbox w)))" by (simp add: inbox_inv_def)
  ultimately show ?thesis by (simp add: inbox_of_def k pending_messages_def)
qed

theorem inbox_refines_log_witness:
  "inbox_of (se_log (iw_session (run_ops sample_commit sample_world sample_ops))) None
     = (Inr (iw_inbox (run_ops sample_commit sample_world sample_ops)) :: session_error inbox_error + inbox) \<and>
   map msg_id (ib_nextTurn (iw_inbox (run_ops sample_commit sample_world sample_ops))) = [''d'']"
proof -
  have start: "inbox_of (se_log (blank_session sample_header)) None = (Inr empty_inbox :: session_error inbox_error + inbox)"
    by (simp add: inbox_of_def blank_session_def)
  have "map msg_id (ib_nextTurn (iw_inbox (run_ops sample_commit sample_world sample_ops))) = [''d'']"
    by code_simp
  with inbox_refines_log [OF start, of "run_ops sample_commit sample_world sample_ops" False "\<lambda>_. False" 0 plain_opts sample_ops]
  show ?thesis by (simp add: sample_world_def sample_commit_def [abs_def])
qed

text \<open>
  C17. No message is lost or duplicated: over any run in which every claim succeeds, the messages
  pending at the end, published as discarded and published as claimed are together exactly the
  messages pending at the start and published as inserted, counted with multiplicity.
\<close>

theorem inbox_conserves_messages:
  assumes ok: "claims_succeed (\<lambda>s d. session_append s appending veto now d opts)
      \<lparr>iw_session = s, iw_inbox = ib, iw_notes = []\<rparr> ops"
    and run: "w = run_ops (\<lambda>s d. session_append s appending veto now d opts)
      \<lparr>iw_session = s, iw_inbox = ib, iw_notes = []\<rparr> ops"
  shows "mset (ib_nextTurn (iw_inbox w) @ ib_nextStep (iw_inbox w)) + mset (discarded (iw_notes w))
      + mset (claimed_notes (iw_notes w))
    = mset (ib_nextTurn ib @ ib_nextStep ib) + mset (inserted_notes (iw_notes w))"
  using session_log.run_ops_balanced [OF ok] unfolding run [symmetric]
  by (simp add: session_log.balanced_def accounted_def entered_def pending_messages_def)

theorem inbox_conserves_messages_witness:
  "mset (map msg_id (claimed_notes (iw_notes (run_ops sample_commit sample_world sample_ops)))) = {#''c'', ''a''#} \<and>
   mset (ib_nextTurn (iw_inbox (run_ops sample_commit sample_world sample_ops))
       @ ib_nextStep (iw_inbox (run_ops sample_commit sample_world sample_ops)))
     + mset (discarded (iw_notes (run_ops sample_commit sample_world sample_ops)))
     + mset (claimed_notes (iw_notes (run_ops sample_commit sample_world sample_ops)))
   = mset (inserted_notes (iw_notes (run_ops sample_commit sample_world sample_ops)))"
proof -
  have ok: "claims_succeed sample_commit sample_world sample_ops" by code_simp
  have ids: "map msg_id (claimed_notes (iw_notes (run_ops sample_commit sample_world sample_ops))) = [''c'', ''a'']"
    by code_simp
  from inbox_conserves_messages [OF ok [unfolded sample_commit_def [abs_def] sample_world_def] refl] ids
  show ?thesis by (simp add: sample_commit_def [abs_def] sample_world_def empty_inbox_def)
qed

text \<open>
  A claim takes the whole next-step batch followed by at most one queued turn, in order, and
  leaves exactly the rest pending.
\<close>

theorem claim_takes_batch:
  assumes "inbox_claim (\<lambda>s d. session_append s appending veto now d opts) w target turn = (w', Inr ms)"
  shows "ms = ib_nextStep (iw_inbox w) @ (if target = NextTurn then take 1 (ib_nextTurn (iw_inbox w)) else []) \<and>
    ib_nextStep (iw_inbox w') = [] \<and>
    ib_nextTurn (iw_inbox w') = drop (if target = NextTurn then 1 else 0) (ib_nextTurn (iw_inbox w))"
  using session_log.claim_result [OF assms] by simp

theorem claim_takes_batch_witness:
  "\<exists>w' ms. inbox_claim sample_commit (run_ops sample_commit sample_world (take 4 sample_ops)) NextTurn 1 = (w', Inr ms) \<and>
    ib_nextStep (iw_inbox w') = []"
proof -
  let ?w = "run_ops sample_commit sample_world (take 4 sample_ops)"
  have "\<not> isl (snd (inbox_claim sample_commit ?w NextTurn 1))" by code_simp
  then obtain w' ms where c: "inbox_claim sample_commit ?w NextTurn 1 = (w', Inr ms)"
    by (cases "inbox_claim sample_commit ?w NextTurn 1"; cases "snd (inbox_claim sample_commit ?w NextTurn 1)") auto
  with claim_takes_batch [OF c [unfolded sample_commit_def [abs_def]]] show ?thesis by blast
qed

text \<open>
  C19. The account of consumed work is exact: work is reported as dropped unrun exactly when a
  cancellation that left nothing behind follows the accounting turn end (or occurs at all when there
  is none), and the end of a turn that entered a step always becomes the account.
\<close>

theorem consumedWork_account:
  "(case foldConsumedWork es of
      (None, d) \<Rightarrow> d \<longleftrightarrow> (\<exists>x \<in> set es. drops_unrun x)
    | (Some e, d) \<Rightarrow> \<exists>pre post. es = pre @ e # post \<and> (d \<longleftrightarrow> (\<exists>x \<in> set post. drops_unrun x))) \<and>
   (\<forall>pre st mid e turn n r. es = pre @ st # mid @ [e] \<longrightarrow> ev_data st = StepStart turn n \<longrightarrow>
      ev_data e = TurnEnd turn r \<longrightarrow> (\<forall>x \<in> set mid. \<forall>q. ev_data x \<noteq> TurnEnd turn q) \<longrightarrow>
      foldConsumedWork es = (Some e, False))"
proof (intro conjI allI impI)
  show "case foldConsumedWork es of
      (None, d) \<Rightarrow> d \<longleftrightarrow> (\<exists>x \<in> set es. drops_unrun x)
    | (Some e, d) \<Rightarrow> \<exists>pre post. es = pre @ e # post \<and> (d \<longleftrightarrow> (\<exists>x \<in> set post. drops_unrun x))"
    using dropped_since_end [of es] by (auto simp: foldConsumedWork_def Let_def split: option.splits)
next
  fix pre st mid e turn n r
  assume es: "es = pre @ st # mid @ [e]" and st: "ev_data st = StepStart turn n"
    and e: "ev_data e = TurnEnd turn r" and mid: "\<forall>x \<in> set mid. \<forall>q. ev_data x \<noteq> TurnEnd turn q"
  let ?w = "foldl work_event (work_event (foldl work_event fresh_work pre) st) mid"
  have "turn \<in> wf_stepped ?w"
    using mid by (intro stepped_survives) (simp add: work_event_def st)
  then show "foldConsumedWork es = (Some e, False)"
    by (simp add: foldConsumedWork_def es work_event_def [of ?w] e Let_def)
qed

theorem consumedWork_account_witness:
  "foldConsumedWork ([sample_event 0 (TurnStart 1) None None] @ sample_event 1 (StepStart 1 1) None None
      # [sample_event 2 (StepEnd 1 1) None None] @ [sample_event 3 (TurnEnd 1 TurnCompleted) None None])
    = (Some (sample_event 3 (TurnEnd 1 TurnCompleted) None None), False)"
proof -
  let ?es = "[sample_event 0 (TurnStart 1) None None] @ sample_event 1 (StepStart 1 1) None None
      # [sample_event 2 (StepEnd 1 1) None None] @ [sample_event 3 (TurnEnd 1 TurnCompleted) None None]"
  note c = conjunct2 [OF consumedWork_account [of ?es], rule_format, OF refl, of 1 1 TurnCompleted]
  show ?thesis by (rule c) (simp_all add: sample_event_def)
qed

end
