(* ===== verification/Block_Assembler.thy ===== *)
theory Block_Assembler
  imports Session_Types
begin

text \<open>
  The chunk-to-message assembler of \<open>llm/llm/src/assembler.ts\<close> and the first-token test of
  \<open>message.ts\<close>. Partial blocks live in a map from stream index to partial, with the first-seen
  order kept beside it. The theorems show that interleaved streams assemble per index, that the
  accessor invariant holds, and that replay metadata stays aligned with the emitted blocks.
\<close>

section \<open>State\<close>

record partial_block =
  pb_blockType :: string
  pb_text :: string
  pb_toolCallId :: "call_id option"
  pb_toolCallName :: "string option"
  pb_toolCallArguments :: string
  pb_block :: "content_block option"

record assembler =
  as_partials :: "int \<rightharpoonup> partial_block"
  as_order :: "int list"
  as_usage :: "token_usage option"
  as_finish :: "finish_reason option"
  as_replayState :: "replay_envelope option"

datatype assemble_error = IncompleteBlock string | NoPartial int

definition new_assembler :: assembler where
  "new_assembler = \<lparr>as_partials = Map.empty, as_order = [], as_usage = None, as_finish = None,
     as_replayState = None\<rparr>"

definition fresh_partial :: "string \<Rightarrow> partial_block" where
  "fresh_partial t = \<lparr>pb_blockType = t, pb_text = [], pb_toolCallId = None, pb_toolCallName = None,
     pb_toolCallArguments = [], pb_block = None\<rparr>"

section \<open>Feeding chunks\<close>

text \<open>\<open>ensure\<close> and the update of the partial it returns, which the source performs in place.\<close>

definition ensure_partial :: "assembler \<Rightarrow> int \<Rightarrow> string \<Rightarrow> assembler \<times> partial_block" where
  "ensure_partial a i t =
     (case as_partials a i of
        Some p \<Rightarrow> (a, p)
      | None \<Rightarrow> (a\<lparr>as_partials := (as_partials a)(i \<mapsto> fresh_partial t), as_order := as_order a @ [i]\<rparr>,
                 fresh_partial t))"

definition set_partial :: "assembler \<Rightarrow> int \<Rightarrow> partial_block \<Rightarrow> assembler" where
  "set_partial a i p = a\<lparr>as_partials := (as_partials a)(i \<mapsto> p)\<rparr>"

fun push :: "assembler \<Rightarrow> stream_chunk \<Rightarrow> assembler" where
  "push a (BlockStart i t) =
     (if as_partials a i = None
      then a\<lparr>as_order := as_order a @ [i], as_partials := (as_partials a)(i \<mapsto> fresh_partial t)\<rparr>
      else a)"
| "push a (TextDelta i s) =
     (let (a1, p) = ensure_partial a i ''text'' in
      if pb_block p \<noteq> None then a1 else set_partial a1 i (p\<lparr>pb_text := pb_text p @ s\<rparr>))"
| "push a (ReasoningDelta i s) =
     (let (a1, p) = ensure_partial a i ''reasoning'' in
      if pb_block p \<noteq> None then a1 else set_partial a1 i (p\<lparr>pb_text := pb_text p @ s\<rparr>))"
| "push a (ToolCallDelta i c nm d) =
     (let (a1, p) = ensure_partial a i ''tool-call'' in
      if pb_block p \<noteq> None then a1
      else set_partial a1 i
             (p\<lparr>pb_toolCallId := Some c,
                pb_toolCallName := (case nm of Some n \<Rightarrow> if n \<noteq> [] then Some n else pb_toolCallName p
                                    | None \<Rightarrow> pb_toolCallName p),
                pb_toolCallArguments := pb_toolCallArguments p @ d\<rparr>))"
| "push a (BlockEnd i b) =
     (let (a1, p) = ensure_partial a i (block_type b) in
      if pb_block p \<noteq> None then a1 else set_partial a1 i (p\<lparr>pb_block := Some b\<rparr>))"
| "push a (Usage u) = a\<lparr>as_usage := Some u\<rparr>"
| "push a (Finish r rs) = a\<lparr>as_finish := Some r, as_replayState := rs\<rparr>"

definition push_all :: "assembler \<Rightarrow> stream_chunk list \<Rightarrow> assembler" where
  "push_all a cs = foldl push a cs"

section \<open>Reading the result\<close>

definition assemble :: "partial_block \<Rightarrow> int \<Rightarrow> assemble_error + content_block" where
  "assemble p i =
     (case pb_block p of
        Some b \<Rightarrow> Inr b
      | None \<Rightarrow>
          if pb_blockType p = ''text'' then Inr (TextBlock (pb_text p))
          else if pb_blockType p = ''reasoning'' then Inr (ReasoningBlock (pb_text p))
          else if pb_blockType p = ''tool-call'' then
            Inr (ToolCallBlock (case pb_toolCallId p of Some c \<Rightarrow> c | None \<Rightarrow> ''call-'' @ int_string i)
                   (case pb_toolCallName p of Some n \<Rightarrow> n | None \<Rightarrow> [])
                   (pb_toolCallArguments p))
          else Inl (IncompleteBlock (pb_blockType p)))"

definition mustGet :: "assembler \<Rightarrow> int \<Rightarrow> assemble_error + partial_block" where
  "mustGet a i = (case as_partials a i of Some p \<Rightarrow> Inr p | None \<Rightarrow> Inl (NoPartial i))"

fun assemble_order :: "assembler \<Rightarrow> int list \<Rightarrow> assemble_error + content_block list" where
  "assemble_order a [] = Inr []"
| "assemble_order a (i # is) =
     bind_result (bind_result (mustGet a i) (\<lambda>p. assemble p i)) (\<lambda>b.
     bind_result (assemble_order a is) (\<lambda>bs. Inr (b # bs)))"

definition finish_of :: "assembler \<Rightarrow> finish_reason" where
  "finish_of a = (case as_finish a of Some r \<Rightarrow> r | None \<Rightarrow> FinishStop)"

text \<open>Positional filter by a list of keep flags.\<close>

definition keep_positions :: "bool list \<Rightarrow> 'a list \<Rightarrow> 'a list" where
  "keep_positions ks xs = map snd (filter fst (zip ks xs))"

definition assembled ::
  "assembler \<Rightarrow> assemble_error + content_block list \<times> replay_envelope option" where
  "assembled a =
     bind_result (assemble_order a (as_order a)) (\<lambda>all.
       let kept = (if finish_of a = FinishMaxTokens then Some (map (\<lambda>b. block_type b \<noteq> ''tool-call'') all) else None);
           blocks = (case kept of None \<Rightarrow> all | Some ks \<Rightarrow> keep_positions ks all)
       in case as_replayState a of
            None \<Rightarrow> Inr (blocks, None)
          | Some env \<Rightarrow>
              (case re_blocks env of
                 None \<Rightarrow> Inr (blocks, Some env)
               | Some ebs \<Rightarrow>
                   if length ebs \<noteq> length all then Inr (blocks, None)
                   else (case kept of
                           None \<Rightarrow> Inr (blocks, Some env)
                         | Some ks \<Rightarrow>
                             if length blocks = length all then Inr (blocks, Some env)
                             else Inr (blocks, Some \<lparr>re_response = re_response env,
                                                     re_blocks = Some (keep_positions ks ebs)\<rparr>))))"

definition blocks_of :: "assembler \<Rightarrow> assemble_error + content_block list" where
  "blocks_of a = bind_result (assembled a) (\<lambda>(bs, _). Inr bs)"

definition replayState_of :: "assembler \<Rightarrow> assemble_error + replay_envelope option" where
  "replayState_of a = bind_result (assembled a) (\<lambda>(_, r). Inr r)"

definition message_of :: "assembler \<Rightarrow> message_id \<Rightarrow> message_source \<Rightarrow> assemble_error + message" where
  "message_of a mid src =
     bind_result (blocks_of a) (\<lambda>bs.
       Inr \<lparr>msg_id = mid, msg_role = AssistantRole, msg_content = bs, msg_source = src\<rparr>)"

fun visible_text :: "content_block \<Rightarrow> bool" where
  "visible_text (TextBlock s) = (js_trim s \<noteq> [])"
| "visible_text (ReasoningBlock s) = (js_trim s \<noteq> [])"
| "visible_text _ = False"

fun interrupted_order :: "assembler \<Rightarrow> int list \<Rightarrow> assemble_error + content_block list" where
  "interrupted_order a [] = Inr []"
| "interrupted_order a (i # is) =
     bind_result (mustGet a i) (\<lambda>p.
       let t = (case pb_block p of Some b \<Rightarrow> block_type b | None \<Rightarrow> pb_blockType p) in
       bind_result (if t \<noteq> ''text'' \<and> t \<noteq> ''reasoning'' then Inr None
                    else bind_result (assemble p i) (\<lambda>b. Inr (Some b))) (\<lambda>ob.
       bind_result (interrupted_order a is) (\<lambda>bs.
         Inr (case ob of Some b \<Rightarrow> if visible_text b then b # bs else bs | None \<Rightarrow> bs))))"

definition interruptedBlocks :: "assembler \<Rightarrow> assemble_error + content_block list" where
  "interruptedBlocks a = interrupted_order a (as_order a)"

fun isTokenDelta :: "stream_chunk \<Rightarrow> bool" where
  "isTokenDelta (TextDelta _ s) = (s \<noteq> [])"
| "isTokenDelta (ReasoningDelta _ s) = (s \<noteq> [])"
| "isTokenDelta (ToolCallDelta _ _ nm d) = (d \<noteq> [] \<or> nm \<noteq> None)"
| "isTokenDelta _ = False"

section \<open>Per-index assembly\<close>

fun chunk_index :: "stream_chunk \<Rightarrow> int option" where
  "chunk_index (BlockStart i _) = Some i"
| "chunk_index (TextDelta i _) = Some i"
| "chunk_index (ReasoningDelta i _) = Some i"
| "chunk_index (ToolCallDelta i _ _ _) = Some i"
| "chunk_index (BlockEnd i _) = Some i"
| "chunk_index _ = None"

text \<open>The reference: what one chunk does to the partial of its own index, and first-seen order.\<close>

definition open_update :: "string \<Rightarrow> (partial_block \<Rightarrow> partial_block) \<Rightarrow> partial_block option \<Rightarrow> partial_block" where
  "open_update t f x =
     (let p = (case x of Some p \<Rightarrow> p | None \<Rightarrow> fresh_partial t) in if pb_block p \<noteq> None then p else f p)"

fun partial_step :: "partial_block option \<Rightarrow> stream_chunk \<Rightarrow> partial_block option" where
  "partial_step x (BlockStart _ t) = Some (case x of Some p \<Rightarrow> p | None \<Rightarrow> fresh_partial t)"
| "partial_step x (TextDelta _ s) = Some (open_update ''text'' (\<lambda>p. p\<lparr>pb_text := pb_text p @ s\<rparr>) x)"
| "partial_step x (ReasoningDelta _ s) = Some (open_update ''reasoning'' (\<lambda>p. p\<lparr>pb_text := pb_text p @ s\<rparr>) x)"
| "partial_step x (ToolCallDelta _ c nm d) =
     Some (open_update ''tool-call'' (\<lambda>p. p\<lparr>pb_toolCallId := Some c,
        pb_toolCallName := (case nm of Some n \<Rightarrow> if n \<noteq> [] then Some n else pb_toolCallName p
                            | None \<Rightarrow> pb_toolCallName p),
        pb_toolCallArguments := pb_toolCallArguments p @ d\<rparr>) x)"
| "partial_step x (BlockEnd _ b) = Some (open_update (block_type b) (\<lambda>p. p\<lparr>pb_block := Some b\<rparr>) x)"
| "partial_step x _ = x"

fun first_seen :: "int list \<Rightarrow> stream_chunk list \<Rightarrow> int list" where
  "first_seen seen [] = seen"
| "first_seen seen (c # cs) =
     first_seen (case chunk_index c of
                   Some i \<Rightarrow> if i \<in> set seen then seen else seen @ [i]
                 | None \<Rightarrow> seen) cs"

definition partial_of :: "int \<Rightarrow> stream_chunk list \<Rightarrow> partial_block option" where
  "partial_of i cs = foldl partial_step None (filter (\<lambda>c. chunk_index c = Some i) cs)"

lemma push_partials:
  "as_partials (push a c) =
     (case chunk_index c of
        Some i \<Rightarrow> (as_partials a)(i := partial_step (as_partials a i) c)
      | None \<Rightarrow> as_partials a)"
  by (cases c) (auto simp: ensure_partial_def set_partial_def open_update_def Let_def fun_eq_iff split: option.splits)

definition order_ok :: "assembler \<Rightarrow> bool" where
  "order_ok a \<longleftrightarrow> distinct (as_order a) \<and> (\<forall>i. i \<in> set (as_order a) \<longleftrightarrow> as_partials a i \<noteq> None)"

lemma push_order:
  "order_ok a \<Longrightarrow> as_order (push a c) =
     (case chunk_index c of Some i \<Rightarrow> if i \<in> set (as_order a) then as_order a else as_order a @ [i]
      | None \<Rightarrow> as_order a)"
  by (cases c) (auto simp: order_ok_def ensure_partial_def set_partial_def Let_def split: option.splits)

lemma partial_step_Some: "chunk_index c = Some i \<Longrightarrow> partial_step x c \<noteq> None"
  by (cases c) auto

lemma push_order_ok: "order_ok a \<Longrightarrow> order_ok (push a c)"
  using push_order [of a c] push_partials [of a c] partial_step_Some [of c]
  by (auto simp: order_ok_def split: option.splits if_splits)

lemma push_all_order:
  "order_ok a \<Longrightarrow> order_ok (push_all a cs) \<and> as_order (push_all a cs) = first_seen (as_order a) cs"
proof (induction cs arbitrary: a)
  case (Cons c cs)
  have "order_ok (push a c)" by (rule push_order_ok [OF Cons.prems])
  from Cons.IH [OF this] push_order [OF Cons.prems, of c] show ?case
    by (simp add: push_all_def)
qed (simp add: push_all_def)

lemma push_all_partials:
  "as_partials (push_all a cs) i = foldl partial_step (as_partials a i) (filter (\<lambda>c. chunk_index c = Some i) cs)"
  by (induction cs arbitrary: a) (auto simp: push_all_def push_partials split: option.split)

lemma order_ok_new: "order_ok new_assembler"
  by (simp add: order_ok_def new_assembler_def)

lemma foldl_text_deltas:
  "pb_block p = None \<Longrightarrow> foldl partial_step (Some p) (map (TextDelta i) ts) = Some (p\<lparr>pb_text := pb_text p @ concat ts\<rparr>)"
  by (induction ts arbitrary: p) (simp_all add: open_update_def)

lemma keep_positions_map:
  "keep_positions (map f xs) xs = filter f xs"
  by (induction xs) (simp_all add: keep_positions_def)

lemma length_keep_positions: "length ks = length xs \<Longrightarrow> length (keep_positions ks xs) = length (filter id ks)"
  by (induction ks xs rule: list_induct2) (simp_all add: keep_positions_def)

lemma interrupted_order_total:
  "\<forall>i \<in> set is. as_partials a i \<noteq> None \<Longrightarrow>
   \<exists>bs. interrupted_order a is = Inr bs \<and> list_all visible_text bs"
proof (induction "is")
  case (Cons i "is")
  then obtain p bs where "as_partials a i = Some p" "interrupted_order a is = Inr bs" "list_all visible_text bs"
    by auto
  then show ?case
    by (auto simp: mustGet_def assemble_def Let_def split: option.split)
qed simp

section \<open>Claims\<close>

definition sample_stream :: "stream_chunk list" where
  "sample_stream = [TextDelta 0 ''he'', ToolCallDelta 1 ''c'' (Some ''ls'') ''{'', TextDelta 0 ''y'',
     ToolCallDelta 1 ''c'' None ''}'', Finish FinishMaxTokens
       (Some \<lparr>re_response = JNull, re_blocks = Some [JNum 1, JNum 2]\<rparr>)]"

text \<open>
  C20. Interleaving does not matter: after any stream, the partial of an index is what its own
  chunks build in order, and blocks are emitted in the order their indexes were first seen, each
  index once; in particular a text block open at the end holds exactly the concatenation of its
  deltas.
\<close>

theorem assembler_per_index:
  "as_order (push_all new_assembler cs) = first_seen [] cs \<and> distinct (first_seen [] cs) \<and>
   as_partials (push_all new_assembler cs) i = partial_of i cs \<and>
   (filter (\<lambda>c. chunk_index c = Some i) cs = map (TextDelta i) (t # ts) \<longrightarrow>
     bind_result (mustGet (push_all new_assembler cs) i) (\<lambda>p. assemble p i) = Inr (TextBlock (concat (t # ts))))"
proof -
  note o = push_all_order [OF order_ok_new, of cs]
  have p: "as_partials (push_all new_assembler cs) i = partial_of i cs"
    by (simp add: push_all_partials partial_of_def new_assembler_def)
  have "partial_of i cs = Some ((fresh_partial ''text'')\<lparr>pb_text := t @ concat ts\<rparr>)"
    if "filter (\<lambda>c. chunk_index c = Some i) cs = map (TextDelta i) (t # ts)"
    using that foldl_text_deltas [of "(fresh_partial ''text'')\<lparr>pb_text := t\<rparr>" i ts]
    by (simp add: partial_of_def open_update_def fresh_partial_def)
  with o p show ?thesis
    by (auto simp: order_ok_def new_assembler_def mustGet_def assemble_def fresh_partial_def)
qed

theorem assembler_per_index_witness:
  "bind_result (mustGet (push_all new_assembler sample_stream) 0) (\<lambda>p. assemble p 0) = Inr (TextBlock ''hey'')"
  using assembler_per_index [of sample_stream 0 "''he''" "[''y'']"]
  by (simp add: sample_stream_def)

text \<open>
  C21. Assembly never loses alignment or leaks an unsafe call: when assembly succeeds, a max-tokens
  finish emits no tool call and otherwise every seen index emits its block, and replay metadata with
  per-block entries has exactly one entry per emitted block.
\<close>

theorem assembled_aligned:
  assumes "assembled (push_all new_assembler cs) = Inr (bs, replay)"
  shows "\<exists>all. assemble_order (push_all new_assembler cs) (first_seen [] cs) = Inr all \<and>
    bs = (if finish_of (push_all new_assembler cs) = FinishMaxTokens
          then filter (\<lambda>b. block_type b \<noteq> ''tool-call'') all else all) \<and>
    (\<forall>env ebs. replay = Some env \<longrightarrow> re_blocks env = Some ebs \<longrightarrow> length ebs = length bs)"
proof -
  let ?a = "push_all new_assembler cs"
  have ord: "as_order ?a = first_seen [] cs"
    using push_all_order [OF order_ok_new, of cs] by (simp add: new_assembler_def)
  from assms obtain all where all: "assemble_order ?a (as_order ?a) = Inr all"
    by (auto simp: assembled_def result_simps)
  have len: "length ebs = length all \<Longrightarrow>
      length (keep_positions (map (\<lambda>b. block_type b \<noteq> ''tool-call'') all) ebs)
        = length (filter (\<lambda>b. block_type b \<noteq> ''tool-call'') all)" for ebs :: "json list"
    using length_keep_positions [of "map (\<lambda>b. block_type b \<noteq> ''tool-call'') all" ebs]
      length_keep_positions [of "map (\<lambda>b. block_type b \<noteq> ''tool-call'') all" all]
    by (simp add: keep_positions_map)
  show ?thesis
    using assms all len ord
    by (auto simp: assembled_def Let_def keep_positions_map split: option.splits if_splits)
qed

theorem assembled_aligned_witness:
  "\<exists>replay. assembled (push_all new_assembler sample_stream) = Inr ([TextBlock ''hey''], replay) \<and>
    (\<forall>env ebs. replay = Some env \<longrightarrow> re_blocks env = Some ebs \<longrightarrow> length ebs = 1)"
proof -
  have a: "assembled (push_all new_assembler sample_stream)
      = Inr ([TextBlock ''hey''], Some \<lparr>re_response = JNull, re_blocks = Some [JNum 1]\<rparr>)"
    by code_simp
  with assembled_aligned [OF a] show ?thesis by auto
qed

text \<open>
  An interrupted stream can always be finalized: \<open>interruptedBlocks\<close> never throws, whatever was
  streamed, and keeps only text and reasoning blocks with visible content.
\<close>

theorem interruptedBlocks_total:
  "\<exists>bs. interruptedBlocks (push_all new_assembler cs) = Inr bs \<and> list_all visible_text bs"
  unfolding interruptedBlocks_def
  by (rule interrupted_order_total) (use push_all_order [OF order_ok_new, of cs] in \<open>auto simp: order_ok_def\<close>)

end
