(* ===== verification/Chunk_Rows.thy ===== *)
theory Chunk_Rows
  imports Json
begin

text \<open>
  Lossless storage packing of delta chunk runs, \<open>core/session/src/chunk-rows.ts\<close>. Encoder and
  decoder work on parsed JSON values, since both validate structurally. Sequence and time
  arithmetic is the arithmetic of doubles: a sum or difference of two safe integers is rounded to
  the nearest double, which \<open>double_of_int\<close> gives for magnitudes up to \<open>2 ^ 54\<close>. The theorems show
  that decoding what the encoder wrote gives back the events, up to property order, that the
  gap check is exact in both directions as its comment claims, and that the decoder's bound on
  member sequences misses one value.
\<close>

section \<open>Double arithmetic on integers\<close>

definition double_of_int :: "int \<Rightarrow> int" where
  "double_of_int d =
     (if \<bar>d\<bar> \<le> 9007199254740992 \<or> even d then d
      else if 4 dvd (d - 1) then d - 1 else d + 1)"

lemma double_of_int_safe: "safe_int d \<Longrightarrow> double_of_int d = d"
  by (simp add: double_of_int_def safe_int_def max_safe_integer_def)

lemma double_of_int_exact: "\<bar>d\<bar> \<le> max_safe_integer + 1 \<Longrightarrow> double_of_int d = d"
  by (simp add: double_of_int_def max_safe_integer_def)

lemma safe_double_of_int: "safe_int (double_of_int d) \<longleftrightarrow> safe_int d"
  by (auto simp: double_of_int_def safe_int_def max_safe_integer_def)

section \<open>Classification\<close>

datatype delta_kind = TextKind | ReasoningKind | ToolCallKind

record delta_view =
  dv_kind :: delta_kind
  dv_seq :: int
  dv_time :: int
  dv_turn :: rat
  dv_step :: rat
  dv_index :: rat
  dv_id :: string
  dv_name :: "string option"
  dv_payload :: string

text \<open>
  \<open>classify\<close> together with the field reads (\<open>toolCallOf\<close>, \<open>indexOf\<close> and the payload casts) that the
  whitelisted shape justifies: the view of an event when its entire shape is recognized.
\<close>

definition classify_chunk ::
  "int \<Rightarrow> int \<Rightarrow> rat \<Rightarrow> rat \<Rightarrow> json_record \<Rightarrow> delta_view option" where
  "classify_chunk seq time turn step ch =
     (case as_number (jget ch ''index'') of
        None \<Rightarrow> None
      | Some ix \<Rightarrow>
          (let view = (\<lambda>k i n p. \<lparr>dv_kind = k, dv_seq = seq, dv_time = time, dv_turn = turn, dv_step = step,
                                  dv_index = ix, dv_id = i, dv_name = n, dv_payload = p\<rparr>) in
           if jget ch ''type'' = Some (JStr ''text-delta'') \<or> jget ch ''type'' = Some (JStr ''reasoning-delta'') then
             (if has_exact_keys ch [''type'', ''index'', ''text''] then
                map_option (view (if jget ch ''type'' = Some (JStr ''text-delta'') then TextKind else ReasoningKind) [] None)
                  (as_string (jget ch ''text''))
              else None)
           else if jget ch ''type'' = Some (JStr ''tool-call-delta'') then
             (case (as_string (jget ch ''id''), as_string (jget ch ''argumentsDelta'')) of
                (Some i, Some p) \<Rightarrow>
                  if has_exact_keys ch [''type'', ''index'', ''id'', ''argumentsDelta''] then Some (view ToolCallKind i None p)
                  else if has_exact_keys ch [''type'', ''index'', ''id'', ''name'', ''argumentsDelta''] then
                    map_option (\<lambda>n. view ToolCallKind i (Some n) p) (as_string (jget ch ''name''))
                  else None
              | _ \<Rightarrow> None)
           else None))"

definition classify :: "json \<Rightarrow> delta_view option" where
  "classify e =
     (case as_record e of
        None \<Rightarrow> None
      | Some ev \<Rightarrow>
          if jget ev ''type'' = Some (JStr ''assistant/chunk'')
             \<and> has_exact_keys ev [''type'', ''seq'', ''time'', ''data''] then
            (case (as_safe_integer (jget ev ''seq''), as_safe_integer (jget ev ''time''), jget ev ''data'') of
               (Some seq, Some time, Some (JObj d)) \<Rightarrow>
                 if 0 \<le> seq \<and> has_exact_keys d [''turn'', ''step'', ''chunk''] then
                   (case (as_number (jget d ''turn''), as_number (jget d ''step''), jget d ''chunk'') of
                      (Some turn, Some step, Some (JObj ch)) \<Rightarrow> classify_chunk seq time turn step ch
                    | _ \<Rightarrow> None)
                 else None
             | _ \<Rightarrow> None)
          else None)"

section \<open>Packing\<close>

definition MIN_RUN :: nat where
  "MIN_RUN = 3"

definition continues :: "delta_view \<Rightarrow> delta_view \<Rightarrow> bool" where
  "continues prev nxt \<longleftrightarrow>
     dv_seq nxt = double_of_int (dv_seq prev + 1) \<and>
     safe_int (double_of_int (dv_time nxt - dv_time prev)) \<and>
     dv_turn nxt = dv_turn prev \<and> dv_step nxt = dv_step prev \<and> dv_index nxt = dv_index prev \<and>
     (dv_kind nxt \<noteq> ToolCallKind \<or> dv_id prev = dv_id nxt \<and> dv_name prev = dv_name nxt)"

fun gaps :: "delta_view list \<Rightarrow> int list" where
  "gaps (a # b # vs) = double_of_int (dv_time b - dv_time a) # gaps (b # vs)"
| "gaps _ = []"

fun row_tag :: "delta_kind \<Rightarrow> string" where
  "row_tag TextKind = ''text-chunks''"
| "row_tag ReasoningKind = ''reasoning-chunks''"
| "row_tag ToolCallKind = ''tool-call-chunks''"

definition buildRow :: "delta_kind \<Rightarrow> delta_view list \<Rightarrow> json" where
  "buildRow kind run =
     (let first = hd run;
          base = [(''turn'', JNum (dv_turn first)), (''step'', JNum (dv_step first)),
                  (''index'', JNum (dv_index first)), (''dt'', JArr (map (\<lambda>g. JNum (of_int g)) (gaps run)))];
          members = JArr (map (\<lambda>v. JStr (dv_payload v)) run);
          data = (if kind = ToolCallKind
                  then base @ [(''id'', JStr (dv_id first))] @ (case dv_name first of Some n \<Rightarrow> [(''name'', JStr n)] | None \<Rightarrow> [])
                         @ [(''args'', members)]
                  else base @ [(''texts'', members)])
      in JObj [(''type'', JStr (row_tag kind)), (''seq0'', JNum (of_int (dv_seq first))),
               (''time0'', JNum (of_int (dv_time first))), (''data'', JObj data)])"

text \<open>
  The packing loop: the output so far and the current run, whose members are kept both verbatim and
  as views. The kind of a run is the kind of its members.
\<close>

definition flush_run :: "(json \<times> delta_view) list \<Rightarrow> json list" where
  "flush_run run =
     (if run \<noteq> [] \<and> MIN_RUN \<le> length run then [buildRow (dv_kind (snd (hd run))) (map snd run)]
      else map fst run)"

fun pack_loop :: "json list \<Rightarrow> (json \<times> delta_view) list \<Rightarrow> json list \<Rightarrow> json list" where
  "pack_loop out run [] = out @ flush_run run"
| "pack_loop out run (e # es) =
     (case classify e of
        None \<Rightarrow> pack_loop (out @ flush_run run @ [e]) [] es
      | Some v \<Rightarrow>
          if run \<noteq> [] \<and> dv_kind v = dv_kind (snd (hd run)) \<and> continues (snd (last run)) v
          then pack_loop out (run @ [(e, v)]) es
          else pack_loop (out @ flush_run run) [(e, v)] es)"

definition packChunkRuns :: "json list \<Rightarrow> json list" where
  "packChunkRuns es = pack_loop [] [] es"

section \<open>Decoding\<close>

datatype row_error =
    BadEnvelope
  | BadSeq0
  | BadTime0
  | DataNotObject
  | DataKeys
  | IdNotString
  | CoordsNotNumbers
  | BadPayload
  | BadGaps
  | ArityMismatch
  | SeqsUnsafe
  | TimesUnsafe

fun json_strings :: "json list \<Rightarrow> string list option" where
  "json_strings [] = Some []"
| "json_strings (JStr s # js) = map_option (Cons s) (json_strings js)"
| "json_strings (_ # js) = None"

fun json_safe_ints :: "json list \<Rightarrow> int list option" where
  "json_safe_ints [] = Some []"
| "json_safe_ints (j # js) =
     (case as_safe_integer (Some j) of
        None \<Rightarrow> None
      | Some i \<Rightarrow> map_option (Cons i) (json_safe_ints js))"

record chunk_row =
  cr_kind :: delta_kind
  cr_seq0 :: int
  cr_time0 :: int
  cr_turn :: rat
  cr_step :: rat
  cr_index :: rat
  cr_id :: string
  cr_name :: "string option"
  cr_dt :: "int list"
  cr_members :: "string list"

definition validateRunData ::
  "json_record \<Rightarrow> string \<Rightarrow> row_error + (rat \<times> rat \<times> rat) \<times> string list \<times> int list" where
  "validateRunData d payloadKey =
     (case (as_number (jget d ''turn''), as_number (jget d ''step''), as_number (jget d ''index'')) of
        (Some turn, Some step, Some ix) \<Rightarrow>
          (case jget d payloadKey of
             Some (JArr ps) \<Rightarrow>
               (case json_strings ps of
                  None \<Rightarrow> Inl BadPayload
                | Some payload \<Rightarrow>
                    if payload = [] then Inl BadPayload
                    else (case jget d ''dt'' of
                            Some (JArr gs) \<Rightarrow>
                              (case json_safe_ints gs of
                                 None \<Rightarrow> Inl BadGaps
                               | Some dt \<Rightarrow>
                                   if length dt \<noteq> length payload - 1 then Inl ArityMismatch
                                   else Inr ((turn, step, ix), payload, dt))
                          | _ \<Rightarrow> Inl BadGaps))
           | _ \<Rightarrow> Inl BadPayload)
      | _ \<Rightarrow> Inl CoordsNotNumbers)"

fun times_safe :: "int \<Rightarrow> int list \<Rightarrow> bool" where
  "times_safe time [] = True"
| "times_safe time (g # gs) = (let t = double_of_int (time + g) in safe_int t \<and> times_safe t gs)"

definition row_data ::
  "delta_kind \<Rightarrow> json_record \<Rightarrow> row_error + (string \<times> string option) \<times> (rat \<times> rat \<times> rat) \<times> string list \<times> int list" where
  "row_data tag d =
     (if tag = ToolCallKind then
        let withName = has_exact_keys d [''turn'', ''step'', ''index'', ''id'', ''name'', ''dt'', ''args''] in
        if \<not> withName \<and> \<not> has_exact_keys d [''turn'', ''step'', ''index'', ''id'', ''dt'', ''args''] then Inl DataKeys
        else (case as_string (jget d ''id'') of
                None \<Rightarrow> Inl IdNotString
              | Some i \<Rightarrow>
                  if withName \<and> as_string (jget d ''name'') = None then Inl IdNotString
                  else bind_result (validateRunData d ''args'') (\<lambda>r.
                         Inr ((i, if withName then as_string (jget d ''name'') else None), r)))
      else if \<not> has_exact_keys d [''turn'', ''step'', ''index'', ''dt'', ''texts''] then Inl DataKeys
      else bind_result (validateRunData d ''texts'') (\<lambda>r. Inr (([], None), r)))"

definition validateRow :: "json_record \<Rightarrow> delta_kind \<Rightarrow> row_error + chunk_row" where
  "validateRow v tag =
     bind_result (ensure (has_exact_keys v [''type'', ''seq0'', ''time0'', ''data'']) BadEnvelope) (\<lambda>_.
     bind_result (case as_safe_integer (jget v ''seq0'') of
         Some s \<Rightarrow> if 0 \<le> s then Inr s else Inl BadSeq0 | None \<Rightarrow> Inl BadSeq0) (\<lambda>seq0.
     bind_result (case as_safe_integer (jget v ''time0'') of Some t \<Rightarrow> Inr t | None \<Rightarrow> Inl BadTime0) (\<lambda>time0.
     bind_result (case jget v ''data'' of
         Some (JObj d) \<Rightarrow> Inr d | Some (JArr _) \<Rightarrow> Inl DataKeys | _ \<Rightarrow> Inl DataNotObject) (\<lambda>d.
     bind_result (row_data tag d) (\<lambda>((i, n), (turn, step, ix), payload, dt).
     bind_result (ensure (safe_int (double_of_int (double_of_int (seq0 + int (length payload)) - 1))) SeqsUnsafe) (\<lambda>_.
     bind_result (ensure (times_safe time0 dt) TimesUnsafe) (\<lambda>_.
       Inr \<lparr>cr_kind = tag, cr_seq0 = seq0, cr_time0 = time0, cr_turn = turn, cr_step = step, cr_index = ix,
            cr_id = i, cr_name = n, cr_dt = dt, cr_members = payload\<rparr>)))))))"

definition member_chunk :: "delta_kind \<Rightarrow> rat \<Rightarrow> string \<Rightarrow> string option \<Rightarrow> string \<Rightarrow> json" where
  "member_chunk kind ix i n p =
     (case kind of
        TextKind \<Rightarrow> JObj [(''type'', JStr ''text-delta''), (''index'', JNum ix), (''text'', JStr p)]
      | ReasoningKind \<Rightarrow> JObj [(''type'', JStr ''reasoning-delta''), (''index'', JNum ix), (''text'', JStr p)]
      | ToolCallKind \<Rightarrow>
          JObj ([(''type'', JStr ''tool-call-delta''), (''index'', JNum ix), (''id'', JStr i)]
            @ (case n of Some nm \<Rightarrow> [(''name'', JStr nm)] | None \<Rightarrow> []) @ [(''argumentsDelta'', JStr p)]))"

definition member_event :: "int \<Rightarrow> int \<Rightarrow> rat \<Rightarrow> rat \<Rightarrow> json \<Rightarrow> json" where
  "member_event seq time turn step chunk =
     JObj [(''type'', JStr ''assistant/chunk''), (''seq'', JNum (of_int seq)), (''time'', JNum (of_int time)),
           (''data'', JObj [(''turn'', JNum turn), (''step'', JNum step), (''chunk'', chunk)])]"

fun expand_members :: "chunk_row \<Rightarrow> int \<Rightarrow> int \<Rightarrow> int list \<Rightarrow> string list \<Rightarrow> json list" where
  "expand_members row k time dts [] = []"
| "expand_members row k time dts (m # ms) =
     member_event (double_of_int (cr_seq0 row + k)) time (cr_turn row) (cr_step row)
       (member_chunk (cr_kind row) (cr_index row) (cr_id row) (cr_name row) m)
     # expand_members row (k + 1) (case dts of g # _ \<Rightarrow> double_of_int (time + g) | [] \<Rightarrow> time) (tl dts) ms"

definition expandRow :: "chunk_row \<Rightarrow> json list" where
  "expandRow row = expand_members row 0 (cr_time0 row) (cr_dt row) (cr_members row)"

definition row_kind :: "json option \<Rightarrow> delta_kind option" where
  "row_kind t =
     (if t = Some (JStr ''text-chunks'') then Some TextKind
      else if t = Some (JStr ''reasoning-chunks'') then Some ReasoningKind
      else if t = Some (JStr ''tool-call-chunks'') then Some ToolCallKind else None)"

definition decodeStorageRecord :: "json \<Rightarrow> row_error + json list" where
  "decodeStorageRecord v =
     (case as_record v of
        None \<Rightarrow> Inr [v]
      | Some ps \<Rightarrow>
          (case row_kind (jget ps ''type'') of
             None \<Rightarrow> Inr [v]
           | Some tag \<Rightarrow> bind_result (validateRow ps tag) (\<lambda>row. Inr (expandRow row))))"

fun decode_all :: "json list \<Rightarrow> row_error + json list" where
  "decode_all [] = Inr []"
| "decode_all (r # rs) =
     bind_result (decodeStorageRecord r) (\<lambda>es. bind_result (decode_all rs) (\<lambda>es'. Inr (es @ es')))"

section \<open>Recognized events\<close>

definition canonical_event :: "delta_view \<Rightarrow> json" where
  "canonical_event v =
     member_event (dv_seq v) (dv_time v) (dv_turn v) (dv_step v)
       (member_chunk (dv_kind v) (dv_index v) (dv_id v) (dv_name v) (dv_payload v))"

definition view_ok :: "delta_view \<Rightarrow> bool" where
  "view_ok v \<longleftrightarrow> 0 \<le> dv_seq v \<and> safe_int (dv_seq v) \<and> safe_int (dv_time v) \<and>
     (dv_kind v \<noteq> ToolCallKind \<longrightarrow> dv_id v = [] \<and> dv_name v = None)"

lemma deepEqual_JObjI:
  "length qs = length ps \<Longrightarrow> \<forall>(k, v) \<in> set qs. \<exists>w. map_of ps k = Some w \<and> isDeepEqualJson v w
    \<Longrightarrow> isDeepEqualJson (JObj qs) (JObj ps)"
  by (fastforce split: option.splits)

lemma safe_integer_of_Some: "safe_integer_of q = Some i \<Longrightarrow> q = of_int i \<and> safe_int i"
  by (auto simp: safe_integer_of_def split: if_splits)

lemma as_safe_integer_Some: "as_safe_integer x = Some i \<Longrightarrow> x = Some (JNum (of_int i)) \<and> safe_int i"
  by (cases x rule: as_safe_integer.cases) (auto dest: safe_integer_of_Some)

lemma as_number_Some: "as_number x = Some q \<Longrightarrow> x = Some (JNum q)"
  by (cases x rule: as_number.cases) auto

lemma as_string_Some: "as_string x = Some s \<Longrightarrow> x = Some (JStr s)"
  by (cases x rule: as_string.cases) auto

lemma safe_integer_of_of_int: "safe_int i \<Longrightarrow> safe_integer_of (of_int i) = Some i"
  by (simp add: safe_integer_of_def)

lemma classify_chunk_Some:
  assumes "classify_chunk seq time turn step ch = Some v"
  shows "isDeepEqualJson (member_chunk (dv_kind v) (dv_index v) (dv_id v) (dv_name v) (dv_payload v)) (JObj ch) \<and>
    dv_seq v = seq \<and> dv_time v = time \<and> dv_turn v = turn \<and> dv_step v = step \<and>
    (dv_kind v \<noteq> ToolCallKind \<longrightarrow> dv_id v = [] \<and> dv_name v = None)"
proof -
  from assms obtain ix where ix: "jget ch ''index'' = Some (JNum ix)"
    and ixn: "as_number (jget ch ''index'') = Some ix"
    by (auto simp: classify_chunk_def dest: as_number_Some split: option.splits)
  consider (Text) k p where "jget ch ''type'' = Some (JStr k)" "k = ''text-delta'' \<or> k = ''reasoning-delta''"
      "has_exact_keys ch [''type'', ''index'', ''text'']" "jget ch ''text'' = Some (JStr p)"
      "v = \<lparr>dv_kind = (if k = ''text-delta'' then TextKind else ReasoningKind), dv_seq = seq, dv_time = time,
            dv_turn = turn, dv_step = step, dv_index = ix, dv_id = [], dv_name = None, dv_payload = p\<rparr>"
    | (Call) i p where "jget ch ''type'' = Some (JStr ''tool-call-delta'')" "jget ch ''id'' = Some (JStr i)"
      "jget ch ''argumentsDelta'' = Some (JStr p)" "has_exact_keys ch [''type'', ''index'', ''id'', ''argumentsDelta'']"
      "v = \<lparr>dv_kind = ToolCallKind, dv_seq = seq, dv_time = time, dv_turn = turn, dv_step = step, dv_index = ix,
            dv_id = i, dv_name = None, dv_payload = p\<rparr>"
    | (Named) i n p where "jget ch ''type'' = Some (JStr ''tool-call-delta'')" "jget ch ''id'' = Some (JStr i)"
      "jget ch ''argumentsDelta'' = Some (JStr p)" "jget ch ''name'' = Some (JStr n)"
      "has_exact_keys ch [''type'', ''index'', ''id'', ''name'', ''argumentsDelta'']"
      "v = \<lparr>dv_kind = ToolCallKind, dv_seq = seq, dv_time = time, dv_turn = turn, dv_step = step, dv_index = ix,
            dv_id = i, dv_name = Some n, dv_payload = p\<rparr>"
    using assms ixn
    by (auto simp: classify_chunk_def Let_def dest!: as_string_Some split: option.splits if_splits)
  then show ?thesis
  proof cases
    case Text
    then have "isDeepEqualJson (JObj [(''type'', JStr k), (''index'', JNum ix), (''text'', JStr p)]) (JObj ch)"
      using ix by (intro deepEqual_JObjI) (auto simp: has_exact_keys_def jget_def)
    with Text show ?thesis by (auto simp: member_chunk_def simp del: isDeepEqualJson.simps)
  next
    case Call
    then have "isDeepEqualJson (JObj [(''type'', JStr ''tool-call-delta''), (''index'', JNum ix), (''id'', JStr i),
        (''argumentsDelta'', JStr p)]) (JObj ch)"
      using ix by (intro deepEqual_JObjI) (auto simp: has_exact_keys_def jget_def)
    with Call show ?thesis by (simp add: member_chunk_def del: isDeepEqualJson.simps)
  next
    case Named
    then have "isDeepEqualJson (JObj [(''type'', JStr ''tool-call-delta''), (''index'', JNum ix), (''id'', JStr i),
        (''name'', JStr n), (''argumentsDelta'', JStr p)]) (JObj ch)"
      using ix by (intro deepEqual_JObjI) (auto simp: has_exact_keys_def jget_def)
    with Named show ?thesis by (simp add: member_chunk_def del: isDeepEqualJson.simps)
  qed
qed

lemma classify_Some:
  assumes "classify e = Some v"
  shows "isDeepEqualJson (canonical_event v) e \<and> view_ok v"
proof -
  from assms obtain ev seq time d turn step ch where e: "e = JObj ev"
    and t: "jget ev ''type'' = Some (JStr ''assistant/chunk'')"
    and k: "has_exact_keys ev [''type'', ''seq'', ''time'', ''data'']" "has_exact_keys d [''turn'', ''step'', ''chunk'']"
    and s: "jget ev ''seq'' = Some (JNum (of_int seq))" "safe_int seq" "0 \<le> seq"
    and tm: "jget ev ''time'' = Some (JNum (of_int time))" "safe_int time"
    and d: "jget ev ''data'' = Some (JObj d)" "jget d ''turn'' = Some (JNum turn)" "jget d ''step'' = Some (JNum step)"
      "jget d ''chunk'' = Some (JObj ch)"
    and c: "classify_chunk seq time turn step ch = Some v"
    by (cases e) (auto simp: classify_def dest!: as_safe_integer_Some as_number_Some
        split: option.splits if_splits json.splits)
  note cc = classify_chunk_Some [OF c]
  let ?ch = "member_chunk (dv_kind v) (dv_index v) (dv_id v) (dv_name v) (dv_payload v)"
  have "isDeepEqualJson (JObj [(''turn'', JNum turn), (''step'', JNum step), (''chunk'', ?ch)]) (JObj d)"
    using k(2) d(2-4) cc by (intro deepEqual_JObjI) (auto simp: has_exact_keys_def jget_def simp del: isDeepEqualJson.simps(2))
  then have "isDeepEqualJson (JObj [(''type'', JStr ''assistant/chunk''), (''seq'', JNum (of_int seq)),
      (''time'', JNum (of_int time)), (''data'', JObj [(''turn'', JNum turn), (''step'', JNum step), (''chunk'', ?ch)])]) (JObj ev)"
    using k(1) t s(1) tm(1) d(1)
    by (intro deepEqual_JObjI) (auto simp: has_exact_keys_def jget_def simp del: isDeepEqualJson.simps(2))
  with cc s tm e show ?thesis
    by (simp add: canonical_event_def member_event_def view_ok_def del: isDeepEqualJson.simps)
qed

section \<open>A packed run decodes to its members\<close>

fun chained :: "delta_view list \<Rightarrow> bool" where
  "chained (a # b # vs) = (continues a b \<and> dv_kind b = dv_kind a \<and> chained (b # vs))"
| "chained _ = True"

definition run_ok :: "delta_view list \<Rightarrow> bool" where
  "run_ok vs \<longleftrightarrow> chained vs \<and> list_all view_ok vs"

lemma json_strings_map: "json_strings (map (\<lambda>v. JStr (f v)) vs) = Some (map f vs)"
  by (induction vs) simp_all

lemma json_safe_ints_map: "list_all safe_int gs \<Longrightarrow> json_safe_ints (map (\<lambda>g. JNum (of_int g)) gs) = Some gs"
  by (induction gs) (simp_all add: safe_integer_of_of_int)

lemma run_ok_step:
  assumes "run_ok (a # b # vs)"
  shows "run_ok (b # vs)" "dv_seq b = dv_seq a + 1" "double_of_int (dv_time b - dv_time a) = dv_time b - dv_time a"
    "safe_int (dv_time b - dv_time a)" "dv_turn b = dv_turn a" "dv_step b = dv_step a" "dv_index b = dv_index a"
    "dv_kind b = dv_kind a" "dv_id b = dv_id a" "dv_name b = dv_name a"
proof -
  from assms have c: "continues a b" "dv_kind b = dv_kind a" and ok: "view_ok a" "view_ok b" "run_ok (b # vs)"
    by (simp_all add: run_ok_def)
  have "double_of_int (dv_seq a + 1) = dv_seq a + 1"
    using ok(1) by (intro double_of_int_exact) (auto simp: view_ok_def safe_int_def)
  moreover have s: "safe_int (dv_time b - dv_time a)" using c(1) by (simp add: continues_def safe_double_of_int)
  moreover have "dv_id b = dv_id a \<and> dv_name b = dv_name a"
    using c ok by (cases "dv_kind a = ToolCallKind") (auto simp: continues_def view_ok_def)
  ultimately show "run_ok (b # vs)" "dv_seq b = dv_seq a + 1"
    "double_of_int (dv_time b - dv_time a) = dv_time b - dv_time a" "safe_int (dv_time b - dv_time a)"
    "dv_turn b = dv_turn a" "dv_step b = dv_step a" "dv_index b = dv_index a"
    "dv_kind b = dv_kind a" "dv_id b = dv_id a" "dv_name b = dv_name a"
    using c ok(3) by (simp_all add: continues_def double_of_int_safe)
qed

lemma gaps_safe: "run_ok vs \<Longrightarrow> list_all safe_int (gaps vs) \<and> length (gaps vs) = length vs - 1"
proof (induction vs rule: gaps.induct)
  case (1 a b vs)
  with run_ok_step [OF "1.prems"] show ?case by simp
qed simp_all

lemma times_safe_gaps: "run_ok (v # vs) \<Longrightarrow> times_safe (dv_time v) (gaps (v # vs))"
proof (induction vs arbitrary: v)
  case (Cons b vs)
  note r = run_ok_step [OF Cons.prems]
  have "safe_int (dv_time b)" using r(1) by (simp add: run_ok_def view_ok_def)
  with r Cons.IH [OF r(1)] show ?case by (simp add: double_of_int_safe)
qed simp

lemma run_ok_last: "run_ok (v # vs) \<Longrightarrow> dv_seq (last (v # vs)) = dv_seq v + int (length vs) \<and> view_ok (last (v # vs))"
proof (induction vs arbitrary: v)
  case (Cons b vs)
  note r = run_ok_step [OF Cons.prems]
  from Cons.IH [OF r(1)] r(2) show ?case by simp
qed (simp add: run_ok_def)

definition row_like :: "chunk_row \<Rightarrow> delta_view \<Rightarrow> bool" where
  "row_like row v \<longleftrightarrow> cr_kind row = dv_kind v \<and> cr_turn row = dv_turn v \<and> cr_step row = dv_step v \<and>
     cr_index row = dv_index v \<and> cr_id row = dv_id v \<and> cr_name row = dv_name v"

lemma expand_members_run:
  "run_ok (v # vs) \<Longrightarrow> row_like row v \<Longrightarrow> cr_seq0 row + k = dv_seq v \<Longrightarrow>
   expand_members row k (dv_time v) (gaps (v # vs)) (map dv_payload (v # vs)) = map canonical_event (v # vs)"
proof (induction vs arbitrary: v k)
  case Nil
  then show ?case by (simp add: canonical_event_def row_like_def run_ok_def view_ok_def double_of_int_safe)
next
  case (Cons b vs)
  note r = run_ok_step [OF Cons.prems(1)]
  have "row_like row b" using Cons.prems(2) r by (simp add: row_like_def)
  moreover have "cr_seq0 row + (k + 1) = dv_seq b" using Cons.prems(3) r(2) by simp
  ultimately have rest: "expand_members row (k + 1) (dv_time b) (gaps (b # vs)) (map dv_payload (b # vs))
      = map canonical_event (b # vs)" by (rule Cons.IH [OF r(1)])
  have "safe_int (dv_time b)" using r(1) by (simp add: run_ok_def view_ok_def)
  then have "double_of_int (dv_time v + double_of_int (dv_time b - dv_time v)) = dv_time b"
    by (simp add: r(3) double_of_int_safe)
  moreover have "double_of_int (cr_seq0 row + k) = dv_seq v"
    using Cons.prems by (simp add: run_ok_def view_ok_def double_of_int_safe)
  ultimately show ?case
    using rest Cons.prems(2) by (simp add: canonical_event_def row_like_def)
qed

lemma row_data_buildRow:
  assumes ok: "run_ok (v # vs)"
    and base: "base = [(''turn'', JNum (dv_turn v)), (''step'', JNum (dv_step v)), (''index'', JNum (dv_index v)),
      (''dt'', JArr (map (\<lambda>g. JNum (of_int g)) (gaps (v # vs))))]"
    and d: "d = (if dv_kind v = ToolCallKind
        then base @ [(''id'', JStr (dv_id v))] @ (case dv_name v of Some n \<Rightarrow> [(''name'', JStr n)] | None \<Rightarrow> [])
               @ [(''args'', JArr (map (\<lambda>v. JStr (dv_payload v)) (v # vs)))]
        else base @ [(''texts'', JArr (map (\<lambda>v. JStr (dv_payload v)) (v # vs)))])"
  shows "row_data (dv_kind v) d = Inr ((dv_id v, dv_name v), (dv_turn v, dv_step v, dv_index v),
    map dv_payload (v # vs), gaps (v # vs))"
proof -
  note g = gaps_safe [OF ok]
  have run: "validateRunData d (if dv_kind v = ToolCallKind then ''args'' else ''texts'')
      = Inr ((dv_turn v, dv_step v, dv_index v), map dv_payload (v # vs), gaps (v # vs))"
  proof -
    have l: "jget d ''turn'' = Some (JNum (dv_turn v))" "jget d ''step'' = Some (JNum (dv_step v))"
      "jget d ''index'' = Some (JNum (dv_index v))"
      "jget d ''dt'' = Some (JArr (map (\<lambda>g. JNum (of_int g)) (gaps (v # vs))))"
      "jget d (if dv_kind v = ToolCallKind then ''args'' else ''texts'') = Some (JArr (map (\<lambda>v. JStr (dv_payload v)) (v # vs)))"
      by (simp_all add: d base jget_def split: option.split)
    show ?thesis
      using g unfolding validateRunData_def l json_strings_map
      by (simp add: json_safe_ints_map json_strings_map del: list.map)
  qed
  show ?thesis
  proof (cases "dv_kind v = ToolCallKind")
    case True
    with run show ?thesis
      by (cases "dv_name v") (simp_all add: row_data_def d base has_exact_keys_def jget_def Let_def)
  next
    case False
    with run ok show ?thesis
      by (simp add: row_data_def d base has_exact_keys_def jget_def run_ok_def view_ok_def)
  qed
qed

lemma decode_buildRow:
  assumes ok: "run_ok (v # vs)"
  shows "decodeStorageRecord (buildRow (dv_kind v) (v # vs)) = Inr (map canonical_event (v # vs))"
proof -
  define base where "base = [(''turn'', JNum (dv_turn v)), (''step'', JNum (dv_step v)), (''index'', JNum (dv_index v)),
      (''dt'', JArr (map (\<lambda>g. JNum (of_int g)) (gaps (v # vs))))]"
  define d where "d = (if dv_kind v = ToolCallKind
        then base @ [(''id'', JStr (dv_id v))] @ (case dv_name v of Some n \<Rightarrow> [(''name'', JStr n)] | None \<Rightarrow> [])
               @ [(''args'', JArr (map (\<lambda>v. JStr (dv_payload v)) (v # vs)))]
        else base @ [(''texts'', JArr (map (\<lambda>v. JStr (dv_payload v)) (v # vs)))])"
  define ps where "ps = [(''type'', JStr (row_tag (dv_kind v))), (''seq0'', JNum (of_int (dv_seq v))),
      (''time0'', JNum (of_int (dv_time v))), (''data'', JObj d)]"
  have row: "buildRow (dv_kind v) (v # vs) = JObj ps"
    by (simp only: buildRow_def Let_def list.sel base_def d_def ps_def)
  have l: "jget ps ''seq0'' = Some (JNum (of_int (dv_seq v)))" "jget ps ''time0'' = Some (JNum (of_int (dv_time v)))"
    "jget ps ''data'' = Some (JObj d)" "has_exact_keys ps [''type'', ''seq0'', ''time0'', ''data'']"
    "row_kind (jget ps ''type'') = Some (dv_kind v)"
    by (cases "dv_kind v"; simp add: ps_def jget_def has_exact_keys_def row_kind_def)+
  have v: "0 \<le> dv_seq v" "safe_int (dv_seq v)" "safe_int (dv_time v)"
    using ok by (simp_all add: run_ok_def view_ok_def)
  have end_safe: "0 \<le> dv_seq v + int (length vs)" "safe_int (dv_seq v + int (length vs))"
    using run_ok_last [OF ok] unfolding view_ok_def by metis+
  then have "double_of_int (dv_seq v + int (length (map dv_payload (v # vs)))) = dv_seq v + int (length vs) + 1"
    by (subst double_of_int_exact) (simp_all add: safe_int_def)
  with end_safe(2) have bound: "safe_int (double_of_int (double_of_int (dv_seq v + int (length (map dv_payload (v # vs)))) - 1))"
    by (simp add: double_of_int_safe)
  let ?row = "\<lparr>cr_kind = dv_kind v, cr_seq0 = dv_seq v, cr_time0 = dv_time v, cr_turn = dv_turn v,
      cr_step = dv_step v, cr_index = dv_index v, cr_id = dv_id v, cr_name = dv_name v,
      cr_dt = gaps (v # vs), cr_members = map dv_payload (v # vs)\<rparr>"
  have "validateRow ps (dv_kind v) = Inr ?row"
    using v bound times_safe_gaps [OF ok]
    unfolding validateRow_def l row_data_buildRow [OF ok base_def d_def]
    by (simp add: safe_integer_of_of_int l row_data_buildRow [OF ok base_def d_def])
  moreover have "expandRow ?row = map canonical_event (v # vs)"
    using expand_members_run [OF ok, of ?row 0] by (simp add: expandRow_def row_like_def)
  ultimately show ?thesis by (simp add: decodeStorageRecord_def row l(5))
qed

section \<open>The packing loop\<close>

lemma decode_all_append:
  "decode_all (xs @ ys) = bind_result (decode_all xs) (\<lambda>a. bind_result (decode_all ys) (\<lambda>b. Inr (a @ b)))"
proof (induction xs)
  case Nil
  then show ?case by (cases "decode_all ys") simp_all
next
  case (Cons x xs)
  then show ?case by (cases "decodeStorageRecord x"; cases "decode_all xs"; cases "decode_all ys") simp_all
qed

definition storage_event :: "json \<Rightarrow> bool" where
  "storage_event e \<longleftrightarrow> json_wf e \<and> (case as_record e of Some ps \<Rightarrow> row_kind (jget ps ''type'') = None | None \<Rightarrow> True)"

lemma decode_verbatim: "storage_event e \<Longrightarrow> decodeStorageRecord e = Inr [e]"
  by (auto simp: storage_event_def decodeStorageRecord_def split: option.splits)

lemma decode_all_verbatim: "list_all storage_event es \<Longrightarrow> decode_all es = Inr es"
  by (induction es) (simp_all add: decode_verbatim)

definition run_of :: "(json \<times> delta_view) list \<Rightarrow> bool" where
  "run_of run \<longleftrightarrow> run_ok (map snd run) \<and> list_all (\<lambda>(e, v). classify e = Some v \<and> storage_event e) run"

lemma run_of_events:
  "run_of run \<Longrightarrow> list_all storage_event (map fst run) \<and> list_all2 isDeepEqualJson (map (canonical_event \<circ> snd) run) (map fst run)"
  by (auto simp: run_of_def list_all_iff list_all2_conv_all_nth set_conv_nth dest!: classify_Some)
    (metis classify_Some nth_mem prod.collapse)+

lemma list_all2_refl_events: "list_all storage_event es \<Longrightarrow> list_all2 isDeepEqualJson es es"
  by (auto simp: list_all_iff list_all2_conv_all_nth storage_event_def intro: isDeepEqualJson_refl)

lemma flush_run_decodes:
  assumes "run_of run"
  shows "\<exists>ds. decode_all (flush_run run) = Inr ds \<and> list_all2 isDeepEqualJson ds (map fst run)"
proof (cases "run \<noteq> [] \<and> MIN_RUN \<le> length run")
  case True
  then obtain e v rest where run: "run = (e, v) # rest" by (cases run) auto
  with assms have "run_ok (v # map snd rest)" by (simp add: run_of_def)
  from decode_buildRow [OF this] True run have "decode_all (flush_run run) = Inr (map canonical_event (map snd run))"
    by (simp add: flush_run_def)
  with run_of_events [OF assms] show ?thesis by (simp add: comp_def)
next
  case False
  with run_of_events [OF assms] decode_all_verbatim list_all2_refl_events show ?thesis
    by (auto simp: flush_run_def)
qed

lemma chained_snoc:
  "vs \<noteq> [] \<Longrightarrow> chained (vs @ [v]) \<longleftrightarrow> chained vs \<and> continues (last vs) v \<and> dv_kind v = dv_kind (last vs)"
  by (induction vs rule: chained.induct) auto

lemma chained_kind: "chained vs \<Longrightarrow> vs \<noteq> [] \<Longrightarrow> dv_kind (last vs) = dv_kind (hd vs)"
  by (induction vs rule: chained.induct) auto

lemma run_of_snoc:
  assumes run: "run_of run" and e: "classify e = Some v" "storage_event e"
    and ext: "run \<noteq> []" "dv_kind v = dv_kind (snd (hd run))" "continues (snd (last run)) v"
  shows "run_of (run @ [(e, v)])"
proof -
  let ?vs = "map snd run"
  have ne: "?vs \<noteq> []" using ext(1) by simp
  have "chained ?vs" using run by (simp add: run_of_def run_ok_def)
  moreover from chained_kind [OF this ne] ext(2) have "dv_kind v = dv_kind (last ?vs)"
    using ext(1) by (simp add: hd_map)
  moreover have "continues (last ?vs) v" using ext by (simp add: last_map)
  ultimately have "chained (?vs @ [v])" by (simp add: chained_snoc [OF ne])
  with run e classify_Some [OF e(1)] show ?thesis by (simp add: run_of_def run_ok_def)
qed

lemma pack_loop_decodes:
  assumes "run_of run" "list_all storage_event es" "decode_all out = Inr ds" "list_all2 isDeepEqualJson ds done"
  shows "\<exists>ds'. decode_all (pack_loop out run es) = Inr ds' \<and> list_all2 isDeepEqualJson ds' (done @ map fst run @ es)"
  using assms
proof (induction out run es arbitrary: ds "done" rule: pack_loop.induct)
  case (1 out run)
  with flush_run_decodes [OF "1.prems"(1)] show ?case
    by (auto simp: decode_all_append intro: list_all2_appendI)
next
  case (2 out run e es)
  from flush_run_decodes [OF "2.prems"(1)] obtain fs where
    fs: "decode_all (flush_run run) = Inr fs" "list_all2 isDeepEqualJson fs (map fst run)" by blast
  have e: "storage_event e" "list_all storage_event es" using "2.prems"(2) by simp_all
  have out': "decode_all (out @ flush_run run) = Inr (ds @ fs)" using "2.prems"(3) fs by (simp add: decode_all_append)
  have done': "list_all2 isDeepEqualJson (ds @ fs) (done @ map fst run)"
    using "2.prems"(4) fs(2) by (rule list_all2_appendI)
  show ?case
  proof (cases "classify e")
    case None
    have "decode_all (out @ flush_run run @ [e]) = Inr (ds @ fs @ [e])"
      using "2.prems"(3) fs(1) decode_verbatim [OF e(1)] by (simp add: decode_all_append)
    moreover have "list_all2 isDeepEqualJson (ds @ fs @ [e]) (done @ map fst run @ [e])"
      using list_all2_appendI [OF done', of "[e]" "[e]"] e(1) isDeepEqualJson_refl
      by (simp add: storage_event_def)
    moreover have "run_of []" by (simp add: run_of_def run_ok_def)
    ultimately show ?thesis
      using "2.IH"(1) [OF None _ e(2), of "ds @ fs @ [e]" "done @ map fst run @ [e]"] None by simp
  next
    case (Some v)
    show ?thesis
    proof (cases "run \<noteq> [] \<and> dv_kind v = dv_kind (snd (hd run)) \<and> continues (snd (last run)) v")
      case True
      then have "run_of (run @ [(e, v)])" using run_of_snoc "2.prems"(1) Some e(1) by blast
      from "2.IH"(2) [OF Some True this e(2) "2.prems"(3,4)] Some True show ?thesis by simp
    next
      case False
      have "run_of [(e, v)]" using Some e(1) classify_Some by (simp add: run_of_def run_ok_def)
      from "2.IH"(3) [OF Some False this e(2) out' done'] Some False show ?thesis by auto
    qed
  qed
qed

section \<open>Claims\<close>

definition sample_delta :: "int \<Rightarrow> int \<Rightarrow> string \<Rightarrow> json" where
  "sample_delta s t x = member_event s t 1 1 (member_chunk TextKind 0 [] None x)"

definition sample_batch :: "json list" where
  "sample_batch = [sample_delta 5 100 ''a'', sample_delta 6 101 ''b'', sample_delta 7 99 ''c'',
     JObj [(''type'', JStr ''turn/end'')]]"

text \<open>
  C23. Storage packing is lossless: decoding the records written for any batch of stored events
  succeeds and yields the batch in order, each event equal to the original up to the order of its
  properties.
\<close>

theorem packChunkRuns_roundtrip:
  assumes "list_all storage_event es"
  shows "\<exists>ds. decode_all (packChunkRuns es) = Inr ds \<and> list_all2 isDeepEqualJson ds es"
  using pack_loop_decodes [of "[]" es "[]" "[]" "[]"] assms
  by (simp add: packChunkRuns_def run_of_def run_ok_def)

theorem packChunkRuns_roundtrip_witness:
  "length (packChunkRuns sample_batch) = 2 \<and>
   (\<exists>ds. decode_all (packChunkRuns sample_batch) = Inr ds \<and> list_all2 isDeepEqualJson ds sample_batch)"
proof -
  have "list_all storage_event sample_batch" by code_simp
  moreover have "length (packChunkRuns sample_batch) = 2" by code_simp
  ultimately show ?thesis using packChunkRuns_roundtrip by blast
qed

text \<open>
  The run check is exact: on recognized events, the double comparison of sequences and the
  rounded time difference accept a continuation exactly when the true sequence is the successor and
  the true gap is a safe integer, so no rounded gap is ever stored.
\<close>

theorem continues_exact:
  assumes "view_ok a" "view_ok b"
  shows "continues a b \<longleftrightarrow>
    dv_seq b = dv_seq a + 1 \<and> safe_int (dv_time b - dv_time a) \<and>
    double_of_int (dv_time b - dv_time a) = dv_time b - dv_time a \<and>
    dv_turn b = dv_turn a \<and> dv_step b = dv_step a \<and> dv_index b = dv_index a \<and>
    (dv_kind b = ToolCallKind \<longrightarrow> dv_id b = dv_id a \<and> dv_name b = dv_name a)"
proof -
  have "double_of_int (dv_seq a + 1) = dv_seq a + 1"
    using assms(1) by (intro double_of_int_exact) (auto simp: view_ok_def safe_int_def)
  then show ?thesis by (auto simp: continues_def safe_double_of_int double_of_int_safe)
qed

definition sample_view :: "int \<Rightarrow> int \<Rightarrow> delta_view" where
  "sample_view s t = \<lparr>dv_kind = TextKind, dv_seq = s, dv_time = t, dv_turn = 1, dv_step = 1, dv_index = 0,
     dv_id = [], dv_name = None, dv_payload = ''x''\<rparr>"

theorem continues_exact_witness:
  "continues (sample_view 0 5) (sample_view 1 3) \<and>
   \<not> continues (sample_view 0 (- 9007199254740991)) (sample_view 1 9007199254740991)"
proof -
  have ok: "view_ok (sample_view 0 5)" "view_ok (sample_view 1 3)"
    "view_ok (sample_view 0 (- 9007199254740991))" "view_ok (sample_view 1 9007199254740991)"
    by (simp_all add: view_ok_def sample_view_def safe_int_def max_safe_integer_def)
  show ?thesis
    using continues_exact [OF ok(1,2)] continues_exact [OF ok(3,4)]
    by (simp add: sample_view_def safe_int_def max_safe_integer_def double_of_int_def)
qed

text \<open>
  The decoder's bound on member sequences misses one value: the rounding of
  \<open>seq0 + payload.length - 1\<close> hides a last sequence of exactly \<open>2 ^ 53\<close>, so a row that starts at the
  largest safe integer with two members is accepted and expands to an event whose sequence is not a
  safe integer.
\<close>

theorem decoder_accepts_unsafe_seq:
  "decodeStorageRecord
     (JObj [(''type'', JStr ''text-chunks''), (''seq0'', JNum 9007199254740991), (''time0'', JNum 0),
        (''data'', JObj [(''turn'', JNum 1), (''step'', JNum 1), (''index'', JNum 0), (''dt'', JArr [JNum 0]),
           (''texts'', JArr [JStr ''a'', JStr ''b''])])])
   = Inr [sample_delta 9007199254740991 0 ''a'', sample_delta 9007199254740992 0 ''b''] \<and>
   \<not> safe_int 9007199254740992"
  by code_simp

end
