(* ===== verification/Tool_Pairing.thy ===== *)
theory Tool_Pairing
  imports Session_Log
begin

text \<open>
  Where a surface may be cut: the tool-pairing balance of
  \<open>compaction/compaction/src/tool-pairing.ts\<close> with its per-generation cache, and the two readers in
  \<open>compaction-basic/src/region.ts\<close> that choose and validate a compactable span. A surface is given by
  its nodes and its replacement generation, which \<open>Surface\<close> and \<open>Session_Log\<close> relate to the log.
  The theorems show that the cache is the fold from scratch, that a selected range never splits a
  call from its result and retains the token budget, and that replacing a validated span by a
  message without calls keeps the surface balanced.
\<close>

section \<open>The balance cache\<close>

datatype pairing_error =
    CorruptSurface int
  | UnmatchedResult int
  | SeqNotFound int
  | MeterMismatch
  | RegionStartNotFound int
  | RegionEndNotFound int
  | RegionStartAfterEnd int int
  | RegionStartUnbalanced int
  | RegionEndUnbalanced int

record balance_cache =
  bc_generation :: nat
  bc_cutBalanced :: "bool list"
  bc_indexBySeq :: "int \<rightharpoonup> nat"
  bc_inProgress :: int

fun is_tool_call :: "content_block \<Rightarrow> bool" where
  "is_tool_call (ToolCallBlock _ _ _) = True"
| "is_tool_call _ = False"

definition eventDelta :: "session_event \<Rightarrow> int" where
  "eventDelta e =
     (case ev_data e of
        AssistantMessage _ _ m _ _ \<Rightarrow> int (length (filter is_tool_call (msg_content m)))
      | ToolResult _ _ _ _ _ \<Rightarrow> -1
      | _ \<Rightarrow> 0)"

definition eventForSeq :: "session_event list \<Rightarrow> int \<Rightarrow> pairing_error + session_event" where
  "eventForSeq events seq =
     (case event_at events seq of
        Some e \<Rightarrow> if ev_seq e = seq then Inr e else Inl (CorruptSurface seq)
      | None \<Rightarrow> Inl (CorruptSurface seq))"

text \<open>The loop over the unseen tail: the cut flags it adds and the cnt it ends with.\<close>

fun tail_cuts :: "session_event list \<Rightarrow> int \<Rightarrow> int list \<Rightarrow> pairing_error + bool list \<times> int" where
  "tail_cuts events cnt [] = Inr ([], cnt)"
| "tail_cuts events cnt (seq # seqs) =
     bind_result (eventForSeq events seq) (\<lambda>e.
       let c = cnt + eventDelta e in
       if c < 0 then Inl (UnmatchedResult seq)
       else bind_result (tail_cuts events c seqs) (\<lambda>(cuts, final). Inr ((c = 0) # cuts, final)))"

fun index_seqs :: "nat \<Rightarrow> int list \<Rightarrow> (int \<rightharpoonup> nat) \<Rightarrow> (int \<rightharpoonup> nat)" where
  "index_seqs i [] m = m"
| "index_seqs i (seq # seqs) m = index_seqs (i + 1) seqs (m(seq \<mapsto> i))"

definition extendCache ::
  "session_event list \<Rightarrow> balance_cache \<Rightarrow> int list \<Rightarrow> pairing_error + balance_cache" where
  "extendCache events cache seqs =
     (let processed = length (bc_cutBalanced cache) - 1; rest = drop processed seqs in
      bind_result (tail_cuts events (bc_inProgress cache) rest) (\<lambda>(cuts, cnt).
        Inr (cache\<lparr>bc_indexBySeq := index_seqs processed rest (bc_indexBySeq cache),
                   bc_cutBalanced := bc_cutBalanced cache @ cuts, bc_inProgress := cnt\<rparr>)))"

definition empty_cache :: "nat \<Rightarrow> balance_cache" where
  "empty_cache generation =
     \<lparr>bc_generation = generation, bc_cutBalanced = [True], bc_indexBySeq = Map.empty, bc_inProgress = 0\<rparr>"

definition balanceCache ::
  "session_event list \<Rightarrow> int list \<Rightarrow> nat \<Rightarrow> balance_cache option \<Rightarrow> pairing_error + balance_cache" where
  "balanceCache events seqs generation cached =
     (case cached of
        None \<Rightarrow> extendCache events (empty_cache generation) seqs
      | Some c \<Rightarrow>
          if bc_generation c \<noteq> generation \<or> length seqs < length (bc_cutBalanced c) - 1
          then extendCache events (empty_cache generation) seqs
          else if length (bc_cutBalanced c) - 1 < length seqs then extendCache events c seqs
          else Inr c)"

definition cutBalance :: "balance_cache \<Rightarrow> int \<Rightarrow> nat \<Rightarrow> pairing_error + bool" where
  "cutBalance cache seq offset =
     (case bc_indexBySeq cache seq of
        None \<Rightarrow> Inl (SeqNotFound seq)
      | Some i \<Rightarrow>
          if i + offset < length (bc_cutBalanced cache) then Inr (bc_cutBalanced cache ! (i + offset))
          else Inl (SeqNotFound seq))"

text \<open>
  The two exported reads. The cache found or built is kept for the next read; a failed extension
  keeps the previous one.
\<close>

definition pairing_read ::
  "session_event list \<Rightarrow> int list \<Rightarrow> nat \<Rightarrow> balance_cache option \<Rightarrow> int \<Rightarrow> nat
    \<Rightarrow> balance_cache option \<times> (pairing_error + bool)" where
  "pairing_read events seqs generation cached seq offset =
     (case balanceCache events seqs generation cached of
        Inl err \<Rightarrow> (cached, Inl err)
      | Inr c \<Rightarrow> (Some c, cutBalance c seq offset))"

definition toolPairingBalancedBefore where
  "toolPairingBalancedBefore events seqs generation cached seq =
     pairing_read events seqs generation cached seq 0"

definition toolPairingBalancedAfter where
  "toolPairingBalancedAfter events seqs generation cached seq =
     pairing_read events seqs generation cached seq 1"

section \<open>Choosing and validating a span\<close>

text \<open>Scan from the tail until the retained budget is met.\<close>

fun keep_loop :: "rat list \<Rightarrow> rat \<Rightarrow> rat \<Rightarrow> nat \<Rightarrow> nat \<Rightarrow> nat" where
  "keep_loop tokens retain acc keep 0 = keep"
| "keep_loop tokens retain acc keep (Suc i) =
     (let acc' = acc + tokens ! i in
      if retain \<le> acc' then i else keep_loop tokens retain acc' i i)"

text \<open>Move the cut to the head until it is balanced.\<close>

fun cut_loop ::
  "session_event list \<Rightarrow> int list \<Rightarrow> nat \<Rightarrow> balance_cache option \<Rightarrow> nat
    \<Rightarrow> balance_cache option \<times> (pairing_error + nat)" where
  "cut_loop events seqs generation cached 0 = (cached, Inr 0)"
| "cut_loop events seqs generation cached (Suc k) =
     (case toolPairingBalancedBefore events seqs generation cached (seqs ! Suc k) of
        (cached', Inl err) \<Rightarrow> (cached', Inl err)
      | (cached', Inr True) \<Rightarrow> (cached', Inr (Suc k))
      | (cached', Inr False) \<Rightarrow> cut_loop events seqs generation cached' k)"

definition selectCompactableRange ::
  "session_event list \<Rightarrow> int list \<Rightarrow> nat \<Rightarrow> balance_cache option \<Rightarrow> (int \<times> rat) list \<Rightarrow> rat
    \<Rightarrow> balance_cache option \<times> (pairing_error + (int \<times> int) option)" where
  "selectCompactableRange events seqs generation cached priced retain =
     (if priced = [] then (cached, Inr None)
      else if seqs \<noteq> map fst priced then (cached, Inl MeterMismatch)
      else
        let keep = keep_loop (map snd priced) retain 0 (length priced) (length priced) in
        if keep = 0 then (cached, Inr None)
        else case cut_loop events seqs generation cached keep of
               (cached', Inl err) \<Rightarrow> (cached', Inl err)
             | (cached', Inr k) \<Rightarrow>
                 if k = 0 then (cached', Inr None)
                 else (cached', Inr (Some (seqs ! 0, seqs ! (k - 1)))))"

record surface_selection =
  ss_start :: int
  ss_end :: int
  ss_startIdx :: nat
  ss_endIdx :: nat
  ss_shadowedSeqs :: "int list"

definition validateSurfaceRegion ::
  "session_event list \<Rightarrow> int list \<Rightarrow> nat \<Rightarrow> balance_cache option \<Rightarrow> int \<Rightarrow> int
    \<Rightarrow> balance_cache option \<times> (pairing_error + surface_selection)" where
  "validateSurfaceRegion events seqs generation cached s e =
     (case index_of s seqs of
        None \<Rightarrow> (cached, Inl (RegionStartNotFound s))
      | Some i \<Rightarrow>
          (case index_of e seqs of
             None \<Rightarrow> (cached, Inl (RegionEndNotFound e))
           | Some j \<Rightarrow>
               if j < i then (cached, Inl (RegionStartAfterEnd s e))
               else case toolPairingBalancedBefore events seqs generation cached (seqs ! i) of
                      (c1, Inl err) \<Rightarrow> (c1, Inl err)
                    | (c1, Inr False) \<Rightarrow> (c1, Inl (RegionStartUnbalanced s))
                    | (c1, Inr True) \<Rightarrow>
                        (case toolPairingBalancedAfter events seqs generation c1 (seqs ! j) of
                           (c2, Inl err) \<Rightarrow> (c2, Inl err)
                         | (c2, Inr False) \<Rightarrow> (c2, Inl (RegionEndUnbalanced e))
                         | (c2, Inr True) \<Rightarrow>
                             (c2, Inr \<lparr>ss_start = s, ss_end = e, ss_startIdx = i, ss_endIdx = j,
                                       ss_shadowedSeqs = slice seqs i (j + 1)\<rparr>))))"

section \<open>The reference: running counts\<close>

definition node_delta :: "session_event list \<Rightarrow> int \<Rightarrow> int" where
  "node_delta events seq = (case event_at events seq of Some e \<Rightarrow> eventDelta e | None \<Rightarrow> 0)"

text \<open>Calls open before position \<open>k\<close> of the surface.\<close>

definition open_calls :: "session_event list \<Rightarrow> int list \<Rightarrow> nat \<Rightarrow> int" where
  "open_calls events seqs k = sum_list (map (node_delta events) (take k seqs))"

definition surface_paired :: "session_event list \<Rightarrow> int list \<Rightarrow> bool" where
  "surface_paired events seqs \<longleftrightarrow>
     (\<forall>q \<in> set seqs. \<exists>e. event_at events q = Some e \<and> ev_seq e = q) \<and>
     (\<forall>k \<le> length seqs. 0 \<le> open_calls events seqs k)"

text \<open>The cache that a fold from scratch over a paired surface produces.\<close>

definition cache_of :: "session_event list \<Rightarrow> int list \<Rightarrow> nat \<Rightarrow> balance_cache" where
  "cache_of events seqs generation =
     \<lparr>bc_generation = generation,
      bc_cutBalanced = map (\<lambda>k. open_calls events seqs k = 0) [0..<Suc (length seqs)],
      bc_indexBySeq = index_seqs 0 seqs Map.empty,
      bc_inProgress = open_calls events seqs (length seqs)\<rparr>"

lemma eventForSeq_Inr: "eventForSeq events q = Inr e \<longleftrightarrow> event_at events q = Some e \<and> ev_seq e = q"
  by (auto simp: eventForSeq_def split: option.splits)

lemma index_seqs_append: "index_seqs i (xs @ ys) m = index_seqs (i + length xs) ys (index_seqs i xs m)"
  by (induction xs arbitrary: i m) simp_all

lemma open_calls_append:
  "k \<le> length ys \<Longrightarrow> open_calls events (xs @ ys) (length xs + k) = open_calls events xs (length xs) + open_calls events ys k"
  by (simp add: open_calls_def)

lemma tail_cuts_Inr:
  assumes "\<forall>q \<in> set seqs. \<exists>e. event_at events q = Some e \<and> ev_seq e = q"
  shows "(\<forall>k \<le> length seqs. 0 \<le> cnt + open_calls events seqs k) \<Longrightarrow>
    tail_cuts events cnt seqs =
      Inr (map (\<lambda>k. cnt + open_calls events seqs k = 0) [1..<Suc (length seqs)], cnt + open_calls events seqs (length seqs))"
  using assms
proof (induction seqs arbitrary: cnt)
  case Nil
  then show ?case by (simp add: open_calls_def)
next
  case (Cons q seqs)
  then obtain e where e: "event_at events q = Some e" "ev_seq e = q" by auto
  have step: "open_calls events (q # seqs) (Suc k) = eventDelta e + open_calls events seqs k" for k
    by (simp add: open_calls_def node_delta_def e)
  have nn: "\<forall>k \<le> length seqs. 0 \<le> (cnt + eventDelta e) + open_calls events seqs k"
  proof (intro allI impI)
    fix k assume "k \<le> length seqs"
    then have "Suc k \<le> length (q # seqs)" by simp
    with Cons.prems(1) have "0 \<le> cnt + open_calls events (q # seqs) (Suc k)" by blast
    then show "0 \<le> (cnt + eventDelta e) + open_calls events seqs k" by (simp add: step add.assoc)
  qed
  have IH: "tail_cuts events (cnt + eventDelta e) seqs =
      Inr (map (\<lambda>k. cnt + eventDelta e + open_calls events seqs k = 0) [1..<Suc (length seqs)],
           cnt + eventDelta e + open_calls events seqs (length seqs))"
    using Cons.prems(2) by (intro Cons.IH [OF nn]) simp
  have "0 \<le> cnt + eventDelta e" using nn [rule_format, of 0] by (simp add: open_calls_def)
  moreover have "map (\<lambda>k. cnt + open_calls events (q # seqs) k = 0) [1..<Suc (length (q # seqs))]
      = (cnt + eventDelta e = 0) # map (\<lambda>k. cnt + eventDelta e + open_calls events seqs k = 0) [1..<Suc (length seqs)]"
  proof -
    have "[1..<Suc (length (q # seqs))] = 1 # map Suc [1..<Suc (length seqs)]"
      by (simp add: upt_conv_Cons map_Suc_upt del: upt_Suc)
    moreover have "open_calls events (q # seqs) 1 = eventDelta e"
      using step [of 0] by (simp add: open_calls_def)
    ultimately show ?thesis by (simp add: step add.assoc comp_def del: upt_Suc)
  qed
  ultimately show ?case
    using IH by (simp add: eventForSeq_def e step add.assoc Let_def del: upt_Suc)
qed

lemma open_calls_0 [simp]: "open_calls events seqs 0 = 0"
  by (simp add: open_calls_def)

lemma extendCache_prefix:
  assumes p: "surface_paired events (xs @ ys)"
  shows "extendCache events (cache_of events xs g) (xs @ ys) = Inr (cache_of events (xs @ ys) g)"
proof -
  have ys: "\<forall>q \<in> set ys. \<exists>e. event_at events q = Some e \<and> ev_seq e = q"
    using p by (auto simp: surface_paired_def)
  have nn: "\<forall>k \<le> length ys. 0 \<le> open_calls events xs (length xs) + open_calls events ys k"
  proof (intro allI impI)
    fix k assume k: "k \<le> length ys"
    then have "0 \<le> open_calls events (xs @ ys) (length xs + k)"
      using p by (simp add: surface_paired_def)
    then show "0 \<le> open_calls events xs (length xs) + open_calls events ys k"
      by (simp add: open_calls_append [OF k])
  qed
  have cuts: "map (\<lambda>k. open_calls events (xs @ ys) k = 0) [0..<Suc (length (xs @ ys))]
      = map (\<lambda>k. open_calls events xs k = 0) [0..<Suc (length xs)] @
        map (\<lambda>k. open_calls events xs (length xs) + open_calls events ys k = 0) [1..<Suc (length ys)]"
  proof -
    have "[0..<Suc (length (xs @ ys))] = [0..<Suc (length xs)] @ map ((+) (length xs)) [1..<Suc (length ys)]"
    proof -
      have "[0..<Suc (length xs) + length ys] = [0..<Suc (length xs)] @ [Suc (length xs)..<Suc (length xs) + length ys]"
        by (rule upt_add_eq_append) simp
      moreover have "map ((+) (length xs)) [1..<Suc (length ys)] = [Suc (length xs)..<Suc (length xs) + length ys]"
        by (rule nth_equalityI) (simp_all del: upt_Suc)
      ultimately show ?thesis by simp
    qed
    moreover have "open_calls events (xs @ ys) k = open_calls events xs k" if "k \<le> length xs" for k
      using that by (simp add: open_calls_def)
    ultimately show ?thesis
      by (auto simp: open_calls_append less_Suc_eq_le simp del: upt_Suc)
  qed
  have len: "length (bc_cutBalanced (cache_of events xs g)) - 1 = length xs"
    by (simp add: cache_of_def del: upt_Suc)
  have "open_calls events (xs @ ys) (length (xs @ ys)) = open_calls events xs (length xs) + open_calls events ys (length ys)"
    using open_calls_append [of "length ys" ys events xs] by simp
  then show ?thesis
    using tail_cuts_Inr [OF ys nn] cuts
    by (simp add: extendCache_def len cache_of_def index_seqs_append Let_def del: upt_Suc)
qed

lemma cache_of_Nil: "empty_cache g = cache_of events [] g"
  by (simp add: empty_cache_def cache_of_def)

lemma rebuild_cache: "surface_paired events seqs \<Longrightarrow> extendCache events (empty_cache g) seqs = Inr (cache_of events seqs g)"
  using extendCache_prefix [of events "[]" seqs g] by (simp add: cache_of_Nil [of g events])

section \<open>The cache is the fold from scratch\<close>

lemma tail_cuts_append:
  "tail_cuts events cnt (xs @ ys) =
     bind_result (tail_cuts events cnt xs) (\<lambda>(cs, n).
     bind_result (tail_cuts events n ys) (\<lambda>(ds, m). Inr (cs @ ds, m)))"
proof (induction xs arbitrary: cnt)
  case Nil
  then show ?case by (cases "tail_cuts events cnt ys") auto
next
  case (Cons q xs)
  then show ?case
    by (cases "eventForSeq events q") (auto simp: Let_def bind_result_assoc case_prod_beta)
qed

lemma tail_cuts_length: "tail_cuts events cnt xs = Inr (cs, n) \<Longrightarrow> length cs = length xs"
  by (induction xs arbitrary: cnt cs n) (auto simp: result_simps Let_def split: if_splits)

lemma extendCache_resume:
  assumes "extendCache events (empty_cache g) xs = Inr c"
  shows "extendCache events c (xs @ ys) = extendCache events (empty_cache g) (xs @ ys)"
proof -
  from assms obtain cs n where t: "tail_cuts events 0 xs = Inr (cs, n)"
    and c: "c = \<lparr>bc_generation = g, bc_cutBalanced = True # cs, bc_indexBySeq = index_seqs 0 xs Map.empty, bc_inProgress = n\<rparr>"
    by (auto simp: extendCache_def empty_cache_def result_simps Let_def)
  have "length cs = length xs" by (rule tail_cuts_length [OF t])
  then show ?thesis
    by (cases "tail_cuts events n ys")
      (auto simp: extendCache_def empty_cache_def c t tail_cuts_append index_seqs_append Let_def)
qed

lemma extendCache_full:
  assumes "extendCache events (empty_cache g) xs = Inr c"
  shows "length (bc_cutBalanced c) - 1 = length xs" "bc_generation c = g"
  using assms by (auto simp: extendCache_def empty_cache_def result_simps Let_def dest: tail_cuts_length)

lemma tail_cuts_take:
  "\<forall>q \<in> set xs. q < int (length (take k lg)) \<Longrightarrow> tail_cuts (take k lg) cnt xs = tail_cuts lg cnt xs"
proof (induction xs arbitrary: cnt)
  case (Cons q xs)
  then have "eventForSeq (take k lg) q = eventForSeq lg q" by (simp add: eventForSeq_def event_at_take)
  with Cons show ?case by (cases "eventForSeq lg q") (simp_all add: Let_def)
qed simp

inductive pairing_run :: "session_event list \<Rightarrow> balance_cache option \<Rightarrow> bool" where
  pairing_start: "pairing_run [] None"
| pairing_push: "pairing_run lg c \<Longrightarrow> pairing_run (lg @ [e]) c"
| pairing_reads: "pairing_run lg c \<Longrightarrow> foldSurface lg = Inr (ns, reps) \<Longrightarrow>
    pairing_run lg (fst (pairing_read lg ns (length reps) c seq off))"

definition cache_inv :: "session_event list \<Rightarrow> balance_cache option \<Rightarrow> bool" where
  "cache_inv lg c \<longleftrightarrow>
     (case c of
        None \<Rightarrow> True
      | Some c \<Rightarrow> \<exists>k ns reps. k \<le> length lg \<and> foldSurface (take k lg) = Inr (ns, reps) \<and>
          extendCache (take k lg) (empty_cache (length reps)) ns = Inr c)"

lemma balanceCache_rebuild:
  assumes inv: "cache_inv lg c" and f: "foldSurface lg = Inr (ns, reps)"
  shows "balanceCache lg ns (length reps) c = extendCache lg (empty_cache (length reps)) ns"
proof (cases c)
  case (Some c0)
  with inv obtain k ns0 reps0 where k: "foldSurface (take k lg) = Inr (ns0, reps0)"
    "extendCache (take k lg) (empty_cache (length reps0)) ns0 = Inr c0"
    by (auto simp: cache_inv_def)
  from k(1) obtain st where "surface.project (take k lg) = Inr (st, reps0)" "nodes st = ns0"
    by (auto simp: foldSurface_Inr)
  then have "\<forall>q \<in> set ns0. q < int (length (take k lg))"
    using surface_inv_bound surface.project_inv by fastforce
  from tail_cuts_take [OF this] have k2: "extendCache lg (empty_cache (length reps0)) ns0 = Inr c0"
    using k(2) by (simp add: extendCache_def empty_cache_def Let_def)
  note c0 = extendCache_full [OF k2]
  show ?thesis
  proof (cases "length reps = length reps0")
    case True
    from foldSurface_grows [OF k(1) f True] obtain rest where ns: "ns = ns0 @ rest" by blast
    with c0 extendCache_resume [OF k2, of rest] k2 True Some show ?thesis
      by (cases rest) (auto simp: balanceCache_def)
  next
    case False
    with Some c0 show ?thesis by (simp add: balanceCache_def)
  qed
qed (simp add: balanceCache_def)

lemma pairing_run_inv: "pairing_run lg c \<Longrightarrow> cache_inv lg c"
proof (induction rule: pairing_run.induct)
  case (pairing_push lg c e)
  then show ?case
  proof (cases c)
    case (Some d)
    with pairing_push.IH obtain k ns reps where "k \<le> length lg" "foldSurface (take k lg) = Inr (ns, reps)"
      "extendCache (take k lg) (empty_cache (length reps)) ns = Inr d"
      by (auto simp: cache_inv_def)
    then show ?thesis unfolding cache_inv_def Some option.case
      by (intro exI [of _ k] exI [of _ ns] exI [of _ reps]) simp
  qed (simp add: cache_inv_def)
next
  case (pairing_reads lg c ns reps seq off)
  show ?case
  proof (cases "balanceCache lg ns (length reps) c")
    case (Inr d)
    with balanceCache_rebuild [OF pairing_reads.IH pairing_reads.hyps(2)]
    have d: "extendCache lg (empty_cache (length reps)) ns = Inr d" by simp
    have "\<exists>k ns reps. k \<le> length lg \<and> foldSurface (take k lg) = Inr (ns, reps) \<and>
          extendCache (take k lg) (empty_cache (length reps)) ns = Inr d"
      by (intro exI [of _ "length lg"] exI [of _ ns] exI [of _ reps]) (simp add: d pairing_reads.hyps(2))
    then show ?thesis by (simp add: pairing_read_def cache_inv_def Inr)
  qed (use pairing_reads.IH in \<open>simp add: pairing_read_def\<close>)
qed (simp add: cache_inv_def)

section \<open>Reads of a paired surface\<close>

definition cache_current :: "session_event list \<Rightarrow> int list \<Rightarrow> nat \<Rightarrow> balance_cache option \<Rightarrow> bool" where
  "cache_current lg ns g c \<longleftrightarrow> balanceCache lg ns g c = Inr (cache_of lg ns g)"

lemma cache_current_run:
  "pairing_run lg c \<Longrightarrow> foldSurface lg = Inr (ns, reps) \<Longrightarrow> surface_paired lg ns \<Longrightarrow>
    cache_current lg ns (length reps) c"
  using balanceCache_rebuild [OF pairing_run_inv] rebuild_cache by (simp add: cache_current_def)

lemma cache_current_kept: "cache_current lg ns g (Some (cache_of lg ns g))"
  by (simp add: cache_current_def balanceCache_def cache_of_def del: upt_Suc)

lemma index_seqs_other: "q \<notin> set xs \<Longrightarrow> index_seqs i xs m q = m q"
  by (induction xs arbitrary: i m) auto

lemma index_seqs_nth: "distinct xs \<Longrightarrow> j < length xs \<Longrightarrow> index_seqs i xs m (xs ! j) = Some (i + j)"
proof (induction xs arbitrary: i j m)
  case (Cons q xs)
  then show ?case by (cases j) (auto simp: index_seqs_other)
qed simp

lemma pairing_read_current:
  assumes "cache_current lg ns g c" "distinct ns" "i < length ns" "off \<le> 1"
  shows "pairing_read lg ns g c (ns ! i) off = (Some (cache_of lg ns g), Inr (open_calls lg ns (i + off) = 0))"
proof -
  have i: "bc_indexBySeq (cache_of lg ns g) (ns ! i) = Some i"
    using index_seqs_nth [OF assms(2,3), of 0] by (simp add: cache_of_def)
  have len: "length (bc_cutBalanced (cache_of lg ns g)) = Suc (length ns)" by (simp add: cache_of_def del: upt_Suc)
  have "bc_cutBalanced (cache_of lg ns g) ! (i + off) = (open_calls lg ns (i + off) = 0)"
    using assms(3,4) by (simp add: cache_of_def nth_map del: upt_Suc map_upt_Suc)
  with i len assms show ?thesis
    by (simp add: pairing_read_def cache_current_def cutBalance_def)
qed

lemma keep_loop_bound: "0 < n \<Longrightarrow> keep_loop tokens retain acc keep n < n"
proof (induction n arbitrary: acc keep)
  case (Suc n)
  then show ?case
    by (cases "n = 0") (auto simp: Let_def less_SucI)
qed simp

lemma keep_loop_budget:
  assumes "n \<le> length tokens" "acc = sum_list (drop n tokens)"
    "keep_loop tokens retain acc n n = k" "0 < k" "0 < n"
  shows "retain \<le> sum_list (drop k tokens)"
  using assms
proof (induction n arbitrary: acc)
  case (Suc n)
  have s: "acc + tokens ! n = sum_list (drop n tokens)"
    using Suc.prems(1,2) Cons_nth_drop_Suc [of n tokens, symmetric] by simp
  show ?case
  proof (cases "retain \<le> acc + tokens ! n")
    case True
    with Suc.prems(3) s show ?thesis by simp
  next
    case False
    with Suc.prems(3) have "keep_loop tokens retain (acc + tokens ! n) n n = k" by simp
    with Suc.IH [of "acc + tokens ! n"] Suc.prems s show ?thesis by (cases "n = 0") auto
  qed
qed simp

lemma keep_loop_short:
  assumes "n \<le> length tokens" "acc = sum_list (drop n tokens)"
    "keep_loop tokens retain acc n n = k" "k < j" "j < n"
  shows "sum_list (drop j tokens) < retain"
  using assms
proof (induction n arbitrary: acc)
  case (Suc n)
  have s: "acc + tokens ! n = sum_list (drop n tokens)"
    using Suc.prems(1,2) Cons_nth_drop_Suc [of n tokens, symmetric] by simp
  have f: "\<not> retain \<le> acc + tokens ! n" using Suc.prems(3-5) by (auto simp: Let_def)
  with Suc.prems(3) have "keep_loop tokens retain (acc + tokens ! n) n n = k" by simp
  with Suc.IH [of "acc + tokens ! n"] Suc.prems s f show ?case by (cases "j = n") auto
qed simp

lemma sum_list_drop_mono:
  assumes "\<forall>t \<in> set tokens. 0 \<le> (t :: rat)" "k \<le> j"
  shows "sum_list (drop j tokens) \<le> sum_list (drop k tokens)"
proof -
  have "drop k tokens = take (j - k) (drop k tokens) @ drop j tokens"
    using assms(2) by (metis append_take_drop_id drop_drop le_add_diff_inverse2)
  then have "sum_list (drop k tokens) = sum_list (take (j - k) (drop k tokens)) + sum_list (drop j tokens)"
    by (metis sum_list_append)
  moreover have "0 \<le> sum_list (take (j - k) (drop k tokens))"
    using assms(1) by (intro sum_list_nonneg) (auto dest: in_set_takeD in_set_dropD)
  ultimately show ?thesis by simp
qed

lemma cut_loop_result:
  assumes "cache_current lg ns g c" "distinct ns" "k < length ns"
  shows "\<exists>c' r. cut_loop lg ns g c k = (c', Inr r) \<and> r \<le> k \<and> open_calls lg ns r = 0 \<and>
    (\<forall>j. r < j \<longrightarrow> j \<le> k \<longrightarrow> open_calls lg ns j \<noteq> 0)"
  using assms
proof (induction k arbitrary: c)
  case (Suc k)
  have read: "toolPairingBalancedBefore lg ns g c (ns ! Suc k) = (Some (cache_of lg ns g), Inr (open_calls lg ns (Suc k) = 0))"
    using pairing_read_current [OF Suc.prems(1-3), of 0] by (simp add: toolPairingBalancedBefore_def)
  show ?case
  proof (cases "open_calls lg ns (Suc k) = 0")
    case True
    with read show ?thesis by auto
  next
    case False
    from Suc.IH [OF cache_current_kept Suc.prems(2)] Suc.prems(3) obtain c' r
      where "cut_loop lg ns g (Some (cache_of lg ns g)) k = (c', Inr r)" "r \<le> k" "open_calls lg ns r = 0"
        "\<forall>j. r < j \<longrightarrow> j \<le> k \<longrightarrow> open_calls lg ns j \<noteq> 0" by auto
    with read False show ?thesis by (auto simp: le_Suc_eq)
  qed
qed simp

lemma foldSurface_inv:
  assumes "foldSurface lg = Inr (ns, reps)"
  obtains st where "surface.project lg = Inr (st, reps)" "nodes st = ns" "surface_inv lg (st, reps)"
  using assms surface.project_inv by (auto simp: foldSurface_Inr)

lemma foldSurface_distinct: "foldSurface lg = Inr (ns, reps) \<Longrightarrow> distinct ns"
  by (elim foldSurface_inv) (auto dest: surface_inv_nodes(1))

section \<open>Properties\<close>

text \<open>
  C26. Whatever reads and appends came before, a pairing read through the cache answers what the
  fold of the whole surface from scratch answers, errors included; and on a surface whose results
  all follow their calls, the read before the node at position \<open>i\<close> (after it) is true exactly when
  no call is open at cut \<open>i\<close> (\<open>i + 1\<close>).
\<close>

theorem pairing_reads_exact:
  assumes "pairing_run lg c" "foldSurface lg = Inr (ns, reps)"
  shows "(\<forall>seq off. snd (pairing_read lg ns (length reps) c seq off) = snd (pairing_read lg ns (length reps) None seq off)) \<and>
    (surface_paired lg ns \<longrightarrow> (\<forall>i < length ns.
      snd (toolPairingBalancedBefore lg ns (length reps) c (ns ! i)) = Inr (open_calls lg ns i = 0) \<and>
      snd (toolPairingBalancedAfter lg ns (length reps) c (ns ! i)) = Inr (open_calls lg ns (i + 1) = 0)))"
proof (intro conjI impI allI)
  have inv: "cache_inv lg c" by (rule pairing_run_inv [OF assms(1)])
  have n: "cache_inv lg None" by (simp add: cache_inv_def)
  show "snd (pairing_read lg ns (length reps) c seq off) = snd (pairing_read lg ns (length reps) None seq off)" for seq off
    unfolding pairing_read_def balanceCache_rebuild [OF inv assms(2)] balanceCache_rebuild [OF n assms(2)]
    by (simp split: sum.split)
  fix i assume p: "surface_paired lg ns" "i < length ns"
  note read = pairing_read_current [OF cache_current_run [OF assms p(1)] foldSurface_distinct [OF assms(2)] p(2)]
  show "snd (toolPairingBalancedBefore lg ns (length reps) c (ns ! i)) = Inr (open_calls lg ns i = 0)"
    by (simp add: toolPairingBalancedBefore_def read)
  show "snd (toolPairingBalancedAfter lg ns (length reps) c (ns ! i)) = Inr (open_calls lg ns (i + 1) = 0)"
    by (simp add: toolPairingBalancedAfter_def read)
qed

definition legal_cut :: "session_event list \<Rightarrow> int list \<Rightarrow> rat list \<Rightarrow> rat \<Rightarrow> nat \<Rightarrow> bool" where
  "legal_cut lg ns tokens retain k \<longleftrightarrow>
     0 < k \<and> k < length ns \<and> open_calls lg ns k = 0 \<and> retain \<le> sum_list (drop k tokens)"

text \<open>
  C27. On a paired surface that the meter priced with non-negative counts, range selection never
  fails and finds the longest head-anchored range that splits no call from its result and leaves the
  retained budget in the tail: it answers none exactly when no cut is legal, and else the first node
  and the last node before the greatest legal cut.
\<close>

theorem selectCompactableRange_greatest:
  assumes "pairing_run lg c" "foldSurface lg = Inr (map fst priced, reps)" "surface_paired lg (map fst priced)"
    "\<forall>t \<in> set (map snd priced). 0 \<le> t"
  shows "case snd (selectCompactableRange lg (map fst priced) (length reps) c priced retain) of
      Inl err \<Rightarrow> False
    | Inr None \<Rightarrow> \<forall>k. \<not> legal_cut lg (map fst priced) (map snd priced) retain k
    | Inr (Some (a, b)) \<Rightarrow> \<exists>k. legal_cut lg (map fst priced) (map snd priced) retain k \<and>
        (\<forall>j. legal_cut lg (map fst priced) (map snd priced) retain j \<longrightarrow> j \<le> k) \<and>
        a = map fst priced ! 0 \<and> b = map fst priced ! (k - 1)"
proof (cases "priced = []")
  case True
  then show ?thesis by (simp add: selectCompactableRange_def legal_cut_def)
next
  case ne: False
  let ?ns = "map fst priced" and ?ts = "map snd priced"
  let ?n = "length priced"
  define keep where "keep = keep_loop ?ts retain 0 ?n ?n"
  have kb: "keep < ?n" using keep_loop_bound ne by (simp add: keep_def)
  have short: "j \<le> keep" if "legal_cut lg ?ns ?ts retain j" for j
    using keep_loop_short [of ?n ?ts 0 retain keep j] that by (force simp: keep_def legal_cut_def not_less [symmetric])
  show ?thesis
  proof (cases "keep = 0")
    case True
    then have "\<not> legal_cut lg ?ns ?ts retain k" for k using short [of k] by (auto simp: legal_cut_def)
    with True ne show ?thesis by (simp add: selectCompactableRange_def keep_def [symmetric])
  next
    case False
    then have budget: "retain \<le> sum_list (drop keep ?ts)"
      using keep_loop_budget [of ?n ?ts 0 retain keep] ne by (simp add: keep_def)
    obtain c' r where cut: "cut_loop lg ?ns (length reps) c keep = (c', Inr r)" "r \<le> keep" "open_calls lg ?ns r = 0"
      "\<forall>j. r < j \<longrightarrow> j \<le> keep \<longrightarrow> open_calls lg ?ns j \<noteq> 0"
      using cut_loop_result [OF cache_current_run [OF assms(1-3)] foldSurface_distinct [OF assms(2)], of keep] kb by auto
    have le: "j \<le> r" if "legal_cut lg ?ns ?ts retain j" for j
      using short [OF that] cut(4) that by (auto simp: legal_cut_def not_less [symmetric])
    have "legal_cut lg ?ns ?ts retain r" if "r \<noteq> 0"
      using that cut kb budget sum_list_drop_mono [OF assms(4) cut(2)] by (simp add: legal_cut_def)
    moreover have "\<not> legal_cut lg ?ns ?ts retain j" if "r = 0" for j
      using le [of j] that by (auto simp: legal_cut_def)
    ultimately show ?thesis
      using le ne False cut(1) by (auto simp: selectCompactableRange_def keep_def [symmetric] Let_def)
  qed
qed

lemma validateSurfaceRegion_Inr:
  assumes "pairing_run lg c" "foldSurface lg = Inr (ns, reps)" "surface_paired lg ns"
  shows "snd (validateSurfaceRegion lg ns (length reps) c s e) = Inr sel \<longleftrightarrow>
    (\<exists>i j. index_of s ns = Some i \<and> index_of e ns = Some j \<and> i \<le> j \<and>
      open_calls lg ns i = 0 \<and> open_calls lg ns (Suc j) = 0 \<and>
      sel = \<lparr>ss_start = s, ss_end = e, ss_startIdx = i, ss_endIdx = j, ss_shadowedSeqs = slice ns i (j + 1)\<rparr>)"
proof -
  note d = foldSurface_distinct [OF assms(2)]
  have before: "toolPairingBalancedBefore lg ns (length reps) c (ns ! i) =
      (Some (cache_of lg ns (length reps)), Inr (open_calls lg ns i = 0))" if "index_of x ns = Some i" for i x
    using pairing_read_current [OF cache_current_run [OF assms] d, of i 0] index_of_Some [OF that]
    by (simp add: toolPairingBalancedBefore_def)
  have after: "toolPairingBalancedAfter lg ns (length reps) (Some (cache_of lg ns (length reps))) (ns ! i) =
      (Some (cache_of lg ns (length reps)), Inr (open_calls lg ns (Suc i) = 0))" if "index_of x ns = Some i" for i x
    using pairing_read_current [OF cache_current_kept d, of i 1] index_of_Some [OF that]
    by (simp add: toolPairingBalancedAfter_def)
  show ?thesis
    by (auto simp: validateSurfaceRegion_def before after split: option.splits bool.splits)
qed

lemma open_calls_event_append:
  assumes "\<forall>q \<in> set seqs. q < int (length lg)"
  shows "open_calls (lg @ [e]) seqs k = open_calls lg seqs k"
proof -
  have "node_delta (lg @ [e]) q = node_delta lg q" if "q \<in> set (take k seqs)" for q
    using assms in_set_takeD [OF that] by (auto simp: node_delta_def event_at_def nth_append)
  then show ?thesis by (simp add: open_calls_def cong: map_cong)
qed

lemma fold_replace_step:
  assumes f: "foldSurface lg = Inr (ns, reps)" and op: "surfaceOpOf e = Inr (Some (OpReplace s en))"
    and f': "foldSurface (lg @ [e]) = Inr (ns', reps')"
    and i: "index_of s ns = Some i" and j: "index_of en ns = Some j" and le: "i \<le> j"
  shows "ns' = take i ns @ [ev_seq e] @ drop (Suc j) ns \<and> ev_seq e = int (length lg)"
proof -
  from f obtain st where st: "surface.project lg = Inr (st, reps)" "nodes st = ns" by (rule foldSurface_inv)
  from f' obtain st' where st': "surface.project (lg @ [e]) = Inr (st', reps')" "nodes st' = ns'" by (rule foldSurface_inv)
  from st(1) st'(1) have "surface_step lg (st, reps) e = Inr (st', reps')"
    by (auto simp: surface.project_append result_simps)
  then show ?thesis
    using st(2) st'(2) i j le op
    by (auto simp: surface_step_def applySurfaceEvent_def planSurfaceEvent_def replacementRange_def
        splice_list_def result_simps ensure_def Let_def split: if_splits)
qed

lemma paired_replace:
  assumes p: "surface_paired lg ns" and b: "\<forall>q \<in> set ns. q < int (length lg)"
    and i: "open_calls lg ns i = 0" "i \<le> j" and j: "open_calls lg ns (Suc j) = 0" "j < length ns"
    and e: "ev_seq e = int (length lg)" "eventDelta e = 0"
  shows "surface_paired (lg @ [e]) (take i ns @ [ev_seq e] @ drop (Suc j) ns)"
proof -
  let ?lg = "lg @ [e]" and ?ns = "take i ns @ [ev_seq e] @ drop (Suc j) ns"
  have at: "event_at ?lg (ev_seq e) = Some e" using e(1) by (simp add: event_at_def)
  have old: "event_at ?lg q = event_at lg q" if "q \<in> set ns" for q
    using b that by (auto simp: event_at_def nth_append)
  note oc = open_calls_event_append [OF b, of e]
  have head: "open_calls ?lg ?ns k = open_calls lg ns k" if "k \<le> i" for k
    using that i(2) j(2) oc [of k] by (simp add: open_calls_def min_def)
  have tail: "open_calls ?lg ?ns (Suc (i + k)) = open_calls lg ns (Suc j + k)" if "Suc j + k \<le> length ns" for k
  proof -
    have "open_calls ?lg ?ns (Suc (i + k)) = open_calls ?lg ns i + open_calls ?lg (drop (Suc j) ns) k"
      using i(2) j(2) by (simp add: open_calls_def node_delta_def [of _ "ev_seq e"] at e(2))
    moreover have "open_calls ?lg ns (Suc j + k) = open_calls ?lg ns (Suc j) + open_calls ?lg (drop (Suc j) ns) k"
      by (simp add: open_calls_def take_add del: add_Suc)
    ultimately show ?thesis using i(1) j(1) oc by simp
  qed
  have "0 \<le> open_calls ?lg ?ns k" if k: "k \<le> length ?ns" for k
  proof (cases "k \<le> i")
    case True
    then show ?thesis using p head i(2) j(2) by (simp add: surface_paired_def)
  next
    case False
    then obtain d where d: "k = Suc (i + d)" by (metis add_Suc_right le_eq_less_or_eq less_imp_Suc_add not_le)
    then have "Suc j + d \<le> length ns" using k i(2) j(2) by simp
    with tail [OF this] d p show ?thesis by (simp add: surface_paired_def)
  qed
  moreover have "\<exists>x. event_at ?lg q = Some x \<and> ev_seq x = q" if "q \<in> set ?ns" for q
  proof (cases "q = ev_seq e")
    case False
    with that have "q \<in> set ns" by (auto dest: in_set_takeD in_set_dropD)
    with old p show ?thesis by (simp add: surface_paired_def)
  qed (simp add: at)
  ultimately show ?thesis by (simp add: surface_paired_def del: append_Cons)
qed

text \<open>
  C28. When a span passes validation and an event with no calls of its own replaces it (the
  checkpoint message a compaction appends), the new surface is the old one with the span shrunk to
  that event, and every result on it still follows its call.
\<close>

theorem validated_replacement_keeps_pairing:
  assumes "pairing_run lg c" "foldSurface lg = Inr (ns, reps)" "surface_paired lg ns"
    and "snd (validateSurfaceRegion lg ns (length reps) c s en) = Inr sel"
    and "surfaceOpOf e = Inr (Some (OpReplace s en))" "eventDelta e = 0"
    and "foldSurface (lg @ [e]) = Inr (ns', reps')"
  shows "ns' = take (ss_startIdx sel) ns @ [ev_seq e] @ drop (Suc (ss_endIdx sel)) ns \<and>
    surface_paired (lg @ [e]) ns'"
proof -
  from assms(4) obtain i j where ij: "index_of s ns = Some i" "index_of en ns = Some j" "i \<le> j"
    "open_calls lg ns i = 0" "open_calls lg ns (Suc j) = 0" "ss_startIdx sel = i" "ss_endIdx sel = j"
    unfolding validateSurfaceRegion_Inr [OF assms(1-3)] by auto
  from assms(2) have b: "\<forall>q \<in> set ns. q < int (length lg)"
    by (elim foldSurface_inv) (auto dest: surface_inv_bound)
  note step = fold_replace_step [OF assms(2,5,7) ij(1-3)]
  with paired_replace [OF assms(3) b ij(4) ij(3) ij(5), of e] assms(6) index_of_Some [OF ij(2)] ij(6,7)
  show ?thesis by simp
qed

definition pairing_log :: "session_event list" where
  "pairing_log =
     sample_log @ [sample_event 3 (UserMessage (sample_message ''m3'' UserRole [TextBlock ''go on''] UserSource))
       (Some (JStr ''append'')) None]"

definition pairing_checkpoint :: session_event where
  "pairing_checkpoint =
     sample_event 4 (UserMessage (sample_message ''m4'' UserRole [TextBlock ''summary''] (PluginSource ''compaction'' [])))
       (Some (JObj [(''op'', JStr ''replace''), (''start'', JNum 0), (''end'', JNum 2)])) (Some (JArr [JNum 0, JNum 1, JNum 2]))"

lemma pairing_log_fold: "foldSurface pairing_log = Inr ([0, 1, 2, 3], [])"
  by code_simp

lemma pairing_log_run: "pairing_run pairing_log None"
proof -
  have "pairing_run (([] :: session_event list) @ [a] @ [b] @ [c] @ [d]) None" for a b c d
    using pairing_start pairing_push by (metis append.assoc)
  from this [of "pairing_log ! 0" "pairing_log ! 1" "pairing_log ! 2" "pairing_log ! 3"]
  show ?thesis by (simp add: pairing_log_def sample_log_def)
qed

lemma pairing_log_read_run:
  "pairing_run pairing_log (fst (pairing_read pairing_log [0, 1, 2, 3] 0 None 1 0))"
  using pairing_reads [OF pairing_log_run pairing_log_fold] by simp

lemma all_le_numeral: "(\<forall>k \<le> numeral n. P k) \<longleftrightarrow> P (numeral n :: nat) \<and> (\<forall>k \<le> pred_numeral n. P k)"
  by (auto simp: numeral_eq_Suc le_Suc_eq)

lemma pairing_log_paired: "surface_paired pairing_log [0, 1, 2, 3]"
  unfolding surface_paired_def
  by (simp add: all_le_numeral le_Suc_eq pairing_log_def sample_log_def sample_event_def sample_result_def sample_message_def
      open_calls_def node_delta_def eventDelta_def event_at_def numeral_eq_Suc)

theorem pairing_reads_exact_witness:
  "\<exists>c. pairing_run pairing_log (Some c) \<and>
     snd (toolPairingBalancedBefore pairing_log [0, 1, 2, 3] 0 (Some c) 2) = Inr False \<and>
     snd (toolPairingBalancedAfter pairing_log [0, 1, 2, 3] 0 (Some c) 2) = Inr True"
proof -
  obtain c where c: "fst (pairing_read pairing_log [0, 1, 2, 3] 0 None 1 0) = Some c"
  proof -
    have "fst (pairing_read pairing_log [0, 1, 2, 3] 0 None 1 0) = Some (cache_of pairing_log [0, 1, 2, 3] 0)"
      using rebuild_cache [OF pairing_log_paired, of 0] by (simp add: pairing_read_def balanceCache_def)
    then show thesis by (rule that)
  qed
  have run: "pairing_run pairing_log (Some c)" using pairing_log_read_run c by simp
  have "open_calls pairing_log [0, 1, 2, 3] 2 = 1" "open_calls pairing_log [0, 1, 2, 3] 3 = 0" by code_simp+
  with pairing_reads_exact [OF run pairing_log_fold] pairing_log_paired run show ?thesis
    by (intro exI [of _ c]) (auto dest!: spec [of _ 2])
qed

theorem selectCompactableRange_greatest_witness:
  "\<exists>k. legal_cut pairing_log [0, 1, 2, 3] [5, 5, 5, 5] 4 k \<and>
     (\<forall>j. legal_cut pairing_log [0, 1, 2, 3] [5, 5, 5, 5] 4 j \<longrightarrow> j \<le> k) \<and> (2 :: int) = [0, 1, 2, 3] ! (k - 1)"
proof -
  let ?p = "[(0 :: int, 5 :: rat), (1, 5), (2, 5), (3, 5)]"
  have f: "foldSurface pairing_log = Inr (map fst ?p, [])" using pairing_log_fold by simp
  have p: "surface_paired pairing_log (map fst ?p)" using pairing_log_paired by simp
  have r: "snd (selectCompactableRange pairing_log (map fst ?p) (length ([] :: surface_replacement list)) None ?p 4) =
      Inr (Some (0, 2))"
    by code_simp
  have "\<forall>t \<in> set (map snd ?p). 0 \<le> t" by simp
  from selectCompactableRange_greatest [OF pairing_log_run f p this, of 4] show ?thesis
    unfolding r by simp
qed

theorem validated_replacement_keeps_pairing_witness:
  "surface_paired (pairing_log @ [pairing_checkpoint]) [4, 3]"
proof -
  have "snd (validateSurfaceRegion pairing_log [0, 1, 2, 3] (length ([] :: surface_replacement list)) None 0 2) =
      Inr \<lparr>ss_start = 0, ss_end = 2, ss_startIdx = 0, ss_endIdx = 2, ss_shadowedSeqs = [0, 1, 2]\<rparr>"
    by code_simp
  moreover have "surfaceOpOf pairing_checkpoint = Inr (Some (OpReplace 0 2))" "eventDelta pairing_checkpoint = 0"
    by code_simp+
  moreover have "foldSurface (pairing_log @ [pairing_checkpoint]) =
      Inr ([4, 3], [\<lparr>sr_seq = 4, sr_start = 0, sr_end = 2, sr_shadowedSeqs = [0, 1, 2]\<rparr>])"
    by code_simp
  ultimately show ?thesis
    using validated_replacement_keeps_pairing [OF pairing_log_run pairing_log_fold pairing_log_paired] by blast
qed

end
