(* ===== verification/Compaction_Trace.thy ===== *)
theory Compaction_Trace
  imports Tool_Pairing
begin

text \<open>
  The compaction bracket as the log records it. \<open>compaction/src/invariant.ts\<close> keeps a trace per
  session and rejects events that would break a bracket; \<open>compaction-basic/src/region.ts\<close> reads the
  same state backwards from the log tail and treats an unmatched start as the compaction lock. The
  theorems show that both readers agree on every accepted log, that following a session live gives
  the trace that replaying its log gives, and what an accepted successful bracket contains.
\<close>

section \<open>The trace\<close>

record compaction_trace =
  ct_compactionId :: string
  ct_sourceCommandId :: "string option"
  ct_startSeq :: int
  ct_turn :: "int option"
  ct_summarized :: bool

record bracket_trace =
  bt_openTurn :: "int option"
  bt_compaction :: "compaction_trace option"

datatype compaction_transition =
    TransStart string "string option" int "int option"
  | TransSummary string "string option" int "int option"
  | TransEnd
  | TransEndSeed

datatype bracket_error =
    IdNotString string
  | SourceCommandMismatch string
  | NoMatchingStart string
  | IdMismatch string
  | CrossesOpenBracket string
  | StandaloneInTurn string int
  | OutsideAnyTurn string int
  | WrongOpenTurn string int int
  | StartWhileCompacting
  | SummaryRepeated
  | SummaryShadowsNothing
  | SummaryRangeMismatch
  | SummaryTokenCount
  | OwnerMismatch
  | EndWithoutSummary
  | PublishedUnstaged

definition validateId :: "json option \<Rightarrow> string \<Rightarrow> bracket_error + unit" where
  "validateId v label =
     (case as_string v of Some s \<Rightarrow> ensure (s \<noteq> []) (IdNotString label) | None \<Rightarrow> Inl (IdNotString label))"

definition validateSourceCommandId ::
  "string \<Rightarrow> json option \<Rightarrow> string option \<Rightarrow> bracket_error + unit" where
  "validateSourceCommandId kind v expected =
     bind_result (if v \<noteq> None then validateId v kind else Inr ()) (\<lambda>_.
       ensure (v = map_option JStr expected) (SourceCommandMismatch kind))"

text \<open>The provenance of a checkpoint message.\<close>

definition compactCheckpointSource :: "string \<Rightarrow> string option \<Rightarrow> message_source" where
  "compactCheckpointSource compactionId sourceCommandId =
     PluginSource ''compact'' ((''compactionId'', JStr compactionId) # opt_field ''sourceCommandId'' JStr sourceCommandId)"

fun isCompactCheckpointSource :: "message_source \<Rightarrow> bool" where
  "isCompactCheckpointSource (PluginSource p _) = (p = ''compact'')"
| "isCompactCheckpointSource _ = False"

fun source_field :: "message_source \<Rightarrow> string \<Rightarrow> json option" where
  "source_field (PluginSource _ fs) k = jget fs k"
| "source_field (RawSource _ fs) k = jget fs k"
| "source_field _ _ = None"

definition validateCheckpoint :: "bracket_trace \<Rightarrow> message \<Rightarrow> bracket_error + unit" where
  "validateCheckpoint tr m =
     (let cid = source_field (msg_source m) ''compactionId'';
          cmd = source_field (msg_source m) ''sourceCommandId'' in
      bind_result (validateId cid ''compaction checkpoint'') (\<lambda>_.
      bind_result (if cmd \<noteq> None then validateId cmd ''compaction checkpoint'' else Inr ()) (\<lambda>_.
        case bt_compaction tr of
          None \<Rightarrow> Inl (NoMatchingStart ''compaction checkpoint'')
        | Some op \<Rightarrow>
            bind_result (ensure (cid = Some (JStr (ct_compactionId op))) (IdMismatch ''compaction checkpoint'')) (\<lambda>_.
              validateSourceCommandId ''compaction checkpoint'' cmd (ct_sourceCommandId op)))))"

fun orphan_loop :: "session_event list \<Rightarrow> int option \<Rightarrow> int set \<Rightarrow> int set" where
  "orphan_loop [] op stale = stale"
| "orphan_loop (e # es) op stale =
     (case ev_data e of
        CompactionStart _ \<Rightarrow> orphan_loop es (Some (ev_seq e)) stale
      | CompactionEnd _ \<Rightarrow> orphan_loop es None stale
      | EndSeed \<Rightarrow> orphan_loop es None (case op of Some s \<Rightarrow> insert s stale | None \<Rightarrow> stale)
      | _ \<Rightarrow> orphan_loop es op stale)"

definition inheritedOrphanStartSeqs :: "session_event list \<Rightarrow> int set" where
  "inheritedOrphanStartSeqs events = orphan_loop events None {}"

fun is_turn_boundary :: "event_data \<Rightarrow> bool" where
  "is_turn_boundary (TurnStart _) = True"
| "is_turn_boundary (TurnEnd _ _) = True"
| "is_turn_boundary _ = False"

definition validateTurnBoundary :: "bracket_trace \<Rightarrow> session_event \<Rightarrow> bracket_error + unit" where
  "validateTurnBoundary tr e =
     ensure (\<not> is_turn_boundary (ev_data e) \<or> bt_compaction tr = None)
       (CrossesOpenBracket (event_type (ev_data e)))"

text \<open>The new trace and whether the event was a boundary.\<close>

definition applyTurnBoundary :: "bracket_trace \<Rightarrow> session_event \<Rightarrow> bracket_trace \<times> bool" where
  "applyTurnBoundary tr e =
     (case ev_data e of
        TurnStart turn \<Rightarrow> (tr\<lparr>bt_openTurn := Some turn\<rparr>, True)
      | TurnEnd _ _ \<Rightarrow> (tr\<lparr>bt_openTurn := None\<rparr>, True)
      | _ \<Rightarrow> (tr, False))"

definition validateOwner :: "int option \<Rightarrow> int option \<Rightarrow> string \<Rightarrow> bracket_error + unit" where
  "validateOwner own open_turn kind =
     (case own of
        None \<Rightarrow> (case open_turn of Some t \<Rightarrow> Inl (StandaloneInTurn kind t) | None \<Rightarrow> Inr ())
      | Some w \<Rightarrow>
          (case open_turn of
             None \<Rightarrow> Inl (OutsideAnyTurn kind w)
           | Some t \<Rightarrow> ensure (w = t) (WrongOpenTurn kind w t)))"

definition validate_ids :: "string \<Rightarrow> string \<Rightarrow> string option \<Rightarrow> bracket_error + unit" where
  "validate_ids kind cid cmd =
     bind_result (validateId (Some (JStr cid)) kind) (\<lambda>_.
       if cmd \<noteq> None then validateId (map_option JStr cmd) kind else Inr ())"

definition validate_start :: "bracket_trace \<Rightarrow> int \<Rightarrow> compaction_start \<Rightarrow> bracket_error + compaction_transition" where
  "validate_start tr seq c =
     bind_result (validate_ids ''compaction/start'' (cs_compactionId c) (cs_sourceCommandId c)) (\<lambda>_.
     bind_result (ensure (bt_compaction tr = None) StartWhileCompacting) (\<lambda>_.
     bind_result (validateOwner (cs_turn c) (bt_openTurn tr) ''compaction/start'') (\<lambda>_.
       Inr (TransStart (cs_compactionId c) (cs_sourceCommandId c) seq (cs_turn c)))))"

definition validate_summary :: "bracket_trace \<Rightarrow> compaction_summary \<Rightarrow> bracket_error + compaction_transition" where
  "validate_summary tr c =
     bind_result (validate_ids ''compaction/summary'' (cy_compactionId c) (cy_sourceCommandId c)) (\<lambda>_.
       case bt_compaction tr of
         None \<Rightarrow> Inl (NoMatchingStart ''compaction/summary'')
       | Some op \<Rightarrow>
           bind_result (ensure (cy_compactionId c = ct_compactionId op) (IdMismatch ''compaction/summary'')) (\<lambda>_.
           bind_result (validateSourceCommandId ''compaction/summary''
                          (map_option JStr (cy_sourceCommandId c)) (ct_sourceCommandId op)) (\<lambda>_.
           bind_result (validateOwner (ct_turn op) (bt_openTurn tr) ''compaction/summary'') (\<lambda>_.
           bind_result (ensure (\<not> ct_summarized op) SummaryRepeated) (\<lambda>_.
           bind_result (ensure (cy_shadowedSeqs c \<noteq> []) SummaryShadowsNothing) (\<lambda>_.
           bind_result (ensure (hd (cy_shadowedSeqs c) = cy_rangeStart c \<and> last (cy_shadowedSeqs c) = cy_rangeEnd c)
                          SummaryRangeMismatch) (\<lambda>_.
           bind_result (ensure (isEventSeq (Some (JNum (cy_shadowedTokenCount c))) \<noteq> None) SummaryTokenCount) (\<lambda>_.
             Inr (TransSummary (ct_compactionId op) (ct_sourceCommandId op) (ct_startSeq op) (ct_turn op))))))))))"

definition validate_end :: "bracket_trace \<Rightarrow> compaction_end \<Rightarrow> bracket_error + compaction_transition" where
  "validate_end tr c =
     bind_result (validate_ids ''compaction/end'' (ce_compactionId c) (ce_sourceCommandId c)) (\<lambda>_.
       case bt_compaction tr of
         None \<Rightarrow> Inl (NoMatchingStart ''compaction/end'')
       | Some op \<Rightarrow>
           bind_result (ensure (ce_compactionId c = ct_compactionId op) (IdMismatch ''compaction/end'')) (\<lambda>_.
           bind_result (validateSourceCommandId ''compaction/end''
                          (map_option JStr (ce_sourceCommandId c)) (ct_sourceCommandId op)) (\<lambda>_.
           bind_result (ensure (ce_turn c = ct_turn op) OwnerMismatch) (\<lambda>_.
           bind_result (validateOwner (ct_turn op) (bt_openTurn tr) ''compaction/end'') (\<lambda>_.
           bind_result (ensure (ce_error c \<noteq> None \<or> ct_summarized op) EndWithoutSummary) (\<lambda>_.
             Inr TransEnd))))))"

definition validateCompactionEvent ::
  "bracket_trace \<Rightarrow> session_event \<Rightarrow> bracket_error + compaction_transition option" where
  "validateCompactionEvent tr e =
     (case ev_data e of
        EndSeed \<Rightarrow> Inr (Some TransEndSeed)
      | UserMessage m \<Rightarrow>
          if isReplacementSurfaceEvent e \<and> isCompactCheckpointSource (msg_source m)
          then bind_result (validateCheckpoint tr m) (\<lambda>_. Inr None) else Inr None
      | CompactionStart c \<Rightarrow> bind_result (validate_start tr (ev_seq e) c) (\<lambda>t. Inr (Some t))
      | CompactionSummary c \<Rightarrow> bind_result (validate_summary tr c) (\<lambda>t. Inr (Some t))
      | CompactionEnd c \<Rightarrow> bind_result (validate_end tr c) (\<lambda>t. Inr (Some t))
      | _ \<Rightarrow> Inr None)"

fun applyCompactionTransition :: "compaction_transition \<Rightarrow> compaction_trace option" where
  "applyCompactionTransition (TransStart cid cmd s t) =
     Some \<lparr>ct_compactionId = cid, ct_sourceCommandId = cmd, ct_startSeq = s, ct_turn = t, ct_summarized = False\<rparr>"
| "applyCompactionTransition (TransSummary cid cmd s t) =
     Some \<lparr>ct_compactionId = cid, ct_sourceCommandId = cmd, ct_startSeq = s, ct_turn = t, ct_summarized = True\<rparr>"
| "applyCompactionTransition TransEnd = None"
| "applyCompactionTransition TransEndSeed = None"

section \<open>Replaying and following a session\<close>

definition fresh_bracket :: bracket_trace where
  "fresh_bracket = \<lparr>bt_openTurn = None, bt_compaction = None\<rparr>"

definition commit_transition :: "bracket_trace \<Rightarrow> compaction_transition option \<Rightarrow> bracket_trace" where
  "commit_transition tr t =
     (case t of Some t \<Rightarrow> tr\<lparr>bt_compaction := applyCompactionTransition t\<rparr> | None \<Rightarrow> tr)"

text \<open>
  One event of the seeding replay. Brackets that a later seed boundary proves stale do not veto the
  turn boundaries of their repair.
\<close>

definition seed_event :: "int set \<Rightarrow> bracket_trace \<Rightarrow> session_event \<Rightarrow> bracket_error + bracket_trace" where
  "seed_event stale tr e =
     bind_result
       (if (case bt_compaction tr of None \<Rightarrow> True | Some c \<Rightarrow> ct_startSeq c \<notin> stale)
        then validateTurnBoundary tr e else Inr ()) (\<lambda>_.
     bind_result (validateCompactionEvent tr e) (\<lambda>t.
       Inr (fst (applyTurnBoundary (commit_transition tr t) e))))"

fun bracket_seed_loop :: "int set \<Rightarrow> bracket_trace \<Rightarrow> session_event list \<Rightarrow> bracket_error + bracket_trace" where
  "bracket_seed_loop stale tr [] = Inr tr"
| "bracket_seed_loop stale tr (e # es) =
     bind_result (seed_event stale tr e) (\<lambda>tr'. bracket_seed_loop stale tr' es)"

definition seed_bracket :: "session_event list \<Rightarrow> bracket_error + bracket_trace" where
  "seed_bracket events = bracket_seed_loop (inheritedOrphanStartSeqs events) fresh_bracket events"

text \<open>
  The companion's two listeners for one session: the dispatch check stages a transition under the
  candidate event, the publication applies it. Staged entries of other events stay.
\<close>

type_synonym staged_map = "session_event \<rightharpoonup> compaction_transition"

definition on_dispatch ::
  "bracket_trace \<Rightarrow> staged_map \<Rightarrow> session_event \<Rightarrow> bracket_error + staged_map" where
  "on_dispatch tr staged e =
     bind_result (validateTurnBoundary tr e) (\<lambda>_.
     bind_result (validateCompactionEvent tr e) (\<lambda>t.
       Inr (case t of Some t \<Rightarrow> staged(e \<mapsto> t) | None \<Rightarrow> staged)))"

fun is_bracket_event :: "event_data \<Rightarrow> bool" where
  "is_bracket_event EndSeed = True"
| "is_bracket_event (CompactionStart _) = True"
| "is_bracket_event (CompactionSummary _) = True"
| "is_bracket_event (CompactionEnd _) = True"
| "is_bracket_event _ = False"

definition on_event ::
  "bracket_trace \<Rightarrow> staged_map \<Rightarrow> session_event \<Rightarrow> bracket_error + bracket_trace \<times> staged_map" where
  "on_event tr staged e =
     bind_result (validateTurnBoundary tr e) (\<lambda>_.
       case applyTurnBoundary tr e of
         (tr', True) \<Rightarrow> Inr (tr', staged)
       | (tr', False) \<Rightarrow>
           if \<not> is_bracket_event (ev_data e) then Inr (tr', staged)
           else case staged e of
                  None \<Rightarrow> Inl PublishedUnstaged
                | Some t \<Rightarrow> Inr (tr'\<lparr>bt_compaction := applyCompactionTransition t\<rparr>, staged(e := None)))"

definition live_event ::
  "bracket_trace \<Rightarrow> staged_map \<Rightarrow> session_event \<Rightarrow> bracket_error + bracket_trace \<times> staged_map" where
  "live_event tr staged e =
     bind_result (on_dispatch tr staged e) (\<lambda>staged'. on_event tr staged' e)"

section \<open>The lock read from the log tail\<close>

record entry_state =
  en_openTurn :: "int option"
  en_unmatchedStart :: "session_event option"
  en_latestEndSeedSeq :: "int option"

text \<open>
  The backward scan with its three flags; the list is the log reversed. The loop stops when all
  three answers are known.
\<close>

fun inspect_loop ::
  "session_event list \<Rightarrow> int option \<Rightarrow> bool \<Rightarrow> session_event option \<Rightarrow> bool \<Rightarrow> int option \<Rightarrow> entry_state" where
  "inspect_loop [] ot otKnown us cKnown seed =
     \<lparr>en_openTurn = ot, en_unmatchedStart = us, en_latestEndSeedSeq = seed\<rparr>"
| "inspect_loop (e # es) ot otKnown us cKnown seed =
     (let seed' = (if seed = None \<and> ev_data e = EndSeed then Some (ev_seq e) else seed);
          (us', cKnown') = (if cKnown then (us, cKnown) else
             case ev_data e of CompactionStart _ \<Rightarrow> (Some e, True) | CompactionEnd _ \<Rightarrow> (us, True) | _ \<Rightarrow> (us, cKnown));
          (ot', otKnown') = (if otKnown then (ot, otKnown) else
             case ev_data e of TurnStart t \<Rightarrow> (Some t, True) | TurnEnd _ _ \<Rightarrow> (ot, True) | _ \<Rightarrow> (ot, otKnown))
      in if otKnown' \<and> cKnown' \<and> seed' \<noteq> None
         then \<lparr>en_openTurn = ot', en_unmatchedStart = us', en_latestEndSeedSeq = seed'\<rparr>
         else inspect_loop es ot' otKnown' us' cKnown' seed')"

definition inspectCompactionEntryState :: "session_event list \<Rightarrow> entry_state" where
  "inspectCompactionEntryState events = inspect_loop (rev events) None False None False None"

text \<open>True when the lock is free; the code throws the busy error otherwise.\<close>

definition assertCompactionInactive :: "session_event option \<Rightarrow> int option \<Rightarrow> bool" where
  "assertCompactionInactive us seed =
     (case us of
        None \<Rightarrow> True
      | Some e \<Rightarrow> (case seed of Some q \<Rightarrow> ev_seq e < q | None \<Rightarrow> False))"

definition assertNoActiveCompaction :: "session_event list \<Rightarrow> bool" where
  "assertNoActiveCompaction events =
     (let st = inspectCompactionEntryState events
      in assertCompactionInactive (en_unmatchedStart st) (en_latestEndSeedSeq st))"

section \<open>The backward scan as three independent searches\<close>

fun find_turn :: "session_event list \<Rightarrow> int option" where
  "find_turn [] = None"
| "find_turn (e # es) = (case ev_data e of TurnStart t \<Rightarrow> Some t | TurnEnd _ _ \<Rightarrow> None | _ \<Rightarrow> find_turn es)"

fun find_start :: "session_event list \<Rightarrow> session_event option" where
  "find_start [] = None"
| "find_start (e # es) =
     (case ev_data e of CompactionStart _ \<Rightarrow> Some e | CompactionEnd _ \<Rightarrow> None | _ \<Rightarrow> find_start es)"

fun find_seed :: "session_event list \<Rightarrow> int option" where
  "find_seed [] = None"
| "find_seed (e # es) = (if ev_data e = EndSeed then Some (ev_seq e) else find_seed es)"

lemma inspect_loop_find:
  "(\<not> otK \<longrightarrow> ot = None) \<Longrightarrow> (\<not> cK \<longrightarrow> us = None) \<Longrightarrow>
   inspect_loop es ot otK us cK seed =
     \<lparr>en_openTurn = (if otK then ot else find_turn es),
      en_unmatchedStart = (if cK then us else find_start es),
      en_latestEndSeedSeq = (if seed = None then find_seed es else seed)\<rparr>"
proof (induction es arbitrary: ot otK us cK seed)
  case (Cons e es)
  show ?case
    using Cons.prems by (cases "ev_data e") (simp_all add: Cons.IH Let_def)
qed auto

lemma inspect_find:
  "inspectCompactionEntryState lg =
     \<lparr>en_openTurn = find_turn (rev lg), en_unmatchedStart = find_start (rev lg), en_latestEndSeedSeq = find_seed (rev lg)\<rparr>"
  by (simp add: inspectCompactionEntryState_def inspect_loop_find)

lemma find_seed_mem: "find_seed es = Some q \<Longrightarrow> q \<in> set (map ev_seq es)"
  by (induction es) (auto split: if_splits)

lemma find_start_mem: "find_start es = Some e \<Longrightarrow> e \<in> set es"
  by (induction es) (auto split: event_data.splits)

section \<open>What the replay knows after a prefix\<close>

lemma seed_event_Inr:
  assumes "seed_event stale tr e = Inr tr'"
  obtains t where "validateCompactionEvent tr e = Inr t" "tr' = fst (applyTurnBoundary (commit_transition tr t) e)"
    "is_turn_boundary (ev_data e) \<Longrightarrow> \<forall>c. bt_compaction tr = Some c \<longrightarrow> ct_startSeq c \<in> stale"
  using assms
  by (auto simp: seed_event_def validateTurnBoundary_def result_simps split: if_splits option.splits)

lemma bracket_seed_append:
  "bracket_seed_loop stale tr (xs @ ys) = bind_result (bracket_seed_loop stale tr xs) (\<lambda>tr'. bracket_seed_loop stale tr' ys)"
  by (induction xs arbitrary: tr) (simp_all add: bind_result_assoc)

definition lock_agrees :: "session_event list \<Rightarrow> bracket_trace \<Rightarrow> bool" where
  "lock_agrees lg tr \<longleftrightarrow>
     find_turn (rev lg) = bt_openTurn tr \<and>
     (case bt_compaction tr of
        None \<Rightarrow> assertCompactionInactive (find_start (rev lg)) (find_seed (rev lg))
      | Some c \<Rightarrow> \<exists>e. find_start (rev lg) = Some e \<and> ev_seq e = ct_startSeq c \<and>
          ev_data e = CompactionStart \<lparr>cs_compactionId = ct_compactionId c, cs_sourceCommandId = ct_sourceCommandId c, cs_turn = ct_turn c\<rparr> \<and>
          (\<forall>q. find_seed (rev lg) = Some q \<longrightarrow> q < ev_seq e))"

lemma map_option_JStr: "map_option JStr a = map_option JStr b \<longleftrightarrow> a = b"
  by (cases a; cases b) auto

lemma validate_end_open: "validate_end tr c = Inr t \<Longrightarrow> t = TransEnd"
  by (auto simp: validate_end_def result_simps split: option.splits)

lemma validate_summary_open:
  assumes "validate_summary tr c = Inr t"
  obtains op where "bt_compaction tr = Some op" "\<not> ct_summarized op" "cy_compactionId c = ct_compactionId op"
    "cy_sourceCommandId c = ct_sourceCommandId op"
    "t = TransSummary (ct_compactionId op) (ct_sourceCommandId op) (ct_startSeq op) (ct_turn op)"
  using assms by (auto simp: validate_summary_def validateSourceCommandId_def map_option_JStr result_simps split: option.splits)

lemma validate_start_closed:
  assumes "validate_start tr s c = Inr t"
  shows "bt_compaction tr = None \<and> t = TransStart (cs_compactionId c) (cs_sourceCommandId c) s (cs_turn c)"
  using assms by (auto simp: validate_start_def result_simps)

lemma lock_agrees_step:
  assumes ag: "lock_agrees lg tr" and st: "seed_event stale tr e = Inr tr'"
    and lt: "\<forall>x \<in> set lg. ev_seq x < ev_seq e"
  shows "lock_agrees (lg @ [e]) tr'"
proof -
  from st obtain t where t: "validateCompactionEvent tr e = Inr t"
    "tr' = fst (applyTurnBoundary (commit_transition tr t) e)"
    by (rule seed_event_Inr)
  have start_lt: "ev_seq x < ev_seq e" if "find_start (rev lg) = Some x" for x
    using find_start_mem [OF that] lt by simp
  have seed_lt: "q < ev_seq e" if "find_seed (rev lg) = Some q" for q
    using find_seed_mem [OF that] lt by auto
  show ?thesis
  proof (cases "ev_data e")
    case (CompactionStart c)
    with t(1) have "t = Some (TransStart (cs_compactionId c) (cs_sourceCommandId c) (ev_seq e) (cs_turn c))"
      by (auto simp: validateCompactionEvent_def result_simps dest: validate_start_closed)
    with t(2) ag CompactionStart seed_lt show ?thesis
      by (simp add: lock_agrees_def applyTurnBoundary_def commit_transition_def)
  next
    case (CompactionSummary c)
    with t(1) obtain r where r: "t = Some r" "validate_summary tr c = Inr r"
      by (auto simp: validateCompactionEvent_def result_simps)
    from r(2) show ?thesis
      by (rule validate_summary_open)
        (use t(2) r(1) ag CompactionSummary in \<open>auto simp: lock_agrees_def applyTurnBoundary_def commit_transition_def\<close>)
  next
    case (CompactionEnd c)
    with t(1) have "t = Some TransEnd"
      by (auto simp: validateCompactionEvent_def result_simps dest: validate_end_open)
    with t(2) ag CompactionEnd show ?thesis
      by (simp add: lock_agrees_def applyTurnBoundary_def commit_transition_def assertCompactionInactive_def)
  next
    case EndSeed
    with t have "t = Some TransEndSeed" by (simp add: validateCompactionEvent_def)
    with t(2) ag EndSeed start_lt show ?thesis
      by (auto simp: lock_agrees_def applyTurnBoundary_def commit_transition_def assertCompactionInactive_def split: option.split)
  qed (use t ag in \<open>auto simp: lock_agrees_def applyTurnBoundary_def commit_transition_def validateCompactionEvent_def
        result_simps split: option.splits if_splits\<close>)
qed

lemma lock_agrees_seed:
  "sorted_wrt (<) (map ev_seq lg) \<Longrightarrow> bracket_seed_loop stale fresh_bracket lg = Inr tr \<Longrightarrow> lock_agrees lg tr"
proof (induction lg arbitrary: tr rule: rev_induct)
  case Nil
  then show ?case by (auto simp: lock_agrees_def fresh_bracket_def assertCompactionInactive_def)
next
  case (snoc e lg)
  then obtain tr0 where "bracket_seed_loop stale fresh_bracket lg = Inr tr0" "seed_event stale tr0 e = Inr tr"
    by (auto simp: bracket_seed_append result_simps)
  with snoc show ?case by (intro lock_agrees_step [of lg tr0 stale]) (auto simp: sorted_wrt_append)
qed

section \<open>Stale starts\<close>

fun closes_bracket :: "event_data \<Rightarrow> bool" where
  "closes_bracket (CompactionStart _) = True"
| "closes_bracket (CompactionEnd _) = True"
| "closes_bracket EndSeed = True"
| "closes_bracket _ = False"

fun opens_bracket :: "event_data \<Rightarrow> bool" where
  "opens_bracket (CompactionStart _) = True"
| "opens_bracket _ = False"

definition orphaned :: "session_event list \<Rightarrow> int option \<Rightarrow> int \<Rightarrow> bool" where
  "orphaned es op s \<longleftrightarrow>
     (\<exists>xs e ys. es = xs @ e # ys \<and> ev_data e = EndSeed \<and>
        (op = Some s \<and> (\<forall>x \<in> set xs. \<not> closes_bracket (ev_data x)) \<or>
         (\<exists>us u vs. xs = us @ u # vs \<and> opens_bracket (ev_data u) \<and> ev_seq u = s \<and>
            (\<forall>x \<in> set vs. \<not> closes_bracket (ev_data x)))))"

lemma orphaned_Cons:
  assumes "orphaned es op' s" "op' = Some s \<Longrightarrow> (op' = op \<and> \<not> closes_bracket (ev_data e)) \<or>
      (opens_bracket (ev_data e) \<and> ev_seq e = s)"
  shows "orphaned (e # es) op s"
proof -
  from assms(1) obtain xs x ys where 1: "es = xs @ x # ys" "ev_data x = EndSeed"
    "op' = Some s \<and> (\<forall>x \<in> set xs. \<not> closes_bracket (ev_data x)) \<or>
       (\<exists>us u vs. xs = us @ u # vs \<and> opens_bracket (ev_data u) \<and> ev_seq u = s \<and> (\<forall>x \<in> set vs. \<not> closes_bracket (ev_data x)))"
    unfolding orphaned_def by blast
  have "op = Some s \<and> (\<forall>x \<in> set (e # xs). \<not> closes_bracket (ev_data x)) \<or>
       (\<exists>us u vs. e # xs = us @ u # vs \<and> opens_bracket (ev_data u) \<and> ev_seq u = s \<and> (\<forall>x \<in> set vs. \<not> closes_bracket (ev_data x)))"
    using 1(3) assms(2) by (metis append_Cons append_Nil set_ConsD)
  with 1(1,2) show ?thesis unfolding orphaned_def by (metis append_Cons)
qed

lemma orphaned_now: "ev_data e = EndSeed \<Longrightarrow> orphaned (e # es) (Some s) s"
  unfolding orphaned_def by (metis append_Nil empty_iff empty_set)

lemma orphan_loop_mem: "s \<in> orphan_loop es op stale \<Longrightarrow> s \<in> stale \<or> orphaned es op s"
proof (induction es arbitrary: op stale)
  case (Cons e es)
  show ?case
  proof (cases "ev_data e")
    case (CompactionStart c)
    with Cons.prems Cons.IH [of "Some (ev_seq e)" stale] orphaned_Cons [of es "Some (ev_seq e)" s op e] show ?thesis by auto
  next
    case (CompactionEnd c)
    with Cons.prems Cons.IH [of None stale] orphaned_Cons [of es None s op e] show ?thesis by auto
  next
    case EndSeed
    with Cons.prems Cons.IH [of None] orphaned_Cons [of es None s op e] orphaned_now [OF EndSeed, of es s] show ?thesis
      by (cases op) auto
  qed (use Cons.prems Cons.IH [of op stale] orphaned_Cons [of es op s op e] in auto)
qed simp

section \<open>What an open bracket contains\<close>

fun is_summary :: "event_data \<Rightarrow> bool" where
  "is_summary (CompactionSummary _) = True"
| "is_summary _ = False"

text \<open>
  The log since the start \<open>b\<close> of the open bracket \<open>c\<close>: nothing in it closes the bracket, a live
  bracket contains no turn boundary, and it holds one matching summary or none as the trace says.
\<close>

definition bracket_body :: "int set \<Rightarrow> compaction_trace \<Rightarrow> session_event list \<Rightarrow> bool" where
  "bracket_body stale c body \<longleftrightarrow>
     (\<forall>x \<in> set body. \<not> closes_bracket (ev_data x)) \<and>
     (ct_startSeq c \<notin> stale \<longrightarrow> (\<forall>x \<in> set body. \<not> is_turn_boundary (ev_data x))) \<and>
     (if ct_summarized c
      then \<exists>y. filter is_summary (map ev_data body) = [CompactionSummary y] \<and>
             cy_compactionId y = ct_compactionId c \<and> cy_sourceCommandId y = ct_sourceCommandId c
      else filter is_summary (map ev_data body) = [])"

definition bracket_open :: "int set \<Rightarrow> session_event list \<Rightarrow> bracket_trace \<Rightarrow> bool" where
  "bracket_open stale lg tr \<longleftrightarrow>
     (\<forall>c. bt_compaction tr = Some c \<longrightarrow>
       (\<exists>pre b body. lg = pre @ b # body \<and> ev_seq b = ct_startSeq c \<and>
          ev_data b = CompactionStart \<lparr>cs_compactionId = ct_compactionId c, cs_sourceCommandId = ct_sourceCommandId c, cs_turn = ct_turn c\<rparr> \<and>
          bracket_body stale c body))"

lemma bracket_open_extend:
  assumes "bracket_open stale lg tr" "bt_compaction tr' = Some c'"
    "bt_compaction tr = Some c" "ct_startSeq c' = ct_startSeq c" "ct_compactionId c' = ct_compactionId c"
    "ct_sourceCommandId c' = ct_sourceCommandId c" "ct_turn c' = ct_turn c"
    "\<And>body. bracket_body stale c body \<Longrightarrow> bracket_body stale c' (body @ [e])"
  shows "bracket_open stale (lg @ [e]) tr'"
proof -
  from assms(1,3) obtain pre b body where b: "lg = pre @ b # body" "ev_seq b = ct_startSeq c"
      "ev_data b = CompactionStart \<lparr>cs_compactionId = ct_compactionId c, cs_sourceCommandId = ct_sourceCommandId c, cs_turn = ct_turn c\<rparr>"
      "bracket_body stale c body"
    unfolding bracket_open_def by blast
  have "lg @ [e] = pre @ b # (body @ [e])" using b(1) by simp
  with b assms show ?thesis unfolding bracket_open_def by (metis option.inject)
qed

lemma bracket_open_step:
  assumes op: "bracket_open stale lg tr" and st: "seed_event stale tr e = Inr tr'"
  shows "bracket_open stale (lg @ [e]) tr'"
proof -
  from st obtain t where t: "validateCompactionEvent tr e = Inr t"
    "tr' = fst (applyTurnBoundary (commit_transition tr t) e)"
    and bd: "is_turn_boundary (ev_data e) \<Longrightarrow> \<forall>c. bt_compaction tr = Some c \<longrightarrow> ct_startSeq c \<in> stale"
    by (rule seed_event_Inr) blast
  have keep: "bracket_open stale (lg @ [e]) tr'" if "\<not> closes_bracket (ev_data e)" "\<not> is_summary (ev_data e)"
  proof (cases "bt_compaction tr")
    case None
    have "bt_compaction tr' = None"
      using t that None by (cases "ev_data e") (auto simp: validateCompactionEvent_def applyTurnBoundary_def commit_transition_def result_simps split: if_splits)
    then show ?thesis by (simp add: bracket_open_def)
  next
    case (Some c)
    have same: "bt_compaction tr' = Some c"
      using t that Some by (cases "ev_data e") (auto simp: validateCompactionEvent_def applyTurnBoundary_def commit_transition_def result_simps split: if_splits)
    show ?thesis
      using bd Some that
      by (intro bracket_open_extend [OF op same Some]) (auto simp: bracket_body_def)
  qed
  show ?thesis
  proof (cases "ev_data e")
    case (CompactionStart c)
    with t(1) have r: "t = Some (TransStart (cs_compactionId c) (cs_sourceCommandId c) (ev_seq e) (cs_turn c))"
      by (auto simp: validateCompactionEvent_def result_simps dest: validate_start_closed)
    have "lg @ [e] = lg @ e # []" by simp
    with t(2) CompactionStart r show ?thesis unfolding bracket_open_def
      by (intro allI impI exI [of _ lg] exI [of _ e] exI [of _ "[]"])
        (auto simp: applyTurnBoundary_def commit_transition_def bracket_body_def)
  next
    case (CompactionSummary y)
    with t(1) obtain r where r: "t = Some r" "validate_summary tr y = Inr r"
      by (auto simp: validateCompactionEvent_def result_simps)
    from r(2) obtain c where c: "bt_compaction tr = Some c" "\<not> ct_summarized c" "cy_compactionId y = ct_compactionId c"
      "cy_sourceCommandId y = ct_sourceCommandId c"
      "r = TransSummary (ct_compactionId c) (ct_sourceCommandId c) (ct_startSeq c) (ct_turn c)"
      by (rule validate_summary_open)
    have "bt_compaction tr' = Some (c\<lparr>ct_summarized := True\<rparr>)"
      using t(2) r(1) c(5) CompactionSummary by (simp add: applyTurnBoundary_def commit_transition_def)
    from bracket_open_extend [OF op this c(1), of e] show ?thesis
      using c CompactionSummary by (simp add: bracket_body_def)
  next
    case (CompactionEnd c)
    with t(1) have "t = Some TransEnd"
      by (auto simp: validateCompactionEvent_def result_simps dest: validate_end_open)
    with t(2) CompactionEnd show ?thesis
      by (simp add: bracket_open_def applyTurnBoundary_def commit_transition_def)
  next
    case EndSeed
    with t have "t = Some TransEndSeed" by (simp add: validateCompactionEvent_def)
    with t(2) EndSeed show ?thesis
      by (simp add: bracket_open_def applyTurnBoundary_def commit_transition_def)
  qed (use keep in auto)
qed

lemma bracket_open_seed: "bracket_seed_loop stale fresh_bracket lg = Inr tr \<Longrightarrow> bracket_open stale lg tr"
proof (induction lg arbitrary: tr rule: rev_induct)
  case Nil
  then show ?case by (auto simp: bracket_open_def fresh_bracket_def)
next
  case (snoc e lg)
  then obtain tr0 where "bracket_seed_loop stale fresh_bracket lg = Inr tr0" "seed_event stale tr0 e = Inr tr"
    by (auto simp: bracket_seed_append result_simps)
  with snoc.IH bracket_open_step show ?case by blast
qed

lemma first_split_unique:
  assumes "xs @ a # ys = us @ b # vs" "P a" "P b" "\<forall>x \<in> set xs. \<not> P x" "\<forall>x \<in> set us. \<not> P x"
  shows "xs = us \<and> a = b \<and> ys = vs"
proof -
  have "takeWhile (\<lambda>x. \<not> P x) (xs @ a # ys) = xs" "takeWhile (\<lambda>x. \<not> P x) (us @ b # vs) = us"
    using assms(2-5) by simp_all
  with assms(1) have "xs = us" by metis
  with assms(1) show ?thesis by simp
qed

lemma validate_end_Inr:
  assumes "validate_end tr c = Inr t"
  obtains op where "bt_compaction tr = Some op" "ce_compactionId c = ct_compactionId op"
    "ce_sourceCommandId c = ct_sourceCommandId op" "ce_turn c = ct_turn op" "ce_error c = None \<Longrightarrow> ct_summarized op"
  using assms by (auto simp: validate_end_def validateSourceCommandId_def map_option_JStr result_simps split: option.splits)

lemma not_orphaned:
  assumes inc: "sorted_wrt (<) (map ev_seq lg)" and lg: "lg = pre @ b # body @ x # post"
    and body: "\<forall>z \<in> set body. \<not> closes_bracket (ev_data z)" and x: "ev_data x = CompactionEnd c"
  shows "ev_seq b \<notin> inheritedOrphanStartSeqs lg"
proof
  assume "ev_seq b \<in> inheritedOrphanStartSeqs lg"
  then have "orphaned lg None (ev_seq b)"
    using orphan_loop_mem unfolding inheritedOrphanStartSeqs_def by blast
  then obtain us u vs e ys where o: "lg = us @ u # vs @ e # ys" "ev_data e = EndSeed" "ev_seq u = ev_seq b"
    "\<forall>z \<in> set vs. \<not> closes_bracket (ev_data z)"
    unfolding orphaned_def by auto
  have "us = pre \<and> u = b \<and> vs @ e # ys = body @ x # post"
  proof (rule first_split_unique [where P = "\<lambda>z. ev_seq z = ev_seq b"])
    show "us @ u # vs @ e # ys = pre @ b # body @ x # post" using o(1) lg by simp
    show "\<forall>z \<in> set us. ev_seq z \<noteq> ev_seq b"
      using inc unfolding o(1) o(3) [symmetric] by (auto simp: sorted_wrt_append)
    show "\<forall>z \<in> set pre. ev_seq z \<noteq> ev_seq b" using inc unfolding lg by (auto simp: sorted_wrt_append)
  qed (simp_all add: o(3))
  with first_split_unique [of vs e ys body x post "\<lambda>z. closes_bracket (ev_data z)"] o body x show False by simp
qed

section \<open>Following a session\<close>

text \<open>
  The companion seeds a session from its log and then sees every candidate at dispatch. A candidate
  that passes is published, unless another check vetoes it, which leaves its staged entry behind.
\<close>

inductive live_run :: "session_event list \<Rightarrow> bracket_trace \<Rightarrow> staged_map \<Rightarrow> bool" where
  live_seed: "seed_bracket lg = Inr tr \<Longrightarrow> live_run lg tr Map.empty"
| live_commit: "live_run lg tr staged \<Longrightarrow> live_event tr staged e = Inr (tr', staged') \<Longrightarrow>
    live_run (lg @ [e]) tr' staged'"
| live_veto: "live_run lg tr staged \<Longrightarrow> on_dispatch tr staged e = Inr staged' \<Longrightarrow> live_run lg tr staged'"

lemma live_event_seed:
  assumes "live_event tr staged e = Inr (tr', staged')"
  shows "seed_event stale tr e = Inr tr'"
proof -
  from assms obtain t s1 where v: "validateTurnBoundary tr e = Inr ()" "validateCompactionEvent tr e = Inr t"
    and s1: "s1 = (case t of Some t \<Rightarrow> staged(e \<mapsto> t) | None \<Rightarrow> staged)" and ev: "on_event tr s1 e = Inr (tr', staged')"
    by (auto simp: live_event_def on_dispatch_def result_simps)
  have "tr' = fst (applyTurnBoundary (commit_transition tr t) e)"
    using ev v s1
    by (cases "ev_data e")
      (auto simp: on_event_def applyTurnBoundary_def commit_transition_def validateCompactionEvent_def result_simps
        split: if_splits)
  with v show ?thesis by (simp add: seed_event_def)
qed

lemma orphan_loop_stale: "stale \<subseteq> orphan_loop es op stale"
proof (induction es arbitrary: op stale)
  case (Cons e es)
  show ?case
  proof (cases "ev_data e = EndSeed")
    case True
    with Cons.IH [of "case op of Some s \<Rightarrow> insert s stale | None \<Rightarrow> stale" None] show ?thesis by (auto split: option.splits)
  qed (use Cons.IH in \<open>auto split: event_data.splits\<close>)
qed simp

lemma orphan_loop_append: "\<exists>op'. orphan_loop (xs @ ys) op stale = orphan_loop ys op' (orphan_loop xs op stale)"
proof (induction xs arbitrary: op stale)
  case (Cons e xs)
  show ?case by (cases "ev_data e") (use Cons in simp_all)
qed auto

lemma inheritedOrphanStartSeqs_grows: "inheritedOrphanStartSeqs lg \<subseteq> inheritedOrphanStartSeqs (lg @ es)"
  using orphan_loop_append [of lg es None "{}"] orphan_loop_stale by (fastforce simp: inheritedOrphanStartSeqs_def)

lemma seed_event_stale_mono: "stale \<subseteq> stale' \<Longrightarrow> seed_event stale tr e = Inr tr' \<Longrightarrow> seed_event stale' tr e = Inr tr'"
  by (auto simp: seed_event_def result_simps split: if_splits option.splits)

lemma bracket_seed_stale_mono:
  "stale \<subseteq> stale' \<Longrightarrow> bracket_seed_loop stale tr lg = Inr tr' \<Longrightarrow> bracket_seed_loop stale' tr lg = Inr tr'"
  by (induction lg arbitrary: tr) (auto simp: result_simps dest: seed_event_stale_mono)

lemma seed_bracket_extend:
  assumes "seed_bracket lg = Inr tr" "live_event tr staged e = Inr (tr', staged')"
  shows "seed_bracket (lg @ [e]) = Inr tr'"
  using bracket_seed_stale_mono [OF inheritedOrphanStartSeqs_grows] assms(1) live_event_seed [OF assms(2)]
  by (auto simp: seed_bracket_def bracket_seed_append)

section \<open>Properties\<close>

definition bracket_start :: compaction_start where
  "bracket_start = \<lparr>cs_compactionId = ''k'', cs_sourceCommandId = None, cs_turn = None\<rparr>"

definition bracket_summary :: compaction_summary where
  "bracket_summary = \<lparr>cy_compactionId = ''k'', cy_sourceCommandId = None, cy_summary = [TextBlock ''s''],
     cy_rangeStart = 0, cy_rangeEnd = 2, cy_shadowedSeqs = [0, 1, 2], cy_shadowedTokenCount = 15, cy_provider = ''p'',
     cy_model = ''m'', cy_maxTokens = None, cy_usage = None, cy_rawOutput = None, cy_llmStreamCall = False\<rparr>"

definition bracket_end :: compaction_end where
  "bracket_end = \<lparr>ce_compactionId = ''k'', ce_sourceCommandId = None, ce_turn = None, ce_error = None\<rparr>"

definition bracket_log :: "session_event list" where
  "bracket_log =
     [sample_event 0 (CompactionStart bracket_start) None None,
      sample_event 1 EndSeed None None,
      sample_event 2 (CompactionStart bracket_start) None None,
      sample_event 3 (CompactionSummary bracket_summary) None None]"

definition bracket_close :: session_event where
  "bracket_close = sample_event 4 (CompactionEnd bracket_end) None None"

definition bracket_middle :: bracket_trace where
  "bracket_middle = \<lparr>bt_openTurn = None, bt_compaction = Some \<lparr>ct_compactionId = ''k'', ct_sourceCommandId = None,
     ct_startSeq = 2, ct_turn = None, ct_summarized = True\<rparr>\<rparr>"

lemmas bracket_sample_defs = bracket_log_def bracket_close_def bracket_start_def bracket_summary_def
  bracket_end_def bracket_middle_def sample_event_def

lemmas bracket_check_defs = seed_event_def validateTurnBoundary_def validateCompactionEvent_def validate_start_def
  validate_summary_def validate_end_def validate_ids_def validateId_def validateOwner_def
  validateSourceCommandId_def applyTurnBoundary_def commit_transition_def ensure_def isEventSeq_def
  safe_integer_of_def safe_int_def max_safe_integer_def

lemma bracket_log_seed: "seed_bracket bracket_log = Inr bracket_middle"
  by (simp add: seed_bracket_def inheritedOrphanStartSeqs_def fresh_bracket_def bracket_sample_defs bracket_check_defs)

lemma bracket_closed_seed: "seed_bracket (bracket_log @ [bracket_close]) = Inr fresh_bracket"
  by (simp add: seed_bracket_def inheritedOrphanStartSeqs_def fresh_bracket_def bracket_sample_defs bracket_check_defs)

lemma bracket_log_sorted: "sorted_wrt (<) (map ev_seq (bracket_log @ [bracket_close]))"
  by (simp add: bracket_sample_defs)

text \<open>
  C29. The two readers of the compaction lock agree: on every log that the trace accepts, the
  backward scan finds the lock free exactly when the trace has no open bracket, and reads the same
  open turn. A stale start of an earlier lifecycle holds neither.
\<close>

theorem lock_readers_agree:
  assumes "sorted_wrt (<) (map ev_seq lg)" "seed_bracket lg = Inr tr"
  shows "(assertNoActiveCompaction lg \<longleftrightarrow> bt_compaction tr = None) \<and>
    en_openTurn (inspectCompactionEntryState lg) = bt_openTurn tr"
proof -
  have "lock_agrees lg tr" using lock_agrees_seed assms by (simp add: seed_bracket_def)
  then show ?thesis
    by (force simp: lock_agrees_def assertNoActiveCompaction_def inspect_find assertCompactionInactive_def
        split: option.splits)
qed

theorem lock_readers_agree_witness:
  "assertNoActiveCompaction (bracket_log @ [bracket_close]) \<and> \<not> assertNoActiveCompaction bracket_log"
proof -
  have "sorted_wrt (<) (map ev_seq bracket_log)" using bracket_log_sorted by (simp add: sorted_wrt_append)
  from lock_readers_agree [OF this bracket_log_seed] lock_readers_agree [OF bracket_log_sorted bracket_closed_seed]
  show ?thesis by (simp add: fresh_bracket_def bracket_middle_def)
qed

text \<open>
  Following a session live, through any mix of published and vetoed candidates, holds the trace
  that a fresh replay of its log computes, so a companion installed late judges as one installed
  from the start.
\<close>

theorem live_trace_is_replay:
  assumes "live_run lg tr staged"
  shows "seed_bracket lg = Inr tr"
  using assms by (induction rule: live_run.induct) (auto intro: seed_bracket_extend)

theorem live_trace_is_replay_witness:
  "\<exists>tr staged. live_run (bracket_log @ [bracket_close]) tr staged \<and> seed_bracket (bracket_log @ [bracket_close]) = Inr tr"
proof -
  have "live_event bracket_middle Map.empty bracket_close = Inr (fresh_bracket, Map.empty)"
    by (simp add: live_event_def on_dispatch_def on_event_def fresh_bracket_def bracket_sample_defs bracket_check_defs)
  note run = live_commit [OF live_seed [OF bracket_log_seed] this]
  from run live_trace_is_replay [OF run] show ?thesis by blast
qed

text \<open>
  In a log that the trace accepts, a successful \<open>compaction/end\<close> closes a bracket whose start
  carries the same compaction, command and turn, that contains exactly one summary, with the same
  identities, and in which no turn starts or ends, no other bracket opens or closes and no seed
  boundary falls.
\<close>

theorem successful_bracket_shape:
  assumes "sorted_wrt (<) (map ev_seq lg)" "seed_bracket lg = Inr tr" "lg = before @ x # after"
    "ev_data x = CompactionEnd c" "ce_error c = None"
  shows "\<exists>pre b body y. before = pre @ b # body \<and>
    ev_data b = CompactionStart \<lparr>cs_compactionId = ce_compactionId c, cs_sourceCommandId = ce_sourceCommandId c, cs_turn = ce_turn c\<rparr> \<and>
    filter is_summary (map ev_data body) = [CompactionSummary y] \<and>
    cy_compactionId y = ce_compactionId c \<and> cy_sourceCommandId y = ce_sourceCommandId c \<and>
    (\<forall>z \<in> set body. \<not> is_turn_boundary (ev_data z) \<and> \<not> closes_bracket (ev_data z))"
proof -
  let ?stale = "inheritedOrphanStartSeqs lg"
  from assms(2,3) obtain tr0 tr1 where r: "bracket_seed_loop ?stale fresh_bracket before = Inr tr0"
    "seed_event ?stale tr0 x = Inr tr1"
    by (auto simp: seed_bracket_def bracket_seed_append result_simps)
  from r(2) assms(4) obtain t where "validate_end tr0 c = Inr t"
    by (auto elim!: seed_event_Inr simp: validateCompactionEvent_def result_simps)
  then obtain op where op: "bt_compaction tr0 = Some op" "ce_compactionId c = ct_compactionId op"
    "ce_sourceCommandId c = ct_sourceCommandId op" "ce_turn c = ct_turn op" "ct_summarized op"
    by (rule validate_end_Inr) (use assms(5) in auto)
  from bracket_open_seed [OF r(1)] op(1) obtain pre b body where b: "before = pre @ b # body"
    "ev_seq b = ct_startSeq op"
    "ev_data b = CompactionStart \<lparr>cs_compactionId = ct_compactionId op, cs_sourceCommandId = ct_sourceCommandId op, cs_turn = ct_turn op\<rparr>"
    "bracket_body ?stale op body"
    unfolding bracket_open_def by blast
  have "ct_startSeq op \<notin> ?stale"
    using not_orphaned [OF assms(1) _ _ assms(4), of pre b body after] b assms(3) by (simp add: bracket_body_def)
  with b op show ?thesis unfolding bracket_body_def by (intro exI [of _ pre] exI [of _ b] exI [of _ body]) auto
qed

theorem successful_bracket_shape_witness:
  "\<exists>pre b body y. bracket_log = pre @ b # body \<and> ev_data b = CompactionStart bracket_start \<and>
     filter is_summary (map ev_data body) = [CompactionSummary y]"
proof -
  have "ev_data bracket_close = CompactionEnd bracket_end" "ce_error bracket_end = None"
    by (simp_all add: bracket_sample_defs)
  from successful_bracket_shape [OF bracket_log_sorted bracket_closed_seed _ this, of bracket_log "[]"]
  show ?thesis by (simp add: bracket_start_def bracket_end_def) blast
qed

end
