(* ===== verification/Compaction_Txn.thy ===== *)
theory Compaction_Txn
  imports Compaction_Trace
begin

text \<open>
  The compaction transaction of \<open>compaction-basic/src/region.ts\<close> with the checkpoint framing of
  \<open>summarizer.ts\<close>: validate the span, take the durable lock by appending \<open>compaction/start\<close>,
  summarize, recheck stability, append summary and checkpoint, close the bracket. The meter, the
  summarizer, fresh identities, the clock, dispatch vetoes, the abort signal, the flush and the
  rendering of an error are the environment \<open>txn_env\<close>; the summarizer also returns the session,
  because other work may append while it is awaited. The theorem gives the four shapes a
  transaction leaves in the log, with the lock and the surface each of them implies.
\<close>

section \<open>Environment and results\<close>

datatype manual_code = Busy | Cancelled | Changed | SummaryFailed | CommitFailed | Persistence

datatype txn_error =
    TxAborted
  | TxPairing pairing_error
  | TxSurfaceRead surface_error
  | TxNoOpenTurn
  | TxAppend session_error
  | TxSurfaceChanged "pairing_error option"
  | TxNotSmaller rat rat
  | TxSummarizer string
  | TxManual manual_code "txn_error option"

datatype txn_stage = StageSummary | StageCommit

record summarization_input =
  si_system :: "string option"
  si_tools :: "tool_schema list option"
  si_messages :: "message list"

record summary_result =
  sr_summary :: "content_block list"
  sr_provider :: string
  sr_model :: string
  sr_maxTokens :: "rat option"
  sr_usage :: "token_usage option"
  sr_rawOutput :: "content_block list option"
  sr_llmStreamCall :: bool

record compaction_result =
  cr_compactionId :: string
  cr_sourceCommandId :: "string option"
  cr_startSeq :: int
  cr_summarySeq :: int
  cr_endSeq :: int
  cr_summary :: "content_block list"
  cr_rangeStart :: int
  cr_rangeEnd :: int
  cr_shadowedSeqs :: "int list"
  cr_shadowedTokenCount :: rat

datatype stability_rule = WholeSurface | SelectedSpan

record txn_options =
  to_manual :: bool
  to_stability :: stability_rule
  to_flush :: "bool option"
  to_sourceCommandId :: "string option"

text \<open>
  \<open>to_manual\<close> is the \<open>owner: null\<close> of the options. \<open>to_flush\<close> is the outcome of the optional
  durability checkpoint. \<open>te_aborted\<close> is the signal at the first, second and third check.
\<close>

record txn_env =
  te_measure :: "session \<Rightarrow> (int \<times> rat) list"
  te_estimateMessage :: "message \<Rightarrow> rat"
  te_summarize :: "summarization_input \<Rightarrow> session \<Rightarrow> session \<times> (string + summary_result)"
  te_compactionId :: string
  te_messageId :: string
  te_now :: "nat \<Rightarrow> int"
  te_veto :: "session \<Rightarrow> session_event \<Rightarrow> bool"
  te_aborted :: "nat \<Rightarrow> bool"
  te_errorChain :: "txn_error \<Rightarrow> string"

text \<open>The session and the pairing cache kept for it.\<close>

record txn_state =
  tx_session :: session
  tx_cache :: "balance_cache option"

fun andThen :: "'s \<times> ('e + 'a) \<Rightarrow> ('s \<Rightarrow> 'a \<Rightarrow> 's \<times> ('e + 'b)) \<Rightarrow> 's \<times> ('e + 'b)" where
  "andThen (s, Inl err) f = (s, Inl err)"
| "andThen (s, Inr x) f = f s x"

fun mapError :: "('e \<Rightarrow> 'd) \<Rightarrow> 's \<times> ('e + 'a) \<Rightarrow> 's \<times> ('d + 'a)" where
  "mapError h (s, Inl err) = (s, Inl (h err))"
| "mapError h (s, Inr x) = (s, Inr x)"

section \<open>Steps of the transaction\<close>

definition tx_append ::
  "txn_env \<Rightarrow> txn_state \<Rightarrow> event_data \<Rightarrow> append_opts \<Rightarrow> txn_state \<times> (txn_error + session_event)" where
  "tx_append env tx d opts =
     (case session_append (tx_session tx) False (te_veto env (tx_session tx))
             (te_now env (length (se_log (tx_session tx)))) d opts of
        (s, Inl err) \<Rightarrow> (tx\<lparr>tx_session := s\<rparr>, Inl (TxAppend err))
      | (s, Inr e) \<Rightarrow> (tx\<lparr>tx_session := s\<rparr>, Inr e))"

text \<open>The nodes and generation that \<open>session.surface\<close> reads.\<close>

definition read_surface :: "txn_state \<Rightarrow> txn_state \<times> (txn_error + int list \<times> nat)" where
  "read_surface tx =
     (let s = tx_session tx in
      case manager_nodes (se_surface s) (se_log s) of
        (m, Inl err) \<Rightarrow> (tx\<lparr>tx_session := s\<lparr>se_surface := m\<rparr>\<rparr>, Inl (TxSurfaceRead err))
      | (m, Inr ns) \<Rightarrow>
          (case manager_replaceGeneration m (se_log s) of
             (m', Inl err) \<Rightarrow> (tx\<lparr>tx_session := s\<lparr>se_surface := m'\<rparr>\<rparr>, Inl (TxSurfaceRead err))
           | (m', Inr g) \<Rightarrow> (tx\<lparr>tx_session := s\<lparr>se_surface := m'\<rparr>\<rparr>, Inr (ns, g))))"

definition tx_validate :: "txn_state \<Rightarrow> int \<Rightarrow> int \<Rightarrow> txn_state \<times> (txn_error + surface_selection)" where
  "tx_validate tx s en =
     andThen (read_surface tx) (\<lambda>tx (ns, g).
       case validateSurfaceRegion (se_log (tx_session tx)) ns g (tx_cache tx) s en of
         (c, Inl err) \<Rightarrow> (tx\<lparr>tx_cache := c\<rparr>, Inl (TxPairing err))
       | (c, Inr sel) \<Rightarrow> (tx\<lparr>tx_cache := c\<rparr>, Inr sel))"

definition buildSummarizationInput ::
  "session \<Rightarrow> int list \<Rightarrow> session \<times> summarization_input" where
  "buildSummarizationInput s shadowed =
     (case requestHeader s of
        (s', header) \<Rightarrow>
          (s', \<lparr>si_system = Option.bind header eh_system, si_tools = Option.bind header eh_tools,
                si_messages = project_nodes (se_log s') shadowed\<rparr>))"

record prepared_compaction =
  pc_selection :: surface_selection
  pc_nodes :: "(int \<times> rat) list"
  pc_selectedNodes :: "(int \<times> rat) list"
  pc_shadowedTokenCount :: rat
  pc_input :: summarization_input

definition prepareCompaction ::
  "txn_env \<Rightarrow> txn_state \<Rightarrow> surface_selection \<Rightarrow> txn_state \<times> (txn_error + prepared_compaction)" where
  "prepareCompaction env tx sel =
     (let measured = te_measure env (tx_session tx);
          selected = slice measured (ss_startIdx sel) (ss_endIdx sel + 1) in
      if map fst selected \<noteq> ss_shadowedSeqs sel then (tx, Inl (TxSurfaceChanged None))
      else case buildSummarizationInput (tx_session tx) (ss_shadowedSeqs sel) of
             (s, input) \<Rightarrow>
               (tx\<lparr>tx_session := s\<rparr>,
                Inr \<lparr>pc_selection = sel, pc_nodes = measured, pc_selectedNodes = selected,
                     pc_shadowedTokenCount = sum_list (map snd selected), pc_input = input\<rparr>))"

definition CHECKPOINT_PREAMBLE :: string where
  "CHECKPOINT_PREAMBLE = ''This is an automatically generated checkpoint condensing an earlier span of the conversation to free up context. Treat the captured context as established background and build on it without restating it. Continue the task directly from the messages that follow, without acknowledging this checkpoint.''"

definition frameSummary :: "content_block list \<Rightarrow> content_block list" where
  "frameSummary summary =
     TextBlock (CHECKPOINT_PREAMBLE @ [CHR 0x0A, CHR 0x0A] @ ''<compacted-summary>'')
       # summary @ [TextBlock ''</compacted-summary>'']"

definition summarizeCompaction ::
  "txn_env \<Rightarrow> txn_options \<Rightarrow> txn_state \<Rightarrow> prepared_compaction
    \<Rightarrow> txn_state \<times> (txn_error + summary_result \<times> message)" where
  "summarizeCompaction env opts tx p =
     (case te_summarize env (pc_input p) (tx_session tx) of
        (s, Inl err) \<Rightarrow> (tx\<lparr>tx_session := s\<rparr>, Inl (TxSummarizer err))
      | (s, Inr res) \<Rightarrow>
          let checkpoint = \<lparr>msg_id = te_messageId env, msg_role = UserRole,
                msg_content = frameSummary (sr_summary res),
                msg_source = compactCheckpointSource (te_compactionId env) (to_sourceCommandId opts)\<rparr>;
              framed = te_estimateMessage env checkpoint in
          if pc_shadowedTokenCount p \<le> framed
          then (tx\<lparr>tx_session := s\<rparr>, Inl (TxNotSmaller framed (pc_shadowedTokenCount p)))
          else (tx\<lparr>tx_session := s\<rparr>, Inr (res, checkpoint)))"

definition assertWholeSurfaceUnchanged ::
  "txn_env \<Rightarrow> txn_state \<Rightarrow> prepared_compaction \<Rightarrow> txn_state \<times> (txn_error + unit)" where
  "assertWholeSurfaceUnchanged env tx p =
     (tx, ensure (te_measure env (tx_session tx) = pc_nodes p) (TxSurfaceChanged None))"

fun pairing_cause :: "txn_error \<Rightarrow> pairing_error option" where
  "pairing_cause (TxPairing err) = Some err"
| "pairing_cause _ = None"

definition assertSelectedSpanStable ::
  "txn_env \<Rightarrow> txn_state \<Rightarrow> prepared_compaction \<Rightarrow> txn_state \<times> (txn_error + unit)" where
  "assertSelectedSpanStable env tx p =
     andThen (mapError (\<lambda>err. TxSurfaceChanged (pairing_cause err))
                (tx_validate tx (ss_start (pc_selection p)) (ss_end (pc_selection p)))) (\<lambda>tx current.
       (tx, bind_result (ensure (ss_shadowedSeqs current = ss_shadowedSeqs (pc_selection p)) (TxSurfaceChanged None)) (\<lambda>_.
              ensure (slice (te_measure env (tx_session tx)) (ss_startIdx current) (ss_endIdx current + 1)
                        = pc_selectedNodes p) (TxSurfaceChanged None))))"

definition assertStable where
  "assertStable env opts tx p =
     (case to_stability opts of
        WholeSurface \<Rightarrow> assertWholeSurfaceUnchanged env tx p
      | SelectedSpan \<Rightarrow> assertSelectedSpanStable env tx p)"

definition summary_data :: "compaction_start \<Rightarrow> prepared_compaction \<Rightarrow> summary_result \<Rightarrow> compaction_summary" where
  "summary_data st p res =
     \<lparr>cy_compactionId = cs_compactionId st, cy_sourceCommandId = cs_sourceCommandId st,
      cy_summary = sr_summary res, cy_rangeStart = ss_start (pc_selection p), cy_rangeEnd = ss_end (pc_selection p),
      cy_shadowedSeqs = ss_shadowedSeqs (pc_selection p), cy_shadowedTokenCount = pc_shadowedTokenCount p,
      cy_provider = sr_provider res, cy_model = sr_model res, cy_maxTokens = sr_maxTokens res,
      cy_usage = sr_usage res, cy_rawOutput = sr_rawOutput res, cy_llmStreamCall = sr_llmStreamCall res\<rparr>"

definition checkpoint_opts :: "session_event \<Rightarrow> session_event \<Rightarrow> prepared_compaction \<Rightarrow> append_opts" where
  "checkpoint_opts startE summaryE p =
     \<lparr>ao_surfaceOp = Some (JObj [(''op'', JStr ''replace''), (''start'', JNum (of_int (ss_start (pc_selection p)))),
        (''end'', JNum (of_int (ss_end (pc_selection p))))]),
      ao_sourceEventSeqs = Some (JArr (map (\<lambda>q. JNum (of_int q))
        (ev_seq startE # ev_seq summaryE # ss_shadowedSeqs (pc_selection p)))),
      ao_ignorable = False\<rparr>"

text \<open>The pending result has no end sequence yet; it is completed by the close.\<close>

definition commitCompactionBody ::
  "txn_env \<Rightarrow> txn_state \<Rightarrow> session_event \<Rightarrow> compaction_start \<Rightarrow> prepared_compaction \<Rightarrow> summary_result \<Rightarrow> message
    \<Rightarrow> txn_state \<times> (txn_error + (int \<Rightarrow> compaction_result))" where
  "commitCompactionBody env tx startE st p res checkpoint =
     andThen (tx_append env tx (CompactionSummary (summary_data st p res)) plain_opts) (\<lambda>tx summaryE.
     andThen (tx_append env tx (UserMessage checkpoint) (checkpoint_opts startE summaryE p)) (\<lambda>tx _.
       (tx, Inr (\<lambda>endSeq. \<lparr>cr_compactionId = cs_compactionId st, cr_sourceCommandId = cs_sourceCommandId st,
              cr_startSeq = ev_seq startE, cr_summarySeq = ev_seq summaryE, cr_endSeq = endSeq,
              cr_summary = sr_summary res, cr_rangeStart = ss_start (pc_selection p),
              cr_rangeEnd = ss_end (pc_selection p), cr_shadowedSeqs = ss_shadowedSeqs (pc_selection p),
              cr_shadowedTokenCount = pc_shadowedTokenCount p\<rparr>))))"

section \<open>The transaction\<close>

text \<open>The guarded part between the opening marker and the close, with the stage a failure has.\<close>

definition attempt_body ::
  "txn_env \<Rightarrow> txn_options \<Rightarrow> session_event \<Rightarrow> compaction_start \<Rightarrow> surface_selection \<Rightarrow> txn_state
    \<Rightarrow> txn_state \<times> (txn_error \<times> txn_stage + (int \<Rightarrow> compaction_result))" where
  "attempt_body env opts startE st sel tx =
     andThen (mapError (\<lambda>err. (err, StageSummary))
       (andThen (prepareCompaction env tx sel) (\<lambda>tx p.
        andThen (summarizeCompaction env opts tx p) (\<lambda>tx (res, checkpoint).
          if to_manual opts \<and> te_aborted env 1 then (tx, Inl TxAborted)
          else andThen (assertStable env opts tx p) (\<lambda>tx _. (tx, Inr (p, res, checkpoint))))))) (\<lambda>tx (p, res, checkpoint).
       mapError (\<lambda>err. (err, StageCommit)) (commitCompactionBody env tx startE st p res checkpoint))"

definition manual_failure :: "txn_error \<Rightarrow> txn_stage \<Rightarrow> txn_error" where
  "manual_failure err stage =
     (case stage of
        StageCommit \<Rightarrow> TxManual CommitFailed (Some err)
      | StageSummary \<Rightarrow>
          (case err of
             TxSurfaceChanged _ \<Rightarrow> TxManual Changed (Some err)
           | _ \<Rightarrow> TxManual SummaryFailed (Some err)))"

text \<open>Everything after the guarded block: the flush, the late abort check and the outcome.\<close>

definition settle ::
  "txn_env \<Rightarrow> txn_options \<Rightarrow> bool \<Rightarrow> txn_error \<times> txn_stage + compaction_result \<Rightarrow> txn_error + compaction_result" where
  "settle env opts isClosed outcome =
     (let flushFailed = isClosed \<and> to_flush opts = Some False in
      if to_manual opts \<and> te_aborted env 2 then Inl TxAborted
      else case outcome of
             Inl (err, stage) \<Rightarrow> Inl (if to_manual opts then manual_failure err stage else err)
           | Inr r \<Rightarrow> if flushFailed then Inl (TxManual Persistence None) else Inr r)"

definition close_data :: "compaction_start \<Rightarrow> string option \<Rightarrow> event_data" where
  "close_data st err =
     CompactionEnd \<lparr>ce_compactionId = cs_compactionId st, ce_sourceCommandId = cs_sourceCommandId st,
       ce_turn = cs_turn st, ce_error = err\<rparr>"

definition run_bracket ::
  "txn_env \<Rightarrow> txn_options \<Rightarrow> session_event \<Rightarrow> compaction_start \<Rightarrow> surface_selection \<Rightarrow> txn_state
    \<Rightarrow> txn_state \<times> (txn_error + compaction_result)" where
  "run_bracket env opts startE st sel tx =
     (case attempt_body env opts startE st sel tx of
        (tx1, Inr pending) \<Rightarrow>
          (case tx_append env tx1 (close_data st None) plain_opts of
             (tx2, Inr endE) \<Rightarrow> (tx2, settle env opts True (Inr (pending (ev_seq endE))))
           | (tx2, Inl err) \<Rightarrow> (tx2, settle env opts False (Inl (err, StageCommit))))
      | (tx1, Inl (err, stage)) \<Rightarrow>
          (case tx_append env tx1 (close_data st (Some (te_errorChain env err))) plain_opts of
             (tx2, Inr _) \<Rightarrow> (tx2, settle env opts True (Inl (err, stage)))
           | (tx2, Inl cerr) \<Rightarrow> (tx2, settle env opts False (Inl (cerr, StageCommit)))))"

definition entry_owner :: "txn_options \<Rightarrow> entry_state \<Rightarrow> txn_error + int option" where
  "entry_owner opts st =
     (if to_manual opts then
        (case en_openTurn st of Some _ \<Rightarrow> Inl (TxManual Busy None) | None \<Rightarrow> Inr None)
      else (case en_openTurn st of None \<Rightarrow> Inl TxNoOpenTurn | Some t \<Rightarrow> Inr (Some t)))"

definition compactSurfaceRegion ::
  "txn_env \<Rightarrow> txn_options \<Rightarrow> txn_state \<Rightarrow> int \<Rightarrow> int \<Rightarrow> txn_state \<times> (txn_error + compaction_result)" where
  "compactSurfaceRegion env opts tx s en =
     (if to_manual opts \<and> te_aborted env 0 then (tx, Inl TxAborted)
      else andThen (tx_validate tx s en) (\<lambda>tx sel.
        let entry = inspectCompactionEntryState (se_log (tx_session tx)) in
        if \<not> assertCompactionInactive (en_unmatchedStart entry) (en_latestEndSeedSeq entry)
        then (tx, Inl (TxManual Busy None))
        else case entry_owner opts entry of
               Inl err \<Rightarrow> (tx, Inl err)
             | Inr own \<Rightarrow>
                 let st = \<lparr>cs_compactionId = te_compactionId env, cs_sourceCommandId = to_sourceCommandId opts,
                           cs_turn = own\<rparr> in
                 andThen (tx_append env tx (CompactionStart st) plain_opts) (\<lambda>tx startE.
                   run_bracket env opts startE st sel tx)))"

section \<open>Every step keeps the session exact\<close>

text \<open>A step that only reads: the log stays and the caches stay exact.\<close>

definition quiet :: "txn_state \<Rightarrow> txn_state \<Rightarrow> bool" where
  "quiet tx tx' \<longleftrightarrow>
     (session_ok (tx_session tx) \<longrightarrow> session_ok (tx_session tx')) \<and> se_log (tx_session tx') = se_log (tx_session tx)"

lemma quiet_refl [simp]: "quiet tx tx"
  by (simp add: quiet_def)

lemma quiet_trans: "quiet a b \<Longrightarrow> quiet b c \<Longrightarrow> quiet a c"
  by (simp add: quiet_def)

lemma quiet_cache [simp]: "quiet a (b\<lparr>tx_cache := c\<rparr>) = quiet a b"
  by (simp add: quiet_def)

lemma andThen_quiet:
  assumes "quiet tx (fst m)" "\<And>tx1 x. m = (tx1, Inr x) \<Longrightarrow> quiet tx1 (fst (f tx1 x))"
  shows "quiet tx (fst (andThen m f))"
  using assms by (cases m; cases "snd m") (auto intro: quiet_trans)

lemma mapError_fst [simp]: "fst (mapError h m) = fst m"
  by (cases m; cases "snd m") auto

lemma manager_set_ok:
  "session_ok s \<Longrightarrow> manager_run m (se_log s) \<Longrightarrow> session_ok (s\<lparr>se_surface := m\<rparr>)"
  by (simp add: session_ok_def)

lemma read_surface_quiet: "quiet tx (fst (read_surface tx))"
proof -
  let ?s = "tx_session tx"
  obtain m r where m: "manager_nodes (se_surface ?s) (se_log ?s) = (m, r)" by (cases "manager_nodes (se_surface ?s) (se_log ?s)")
  obtain m' g where m': "manager_replaceGeneration m (se_log ?s) = (m', g)" by (cases "manager_replaceGeneration m (se_log ?s)")
  have run: "session_ok ?s \<Longrightarrow> manager_run m (se_log ?s) \<and> manager_run m' (se_log ?s)"
    using run_nodes [of "se_surface ?s" "se_log ?s"] run_generation [of m "se_log ?s"] m m' by (simp add: session_ok_def)
  show ?thesis
    using manager_set_ok run by (cases r; cases g) (auto simp: quiet_def read_surface_def m m' Let_def)
qed

lemma tx_validate_quiet: "quiet tx (fst (tx_validate tx s en))"
  unfolding tx_validate_def
  by (rule andThen_quiet [OF read_surface_quiet]) (auto split: prod.splits sum.splits)

lemma prepareCompaction_quiet: "quiet tx (fst (prepareCompaction env tx sel))"
  using requestHeader_ok [of "tx_session tx"]
  by (auto simp: prepareCompaction_def buildSummarizationInput_def quiet_def requestHeader_def Let_def split: if_splits)

lemma assertStable_quiet: "quiet tx (fst (assertStable env opts tx p))"
  by (auto simp: assertStable_def assertWholeSurfaceUnchanged_def assertSelectedSpanStable_def
      intro!: andThen_quiet tx_validate_quiet split: stability_rule.split)

lemma tx_append_cases:
  assumes "tx_append env tx d opts = (tx', r)" "session_ok (tx_session tx)"
  obtains (Rejected) err where "r = Inl (TxAppend err)" "se_log (tx_session tx') = se_log (tx_session tx)"
      "session_ok (tx_session tx')"
  | (Accepted) e where "r = Inr e" "se_log (tx_session tx') = se_log (tx_session tx) @ [e]" "session_ok (tx_session tx')"
      "ev_data e = d" "ev_seq e = int (length (se_log (tx_session tx)))" "ev_surfaceOp e = ao_surfaceOp opts"
proof -
  obtain s q where a: "session_append (tx_session tx) False (te_veto env (tx_session tx))
      (te_now env (length (se_log (tx_session tx)))) d opts = (s, q)"
    by (metis surj_pair)
  have ok: "session_ok s" by (rule session_append_ok [OF assms(2) a])
  from a show thesis
  proof (cases rule: session_append_cases)
    case (Rejected m err)
    then show thesis using assms(1) a ok that(1) [of err] by (auto simp: tx_append_def)
  next
    case (Accepted m e)
    then show thesis using assms(1) a ok that(2) [of e] by (auto simp: tx_append_def candidate_event_def)
  qed
qed

section \<open>The guarded block\<close>

definition txn_env_ok :: "txn_env \<Rightarrow> bool" where
  "txn_env_ok env \<longleftrightarrow>
     (\<forall>input s s' r. session_ok s \<longrightarrow> te_summarize env input s = (s', r) \<longrightarrow>
        session_ok s' \<and> (\<exists>mid. se_log s' = se_log s @ mid \<and> (\<forall>x \<in> set mid. \<not> closes_bracket (ev_data x))))"

definition grown :: "txn_state \<Rightarrow> session_event list \<Rightarrow> txn_state \<Rightarrow> bool" where
  "grown tx xs tx' \<longleftrightarrow> session_ok (tx_session tx') \<and> se_log (tx_session tx') = se_log (tx_session tx) @ xs"

lemma grown_quiet: "session_ok (tx_session tx) \<Longrightarrow> quiet tx tx' \<Longrightarrow> grown tx [] tx'"
  by (simp add: grown_def quiet_def)

lemma grown_trans: "grown a xs b \<Longrightarrow> grown b ys c \<Longrightarrow> grown a (xs @ ys) c"
  by (simp add: grown_def)

lemma grown_ok: "grown a xs b \<Longrightarrow> session_ok (tx_session b)"
  by (simp add: grown_def)

lemma summarize_grown:
  assumes "txn_env_ok env" "session_ok (tx_session tx)" "summarizeCompaction env opts tx p = (tx', r)"
  shows "\<exists>mid. grown tx mid tx' \<and> (\<forall>x \<in> set mid. \<not> closes_bracket (ev_data x))"
proof -
  obtain s q where s: "te_summarize env (pc_input p) (tx_session tx) = (s, q)" by (metis surj_pair)
  then have "tx' = tx\<lparr>tx_session := s\<rparr>"
    using assms(3) by (auto simp: summarizeCompaction_def Let_def split: sum.splits if_splits)
  with assms(1,2) s show ?thesis unfolding txn_env_ok_def grown_def by fastforce
qed

lemma commit_body:
  assumes "session_ok (tx_session tx)" "commitCompactionBody env tx startE st p res cp = (tx', r)"
  shows "case r of
      Inl err \<Rightarrow> \<exists>tail. grown tx tail tx' \<and> (tail = [] \<or> (\<exists>e. tail = [e] \<and> ev_surfaceOp e = None \<and>
        ev_data e = CompactionSummary (summary_data st p res)))
    | Inr pending \<Rightarrow> \<exists>sumE cpE. grown tx [sumE, cpE] tx' \<and> ev_surfaceOp sumE = None \<and>
        ev_data sumE = CompactionSummary (summary_data st p res) \<and> ev_data cpE = UserMessage cp \<and>
        ev_surfaceOp cpE = ao_surfaceOp (checkpoint_opts startE sumE p) \<and>
        (\<forall>q. cr_startSeq (pending q) = ev_seq startE \<and> cr_summarySeq (pending q) = ev_seq sumE \<and>
             cr_endSeq (pending q) = q \<and> cr_shadowedSeqs (pending q) = ss_shadowedSeqs (pc_selection p))"
proof -
  obtain tx1 r1 where 1: "tx_append env tx (CompactionSummary (summary_data st p res)) plain_opts = (tx1, r1)"
    by (metis surj_pair)
  from 1 assms(1) show ?thesis
  proof (cases rule: tx_append_cases)
    case (Rejected err)
    with 1 assms(2) show ?thesis by (auto simp: commitCompactionBody_def grown_def)
  next
    case (Accepted e)
    obtain tx2 r2 where 2: "tx_append env tx1 (UserMessage cp) (checkpoint_opts startE e p) = (tx2, r2)"
      by (metis surj_pair)
    from 2 Accepted(3) show ?thesis
    proof (cases rule: tx_append_cases)
      case (Rejected err)
      with 1 2 Accepted assms(2) show ?thesis by (auto simp: commitCompactionBody_def grown_def plain_opts_def)
    next
      case (Accepted f)
      with 1 2 \<open>r1 = Inr e\<close> \<open>ev_data e = _\<close> \<open>ev_surfaceOp e = _\<close> \<open>se_log (tx_session tx1) = _\<close> assms(2)
      show ?thesis by (auto simp: commitCompactionBody_def grown_def plain_opts_def)
    qed
  qed
qed

lemma andThen_split:
  "andThen m f = (tx', r) \<Longrightarrow>
   (\<exists>err. m = (tx', Inl err) \<and> r = Inl err) \<or> (\<exists>tx1 x. m = (tx1, Inr x) \<and> f tx1 x = (tx', r))"
  by (cases m; cases "snd m") auto

lemma mapError_split:
  "mapError h m = (tx', r) \<Longrightarrow>
   (\<exists>err. m = (tx', Inl err) \<and> r = Inl (h err)) \<or> (\<exists>x. m = (tx', Inr x) \<and> r = Inr x)"
  by (cases m; cases "snd m") auto

definition body_prep ::
  "txn_env \<Rightarrow> txn_options \<Rightarrow> surface_selection \<Rightarrow> txn_state
    \<Rightarrow> txn_state \<times> (txn_error + prepared_compaction \<times> summary_result \<times> message)" where
  "body_prep env opts sel tx =
     andThen (prepareCompaction env tx sel) (\<lambda>tx p.
        andThen (summarizeCompaction env opts tx p) (\<lambda>tx (res, checkpoint).
          if to_manual opts \<and> te_aborted env 1 then (tx, Inl TxAborted)
          else andThen (assertStable env opts tx p) (\<lambda>tx _. (tx, Inr (p, res, checkpoint)))))"

lemma body_prep_grown:
  assumes env: "txn_env_ok env" and ok: "session_ok (tx_session tx)" and run: "body_prep env opts sel tx = (tx', r)"
  shows "\<exists>mid. grown tx mid tx' \<and> (\<forall>x \<in> set mid. \<not> closes_bracket (ev_data x)) \<and>
    (\<forall>p res cp. r = Inr (p, res, cp) \<longrightarrow> pc_selection p = sel)"
proof -
  obtain tx1 r1 where 1: "prepareCompaction env tx sel = (tx1, r1)" by (metis surj_pair)
  have g1: "grown tx [] tx1" using grown_quiet [OF ok] prepareCompaction_quiet [of tx env sel] 1 by simp
  show ?thesis
  proof (cases r1)
    case (Inl err)
    with run 1 g1 show ?thesis by (auto simp: body_prep_def intro: exI [of _ "[]"])
  next
    case (Inr p)
    have sel: "pc_selection p = sel"
      using 1 Inr by (auto simp: prepareCompaction_def Let_def split: if_splits prod.splits)
    obtain tx2 r2 where 2: "summarizeCompaction env opts tx1 p = (tx2, r2)" by (metis surj_pair)
    from summarize_grown [OF env grown_ok [OF g1] 2] g1 obtain mid where
      mid: "grown tx mid tx2" "\<forall>x \<in> set mid. \<not> closes_bracket (ev_data x)"
      by (metis append_Nil grown_trans)
    have "grown tx mid tx'"
    proof -
      have "quiet tx2 tx'"
        using run 1 2 Inr assertStable_quiet [of tx2 env opts p]
        by (cases r2) (auto simp: body_prep_def split: if_splits dest!: andThen_split)
      with mid(1) show ?thesis using grown_trans [OF mid(1) grown_quiet] grown_ok by fastforce
    qed
    moreover have "\<forall>p' res cp. r = Inr (p', res, cp) \<longrightarrow> pc_selection p' = sel"
      using run 1 2 Inr sel by (cases r2) (auto simp: body_prep_def split: if_splits dest!: andThen_split)
    ultimately show ?thesis using mid(2) by blast
  qed
qed

lemma attempt_body_prep:
  "attempt_body env opts startE st sel tx =
     andThen (mapError (\<lambda>err. (err, StageSummary)) (body_prep env opts sel tx)) (\<lambda>tx (p, res, checkpoint).
       mapError (\<lambda>err. (err, StageCommit)) (commitCompactionBody env tx startE st p res checkpoint))"
  by (simp add: attempt_body_def body_prep_def)

text \<open>What the guarded block leaves in the log, by its outcome.\<close>

lemma attempt_body_log:
  assumes env: "txn_env_ok env" and ok: "session_ok (tx_session tx)"
    and run: "attempt_body env opts startE st sel tx = (tx', r)"
  obtains mid tail where "grown tx (mid @ tail) tx'" "\<forall>x \<in> set mid. \<not> closes_bracket (ev_data x)"
    "case r of
       Inl err \<Rightarrow> tail = [] \<or> (\<exists>e y. tail = [e] \<and> ev_surfaceOp e = None \<and> ev_data e = CompactionSummary y)
     | Inr pending \<Rightarrow> \<exists>sumE cpE p res cp. tail = [sumE, cpE] \<and> ev_surfaceOp sumE = None \<and>
        ev_data sumE = CompactionSummary (summary_data st p res) \<and> ev_data cpE = UserMessage cp \<and>
        pc_selection p = sel \<and> ev_surfaceOp cpE = ao_surfaceOp (checkpoint_opts startE sumE p) \<and>
        (\<forall>q. cr_startSeq (pending q) = ev_seq startE \<and> cr_summarySeq (pending q) = ev_seq sumE \<and>
             cr_endSeq (pending q) = q \<and> cr_shadowedSeqs (pending q) = ss_shadowedSeqs sel)"
proof -
  obtain tx1 r1 where 1: "body_prep env opts sel tx = (tx1, r1)" by (metis surj_pair)
  from body_prep_grown [OF env ok 1] obtain mid where mid: "grown tx mid tx1"
    "\<forall>x \<in> set mid. \<not> closes_bracket (ev_data x)" "\<forall>p res cp. r1 = Inr (p, res, cp) \<longrightarrow> pc_selection p = sel"
    by blast
  show thesis
  proof (cases r1)
    case (Inl err)
    with run 1 mid show thesis by (intro that [of mid "[]"]) (auto simp: attempt_body_prep)
  next
    case (Inr x)
    obtain p res cp where x: "x = (p, res, cp)" by (metis prod_cases3)
    obtain tx2 r2 where 2: "commitCompactionBody env tx1 startE st p res cp = (tx2, r2)" by (metis surj_pair)
    have r: "tx' = tx2" "r = (case r2 of Inl err \<Rightarrow> Inl (err, StageCommit) | Inr q \<Rightarrow> Inr q)"
      using run 1 2 Inr x by (cases r2; simp add: attempt_body_prep)+
    note body = commit_body [OF grown_ok [OF mid(1)] 2]
    show thesis
    proof (cases r2)
      case (Inl err)
      with body obtain tail where "grown tx1 tail tx2" "tail = [] \<or> (\<exists>e. tail = [e] \<and> ev_surfaceOp e = None \<and>
          ev_data e = CompactionSummary (summary_data st p res))" by auto
      with Inl r mid grown_trans [OF mid(1)] show thesis by (intro that [of mid tail]) auto
    next
      case (Inr pending)
      with body obtain sumE cpE where "grown tx1 [sumE, cpE] tx2" "ev_surfaceOp sumE = None"
          "ev_data sumE = CompactionSummary (summary_data st p res)" "ev_data cpE = UserMessage cp"
          "ev_surfaceOp cpE = ao_surfaceOp (checkpoint_opts startE sumE p)"
          "\<forall>q. cr_startSeq (pending q) = ev_seq startE \<and> cr_summarySeq (pending q) = ev_seq sumE \<and>
             cr_endSeq (pending q) = q \<and> cr_shadowedSeqs (pending q) = ss_shadowedSeqs (pc_selection p)" by auto
      with Inr r mid \<open>r1 = Inr x\<close> x grown_trans [OF mid(1)] show thesis
        by (intro that [of mid "[sumE, cpE]"]) (auto 0 4)
    qed
  qed
qed

section \<open>Lock and surface after the bracket\<close>

lemma find_start_skip:
  "\<forall>x \<in> set xs. \<not> closes_bracket (ev_data x) \<Longrightarrow> find_start (xs @ ys) = find_start ys \<and> find_seed (xs @ ys) = find_seed ys"
proof (induction xs)
  case (Cons x xs)
  then show ?case by (cases "ev_data x") auto
qed simp

lemma lock_free: "ev_data e = CompactionEnd c \<Longrightarrow> assertNoActiveCompaction (lg @ [e])"
  by (simp add: assertNoActiveCompaction_def inspect_find assertCompactionInactive_def)

lemma lock_held:
  assumes "ev_data e = CompactionStart c" "\<forall>x \<in> set lg. ev_seq x < ev_seq e" "\<forall>x \<in> set xs. \<not> closes_bracket (ev_data x)"
  shows "\<not> assertNoActiveCompaction (lg @ e # xs)"
proof -
  have "find_start (rev xs @ e # rev lg) = Some e" "find_seed (rev xs @ e # rev lg) = find_seed (rev lg)"
    using find_start_skip [of "rev xs" "e # rev lg"] assms(1,3) by simp_all
  moreover have "q < ev_seq e" if "find_seed (rev lg) = Some q" for q
    using find_seed_mem [OF that] assms(2) by auto
  ultimately show ?thesis
    by (cases "find_seed (rev lg)") (fastforce simp: assertNoActiveCompaction_def inspect_find assertCompactionInactive_def)+
qed

lemma fold_log_step:
  assumes f: "foldSurface lg = Inr (ns, reps)" and op: "ev_surfaceOp e = None"
    and f': "foldSurface (lg @ [e]) = Inr (ns', reps')"
  shows "ns' = ns"
proof -
  from f obtain st where st: "surface.project lg = Inr (st, reps)" "nodes st = ns" by (rule foldSurface_inv)
  from f' obtain st' where st': "surface.project (lg @ [e]) = Inr (st', reps')" "nodes st' = ns'" by (rule foldSurface_inv)
  from st(1) st'(1) have "surface_step lg (st, reps) e = Inr (st', reps')"
    by (auto simp: surface.project_append result_simps)
  then show ?thesis
    using st(2) st'(2) op
    by (auto simp: surface_step_def applySurfaceEvent_def planSurfaceEvent_def surfaceOpOf_def result_simps ensure_def Let_def
        split: if_splits)
qed

lemma session_ok_sorted: "session_ok s \<Longrightarrow> sorted_wrt (<) (map ev_seq (se_log s))"
  by (simp add: session_ok_seqs(1) sorted_wrt_map)

lemma foldSurface_prefix: "foldSurface (xs @ ys) = Inr p \<Longrightarrow> \<exists>q. foldSurface xs = Inr q"
  by (cases p) (auto simp: foldSurface_Inr surface.project_append result_simps)

definition surface_of :: "session_event list \<Rightarrow> int list \<Rightarrow> bool" where
  "surface_of lg ns \<longleftrightarrow> (\<exists>reps. foldSurface lg = Inr (ns, reps))"

lemma surface_of_log_step:
  assumes "surface_of lg ns" "ev_surfaceOp e = None" "\<exists>p. foldSurface (lg @ [e]) = Inr p"
  shows "surface_of (lg @ [e]) ns"
  using assms fold_log_step unfolding surface_of_def by (metis surj_pair)

lemma surface_of_log_steps:
  assumes "surface_of lg ns" "\<forall>e \<in> set es. ev_surfaceOp e = None" "\<exists>p. foldSurface (lg @ es) = Inr p"
  shows "surface_of (lg @ es) ns"
  using assms
proof (induction es rule: rev_induct)
  case (snoc e es)
  then have "\<exists>p. foldSurface (lg @ es) = Inr p" using foldSurface_prefix [of "lg @ es" "[e]"] by auto
  with snoc surface_of_log_step [of "lg @ es" ns e] show ?case by simp
qed simp

lemma surface_of_replace_step:
  assumes f: "surface_of lg ns" and op: "surfaceOpOf e = Inr (Some (OpReplace s en))"
    and f': "\<exists>p. foldSurface (lg @ [e]) = Inr p"
  shows "\<exists>i j. index_of s ns = Some i \<and> index_of en ns = Some j \<and> i \<le> j \<and>
    surface_of (lg @ [e]) (take i ns @ [ev_seq e] @ drop (Suc j) ns)"
proof -
  obtain reps where r: "foldSurface lg = Inr (ns, reps)" using f by (auto simp: surface_of_def)
  obtain ns' reps' where r': "foldSurface (lg @ [e]) = Inr (ns', reps')" using f' by (metis surj_pair)
  from r obtain st where st: "surface.project lg = Inr (st, reps)" "nodes st = ns" by (rule foldSurface_inv)
  from r' obtain st' where st': "surface.project (lg @ [e]) = Inr (st', reps')" by (rule foldSurface_inv)
  from st(1) st' have "surface_step lg (st, reps) e = Inr (st', reps')"
    by (auto simp: surface.project_append result_simps)
  then obtain i j where "index_of s ns = Some i" "index_of en ns = Some j" "i \<le> j"
    using st(2) op
    by (auto simp: surface_step_def applySurfaceEvent_def planSurfaceEvent_def replacementRange_def
        result_simps ensure_def Let_def split: if_splits option.splits)
  with fold_replace_step [OF r op r'] r' show ?thesis by (auto simp: surface_of_def)
qed

lemma checkpoint_op:
  assumes "ev_data e = UserMessage m" "ev_surfaceOp e = ao_surfaceOp (checkpoint_opts startE sumE p)" "surfaceOpOf e = Inr op"
  shows "op = Some (OpReplace (ss_start (pc_selection p)) (ss_end (pc_selection p)))"
  using assms
  by (auto simp: surfaceOpOf_def checkpoint_opts_def isReplaceOp_def isEventSeq_def safe_integer_of_def
      isSurfaceEligibleType_def surface_event_types_def jget_def Let_def split: if_splits option.splits)

lemma foldSurface_op: "foldSurface (lg @ [e]) = Inr p \<Longrightarrow> \<exists>op. surfaceOpOf e = Inr op"
  by (cases p) (auto simp: foldSurface_Inr surface.project_append surface_step_def applySurfaceEvent_def planSurfaceEvent_def
      result_simps)

section \<open>The outcomes of a transaction\<close>

text \<open>
  \<open>lg1\<close> is the log when the guarded work ends: the entry log, the opening marker and what other
  work appended meanwhile. \<open>tail\<close> is what the transaction appended after it.
\<close>

definition txn_committed ::
  "int \<Rightarrow> int \<Rightarrow> session_event \<Rightarrow> session_event list \<Rightarrow> session_event list \<Rightarrow> txn_error + compaction_result \<Rightarrow> bool" where
  "txn_committed s en startE lg1 tail r \<longleftrightarrow>
     (\<exists>sumE y cpE m endE c ns i j. tail = [sumE, cpE, endE] \<and> ev_data sumE = CompactionSummary y \<and>
        ev_data cpE = UserMessage m \<and> ev_data endE = CompactionEnd c \<and> ce_error c = None \<and>
        surface_of lg1 ns \<and> index_of s ns = Some i \<and> index_of en ns = Some j \<and> i \<le> j \<and>
        surface_of (lg1 @ tail) (take i ns @ [ev_seq cpE] @ drop (Suc j) ns) \<and>
        (\<forall>res. r = Inr res \<longrightarrow> cr_startSeq res = ev_seq startE \<and> cr_summarySeq res = ev_seq sumE \<and>
           cr_endSeq res = ev_seq endE \<and> cr_shadowedSeqs res = cy_shadowedSeqs y))"

definition txn_failed :: "session_event list \<Rightarrow> session_event list \<Rightarrow> bool" where
  "txn_failed lg1 tail \<longleftrightarrow>
     (\<exists>body endE c ns. tail = body @ [endE] \<and> length body \<le> 1 \<and> list_all (\<lambda>x. is_summary (ev_data x)) body \<and>
        ev_data endE = CompactionEnd c \<and> ce_error c \<noteq> None \<and> surface_of lg1 ns \<and> surface_of (lg1 @ tail) ns)"

lemma settle_Inr:
  "settle env opts isClosed x = Inr res \<Longrightarrow> x = Inr res"
  by (auto simp: settle_def Let_def split: if_splits sum.splits prod.splits)

lemma settle_Inl: "isl (settle env opts isClosed (Inl x))"
  by (cases x) (simp add: settle_def Let_def)

definition bracket_outcome ::
  "int \<Rightarrow> int \<Rightarrow> session_event \<Rightarrow> session_event list \<Rightarrow> session_event list \<Rightarrow> txn_error + compaction_result \<Rightarrow> bool" where
  "bracket_outcome s en startE lg1 tail r \<longleftrightarrow>
     txn_committed s en startE lg1 tail r \<and> assertNoActiveCompaction (lg1 @ tail) \<or>
     txn_failed lg1 tail \<and> isl r \<and> assertNoActiveCompaction (lg1 @ tail) \<or>
     isl r \<and> (\<forall>x \<in> set tail. \<not> closes_bracket (ev_data x)) \<and> \<not> assertNoActiveCompaction (lg1 @ tail)"

lemma committed_outcome:
  assumes lg1: "\<exists>p. foldSurface (lg1 @ [sumE, cpE, endE]) = Inr p"
    and sumE: "ev_surfaceOp sumE = None" "ev_data sumE = CompactionSummary (summary_data st p res)"
    and cpE: "ev_data cpE = UserMessage cp" "ev_surfaceOp cpE = ao_surfaceOp (checkpoint_opts startE sumE p)"
    and sel: "ss_start (pc_selection p) = s" "ss_end (pc_selection p) = en"
    and endE: "ev_data endE = close_data st None" "ev_surfaceOp endE = None"
    and r: "\<forall>res. r = Inr res \<longrightarrow> cr_startSeq res = ev_seq startE \<and> cr_summarySeq res = ev_seq sumE \<and>
           cr_endSeq res = ev_seq endE \<and> cr_shadowedSeqs res = ss_shadowedSeqs (pc_selection p)"
  shows "txn_committed s en startE lg1 [sumE, cpE, endE] r"
proof -
  have f2: "\<exists>p. foldSurface ((lg1 @ [sumE]) @ [cpE]) = Inr p"
    using lg1 foldSurface_prefix [of "lg1 @ [sumE, cpE]" "[endE]"] by auto
  have f1: "\<exists>p. foldSurface (lg1 @ [sumE]) = Inr p" using f2 foldSurface_prefix by blast
  then obtain ns where ns: "surface_of lg1 ns"
    using foldSurface_prefix unfolding surface_of_def by (metis surj_pair)
  note ns1 = surface_of_log_step [OF ns sumE(1) f1]
  have op: "surfaceOpOf cpE = Inr (Some (OpReplace s en))"
    using f2 foldSurface_op checkpoint_op [OF cpE] sel by blast
  from surface_of_replace_step [OF ns1 op f2] obtain i j where ij: "index_of s ns = Some i" "index_of en ns = Some j" "i \<le> j"
    "surface_of ((lg1 @ [sumE]) @ [cpE]) (take i ns @ [ev_seq cpE] @ drop (Suc j) ns)" by blast
  have "surface_of (lg1 @ [sumE, cpE, endE]) (take i ns @ [ev_seq cpE] @ drop (Suc j) ns)"
    using surface_of_log_step [OF ij(4) endE(2)] lg1 by simp
  with ns ij sumE(2) cpE(1) endE(1) r show ?thesis
    unfolding txn_committed_def close_data_def by (auto simp: summary_data_def)
qed

lemma run_bracket_outcome:
  assumes env: "txn_env_ok env" and ok: "session_ok (tx_session tx)"
    and start: "se_log (tx_session tx) = lg @ [startE]" "ev_data startE = CompactionStart st"
    and sel: "ss_start sel = s" "ss_end sel = en"
    and run: "run_bracket env opts startE st sel tx = (tx', r)"
  shows "\<exists>mid tail. se_log (tx_session tx') = lg @ startE # mid @ tail \<and>
    (\<forall>x \<in> set mid. \<not> closes_bracket (ev_data x)) \<and> bracket_outcome s en startE (lg @ startE # mid) tail r"
proof -
  obtain tx1 r1 where 1: "attempt_body env opts startE st sel tx = (tx1, r1)" by (metis surj_pair)
  from env ok 1 obtain mid tail where g: "grown tx (mid @ tail) tx1" "\<forall>x \<in> set mid. \<not> closes_bracket (ev_data x)"
    and shape: "case r1 of
       Inl err \<Rightarrow> tail = [] \<or> (\<exists>e y. tail = [e] \<and> ev_surfaceOp e = None \<and> ev_data e = CompactionSummary y)
     | Inr pending \<Rightarrow> \<exists>sumE cpE p res cp. tail = [sumE, cpE] \<and> ev_surfaceOp sumE = None \<and>
        ev_data sumE = CompactionSummary (summary_data st p res) \<and> ev_data cpE = UserMessage cp \<and>
        pc_selection p = sel \<and> ev_surfaceOp cpE = ao_surfaceOp (checkpoint_opts startE sumE p) \<and>
        (\<forall>q. cr_startSeq (pending q) = ev_seq startE \<and> cr_summarySeq (pending q) = ev_seq sumE \<and>
             cr_endSeq (pending q) = q \<and> cr_shadowedSeqs (pending q) = ss_shadowedSeqs sel)"
    by (rule attempt_body_log)
  let ?lg1 = "lg @ startE # mid"
  have log1: "se_log (tx_session tx1) = ?lg1 @ tail" and ok1: "session_ok (tx_session tx1)"
    using g(1) start(1) by (simp_all add: grown_def)
  have "sorted_wrt (<) (map ev_seq (?lg1 @ tail))"
    using session_ok_sorted [OF ok1] by (simp only: log1)
  then have held: "\<not> assertNoActiveCompaction (?lg1 @ tail)" if "\<forall>x \<in> set tail. \<not> closes_bracket (ev_data x)"
    using lock_held [OF start(2), of lg "mid @ tail"] g(2) that by (auto simp: sorted_wrt_append)
  have quiet_tail: "\<forall>x \<in> set tail. \<not> closes_bracket (ev_data x)" using shape by (cases r1) auto
  define d where "d = close_data st (case r1 of Inl (err, stage) \<Rightarrow> Some (te_errorChain env err) | Inr _ \<Rightarrow> None)"
  obtain tx2 r2 where 2: "tx_append env tx1 d plain_opts = (tx2, r2)" by (metis surj_pair)
  have res: "tx' = tx2" "r = (case r2 of
      Inl cerr \<Rightarrow> settle env opts False (Inl (cerr, StageCommit))
    | Inr endE \<Rightarrow> settle env opts True (case r1 of Inl f \<Rightarrow> Inl f | Inr pending \<Rightarrow> Inr (pending (ev_seq endE))))"
    using run 1 2 by (auto simp: run_bracket_def d_def split: sum.splits prod.splits)
  from 2 ok1 show ?thesis
  proof (cases rule: tx_append_cases)
    case (Rejected err)
    then have "se_log (tx_session tx') = lg @ startE # mid @ tail" "isl r" using res log1 settle_Inl by simp_all
    with held [OF quiet_tail] quiet_tail g(2) show ?thesis unfolding bracket_outcome_def by blast
  next
    case (Accepted endE)
    have log2: "se_log (tx_session tx') = lg @ startE # mid @ (tail @ [endE])" using Accepted(2) log1 res(1) by simp
    have fold2: "\<exists>p. foldSurface (?lg1 @ tail @ [endE]) = Inr p"
      using session_ok_seqs(2) [OF Accepted(3)] Accepted(2) log1 by simp
    have free: "assertNoActiveCompaction (?lg1 @ tail @ [endE])"
      using lock_free [of endE _ "?lg1 @ tail"] Accepted(4) by (simp add: d_def close_data_def)
    have op: "ev_surfaceOp endE = None" using Accepted(6) by (simp add: plain_opts_def)
    have "txn_committed s en startE ?lg1 (tail @ [endE]) r \<or> txn_failed ?lg1 (tail @ [endE]) \<and> isl r"
    proof (cases r1)
      case (Inr pending)
      with shape obtain sumE cpE p res0 cp where sh: "tail = [sumE, cpE]" "ev_surfaceOp sumE = None"
        "ev_data sumE = CompactionSummary (summary_data st p res0)" "ev_data cpE = UserMessage cp"
        "pc_selection p = sel" "ev_surfaceOp cpE = ao_surfaceOp (checkpoint_opts startE sumE p)"
        "\<forall>q. cr_startSeq (pending q) = ev_seq startE \<and> cr_summarySeq (pending q) = ev_seq sumE \<and>
             cr_endSeq (pending q) = q \<and> cr_shadowedSeqs (pending q) = ss_shadowedSeqs sel" by auto
      have "r = settle env opts True (Inr (pending (ev_seq endE)))" using res(2) Accepted(1) Inr by simp
      then have "r = Inr res \<Longrightarrow> res = pending (ev_seq endE)" for res by (auto dest: settle_Inr sym)
      then have "\<forall>res. r = Inr res \<longrightarrow> cr_startSeq res = ev_seq startE \<and> cr_summarySeq res = ev_seq sumE \<and>
           cr_endSeq res = ev_seq endE \<and> cr_shadowedSeqs res = ss_shadowedSeqs (pc_selection p)"
        using sh(5,7) by metis
      with sh sel op Accepted(4) Inr fold2 show ?thesis
        by (intro disjI1) (simp, intro committed_outcome [where st = st and p = p and res = res0 and cp = cp];
            simp add: d_def)
    next
      case (Inl f)
      have "\<exists>p. foldSurface (?lg1 @ (tail @ [endE])) = Inr p" using fold2 by simp
      moreover obtain ns where ns: "surface_of ?lg1 ns"
        using foldSurface_prefix [OF calculation [THEN someI_ex]] unfolding surface_of_def by (metis surj_pair)
      moreover have "\<forall>e \<in> set (tail @ [endE]). ev_surfaceOp e = None" using shape Inl op by auto
      ultimately have "surface_of (?lg1 @ tail @ [endE]) ns" using surface_of_log_steps by blast
      with ns shape Inl Accepted(4) have "txn_failed ?lg1 (tail @ [endE])"
        unfolding txn_failed_def
        by (intro exI [of _ tail] exI [of _ endE]) (auto simp: d_def close_data_def split: prod.splits)
      then show ?thesis using res(2) Accepted(1) Inl settle_Inl by simp
    qed
    with free g(2) log2 show ?thesis unfolding bracket_outcome_def
      by (intro exI [of _ mid] exI [of _ "tail @ [endE]"]) auto
  qed
qed

lemma tx_validate_sel: "tx_validate tx s en = (tx', Inr sel) \<Longrightarrow> ss_start sel = s \<and> ss_end sel = en"
  by (auto simp: tx_validate_def validateSurfaceRegion_def dest!: andThen_split
      split: prod.splits sum.splits option.splits if_splits bool.splits)

text \<open>
  C32. A compaction transaction leaves the log in one of four shapes. It is refused before the lock
  is taken and the log is as it was; or the log holds the opening marker, whatever other work
  appended while the summarizer ran, and then: summary, checkpoint and successful close, with the
  span from start to end replaced on the surface by the checkpoint and the lock free; or at most a
  summary and a close with an error, with the surface unchanged and the lock free; or no close at
  all, which is a failure and holds the lock. A result is returned only for a committed bracket and
  names its events.
\<close>

theorem compaction_outcomes:
  assumes "session_run (tx_session tx)" "txn_env_ok env" "compactSurfaceRegion env opts tx s en = (tx', r)"
  shows "se_log (tx_session tx') = se_log (tx_session tx) \<and> isl r \<or>
    (\<exists>startE st mid tail. se_log (tx_session tx') = se_log (tx_session tx) @ startE # mid @ tail \<and>
       ev_data startE = CompactionStart st \<and> cs_compactionId st = te_compactionId env \<and>
       (\<forall>x \<in> set mid. \<not> closes_bracket (ev_data x)) \<and>
       bracket_outcome s en startE (se_log (tx_session tx) @ startE # mid) tail r)"
proof -
  let ?lg = "se_log (tx_session tx)"
  obtain tx1 r1 where 1: "tx_validate tx s en = (tx1, r1)" by (metis surj_pair)
  have ok1: "session_ok (tx_session tx1)" and log1: "se_log (tx_session tx1) = ?lg"
    using tx_validate_quiet [of tx s en] session_run_ok [OF assms(1)] 1 by (simp_all add: quiet_def)
  show ?thesis
  proof (cases "(to_manual opts \<and> te_aborted env 0) \<or> isl r1 \<or>
      \<not> assertCompactionInactive (en_unmatchedStart (inspectCompactionEntryState ?lg)) (en_latestEndSeedSeq (inspectCompactionEntryState ?lg)) \<or>
      isl (entry_owner opts (inspectCompactionEntryState ?lg))")
    case True
    then show ?thesis
      using assms(3) 1 log1 by (cases r1) (auto simp: compactSurfaceRegion_def Let_def split: if_splits sum.splits)
  next
    case False
    then obtain sel own where sel: "r1 = Inr sel" and own: "entry_owner opts (inspectCompactionEntryState ?lg) = Inr own"
      by (cases r1; cases "entry_owner opts (inspectCompactionEntryState ?lg)") auto
    define st where "st = \<lparr>cs_compactionId = te_compactionId env, cs_sourceCommandId = to_sourceCommandId opts, cs_turn = own\<rparr>"
    obtain tx2 r2 where 2: "tx_append env tx1 (CompactionStart st) plain_opts = (tx2, r2)" by (metis surj_pair)
    have run: "andThen (tx2, r2) (\<lambda>tx startE. run_bracket env opts startE st sel tx) = (tx', r)"
      using assms(3) 1 2 sel own False log1 by (auto simp: compactSurfaceRegion_def st_def Let_def split: if_splits)
    from 2 ok1 show ?thesis
    proof (cases rule: tx_append_cases)
      case (Rejected err)
      then show ?thesis using run log1 by auto
    next
      case (Accepted startE)
      then have "run_bracket env opts startE st sel tx2 = (tx', r)" using run by simp
      with run_bracket_outcome [OF assms(2) Accepted(3) _ Accepted(4)] Accepted(2) log1 tx_validate_sel 1 sel
      have "\<exists>mid tail. se_log (tx_session tx') = ?lg @ startE # mid @ tail \<and>
        (\<forall>x \<in> set mid. \<not> closes_bracket (ev_data x)) \<and> bracket_outcome s en startE (?lg @ startE # mid) tail r"
        by metis
      with Accepted(4) show ?thesis unfolding st_def by fastforce
    qed
  qed
qed

definition sample_env :: txn_env where
  "sample_env =
     \<lparr>te_measure = (\<lambda>_. [(0, 5), (1, 5), (2, 5), (3, 5)]), te_estimateMessage = (\<lambda>_. 4),
      te_summarize = (\<lambda>_ s. (s, Inr \<lparr>sr_summary = [TextBlock ''s''], sr_provider = ''p'', sr_model = ''m'',
         sr_maxTokens = None, sr_usage = None, sr_rawOutput = None, sr_llmStreamCall = False\<rparr>)),
      te_compactionId = ''k'', te_messageId = ''m9'', te_now = (\<lambda>_. 0), te_veto = (\<lambda>_ _. False),
      te_aborted = (\<lambda>_. False), te_errorChain = (\<lambda>_. ''failed'')\<rparr>"

definition sample_options :: txn_options where
  "sample_options = \<lparr>to_manual = True, to_stability = SelectedSpan, to_flush = None, to_sourceCommandId = None\<rparr>"

definition sample_tx :: txn_state where
  "sample_tx = \<lparr>tx_session = (case new_session False ''s'' (Some pairing_log) (header_json sample_header) 0 of
     Inr s \<Rightarrow> s | Inl _ \<Rightarrow> blank_session sample_header), tx_cache = None\<rparr>"

lemma sample_tx_run: "session_run (tx_session sample_tx)"
proof -
  have "\<not> isl (new_session False ''s'' (Some pairing_log) (header_json sample_header) 0)" by code_simp
  then show ?thesis
    by (auto simp: sample_tx_def split: sum.splits intro: session_start)
qed

lemma sample_env_ok: "txn_env_ok sample_env"
  by (auto simp: txn_env_ok_def sample_env_def)

theorem compaction_outcomes_witness:
  "\<exists>startE mid tail. se_log (tx_session (fst (compactSurfaceRegion sample_env sample_options sample_tx 0 2))) =
       se_log (tx_session sample_tx) @ startE # mid @ tail \<and>
     txn_committed 0 2 startE (se_log (tx_session sample_tx) @ startE # mid) tail
       (snd (compactSurfaceRegion sample_env sample_options sample_tx 0 2))"
proof -
  have "\<not> isl (snd (compactSurfaceRegion sample_env sample_options sample_tx 0 2))" by code_simp
  with compaction_outcomes [OF sample_tx_run sample_env_ok surjective_pairing] show ?thesis
    unfolding bracket_outcome_def by blast
qed

end
