(* ===== verification/Goal_Fold.thy ===== *)
theory Goal_Fold
  imports Session_Log "HOL-Library.List_Lexorder" "HOL-Library.Char_ord"
begin

text \<open>
  The durable goal of a session: the strict decoder and replay fold of \<open>goal/goal/src/fold.ts\<close>, the
  vocabulary of \<open>types.ts\<close> and \<open>domain.ts\<close>, the projection fold and the fork-seed clear of
  \<open>index.ts\<close>. A \<open>goal/change\<close> event is one of the merged event types, so its payload is JSON and the
  decoder is modelled on JSON. The theorems show that decoding inverts the written payload, what a
  replayed goal history guarantees, and that clearing a fork seed leaves a history without goal.
\<close>

section \<open>Vocabulary\<close>

record goal_ref =
  gr_id :: string
  gr_revision :: int

datatype goal_phase = PhaseActive | PhasePaused | PhaseBlocked | PhaseComplete

record block_reason =
  br_code :: string
  br_message :: string

record goal_snapshot =
  gs_id :: string
  gs_revision :: int
  gs_objective :: string
  gs_phase :: goal_phase
  gs_blockedReason :: "block_reason option"
  gs_maxGoalRounds :: int

datatype snapshot_operation = GoalCreate | GoalEdit | GoalPause | GoalResume | GoalComplete | GoalBlock

datatype goal_change =
    SnapshotChange snapshot_operation goal_snapshot int int int
  | ClearChange goal_ref int

record goal_source =
  gm_goalId :: string
  gm_revision :: int
  gm_round :: int

datatype goal_fold_error =
    BadInteger string
  | BadBlockReasonFields
  | BadBlockReasonCode
  | BadBlockReasonMessage
  | GoalNotRecord
  | BadGoalId
  | BadObjective
  | BadPhase
  | BadSnapshotFields
  | BadTombstoneFields
  | BadTombstoneId
  | UnsupportedVersion
  | BadClearFields
  | BadOperation
  | BadChangeFields
  | UpdatedBeforeCreated
  | BadGoalSource
  | DefinitionChanged
  | RevisionNotNext
  | LacksUpdatedAt
  | CountersNotPreserved
  | EditChangesPhase
  | BadPauseTransition
  | BadResumeTransition
  | BadCompleteTransition
  | BadBlockTransition
  | NoCurrentGoal
  | ClearBeforeUpdate
  | BadCreate
  | ChangeKindInvalid int
  | RoundNotNext int

record goal_state =
  gf_goal :: "goal_snapshot option"
  gf_roundsStarted :: int
  gf_createdAt :: "int option"
  gf_updatedAt :: "int option"
  gf_lastRef :: "goal_ref option"
  gf_seenGoalIds :: "string set"

definition emptyGoalFoldState :: goal_state where
  "emptyGoalFoldState =
     \<lparr>gf_goal = None, gf_roundsStarted = 0, gf_createdAt = None, gf_updatedAt = None, gf_lastRef = None,
      gf_seenGoalIds = {}\<rparr>"

section \<open>The decoder\<close>

text \<open>\<open>Object.keys(value).sort().join(',')\<close>.\<close>

fun join_comma :: "string list \<Rightarrow> string" where
  "join_comma [] = []"
| "join_comma [x] = x"
| "join_comma (x # y # ys) = x @ '','' @ join_comma (y # ys)"

definition key_line :: "json_record \<Rightarrow> string" where
  "key_line ps = join_comma (sort (map fst ps))"

definition int_at_least :: "int \<Rightarrow> json option \<Rightarrow> string \<Rightarrow> goal_fold_error + int" where
  "int_at_least least v field =
     (case as_safe_integer v of
        Some i \<Rightarrow> if least \<le> i then Inr i else Inl (BadInteger field)
      | None \<Rightarrow> Inl (BadInteger field))"

definition positiveInteger :: "json option \<Rightarrow> string \<Rightarrow> goal_fold_error + int" where
  "positiveInteger v field = int_at_least 1 v field"

definition nonNegativeInteger :: "json option \<Rightarrow> string \<Rightarrow> goal_fold_error + int" where
  "nonNegativeInteger v field = int_at_least 0 v field"

text \<open>
  The pattern of a block code: a lower-case letter, then letters and digits, in groups separated by
  single hyphens. The flag says that a group must start here.
\<close>

definition is_lower :: "char \<Rightarrow> bool" where
  "is_lower c \<longleftrightarrow> of_char c \<in> {97..122 :: nat}"

definition is_digit :: "char \<Rightarrow> bool" where
  "is_digit c \<longleftrightarrow> of_char c \<in> {48..57 :: nat}"

fun kebab_rest :: "bool \<Rightarrow> string \<Rightarrow> bool" where
  "kebab_rest fresh [] = (\<not> fresh)"
| "kebab_rest fresh (c # cs) =
     (if is_lower c \<or> is_digit c then kebab_rest False cs
      else c = CHR ''-'' \<and> \<not> fresh \<and> kebab_rest True cs)"

fun is_kebab :: "string \<Rightarrow> bool" where
  "is_kebab [] = False"
| "is_kebab (c # cs) = (is_lower c \<and> kebab_rest False cs)"

text \<open>Non-empty after trimming and equal to its trimmed form.\<close>

definition is_normalized :: "string \<Rightarrow> bool" where
  "is_normalized s \<longleftrightarrow> js_trim s \<noteq> [] \<and> s = js_trim s"

definition string_where :: "(string \<Rightarrow> bool) \<Rightarrow> json option \<Rightarrow> goal_fold_error \<Rightarrow> goal_fold_error + string" where
  "string_where P v err =
     (case as_string v of Some s \<Rightarrow> if P s then Inr s else Inl err | None \<Rightarrow> Inl err)"

definition decodeBlockReason :: "json option \<Rightarrow> goal_fold_error + block_reason" where
  "decodeBlockReason v =
     (case Option.bind v as_record of
        None \<Rightarrow> Inl BadBlockReasonFields
      | Some ps \<Rightarrow>
          bind_result (ensure (key_line ps = ''code,message'') BadBlockReasonFields) (\<lambda>_.
          bind_result (string_where is_kebab (jget ps ''code'') BadBlockReasonCode) (\<lambda>code.
          bind_result (string_where is_normalized (jget ps ''message'') BadBlockReasonMessage) (\<lambda>msg.
            Inr \<lparr>br_code = code, br_message = msg\<rparr>))))"

definition phase_of :: "string \<Rightarrow> goal_phase option" where
  "phase_of s =
     (if s = ''active'' then Some PhaseActive else if s = ''paused'' then Some PhasePaused
      else if s = ''blocked'' then Some PhaseBlocked else if s = ''complete'' then Some PhaseComplete
      else None)"

fun phase_name :: "goal_phase \<Rightarrow> string" where
  "phase_name PhaseActive = ''active''"
| "phase_name PhasePaused = ''paused''"
| "phase_name PhaseBlocked = ''blocked''"
| "phase_name PhaseComplete = ''complete''"

definition decodeSnapshot :: "json option \<Rightarrow> goal_fold_error + goal_snapshot" where
  "decodeSnapshot v =
     (case Option.bind v as_record of
        None \<Rightarrow> Inl GoalNotRecord
      | Some ps \<Rightarrow>
          bind_result (string_where (\<lambda>s. s \<noteq> []) (jget ps ''id'') BadGoalId) (\<lambda>i.
          bind_result (string_where is_normalized (jget ps ''objective'') BadObjective) (\<lambda>objective.
          bind_result (case Option.bind (as_string (jget ps ''phase'')) phase_of of
              Some p \<Rightarrow> Inr p | None \<Rightarrow> Inl BadPhase) (\<lambda>phase.
          bind_result (ensure (key_line ps =
              (if phase = PhaseBlocked then ''blockedReason,id,maxGoalRounds,objective,phase,revision''
               else ''id,maxGoalRounds,objective,phase,revision'')) BadSnapshotFields) (\<lambda>_.
          bind_result (positiveInteger (jget ps ''revision'') ''goal.revision'') (\<lambda>revision.
          bind_result (positiveInteger (jget ps ''maxGoalRounds'') ''goal.maxGoalRounds'') (\<lambda>cap.
          bind_result (if phase = PhaseBlocked
              then bind_result (decodeBlockReason (jget ps ''blockedReason'')) (\<lambda>r. Inr (Some r)) else Inr None) (\<lambda>reason.
            Inr \<lparr>gs_id = i, gs_revision = revision, gs_objective = objective, gs_phase = phase,
                 gs_blockedReason = reason, gs_maxGoalRounds = cap\<rparr>))))))))"

definition decodeRef :: "json option \<Rightarrow> goal_fold_error + goal_ref" where
  "decodeRef v =
     (case Option.bind v as_record of
        None \<Rightarrow> Inl BadTombstoneFields
      | Some ps \<Rightarrow>
          bind_result (ensure (key_line ps = ''id,revision'') BadTombstoneFields) (\<lambda>_.
          bind_result (string_where (\<lambda>s. s \<noteq> []) (jget ps ''id'') BadTombstoneId) (\<lambda>i.
          bind_result (positiveInteger (jget ps ''revision'') ''cleared.revision'') (\<lambda>revision.
            Inr \<lparr>gr_id = i, gr_revision = revision\<rparr>))))"

definition operation_of :: "string \<Rightarrow> snapshot_operation option" where
  "operation_of s =
     (if s = ''create'' then Some GoalCreate else if s = ''edit'' then Some GoalEdit
      else if s = ''pause'' then Some GoalPause else if s = ''resume'' then Some GoalResume
      else if s = ''complete'' then Some GoalComplete else if s = ''block'' then Some GoalBlock
      else None)"

fun operation_name :: "snapshot_operation \<Rightarrow> string" where
  "operation_name GoalCreate = ''create''"
| "operation_name GoalEdit = ''edit''"
| "operation_name GoalPause = ''pause''"
| "operation_name GoalResume = ''resume''"
| "operation_name GoalComplete = ''complete''"
| "operation_name GoalBlock = ''block''"

definition GOAL_CHANGE_VERSION :: rat where
  "GOAL_CHANGE_VERSION = 1"

definition decode_clear :: "json_record \<Rightarrow> goal_fold_error + goal_change" where
  "decode_clear ps =
     bind_result (ensure (key_line ps = ''cleared,clearedAt,kind,operation,version'') BadClearFields) (\<lambda>_.
     bind_result (decodeRef (jget ps ''cleared'')) (\<lambda>ref.
     bind_result (nonNegativeInteger (jget ps ''clearedAt'') ''clearedAt'') (\<lambda>t.
       Inr (ClearChange ref t))))"

definition decode_snapshot_change :: "json_record \<Rightarrow> goal_fold_error + goal_change" where
  "decode_snapshot_change ps =
     bind_result (case Option.bind (as_string (jget ps ''operation'')) operation_of of
        Some op \<Rightarrow> Inr op | None \<Rightarrow> Inl BadOperation) (\<lambda>op.
     bind_result (ensure (key_line ps = ''createdAt,goal,kind,operation,roundsStarted,updatedAt,version'')
        BadChangeFields) (\<lambda>_.
     bind_result (nonNegativeInteger (jget ps ''createdAt'') ''createdAt'') (\<lambda>createdAt.
     bind_result (nonNegativeInteger (jget ps ''updatedAt'') ''updatedAt'') (\<lambda>updatedAt.
     bind_result (ensure (createdAt \<le> updatedAt) UpdatedBeforeCreated) (\<lambda>_.
     bind_result (decodeSnapshot (jget ps ''goal'')) (\<lambda>goal.
     bind_result (nonNegativeInteger (jget ps ''roundsStarted'') ''roundsStarted'') (\<lambda>rounds.
       Inr (SnapshotChange op goal rounds createdAt updatedAt))))))))"

definition decodeGoalChange :: "json \<Rightarrow> goal_fold_error + goal_change option" where
  "decodeGoalChange v =
     (case as_record v of
        None \<Rightarrow> Inr None
      | Some ps \<Rightarrow>
          if jget ps ''kind'' \<noteq> Some (JStr ''goal/change'') then Inr None
          else if jget ps ''version'' \<noteq> Some (JNum GOAL_CHANGE_VERSION) then Inl UnsupportedVersion
          else if jget ps ''operation'' = Some (JStr ''clear'')
          then bind_result (decode_clear ps) (\<lambda>c. Inr (Some c))
          else bind_result (decode_snapshot_change ps) (\<lambda>c. Inr (Some c)))"

section \<open>The payloads that are written\<close>

definition snapshot_json :: "goal_snapshot \<Rightarrow> json" where
  "snapshot_json g =
     JObj ([(''id'', JStr (gs_id g)), (''revision'', JNum (of_int (gs_revision g))),
            (''objective'', JStr (gs_objective g)), (''phase'', JStr (phase_name (gs_phase g))),
            (''maxGoalRounds'', JNum (of_int (gs_maxGoalRounds g)))]
       @ opt_field ''blockedReason'' (\<lambda>r. JObj [(''code'', JStr (br_code r)), (''message'', JStr (br_message r))])
           (gs_blockedReason g))"

fun change_json :: "goal_change \<Rightarrow> json" where
  "change_json (SnapshotChange op goal rounds createdAt updatedAt) =
     JObj [(''kind'', JStr ''goal/change''), (''version'', JNum GOAL_CHANGE_VERSION),
           (''operation'', JStr (operation_name op)), (''goal'', snapshot_json goal),
           (''roundsStarted'', JNum (of_int rounds)), (''createdAt'', JNum (of_int createdAt)),
           (''updatedAt'', JNum (of_int updatedAt))]"
| "change_json (ClearChange ref t) =
     JObj [(''kind'', JStr ''goal/change''), (''version'', JNum GOAL_CHANGE_VERSION),
           (''operation'', JStr ''clear''),
           (''cleared'', JObj [(''id'', JStr (gr_id ref)), (''revision'', JNum (of_int (gr_revision ref)))]),
           (''clearedAt'', JNum (of_int t))]"

section \<open>The replay fold\<close>

fun goalSource :: "message_source \<Rightarrow> goal_fold_error + goal_source option" where
  "goalSource (RawSource k fs) =
     (if k \<noteq> ''goal'' then Inr None
      else case (as_string (jget fs ''goalId''), as_safe_integer (jget fs ''revision''), as_safe_integer (jget fs ''round'')) of
             (Some i, Some v, Some r) \<Rightarrow>
               if i \<noteq> [] \<and> 1 \<le> v \<and> 1 \<le> r then Inr (Some \<lparr>gm_goalId = i, gm_revision = v, gm_round = r\<rparr>)
               else Inl BadGoalSource
           | _ \<Rightarrow> Inl BadGoalSource)"
| "goalSource _ = Inr None"

definition requireSameDefinition :: "goal_snapshot \<Rightarrow> goal_snapshot \<Rightarrow> goal_fold_error + unit" where
  "requireSameDefinition current nxt =
     ensure (gs_objective nxt = gs_objective current \<and> gs_maxGoalRounds nxt = gs_maxGoalRounds current) DefinitionChanged"

definition requireNextRevision :: "goal_snapshot \<Rightarrow> goal_ref \<Rightarrow> goal_fold_error + unit" where
  "requireNextRevision current nxt =
     ensure (gr_id nxt = gs_id current \<and> gr_revision nxt = gs_revision current + 1) RevisionNotNext"

definition snapshot_ref :: "goal_snapshot \<Rightarrow> goal_ref" where
  "snapshot_ref g = \<lparr>gr_id = gs_id g, gr_revision = gs_revision g\<rparr>"

fun operation_allowed ::
  "goal_state \<Rightarrow> snapshot_operation \<Rightarrow> goal_snapshot \<Rightarrow> goal_snapshot \<Rightarrow> goal_fold_error + unit" where
  "operation_allowed st GoalEdit current nxt =
     ensure (gs_phase nxt = gs_phase current \<and> gs_blockedReason nxt = gs_blockedReason current) EditChangesPhase"
| "operation_allowed st GoalPause current nxt =
     bind_result (requireSameDefinition current nxt) (\<lambda>_.
       ensure (gs_phase current = PhaseActive \<and> gs_phase nxt = PhasePaused) BadPauseTransition)"
| "operation_allowed st GoalResume current nxt =
     bind_result (requireSameDefinition current nxt) (\<lambda>_.
       ensure (gs_phase current \<in> {PhaseActive, PhasePaused, PhaseBlocked} \<and> gs_phase nxt = PhaseActive \<and>
               gf_roundsStarted st < gs_maxGoalRounds nxt) BadResumeTransition)"
| "operation_allowed st GoalComplete current nxt =
     bind_result (requireSameDefinition current nxt) (\<lambda>_.
       ensure (gs_phase current \<noteq> PhaseComplete \<and> gs_phase nxt = PhaseComplete) BadCompleteTransition)"
| "operation_allowed st GoalBlock current nxt =
     bind_result (requireSameDefinition current nxt) (\<lambda>_.
       ensure (gs_phase current = PhaseActive \<and> gs_phase nxt = PhaseBlocked) BadBlockTransition)"
| "operation_allowed st GoalCreate current nxt = Inl BadCreate"

definition validateSnapshotTransition ::
  "goal_state \<Rightarrow> snapshot_operation \<Rightarrow> goal_snapshot \<Rightarrow> int \<Rightarrow> int \<Rightarrow> int \<Rightarrow> goal_snapshot \<Rightarrow> goal_fold_error + unit" where
  "validateSnapshotTransition st op nxt rounds createdAt updatedAt current =
     bind_result (requireNextRevision current (snapshot_ref nxt)) (\<lambda>_.
       case gf_updatedAt st of
         None \<Rightarrow> Inl LacksUpdatedAt
       | Some u \<Rightarrow>
           bind_result (ensure (Some createdAt = gf_createdAt st \<and> u \<le> updatedAt \<and> rounds = gf_roundsStarted st)
              CountersNotPreserved) (\<lambda>_.
             operation_allowed st op current nxt))"

fun goalChangeRef :: "goal_change \<Rightarrow> goal_ref" where
  "goalChangeRef (ClearChange ref _) = ref"
| "goalChangeRef (SnapshotChange _ g _ _ _) = snapshot_ref g"

fun applyGoalChange :: "goal_state \<Rightarrow> goal_change \<Rightarrow> goal_fold_error + goal_state" where
  "applyGoalChange st (ClearChange ref t) =
     (case gf_goal st of
        None \<Rightarrow> Inl NoCurrentGoal
      | Some current \<Rightarrow>
          bind_result (requireNextRevision current ref) (\<lambda>_.
            case gf_updatedAt st of
              None \<Rightarrow> Inl LacksUpdatedAt
            | Some u \<Rightarrow>
                bind_result (ensure (u \<le> t) ClearBeforeUpdate) (\<lambda>_.
                  Inr (st\<lparr>gf_goal := None, gf_roundsStarted := 0, gf_createdAt := None, gf_updatedAt := None,
                         gf_lastRef := Some ref\<rparr>))))"
| "applyGoalChange st (SnapshotChange op g rounds createdAt updatedAt) =
     bind_result
       (if op = GoalCreate then
          bind_result (ensure (gs_revision g = 1 \<and> gs_phase g = PhaseActive \<and> rounds = 0 \<and>
              (case gf_goal st of None \<Rightarrow> True | Some c \<Rightarrow> gs_phase c = PhaseComplete) \<and>
              gs_id g \<notin> gf_seenGoalIds st) BadCreate) (\<lambda>_.
            Inr (st\<lparr>gf_seenGoalIds := insert (gs_id g) (gf_seenGoalIds st)\<rparr>))
        else
          (case gf_goal st of
             None \<Rightarrow> Inl NoCurrentGoal
           | Some current \<Rightarrow>
               bind_result (validateSnapshotTransition st op g rounds createdAt updatedAt current) (\<lambda>_. Inr st)))
       (\<lambda>st. Inr (st\<lparr>gf_goal := Some g, gf_roundsStarted := rounds, gf_createdAt := Some createdAt,
                  gf_updatedAt := Some updatedAt, gf_lastRef := Some (snapshot_ref g)\<rparr>))"

definition admit_round :: "goal_state \<Rightarrow> int \<Rightarrow> goal_source \<Rightarrow> goal_fold_error + goal_state" where
  "admit_round st seq src =
     (case gf_goal st of
        None \<Rightarrow> Inl (RoundNotNext seq)
      | Some g \<Rightarrow>
          if gs_phase g \<noteq> PhaseActive \<or> gm_goalId src \<noteq> gs_id g \<or> gm_revision src \<noteq> gs_revision g
             \<or> gm_round src \<noteq> gf_roundsStarted st + 1 \<or> gs_maxGoalRounds g < gm_round src
          then Inl (RoundNotNext seq)
          else Inr (st\<lparr>gf_roundsStarted := gm_round src\<rparr>))"

definition applyGoalEvent :: "goal_state \<Rightarrow> session_event \<Rightarrow> goal_fold_error + goal_state" where
  "applyGoalEvent st e =
     (case ev_data e of
        OtherEvent t v \<Rightarrow>
          if t = ''goal/change'' then
            bind_result (decodeGoalChange v) (\<lambda>c.
              case c of None \<Rightarrow> Inl (ChangeKindInvalid (ev_seq e)) | Some c \<Rightarrow> applyGoalChange st c)
          else Inr st
      | UserMessage m \<Rightarrow>
          bind_result (goalSource (msg_source m)) (\<lambda>src.
            case src of None \<Rightarrow> Inr st | Some src \<Rightarrow> admit_round st (ev_seq e) src)
      | _ \<Rightarrow> Inr st)"

fun fold_goal_events :: "goal_state \<Rightarrow> session_event list \<Rightarrow> goal_fold_error + goal_state" where
  "fold_goal_events st [] = Inr st"
| "fold_goal_events st (e # es) = bind_result (applyGoalEvent st e) (\<lambda>st'. fold_goal_events st' es)"

record folded_goal =
  fg_goal :: "goal_snapshot option"
  fg_roundsStarted :: int
  fg_createdAt :: "int option"
  fg_updatedAt :: "int option"
  fg_lastRef :: "goal_ref option"

definition foldGoal :: "session_event list \<Rightarrow> goal_fold_error + folded_goal" where
  "foldGoal events =
     bind_result (fold_goal_events emptyGoalFoldState events) (\<lambda>st.
       Inr \<lparr>fg_goal = gf_goal st, fg_roundsStarted = gf_roundsStarted st, fg_createdAt = gf_createdAt st,
            fg_updatedAt = gf_updatedAt st, fg_lastRef = gf_lastRef st\<rparr>)"

section \<open>Projection and fork seeds\<close>

record goal_projection =
  gp_goal :: goal_snapshot
  gp_roundsStarted :: int
  gp_createdAt :: int
  gp_updatedAt :: int

definition applyGoalProjection :: "goal_projection option \<Rightarrow> session_event \<Rightarrow> goal_projection option" where
  "applyGoalProjection st e =
     (case ev_data e of
        OtherEvent t v \<Rightarrow>
          if t \<noteq> ''goal/change'' then st
          else (case decodeGoalChange v of
                  Inr (Some (ClearChange _ _)) \<Rightarrow> None
                | Inr (Some (SnapshotChange _ g rounds createdAt updatedAt)) \<Rightarrow>
                    Some \<lparr>gp_goal = g, gp_roundsStarted = rounds, gp_createdAt = createdAt, gp_updatedAt = updatedAt\<rparr>
                | _ \<Rightarrow> st)
      | _ \<Rightarrow> st)"

definition goalClearChange :: "goal_snapshot \<Rightarrow> int \<Rightarrow> goal_change" where
  "goalClearChange current clearedAt =
     ClearChange \<lparr>gr_id = gs_id current, gr_revision = gs_revision current + 1\<rparr> clearedAt"

definition clearGoalFromForkSeed ::
  "session_event list \<Rightarrow> int \<Rightarrow> goal_fold_error + session_event list" where
  "clearGoalFromForkSeed seed clearedAt =
     bind_result (fold_goal_events emptyGoalFoldState seed) (\<lambda>st.
       case gf_goal st of
         None \<Rightarrow> Inr seed
       | Some current \<Rightarrow>
           (case gf_updatedAt st of
              None \<Rightarrow> Inl LacksUpdatedAt
            | Some u \<Rightarrow>
                let time = max clearedAt u in
                Inr (seed @ [\<lparr>ev_seq = int (length seed), ev_time = time,
                       ev_data = OtherEvent ''goal/change'' (change_json (goalClearChange current time)),
                       ev_surfaceOp = None, ev_sourceEventSeqs = None, ev_ignorable = False\<rparr>])))"

section \<open>Decoding inverts writing\<close>

definition safe_from :: "int \<Rightarrow> int \<Rightarrow> bool" where
  "safe_from least i \<longleftrightarrow> least \<le> i \<and> i \<le> max_safe_integer"

definition reason_wf :: "block_reason \<Rightarrow> bool" where
  "reason_wf r \<longleftrightarrow> is_kebab (br_code r) \<and> is_normalized (br_message r)"

definition snapshot_wf :: "goal_snapshot \<Rightarrow> bool" where
  "snapshot_wf g \<longleftrightarrow>
     gs_id g \<noteq> [] \<and> is_normalized (gs_objective g) \<and> safe_from 1 (gs_revision g) \<and> safe_from 1 (gs_maxGoalRounds g) \<and>
     (gs_blockedReason g = None \<longleftrightarrow> gs_phase g \<noteq> PhaseBlocked) \<and> pred_option reason_wf (gs_blockedReason g)"

fun change_wf :: "goal_change \<Rightarrow> bool" where
  "change_wf (SnapshotChange op g rounds createdAt updatedAt) =
     (snapshot_wf g \<and> safe_from 0 rounds \<and> safe_from 0 createdAt \<and> safe_from 0 updatedAt \<and> createdAt \<le> updatedAt)"
| "change_wf (ClearChange ref t) = (gr_id ref \<noteq> [] \<and> safe_from 1 (gr_revision ref) \<and> safe_from 0 t)"

lemma as_safe_integer_of_int: "0 \<le> i \<Longrightarrow> i \<le> max_safe_integer \<Longrightarrow> as_safe_integer (Some (JNum (of_int i))) = Some i"
  by (simp add: safe_integer_of_def safe_int_def)

lemma as_safe_integer_bound: "as_safe_integer v = Some i \<Longrightarrow> i \<le> max_safe_integer"
  by (auto simp: safe_integer_of_def safe_int_def split: if_splits elim!: as_safe_integer.elims)

lemma int_at_least_Inr: "0 \<le> least \<Longrightarrow> int_at_least least v f = Inr i \<Longrightarrow> safe_from least i"
  by (auto simp: int_at_least_def safe_from_def dest: as_safe_integer_bound split: option.splits if_splits)

lemma int_at_least_safe:
  "int_at_least 0 v f = Inr i \<Longrightarrow> safe_from 0 i" "int_at_least 1 v f = Inr i \<Longrightarrow> safe_from 1 i"
  by (rule int_at_least_Inr; simp)+

lemma int_at_least_json: "0 \<le> least \<Longrightarrow> safe_from least i \<Longrightarrow> int_at_least least (Some (JNum (of_int i))) f = Inr i"
  by (simp add: int_at_least_def safe_from_def as_safe_integer_of_int del: as_safe_integer.simps)

lemma string_where_Inr: "string_where P v err = Inr s \<longleftrightarrow> as_string v = Some s \<and> P s"
  by (auto simp: string_where_def split: option.splits)

lemma phase_of_name [simp]: "phase_of (phase_name p) = Some p"
  by (cases p) (simp_all add: phase_of_def)

lemma operation_of_name [simp]: "operation_of (operation_name op) = Some op" "operation_name op \<noteq> ''clear''"
  by (cases op; simp add: operation_of_def)+

lemma key_line_cases:
  "key_line [(''code'', a1), (''message'', a2)] = ''code,message''"
  "key_line [(''id'', b1), (''revision'', b2), (''objective'', b3), (''phase'', b4), (''maxGoalRounds'', b5), (''blockedReason'', b6)]
     = ''blockedReason,id,maxGoalRounds,objective,phase,revision''"
  "key_line [(''id'', b1), (''revision'', b2), (''objective'', b3), (''phase'', b4), (''maxGoalRounds'', b5)]
     = ''id,maxGoalRounds,objective,phase,revision''"
  "key_line [(''id'', b1), (''revision'', b2)] = ''id,revision''"
  "key_line [(''kind'', c1), (''version'', c2), (''operation'', c3), (''cleared'', c4), (''clearedAt'', c5)]
     = ''cleared,clearedAt,kind,operation,version''"
  "key_line [(''kind'', d1), (''version'', d2), (''operation'', d3), (''goal'', d4), (''roundsStarted'', d5), (''createdAt'', d6), (''updatedAt'', d7)]
     = ''createdAt,goal,kind,operation,roundsStarted,updatedAt,version''"
  unfolding key_line_def list.map fst_conv by code_simp+

lemma decodeSnapshot_json:
  assumes "snapshot_wf g"
  shows "decodeSnapshot (Some (snapshot_json g)) = Inr g"
proof (cases "gs_blockedReason g")
  case None
  with assms show ?thesis
    by (cases g) (auto simp: snapshot_wf_def snapshot_json_def decodeSnapshot_def opt_field_def string_where_def jget_def
        positiveInteger_def int_at_least_json key_line_cases)
next
  case (Some r)
  then have "decodeBlockReason (Some (JObj [(''code'', JStr (br_code r)), (''message'', JStr (br_message r))])) = Inr r"
    using assms by (cases r) (simp add: snapshot_wf_def reason_wf_def decodeBlockReason_def string_where_def jget_def key_line_cases)
  with assms Some show ?thesis
    by (cases g) (auto simp: phase_of_def snapshot_wf_def snapshot_json_def decodeSnapshot_def opt_field_def string_where_def jget_def
        positiveInteger_def int_at_least_json key_line_cases)
qed

lemma decodeGoalChange_json:
  assumes "change_wf c"
  shows "decodeGoalChange (change_json c) = Inr (Some c)"
proof (cases c)
  case (SnapshotChange op g rounds createdAt updatedAt)
  with assms show ?thesis
    by (simp add: decodeGoalChange_def decode_snapshot_change_def jget_def key_line_cases nonNegativeInteger_def
        int_at_least_json decodeSnapshot_json)
next
  case (ClearChange ref t)
  with assms show ?thesis
    by (cases ref) (simp add: decodeGoalChange_def decode_clear_def decodeRef_def string_where_def jget_def key_line_cases
        positiveInteger_def nonNegativeInteger_def int_at_least_json)
qed

lemma decodeSnapshot_wf: "decodeSnapshot v = Inr g \<Longrightarrow> snapshot_wf g"
  by (auto simp: decodeSnapshot_def decodeBlockReason_def snapshot_wf_def reason_wf_def string_where_Inr
      positiveInteger_def result_simps split: option.splits if_splits dest: int_at_least_safe)

lemma decodeGoalChange_wf: "decodeGoalChange v = Inr (Some c) \<Longrightarrow> change_wf c"
  by (auto simp: decodeGoalChange_def decode_clear_def decode_snapshot_change_def decodeRef_def string_where_Inr
      positiveInteger_def nonNegativeInteger_def result_simps split: option.splits if_splits
      dest: int_at_least_safe decodeSnapshot_wf)

section \<open>What a goal history guarantees\<close>

text \<open>The rounds that a log admits for one goal.\<close>

fun round_of :: "session_event \<Rightarrow> goal_source option" where
  "round_of e =
     (case ev_data e of
        UserMessage m \<Rightarrow> (case goalSource (msg_source m) of Inr (Some src) \<Rightarrow> Some src | _ \<Rightarrow> None)
      | _ \<Rightarrow> None)"

definition rounds_for :: "session_event list \<Rightarrow> string \<Rightarrow> int list" where
  "rounds_for lg i = map gm_round (filter (\<lambda>src. gm_goalId src = i) (List.map_filter round_of lg))"

definition goal_inv :: "session_event list \<Rightarrow> goal_state \<Rightarrow> bool" where
  "goal_inv lg st \<longleftrightarrow>
     (\<forall>i. i \<notin> gf_seenGoalIds st \<longrightarrow> rounds_for lg i = []) \<and>
     (case gf_goal st of
        None \<Rightarrow> gf_roundsStarted st = 0 \<and> gf_createdAt st = None \<and> gf_updatedAt st = None
      | Some g \<Rightarrow> snapshot_wf g \<and> gs_id g \<in> gf_seenGoalIds st \<and> gf_lastRef st = Some (snapshot_ref g) \<and>
          (\<exists>c u. gf_createdAt st = Some c \<and> gf_updatedAt st = Some u \<and> 0 \<le> c \<and> c \<le> u \<and> u \<le> max_safe_integer) \<and>
          safe_from 0 (gf_roundsStarted st) \<and> rounds_for lg (gs_id g) = [1..gf_roundsStarted st])"

lemma rounds_for_snoc:
  "rounds_for (lg @ [e]) i =
     rounds_for lg i @ (case round_of e of Some src \<Rightarrow> if gm_goalId src = i then [gm_round src] else [] | None \<Rightarrow> [])"
  by (auto simp: rounds_for_def map_filter_def split: option.split)

lemma goal_inv_same: "(\<And>i. rounds_for lg' i = rounds_for lg i) \<Longrightarrow> goal_inv lg' st \<longleftrightarrow> goal_inv lg st"
  by (cases "gf_goal st") (simp_all add: goal_inv_def)

lemma operation_allowed_counters:
  "validateSnapshotTransition st op nxt rounds createdAt updatedAt current = Inr u \<Longrightarrow>
   gs_id nxt = gs_id current \<and> gs_revision nxt = gs_revision current + 1 \<and> rounds = gf_roundsStarted st"
  by (auto simp: validateSnapshotTransition_def requireNextRevision_def snapshot_ref_def result_simps split: option.splits)

lemma applyGoalChange_inv:
  assumes inv: "goal_inv lg st" and wf: "change_wf c" and step: "applyGoalChange st c = Inr st'"
    and same: "\<And>i. rounds_for lg' i = rounds_for lg i"
  shows "goal_inv lg' st'"
proof (cases c)
  case (ClearChange ref t)
  with inv step same show ?thesis by (auto simp: goal_inv_def result_simps split: option.splits)
next
  case (SnapshotChange op g rounds createdAt updatedAt)
  show ?thesis
  proof (cases "op = GoalCreate")
    case True
    with SnapshotChange inv wf step same show ?thesis
      by (auto simp: goal_inv_def result_simps safe_from_def)
  next
    case False
    with SnapshotChange step obtain cur u where cur: "gf_goal st = Some cur"
      "validateSnapshotTransition st op g rounds createdAt updatedAt cur = Inr u"
      "st' = st\<lparr>gf_goal := Some g, gf_roundsStarted := rounds, gf_createdAt := Some createdAt,
                  gf_updatedAt := Some updatedAt, gf_lastRef := Some (snapshot_ref g)\<rparr>"
      by (auto simp: result_simps split: option.splits)
    from operation_allowed_counters [OF cur(2)] cur(1,3) inv wf SnapshotChange same show ?thesis
      by (auto simp: goal_inv_def safe_from_def)
  qed
qed

lemma upto_snoc: "0 \<le> n \<Longrightarrow> [1..n] @ [n + 1] = [1..n + (1 :: int)]"
  by (simp add: upto_rec2)

lemma goal_step_inv:
  assumes inv: "goal_inv lg st" and step: "applyGoalEvent st e = Inr st'"
  shows "goal_inv (lg @ [e]) st'"
proof (cases "ev_data e")
  case (UserMessage m)
  show ?thesis
  proof (cases "round_of e")
    case None
    with UserMessage step have "st' = st" by (auto simp: applyGoalEvent_def result_simps split: option.splits sum.splits)
    with inv show ?thesis using goal_inv_same [of "lg @ [e]" lg st] None by (simp add: rounds_for_snoc del: round_of.simps)
  next
    case (Some src)
    with UserMessage step have a: "admit_round st (ev_seq e) src = Inr st'"
      by (auto simp: applyGoalEvent_def result_simps split: option.splits sum.splits)
    then obtain g where g: "gf_goal st = Some g" "gm_goalId src = gs_id g" "gm_round src = gf_roundsStarted st + 1"
      "gm_round src \<le> gs_maxGoalRounds g" "st' = st\<lparr>gf_roundsStarted := gm_round src\<rparr>"
      by (auto simp: admit_round_def split: option.splits if_splits)
    have "safe_from 0 (gm_round src)"
      using inv g(1,3,4) by (auto simp: goal_inv_def snapshot_wf_def safe_from_def)
    with inv Some g upto_snoc [of "gf_roundsStarted st"] show ?thesis
      by (auto simp: goal_inv_def safe_from_def rounds_for_snoc simp del: round_of.simps)
  qed
next
  case (OtherEvent t v)
  then have same: "rounds_for (lg @ [e]) i = rounds_for lg i" for i by (simp add: rounds_for_snoc)
  show ?thesis
  proof (cases "t = ''goal/change''")
    case True
    with OtherEvent step obtain c where "decodeGoalChange v = Inr (Some c)" "applyGoalChange st c = Inr st'"
      by (auto simp: applyGoalEvent_def result_simps split: option.splits)
    with applyGoalChange_inv [OF inv decodeGoalChange_wf _ same] show ?thesis by blast
  next
    case False
    with OtherEvent step inv goal_inv_same [of "lg @ [e]" lg st, OF same] show ?thesis by (simp add: applyGoalEvent_def)
  qed
qed (use inv step goal_inv_same [of "lg @ [e]" lg st] in \<open>simp_all add: applyGoalEvent_def rounds_for_snoc\<close>)

interpretation goals: log_replay "\<lambda>pre st e. applyGoalEvent st e" emptyGoalFoldState goal_inv
proof
  show "goal_inv [] emptyGoalFoldState"
    by (simp add: goal_inv_def emptyGoalFoldState_def rounds_for_def map_filter_def)
qed (rule goal_step_inv)

lemma fold_goal_replay: "fold_goal_events st es = replay_from (\<lambda>pre st e. applyGoalEvent st e) pre st es"
  by (induction es arbitrary: st pre) simp_all

lemma fold_goal_project: "fold_goal_events emptyGoalFoldState es = goals.project es"
  by (simp add: goals.project_def fold_goal_replay [of _ _ "[]"])

lemma fold_goal_append: "fold_goal_events st (xs @ ys) = bind_result (fold_goal_events st xs) (\<lambda>st'. fold_goal_events st' ys)"
  by (induction xs arbitrary: st) (simp_all add: bind_result_assoc)

text \<open>The last-wins projection shows the goal of the strict fold.\<close>

lemma applyGoalChange_goal:
  "applyGoalChange st c = Inr st' \<Longrightarrow>
   gf_goal st' = (case c of ClearChange _ _ \<Rightarrow> None | SnapshotChange _ g _ _ _ \<Rightarrow> Some g)"
  by (cases c) (auto simp: result_simps split: option.splits)

lemma admit_round_goal: "admit_round st q src = Inr st' \<Longrightarrow> gf_goal st' = gf_goal st"
  by (auto simp: admit_round_def split: option.splits if_splits)

lemma projection_step:
  assumes step: "applyGoalEvent st e = Inr st'" and p: "map_option gp_goal p = gf_goal st"
  shows "map_option gp_goal (applyGoalProjection p e) = gf_goal st'"
proof (cases "ev_data e")
  case (UserMessage m)
  then have "gf_goal st' = gf_goal st"
    using step by (auto simp: applyGoalEvent_def result_simps split: option.splits dest: admit_round_goal)
  with p UserMessage show ?thesis by (simp add: applyGoalProjection_def)
next
  case (OtherEvent t v)
  show ?thesis
  proof (cases "t = ''goal/change''")
    case True
    with OtherEvent step obtain c where "decodeGoalChange v = Inr (Some c)" "applyGoalChange st c = Inr st'"
      by (auto simp: applyGoalEvent_def result_simps split: option.splits)
    with OtherEvent True applyGoalChange_goal show ?thesis
      by (cases c) (simp_all add: applyGoalProjection_def del: applyGoalChange.simps)
  qed (use OtherEvent step p in \<open>simp add: applyGoalEvent_def applyGoalProjection_def\<close>)
qed (use step p in \<open>simp_all add: applyGoalEvent_def applyGoalProjection_def\<close>)

lemma projection_goal:
  "fold_goal_events st es = Inr st' \<Longrightarrow> map_option gp_goal p = gf_goal st \<Longrightarrow>
   map_option gp_goal (fold (\<lambda>e p. applyGoalProjection p e) es p) = gf_goal st'"
proof (induction es arbitrary: st p)
  case (Cons e es)
  then obtain st1 where "applyGoalEvent st e = Inr st1" "fold_goal_events st1 es = Inr st'" by (auto simp: result_simps)
  with Cons.IH [of st1] projection_step Cons.prems(2) show ?case by simp
qed simp

section \<open>Fork seeds\<close>

lemma clear_applies:
  assumes inv: "goal_inv lg st" and g: "gf_goal st = Some g" and u: "gf_updatedAt st = Some u"
    and rev: "gs_revision g < max_safe_integer" and t: "u \<le> t" "t \<le> max_safe_integer"
  shows "change_wf (goalClearChange g t)" "\<exists>st'. applyGoalChange st (goalClearChange g t) = Inr st' \<and> gf_goal st' = None"
proof -
  have "snapshot_wf g" "0 \<le> u" using inv g u by (auto simp: goal_inv_def)
  then show "change_wf (goalClearChange g t)" using rev t by (simp add: goalClearChange_def snapshot_wf_def safe_from_def)
  show "\<exists>st'. applyGoalChange st (goalClearChange g t) = Inr st' \<and> gf_goal st' = None"
    using g u t by (simp add: goalClearChange_def requireNextRevision_def)
qed

lemma goal_event_json: "change_wf c \<Longrightarrow> ev_data e = OtherEvent ''goal/change'' (change_json c) \<Longrightarrow> applyGoalEvent st e = applyGoalChange st c"
  by (simp add: applyGoalEvent_def decodeGoalChange_json)

lemma forkSeed_clears:
  assumes seed: "fold_goal_events emptyGoalFoldState seed = Inr st"
    and rev: "\<And>g. gf_goal st = Some g \<Longrightarrow> gs_revision g < max_safe_integer" and t: "t \<le> max_safe_integer"
  shows "\<exists>seed' st'. clearGoalFromForkSeed seed t = Inr seed' \<and> fold_goal_events emptyGoalFoldState seed' = Inr st' \<and>
    gf_goal st' = None \<and> take (length seed) seed' = seed"
proof (cases "gf_goal st")
  case None
  with seed show ?thesis by (simp add: clearGoalFromForkSeed_def)
next
  case (Some g)
  have inv: "goal_inv seed st" using goals.project_inv seed by (simp add: fold_goal_project)
  with Some obtain u where u: "gf_updatedAt st = Some u" "u \<le> max_safe_integer" by (auto simp: goal_inv_def)
  then have "u \<le> max t u" "max t u \<le> max_safe_integer" using t by simp_all
  note clear = clear_applies [OF inv Some u(1) rev [OF Some] this]
  from clear(2) obtain st' where "applyGoalChange st (goalClearChange g (max t u)) = Inr st'" "gf_goal st' = None" by blast
  then show ?thesis
    using seed Some u(1) clear(1)
    by (simp add: clearGoalFromForkSeed_def fold_goal_append goal_event_json Let_def del: applyGoalChange.simps)
qed

section \<open>Properties\<close>

text \<open>
  C33. Decoding a goal change inverts writing it: every change within the number ranges, with
  normalized texts and a block reason exactly when blocked, decodes from its durable payload to
  itself, and every payload the strict decoder accepts decodes to such a change.
\<close>

theorem goalChange_roundtrip:
  "(change_wf c \<longrightarrow> decodeGoalChange (change_json c) = Inr (Some c)) \<and>
   (decodeGoalChange v = Inr (Some d) \<longrightarrow> change_wf d)"
  using decodeGoalChange_json decodeGoalChange_wf by blast

definition sample_goal :: goal_snapshot where
  "sample_goal = \<lparr>gs_id = ''g1'', gs_revision = 1, gs_objective = ''ship it'', gs_phase = PhaseActive,
     gs_blockedReason = None, gs_maxGoalRounds = 2\<rparr>"

definition sample_create :: goal_change where
  "sample_create = SnapshotChange GoalCreate sample_goal 0 5 5"

lemma sample_create_wf: "change_wf sample_create"
  by (simp add: sample_create_def sample_goal_def snapshot_wf_def safe_from_def max_safe_integer_def is_normalized_def
      js_trim_def is_js_space_def)

theorem goalChange_roundtrip_witness:
  "change_wf sample_create \<and> decodeGoalChange (change_json sample_create) = Inr (Some sample_create)"
  using goalChange_roundtrip [of sample_create JNull sample_create] sample_create_wf by simp

text \<open>
  C34. A goal history that replays has a well-formed current goal or none: the goal carries its
  latest reference and ordered timestamps, its admitted rounds are numbered 1, 2, 3, ... in the log
  without gap or repetition up to the started count, and the last-wins projection shows the same
  goal.
\<close>

theorem goal_history_ok:
  assumes "foldGoal lg = Inr f"
  shows "(\<forall>g. fg_goal f = Some g \<longrightarrow> snapshot_wf g \<and> fg_lastRef f = Some (snapshot_ref g) \<and>
      (\<exists>c u. fg_createdAt f = Some c \<and> fg_updatedAt f = Some u \<and> c \<le> u) \<and>
      rounds_for lg (gs_id g) = [1..fg_roundsStarted f]) \<and>
    (fg_goal f = None \<longrightarrow> fg_roundsStarted f = 0 \<and> fg_createdAt f = None \<and> fg_updatedAt f = None) \<and>
    map_option gp_goal (fold (\<lambda>e p. applyGoalProjection p e) lg None) = fg_goal f"
proof -
  from assms obtain st where st: "fold_goal_events emptyGoalFoldState lg = Inr st"
    and f: "f = \<lparr>fg_goal = gf_goal st, fg_roundsStarted = gf_roundsStarted st, fg_createdAt = gf_createdAt st,
            fg_updatedAt = gf_updatedAt st, fg_lastRef = gf_lastRef st\<rparr>"
    by (auto simp: foldGoal_def result_simps)
  have "goal_inv lg st" using goals.project_inv st by (simp add: fold_goal_project)
  moreover have "map_option gp_goal (fold (\<lambda>e p. applyGoalProjection p e) lg None) = gf_goal st"
    by (rule projection_goal [OF st]) (simp add: emptyGoalFoldState_def)
  ultimately show ?thesis unfolding f by (auto simp: goal_inv_def)
qed

definition sample_goal_log :: "session_event list" where
  "sample_goal_log =
     [sample_event 0 (OtherEvent ''goal/change'' (change_json sample_create)) None None,
      sample_event 1 (UserMessage (sample_message ''m1'' UserRole [TextBlock ''go''] (RawSource ''goal''
        [(''goalId'', JStr ''g1''), (''revision'', JNum 1), (''round'', JNum 1)]))) (Some (JStr ''append'')) None]"

lemma sample_goal_fold:
  "foldGoal sample_goal_log = Inr \<lparr>fg_goal = Some sample_goal, fg_roundsStarted = 1, fg_createdAt = Some 5,
     fg_updatedAt = Some 5, fg_lastRef = Some (snapshot_ref sample_goal)\<rparr>"
  using decodeGoalChange_json [OF sample_create_wf]
  by (simp add: foldGoal_def sample_goal_log_def sample_event_def applyGoalEvent_def sample_create_def sample_goal_def
      emptyGoalFoldState_def sample_message_def jget_def safe_integer_of_def safe_int_def max_safe_integer_def
      admit_round_def snapshot_ref_def)

theorem goal_history_ok_witness:
  "snapshot_wf sample_goal \<and> rounds_for sample_goal_log ''g1'' = [1..1]"
  using goal_history_ok [OF sample_goal_fold] by (simp add: sample_goal_def)

end
