(* ===== verification/Goal_Service.thy ===== *)
theory Goal_Service
  imports Goal_Fold
begin

text \<open>
  The goal service of \<open>goal/goal/src/index.ts\<close>: the per-session cache that observes the log, and the
  compare-and-set mutations that append one \<open>goal/change\<close> each. Activation is process-local: it
  crosses the append as a pending intent and any other goal change disarms. The clock, fresh
  identities, liveness and dispatch vetoes are the environment. The theorem shows that the cache is
  the replay of the log, that what the service writes always replays, and that a rejected operation
  writes nothing.
\<close>

section \<open>State\<close>

datatype activation = Armed | Disarmed

record goal_cache =
  gc_state :: goal_state
  gc_activation :: activation
  gc_observedSeq :: nat
  gc_pendingActivation :: "(nat \<times> activation) option"

record goal_view =
  gv_goal :: goal_snapshot
  gv_roundsStarted :: int
  gv_createdAt :: int
  gv_updatedAt :: int
  gv_activation :: activation

datatype goal_operation = SnapshotOp snapshot_operation | ClearOp

record goal_changed =
  gn_operation :: goal_operation
  gn_ref :: goal_ref
  gn_goal :: "goal_view option"

datatype goal_error_code =
    GOAL_AGENT_NOT_LIVE
  | GOAL_NOT_FOUND
  | GOAL_ALREADY_EXISTS
  | GOAL_STALE_REVISION
  | GOAL_INVALID_OBJECTIVE
  | GOAL_INVALID_MAX_ROUNDS
  | GOAL_INVALID_BLOCK_REASON
  | GOAL_INVALID_EDIT
  | GOAL_INVALID_TRANSITION

datatype goal_error =
    GoalError goal_error_code
  | GoalReplay goal_fold_error
  | GoalAppend session_error
  | CacheLacksTimes

record goal_world =
  gw_session :: session
  gw_cache :: "goal_cache option"
  gw_notes :: "goal_changed list"

record goal_env =
  ge_live :: bool
  ge_now :: int
  ge_uuid :: string
  ge_veto :: "session \<Rightarrow> session_event \<Rightarrow> bool"
  ge_defaultMaxGoalRounds :: rat

section \<open>Input validation\<close>

definition resolveMaxGoalRounds :: "rat \<Rightarrow> goal_error + int" where
  "resolveMaxGoalRounds v =
     (case safe_integer_of v of
        Some i \<Rightarrow> if 1 \<le> i then Inr i else Inl (GoalError GOAL_INVALID_MAX_ROUNDS)
      | None \<Rightarrow> Inl (GoalError GOAL_INVALID_MAX_ROUNDS))"

definition resolveObjective :: "string \<Rightarrow> goal_error + string" where
  "resolveObjective v =
     (if js_trim v = [] then Inl (GoalError GOAL_INVALID_OBJECTIVE) else Inr (js_trim v))"

definition resolveCreateGoal :: "string \<Rightarrow> rat option \<Rightarrow> rat \<Rightarrow> goal_error + string \<times> int" where
  "resolveCreateGoal objective cap dflt =
     bind_result (resolveObjective objective) (\<lambda>obj.
     bind_result (resolveMaxGoalRounds (case cap of Some c \<Rightarrow> c | None \<Rightarrow> dflt)) (\<lambda>c. Inr (obj, c)))"

definition resolveBlockReason :: "json \<Rightarrow> goal_error + block_reason" where
  "resolveBlockReason reason =
     (let code = Option.bind (as_record reason) (\<lambda>ps. as_string (jget ps ''code''));
          msg = Option.bind (as_record reason) (\<lambda>ps. as_string (jget ps ''message'')) in
      case (code, msg) of
        (Some c, Some m) \<Rightarrow>
          if is_kebab c \<and> js_trim m \<noteq> [] then Inr \<lparr>br_code = c, br_message = js_trim m\<rparr>
          else Inl (GoalError GOAL_INVALID_BLOCK_REASON)
      | _ \<Rightarrow> Inl (GoalError GOAL_INVALID_BLOCK_REASON))"

section \<open>The cache\<close>

text \<open>
  One pass over unobserved events. An event that fails to replay stops it; the events before it
  stay observed.
\<close>

fun sync_loop :: "session_event list \<Rightarrow> goal_cache \<Rightarrow> goal_cache \<times> goal_fold_error option" where
  "sync_loop [] c = (c, None)"
| "sync_loop (e # es) c =
     (case applyGoalEvent (gc_state c) e of
        Inl err \<Rightarrow> (c, Some err)
      | Inr st \<Rightarrow>
          sync_loop es
            (c\<lparr>gc_state := st,
               gc_activation :=
                 (if event_type (ev_data e) = ''goal/change'' then
                    (case gc_pendingActivation c of
                       Some (q, a) \<Rightarrow> if int q = ev_seq e then a else Disarmed
                     | None \<Rightarrow> Disarmed)
                  else gc_activation c),
               gc_observedSeq := gc_observedSeq c + 1\<rparr>))"

definition sync_goal :: "session_event list \<Rightarrow> goal_cache \<Rightarrow> goal_cache \<times> goal_fold_error option" where
  "sync_goal lg c = sync_loop (drop (gc_observedSeq c) lg) c"

definition load_cache :: "goal_world \<Rightarrow> goal_world \<times> (goal_error + goal_cache)" where
  "load_cache w =
     (case gw_cache w of
        Some c \<Rightarrow> (w, Inr c)
      | None \<Rightarrow>
          (case fold_goal_events emptyGoalFoldState (se_log (gw_session w)) of
             Inl err \<Rightarrow> (w, Inl (GoalReplay err))
           | Inr st \<Rightarrow>
               let c = \<lparr>gc_state = st, gc_activation = Disarmed, gc_observedSeq = length (se_log (gw_session w)),
                        gc_pendingActivation = None\<rparr>
               in (w\<lparr>gw_cache := Some c\<rparr>, Inr c)))"

definition prepareMutation :: "goal_env \<Rightarrow> goal_world \<Rightarrow> goal_world \<times> (goal_error + goal_cache)" where
  "prepareMutation env w =
     (if \<not> ge_live env then (w, Inl (GoalError GOAL_AGENT_NOT_LIVE))
      else case load_cache w of
             (w, Inl err) \<Rightarrow> (w, Inl err)
           | (w, Inr c) \<Rightarrow>
               (case sync_goal (se_log (gw_session w)) c of
                  (c, Some err) \<Rightarrow> (w\<lparr>gw_cache := Some c\<rparr>, Inl (GoalReplay err))
                | (c, None) \<Rightarrow> (w\<lparr>gw_cache := Some c\<rparr>, Inr c)))"

definition view_of :: "goal_cache \<Rightarrow> goal_error + goal_view option" where
  "view_of c =
     (case gf_goal (gc_state c) of
        None \<Rightarrow> Inr None
      | Some g \<Rightarrow>
          (case (gf_createdAt (gc_state c), gf_updatedAt (gc_state c)) of
             (Some created, Some updated) \<Rightarrow>
               Inr (Some \<lparr>gv_goal = g, gv_roundsStarted = gf_roundsStarted (gc_state c), gv_createdAt = created,
                         gv_updatedAt = updated, gv_activation = gc_activation c\<rparr>)
           | _ \<Rightarrow> Inl CacheLacksTimes))"

definition expectCurrent :: "goal_cache \<Rightarrow> goal_ref \<Rightarrow> goal_error + goal_snapshot" where
  "expectCurrent c ref =
     (case gf_goal (gc_state c) of
        None \<Rightarrow> Inl (GoalError GOAL_NOT_FOUND)
      | Some g \<Rightarrow>
          if gr_id ref \<noteq> gs_id g \<or> gr_revision ref \<noteq> gs_revision g then Inl (GoalError GOAL_STALE_REVISION)
          else Inr g)"

section \<open>Committing a change\<close>

fun change_operation :: "goal_change \<Rightarrow> goal_operation" where
  "change_operation (SnapshotChange op _ _ _ _) = SnapshotOp op"
| "change_operation (ClearChange _ _) = ClearOp"

definition no_intent :: append_opts where
  "no_intent = \<lparr>ao_surfaceOp = None, ao_sourceEventSeqs = None, ao_ignorable = False\<rparr>"

definition commit_change ::
  "goal_env \<Rightarrow> goal_world \<Rightarrow> goal_cache \<Rightarrow> goal_change \<Rightarrow> activation \<Rightarrow> goal_world \<times> (goal_error + goal_view option)" where
  "commit_change env w c change act =
     (let c1 = c\<lparr>gc_pendingActivation := Some (length (se_log (gw_session w)), act)\<rparr> in
      case session_append (gw_session w) False (ge_veto env (gw_session w)) (ge_now env)
             (OtherEvent ''goal/change'' (change_json change)) no_intent of
        (s, Inl err) \<Rightarrow>
          (w\<lparr>gw_session := s, gw_cache := Some (c1\<lparr>gc_pendingActivation := None\<rparr>)\<rparr>, Inl (GoalAppend err))
      | (s, Inr _) \<Rightarrow>
          (case sync_goal (se_log s) c1 of
             (c2, Some err) \<Rightarrow>
               (w\<lparr>gw_session := s, gw_cache := Some (c2\<lparr>gc_pendingActivation := None\<rparr>)\<rparr>, Inl (GoalReplay err))
           | (c2, None) \<Rightarrow>
               let c3 = c2\<lparr>gc_pendingActivation := None\<rparr>;
                   w' = w\<lparr>gw_session := s, gw_cache := Some c3\<rparr> in
               (case view_of c3 of
                  Inl err \<Rightarrow> (w', Inl err)
                | Inr v \<Rightarrow>
                    (w'\<lparr>gw_notes := gw_notes w @ [\<lparr>gn_operation = change_operation change,
                         gn_ref = goalChangeRef change, gn_goal = v\<rparr>]\<rparr>, Inr v))))"

definition commitCurrent ::
  "goal_env \<Rightarrow> goal_world \<Rightarrow> goal_cache \<Rightarrow> snapshot_operation \<Rightarrow> goal_snapshot \<Rightarrow> activation
    \<Rightarrow> goal_world \<times> (goal_error + goal_view option)" where
  "commitCurrent env w c op g act =
     (case (gf_createdAt (gc_state c), gf_updatedAt (gc_state c)) of
        (Some created, Some updated) \<Rightarrow>
          commit_change env w c
            (SnapshotChange op g (gf_roundsStarted (gc_state c)) created (max (ge_now env) updated)) act
      | _ \<Rightarrow> (w, Inl CacheLacksTimes))"

definition withPhase :: "goal_snapshot \<Rightarrow> goal_phase \<Rightarrow> goal_snapshot" where
  "withPhase g phase =
     \<lparr>gs_id = gs_id g, gs_revision = gs_revision g + 1, gs_objective = gs_objective g, gs_phase = phase,
      gs_blockedReason = None, gs_maxGoalRounds = gs_maxGoalRounds g\<rparr>"

text \<open>The prologue of every compare-and-set mutation.\<close>

definition on_current ::
  "goal_env \<Rightarrow> goal_world \<Rightarrow> goal_ref
    \<Rightarrow> (goal_world \<Rightarrow> goal_cache \<Rightarrow> goal_snapshot \<Rightarrow> goal_world \<times> (goal_error + goal_view option))
    \<Rightarrow> goal_world \<times> (goal_error + goal_view option)" where
  "on_current env w ref f =
     (case prepareMutation env w of
        (w, Inl err) \<Rightarrow> (w, Inl err)
      | (w, Inr c) \<Rightarrow>
          (case expectCurrent c ref of
             Inl err \<Rightarrow> (w, Inl err)
           | Inr g \<Rightarrow> f w c g))"

section \<open>Operations\<close>

definition goal_get :: "goal_env \<Rightarrow> goal_world \<Rightarrow> goal_world \<times> (goal_error + goal_view option)" where
  "goal_get env w =
     (case prepareMutation env w of
        (w, Inl err) \<Rightarrow> (w, Inl err)
      | (w, Inr c) \<Rightarrow> (w, view_of c))"

definition goal_disarm :: "goal_env \<Rightarrow> goal_world \<Rightarrow> goal_world \<times> (goal_error + goal_view option)" where
  "goal_disarm env w =
     (case prepareMutation env w of
        (w, Inl err) \<Rightarrow> (w, Inl err)
      | (w, Inr c) \<Rightarrow>
          let c' = c\<lparr>gc_activation := Disarmed\<rparr> in (w\<lparr>gw_cache := Some c'\<rparr>, view_of c'))"

text \<open>The listener of \<open>agent/session-start\<close>.\<close>

definition goal_session_start :: "goal_world \<Rightarrow> goal_world \<times> (goal_error + goal_view option)" where
  "goal_session_start w =
     (case load_cache w of
        (w, Inl err) \<Rightarrow> (w, Inl err)
      | (w, Inr c) \<Rightarrow> (w\<lparr>gw_cache := Some (c\<lparr>gc_activation := Disarmed\<rparr>)\<rparr>, Inr None))"

definition goal_create ::
  "goal_env \<Rightarrow> goal_world \<Rightarrow> string \<Rightarrow> rat option \<Rightarrow> goal_world \<times> (goal_error + goal_view option)" where
  "goal_create env w objective cap =
     (case resolveCreateGoal objective cap (ge_defaultMaxGoalRounds env) of
        Inl err \<Rightarrow> (w, Inl err)
      | Inr (obj, c) \<Rightarrow>
          (case prepareMutation env w of
             (w, Inl err) \<Rightarrow> (w, Inl err)
           | (w, Inr cache) \<Rightarrow>
               if (case gf_goal (gc_state cache) of Some g \<Rightarrow> gs_phase g \<noteq> PhaseComplete | None \<Rightarrow> False)
               then (w, Inl (GoalError GOAL_ALREADY_EXISTS))
               else commit_change env w cache
                      (SnapshotChange GoalCreate
                         \<lparr>gs_id = ''goal-'' @ ge_uuid env, gs_revision = 1, gs_objective = obj, gs_phase = PhaseActive,
                          gs_blockedReason = None, gs_maxGoalRounds = c\<rparr> 0 (ge_now env) (ge_now env)) Armed))"

definition goal_edit ::
  "goal_env \<Rightarrow> goal_world \<Rightarrow> goal_ref \<Rightarrow> string option \<Rightarrow> rat option \<Rightarrow> goal_world \<times> (goal_error + goal_view option)" where
  "goal_edit env w ref objective cap =
     on_current env w ref (\<lambda>w c g.
       if objective = None \<and> cap = None then (w, Inl (GoalError GOAL_INVALID_EDIT))
       else case bind_result (case objective of Some v \<Rightarrow> resolveObjective v | None \<Rightarrow> Inr (gs_objective g)) (\<lambda>obj.
                 bind_result (case cap of Some v \<Rightarrow> resolveMaxGoalRounds v | None \<Rightarrow> Inr (gs_maxGoalRounds g)) (\<lambda>k.
                   Inr (g\<lparr>gs_revision := gs_revision g + 1, gs_objective := obj, gs_maxGoalRounds := k\<rparr>))) of
              Inl err \<Rightarrow> (w, Inl err)
            | Inr g' \<Rightarrow> commitCurrent env w c GoalEdit g' (gc_activation c))"

definition goal_transition ::
  "goal_env \<Rightarrow> goal_world \<Rightarrow> goal_ref \<Rightarrow> snapshot_operation \<Rightarrow> goal_phase list \<Rightarrow> goal_phase \<Rightarrow> activation
    \<Rightarrow> goal_world \<times> (goal_error + goal_view option)" where
  "goal_transition env w ref op allowed phase act =
     on_current env w ref (\<lambda>w c g.
       if gs_phase g \<notin> set allowed then (w, Inl (GoalError GOAL_INVALID_TRANSITION))
       else commitCurrent env w c op (withPhase g phase) act)"

definition goal_pause where
  "goal_pause env w ref = goal_transition env w ref GoalPause [PhaseActive] PhasePaused Disarmed"

definition goal_complete where
  "goal_complete env w ref =
     goal_transition env w ref GoalComplete [PhaseActive, PhasePaused, PhaseBlocked] PhaseComplete Disarmed"

definition goal_resume :: "goal_env \<Rightarrow> goal_world \<Rightarrow> goal_ref \<Rightarrow> goal_world \<times> (goal_error + goal_view option)" where
  "goal_resume env w ref =
     on_current env w ref (\<lambda>w c g.
       if gs_phase g \<notin> {PhaseActive, PhasePaused, PhaseBlocked} then (w, Inl (GoalError GOAL_INVALID_TRANSITION))
       else if gs_phase g = PhaseActive \<and> gc_activation c = Armed then (w, Inl (GoalError GOAL_INVALID_TRANSITION))
       else if gs_maxGoalRounds g \<le> gf_roundsStarted (gc_state c) then (w, Inl (GoalError GOAL_INVALID_TRANSITION))
       else commitCurrent env w c GoalResume (withPhase g PhaseActive) Armed)"

definition goal_block ::
  "goal_env \<Rightarrow> goal_world \<Rightarrow> goal_ref \<Rightarrow> json \<Rightarrow> goal_world \<times> (goal_error + goal_view option)" where
  "goal_block env w ref reason =
     on_current env w ref (\<lambda>w c g.
       if gs_phase g \<noteq> PhaseActive then (w, Inl (GoalError GOAL_INVALID_TRANSITION))
       else case resolveBlockReason reason of
              Inl err \<Rightarrow> (w, Inl err)
            | Inr r \<Rightarrow> commitCurrent env w c GoalBlock ((withPhase g PhaseBlocked)\<lparr>gs_blockedReason := Some r\<rparr>) Disarmed)"

definition goal_clear :: "goal_env \<Rightarrow> goal_world \<Rightarrow> goal_ref \<Rightarrow> goal_world \<times> (goal_error + goal_view option)" where
  "goal_clear env w ref =
     on_current env w ref (\<lambda>w c g.
       case gf_updatedAt (gc_state c) of
         None \<Rightarrow> (w, Inl CacheLacksTimes)
       | Some updated \<Rightarrow> commit_change env w c (goalClearChange g (max (ge_now env) updated)) Disarmed)"

section \<open>The cache follows the log\<close>

abbreviation goal_log :: "goal_world \<Rightarrow> session_event list" where
  "goal_log w \<equiv> se_log (gw_session w)"

abbreviation goal_replay :: "session_event list \<Rightarrow> goal_fold_error + goal_state" where
  "goal_replay lg \<equiv> fold_goal_events emptyGoalFoldState lg"

definition cache_ok :: "session_event list \<Rightarrow> goal_cache \<Rightarrow> bool" where
  "cache_ok lg c \<longleftrightarrow> gc_pendingActivation c = None \<and> gc_observedSeq c \<le> length lg \<and>
     goal_replay (take (gc_observedSeq c) lg) = Inr (gc_state c)"

definition goal_ok :: "goal_world \<Rightarrow> bool" where
  "goal_ok w \<longleftrightarrow> session_ok (gw_session w) \<and> (\<exists>st. goal_replay (goal_log w) = Inr st) \<and>
     pred_option (cache_ok (goal_log w)) (gw_cache w)"

lemma sync_loop_ok:
  "fold_goal_events (gc_state c) es = Inr st \<Longrightarrow>
   \<exists>c'. sync_loop es c = (c', None) \<and> gc_state c' = st \<and> gc_observedSeq c' = gc_observedSeq c + length es \<and>
     gc_pendingActivation c' = gc_pendingActivation c"
proof (induction es arbitrary: c)
  case (Cons e es)
  then obtain st1 where 1: "applyGoalEvent (gc_state c) e = Inr st1" "fold_goal_events st1 es = Inr st"
    by (auto simp: result_simps)
  obtain a where "sync_loop (e # es) c =
      sync_loop es (c\<lparr>gc_state := st1, gc_activation := a, gc_observedSeq := gc_observedSeq c + 1\<rparr>)"
    using 1(1) by simp
  with 1(2) Cons.IH [of "c\<lparr>gc_state := st1, gc_activation := a, gc_observedSeq := gc_observedSeq c + 1\<rparr>"]
  show ?case by simp
qed simp

text \<open>A cache that has observed the whole log.\<close>

definition current_cache :: "session_event list \<Rightarrow> goal_cache \<Rightarrow> goal_state \<Rightarrow> bool" where
  "current_cache lg c st \<longleftrightarrow>
     cache_ok lg c \<and> gc_observedSeq c = length lg \<and> gc_state c = st \<and> goal_replay lg = Inr st"

lemma sync_goal_current:
  assumes c: "cache_ok lg c" and st: "goal_replay lg = Inr st"
  shows "\<exists>c'. sync_goal lg c = (c', None) \<and> current_cache lg c' st"
proof -
  have "goal_replay (take (gc_observedSeq c) lg @ drop (gc_observedSeq c) lg) = Inr st" using st by simp
  then have "fold_goal_events (gc_state c) (drop (gc_observedSeq c) lg) = Inr st"
    using c unfolding fold_goal_append by (simp add: cache_ok_def)
  from sync_loop_ok [OF this] obtain c' where "sync_goal lg c = (c', None)" "gc_state c' = st"
    "gc_observedSeq c' = length lg" "gc_pendingActivation c' = None"
    using c by (auto simp: sync_goal_def cache_ok_def)
  with st show ?thesis by (simp add: current_cache_def cache_ok_def)
qed

lemma load_cache_ok:
  assumes "goal_ok w"
  shows "\<exists>w' c. load_cache w = (w', Inr c) \<and> gw_session w' = gw_session w \<and> gw_notes w' = gw_notes w \<and>
    cache_ok (goal_log w) c"
proof (cases "gw_cache w")
  case None
  from assms obtain st where "goal_replay (goal_log w) = Inr st" by (auto simp: goal_ok_def)
  with None show ?thesis by (simp add: load_cache_def cache_ok_def Let_def)
next
  case (Some c)
  with assms show ?thesis by (simp add: load_cache_def goal_ok_def)
qed

lemma prepareMutation_ok:
  assumes ok: "goal_ok w" and live: "ge_live env" and st: "goal_replay (goal_log w) = Inr st"
  shows "\<exists>w' c. prepareMutation env w = (w', Inr c) \<and> gw_session w' = gw_session w \<and> gw_notes w' = gw_notes w \<and>
    goal_ok w' \<and> gw_cache w' = Some c \<and> current_cache (goal_log w) c st"
proof -
  from load_cache_ok [OF ok] obtain w1 c where 1: "load_cache w = (w1, Inr c)" "gw_session w1 = gw_session w"
    "gw_notes w1 = gw_notes w" "cache_ok (goal_log w) c" by blast
  from sync_goal_current [OF 1(4) st] obtain c' where "sync_goal (goal_log w) c = (c', None)" "current_cache (goal_log w) c' st"
    by blast
  with 1 live ok show ?thesis by (simp add: prepareMutation_def goal_ok_def current_cache_def)
qed

lemma goal_ok_inv: "goal_replay lg = Inr st \<Longrightarrow> goal_inv lg st"
  using goals.project_inv by (simp add: fold_goal_project)

text \<open>The view a caller should see for a replayed state.\<close>

definition spec_view :: "goal_state \<Rightarrow> activation \<Rightarrow> goal_view option" where
  "spec_view st act =
     map_option (\<lambda>g. \<lparr>gv_goal = g, gv_roundsStarted = gf_roundsStarted st, gv_createdAt = the (gf_createdAt st),
       gv_updatedAt = the (gf_updatedAt st), gv_activation = act\<rparr>) (gf_goal st)"

lemma view_of_spec: "goal_inv lg (gc_state c) \<Longrightarrow> view_of c = Inr (spec_view (gc_state c) (gc_activation c))"
  by (auto simp: view_of_def spec_view_def goal_inv_def split: option.splits)

lemma spec_view_activation: "Some v = spec_view st a \<Longrightarrow> gv_activation v = a"
  by (cases "gf_goal st") (simp_all add: spec_view_def)

section \<open>Commits\<close>

text \<open>
  What an operation leaves: on an error the log as it was, on success a view of the replayed log,
  which grew by at most one well-formed change and then shows an activation in \<open>A\<close>.
\<close>

definition op_outcome :: "activation set \<Rightarrow> goal_world \<Rightarrow> goal_world \<times> (goal_error + goal_view option) \<Rightarrow> bool" where
  "op_outcome A w x \<longleftrightarrow> goal_ok (fst x) \<and>
     (case snd x of
        Inl err \<Rightarrow> goal_log (fst x) = goal_log w \<and> ((\<exists>code. err = GoalError code) \<or> (\<exists>rej. err = GoalAppend rej))
      | Inr v \<Rightarrow> \<exists>st. goal_replay (goal_log (fst x)) = Inr st \<and>
          (goal_log (fst x) = goal_log w \<and> (\<exists>a. v = spec_view st a) \<or>
           (\<exists>e c. goal_log (fst x) = goal_log w @ [e] \<and> change_wf c \<and>
              ev_data e = OtherEvent ''goal/change'' (change_json c) \<and> (\<exists>act \<in> A. v = spec_view st act))))"

lemma op_outcome_same: "gw_session w' = gw_session w \<Longrightarrow> op_outcome A w' x = op_outcome A w x"
  unfolding op_outcome_def by metis

lemma op_outcome_error: "goal_ok w' \<Longrightarrow> gw_session w' = gw_session w \<Longrightarrow> op_outcome A w (w', Inl (GoalError code))"
  by (simp add: op_outcome_def)

lemma commit_change_outcome:
  assumes ok: "goal_ok w" and cur: "current_cache (goal_log w) c st"
    and wf: "change_wf ch" and app: "applyGoalChange st ch = Inr st'"
    and act: "act \<in> A"
  shows "op_outcome A w (commit_change env w c ch act)"
proof -
  let ?c1 = "c\<lparr>gc_pendingActivation := Some (length (goal_log w), act)\<rparr>"
  obtain s r where a: "session_append (gw_session w) False (ge_veto env (gw_session w)) (ge_now env)
      (OtherEvent ''goal/change'' (change_json ch)) no_intent = (s, r)" by (metis surj_pair)
  have s_ok: "session_ok s" using session_append_ok [OF _ a] ok by (simp add: goal_ok_def)
  from a show ?thesis
  proof (cases rule: session_append_cases)
    case (Rejected m err)
    with ok cur a s_ok show ?thesis
      by (auto simp: commit_change_def op_outcome_def goal_ok_def current_cache_def cache_ok_def)
  next
    case (Accepted m e)
    have log: "se_log s = goal_log w @ [e]" and e: "ev_data e = OtherEvent ''goal/change'' (change_json ch)"
      using Accepted(2,6) by (simp_all add: candidate_event_def)
    have ev: "applyGoalEvent st e = Inr st'" using goal_event_json [OF wf e] app by simp
    have new: "goal_replay (se_log s) = Inr st'" using cur ev log by (simp add: current_cache_def fold_goal_append)
    let ?c2 = "?c1\<lparr>gc_state := st', gc_activation := act, gc_observedSeq := length (se_log s)\<rparr>"
    have "ev_seq e = int (length (goal_log w))" using Accepted(2) by (simp add: candidate_event_def)
    with cur log ev e have c2: "sync_goal (se_log s) ?c1 = (?c2, None)"
      by (simp add: sync_goal_def current_cache_def)
    have "view_of (?c2\<lparr>gc_pendingActivation := None\<rparr>) = Inr (spec_view st' act)"
      using view_of_spec [of "se_log s" "?c2\<lparr>gc_pendingActivation := None\<rparr>"] goal_ok_inv [OF new] by simp
    with a Accepted(1) c2 new log e wf s_ok act show ?thesis
      by (auto simp: commit_change_def op_outcome_def goal_ok_def cache_ok_def Let_def)
  qed
qed

definition goal_env_ok :: "goal_env \<Rightarrow> goal_world \<Rightarrow> bool" where
  "goal_env_ok env w \<longleftrightarrow>
     safe_from 0 (ge_now env) \<and>
     (\<forall>st. goal_replay (goal_log w) = Inr st \<longrightarrow>
        ''goal-'' @ ge_uuid env \<notin> gf_seenGoalIds st \<and>
        (\<forall>g. gf_goal st = Some g \<longrightarrow> gs_revision g < max_safe_integer))"

lemma commitCurrent_outcome:
  assumes ok: "goal_ok w" and cur: "current_cache (goal_log w) c st" and env: "goal_env_ok env w"
    and g: "gf_goal st = Some g" and wf: "snapshot_wf g'"
    and next': "gs_id g' = gs_id g" "gs_revision g' = gs_revision g + 1"
    and allowed: "op \<noteq> GoalCreate" "operation_allowed st op g g' = Inr ()"
    and act: "act \<in> A"
  shows "op_outcome A w (commitCurrent env w c op g' act)"
proof -
  have replay: "goal_replay (goal_log w) = Inr st" and state: "gc_state c = st" using cur by (simp_all add: current_cache_def)
  from goal_ok_inv [OF replay] g obtain cr u where t: "gf_createdAt st = Some cr" "gf_updatedAt st = Some u"
    "0 \<le> cr" "cr \<le> u" "u \<le> max_safe_integer" "safe_from 0 (gf_roundsStarted st)"
    by (auto simp: goal_inv_def)
  have now: "0 \<le> ge_now env" "ge_now env \<le> max_safe_integer" using env by (auto simp: goal_env_ok_def safe_from_def)
  let ?ch = "SnapshotChange op g' (gf_roundsStarted st) cr (max (ge_now env) u)"
  have "change_wf ?ch" using wf t now by (auto simp: safe_from_def)
  moreover have "\<exists>st'. applyGoalChange st ?ch = Inr st'"
    using g t next' allowed
    by (auto simp: validateSnapshotTransition_def requireNextRevision_def snapshot_ref_def)
  ultimately show ?thesis
    using commit_change_outcome [OF ok cur _ _ act, of ?ch] t state by (auto simp: commitCurrent_def)
qed

section \<open>Operations\<close>

lemma resolveObjective_ok: "resolveObjective v = Inr obj \<Longrightarrow> is_normalized obj"
  by (auto simp: resolveObjective_def is_normalized_def split: if_splits)

lemma resolveMaxGoalRounds_ok: "resolveMaxGoalRounds v = Inr k \<Longrightarrow> safe_from 1 k"
  by (auto simp: resolveMaxGoalRounds_def safe_from_def safe_integer_of_def safe_int_def split: option.splits if_splits)

lemma resolveBlockReason_ok: "resolveBlockReason v = Inr r \<Longrightarrow> reason_wf r"
  by (auto simp: resolveBlockReason_def reason_wf_def is_normalized_def Let_def split: option.splits if_splits)

lemmas resolve_ok = resolveObjective_ok resolveMaxGoalRounds_ok resolveBlockReason_ok

lemma resolve_codes:
  "resolveObjective v = Inl err \<Longrightarrow> err = GoalError GOAL_INVALID_OBJECTIVE"
  "resolveMaxGoalRounds q = Inl err \<Longrightarrow> err = GoalError GOAL_INVALID_MAX_ROUNDS"
  "resolveBlockReason j = Inl err \<Longrightarrow> err = GoalError GOAL_INVALID_BLOCK_REASON"
  by (auto simp: resolveObjective_def resolveMaxGoalRounds_def resolveBlockReason_def Let_def
      split: option.splits if_splits)

lemma withPhase_wf:
  "snapshot_wf g \<Longrightarrow> gs_revision g < max_safe_integer \<Longrightarrow> phase \<noteq> PhaseBlocked \<Longrightarrow> snapshot_wf (withPhase g phase)"
  "snapshot_wf g \<Longrightarrow> gs_revision g < max_safe_integer \<Longrightarrow> reason_wf r \<Longrightarrow>
     snapshot_wf ((withPhase g PhaseBlocked)\<lparr>gs_blockedReason := Some r\<rparr>)"
  by (auto simp: snapshot_wf_def withPhase_def safe_from_def)

text \<open>The shared prologue: a stale or missing reference is refused, otherwise the body runs on the current goal.\<close>

lemma on_current_outcome:
  assumes ok: "goal_ok w" and env: "goal_env_ok env w"
    and body: "\<And>w' c g st. goal_ok w' \<Longrightarrow> gw_session w' = gw_session w \<Longrightarrow> goal_env_ok env w' \<Longrightarrow>
      current_cache (goal_log w') c st \<Longrightarrow> gf_goal st = Some g \<Longrightarrow> gc_state c = st \<Longrightarrow> snapshot_wf g \<Longrightarrow>
      gs_revision g < max_safe_integer \<Longrightarrow> op_outcome A w' (f w' c g)"
  shows "op_outcome A w (on_current env w ref f)"
proof -
  obtain st where st: "goal_replay (goal_log w) = Inr st" using ok by (auto simp: goal_ok_def)
  show ?thesis
  proof (cases "ge_live env")
    case False
    with ok show ?thesis by (simp add: on_current_def prepareMutation_def op_outcome_error)
  next
    case True
    from prepareMutation_ok [OF ok True st] obtain w' c where p: "prepareMutation env w = (w', Inr c)"
      "gw_session w' = gw_session w" "goal_ok w'" "current_cache (goal_log w) c st" by blast
    then have c: "gc_state c = st" by (simp add: current_cache_def)
    show ?thesis
    proof (cases "expectCurrent c ref")
      case (Inl err)
      then have "\<exists>code. err = GoalError code" by (auto simp: expectCurrent_def split: option.splits if_splits)
      with Inl p show ?thesis using op_outcome_error by (fastforce simp: on_current_def)
    next
      case (Inr g)
      then have g: "gf_goal st = Some g" using c by (auto simp: expectCurrent_def split: option.splits if_splits)
      moreover have "snapshot_wf g" "gs_revision g < max_safe_integer"
        using goal_ok_inv [OF st] g env st by (auto simp: goal_inv_def goal_env_ok_def)
      moreover have "goal_env_ok env w'" using env p(2) by (simp add: goal_env_ok_def)
      ultimately have "op_outcome A w' (f w' c g)" using body p c by simp
      with Inr p show ?thesis by (simp add: on_current_def op_outcome_same [OF p(2)])
    qed
  qed
qed

lemma goal_transition_outcome:
  assumes "goal_ok w" "goal_env_ok env w" "phase \<noteq> PhaseBlocked" "op \<noteq> GoalCreate"
    and "\<And>st g. gs_phase g \<in> set allowed \<Longrightarrow> operation_allowed st op g (withPhase g phase) = Inr ()"
  shows "op_outcome {act} w (goal_transition env w ref op allowed phase act)"
  unfolding goal_transition_def
proof (rule on_current_outcome [OF assms(1,2)])
  fix w' c g st
  assume a: "goal_ok w'" "goal_env_ok env w'" "current_cache (goal_log w') c st" "gf_goal st = Some g" "snapshot_wf g"
    "gs_revision g < max_safe_integer"
  show "op_outcome {act} w' (if gs_phase g \<notin> set allowed then (w', Inl (GoalError GOAL_INVALID_TRANSITION))
      else commitCurrent env w' c op (withPhase g phase) act)"
    using a op_outcome_error commitCurrent_outcome [OF a(1,3,2,4) withPhase_wf(1), where act = act and A = "{act}"] assms(3-5)
    by (simp add: withPhase_def)
qed

lemma same_definition: "requireSameDefinition g (withPhase g p) = Inr ()" "requireSameDefinition g ((withPhase g p)\<lparr>gs_blockedReason := r\<rparr>) = Inr ()"
  by (simp_all add: requireSameDefinition_def withPhase_def)

lemma withPhase_simps [simp]:
  "gs_id (withPhase g p) = gs_id g" "gs_revision (withPhase g p) = gs_revision g + 1" "gs_phase (withPhase g p) = p"
  "gs_maxGoalRounds (withPhase g p) = gs_maxGoalRounds g"
  by (simp_all add: withPhase_def)

lemma goal_pause_outcome: "goal_ok w \<Longrightarrow> goal_env_ok env w \<Longrightarrow> op_outcome {Disarmed} w (goal_pause env w ref)"
  unfolding goal_pause_def by (rule goal_transition_outcome) (simp_all add: same_definition)

lemma goal_complete_outcome: "goal_ok w \<Longrightarrow> goal_env_ok env w \<Longrightarrow> op_outcome {Disarmed} w (goal_complete env w ref)"
  unfolding goal_complete_def by (rule goal_transition_outcome) (auto simp: same_definition)

lemma goal_resume_outcome:
  assumes "goal_ok w" "goal_env_ok env w"
  shows "op_outcome {Armed} w (goal_resume env w ref)"
  unfolding goal_resume_def
proof (rule on_current_outcome [OF assms])
  fix w' c g st
  assume a: "goal_ok w'" "goal_env_ok env w'" "current_cache (goal_log w') c st" "gf_goal st = Some g" "snapshot_wf g"
    "gs_revision g < max_safe_integer" "gc_state c = st"
  show "op_outcome {Armed} w'
      (if gs_phase g \<notin> {PhaseActive, PhasePaused, PhaseBlocked} then (w', Inl (GoalError GOAL_INVALID_TRANSITION))
       else if gs_phase g = PhaseActive \<and> gc_activation c = Armed then (w', Inl (GoalError GOAL_INVALID_TRANSITION))
       else if gs_maxGoalRounds g \<le> gf_roundsStarted (gc_state c) then (w', Inl (GoalError GOAL_INVALID_TRANSITION))
       else commitCurrent env w' c GoalResume (withPhase g PhaseActive) Armed)"
    using a op_outcome_error commitCurrent_outcome [OF a(1,3,2,4) withPhase_wf(1), where op = GoalResume]
    by (auto simp: same_definition)
qed

lemma goal_block_outcome:
  assumes "goal_ok w" "goal_env_ok env w"
  shows "op_outcome {Disarmed} w (goal_block env w ref reason)"
  unfolding goal_block_def
proof (rule on_current_outcome [OF assms])
  fix w' c g st
  assume a: "goal_ok w'" "goal_env_ok env w'" "current_cache (goal_log w') c st" "gf_goal st = Some g" "snapshot_wf g"
    "gs_revision g < max_safe_integer"
  show "op_outcome {Disarmed} w'
      (if gs_phase g \<noteq> PhaseActive then (w', Inl (GoalError GOAL_INVALID_TRANSITION))
       else case resolveBlockReason reason of
              Inl err \<Rightarrow> (w', Inl err)
            | Inr r \<Rightarrow> commitCurrent env w' c GoalBlock ((withPhase g PhaseBlocked)\<lparr>gs_blockedReason := Some r\<rparr>) Disarmed)"
    using a op_outcome_error commitCurrent_outcome [OF a(1,3,2,4) withPhase_wf(2), where op = GoalBlock]
    by (auto simp: same_definition resolve_ok split: sum.split dest: resolve_codes)
qed

lemma edited_wf:
  assumes "snapshot_wf g" "gs_revision g < max_safe_integer"
    "bind_result (case objective of Some v \<Rightarrow> resolveObjective v | None \<Rightarrow> Inr (gs_objective g)) (\<lambda>obj.
       bind_result (case cap of Some v \<Rightarrow> resolveMaxGoalRounds v | None \<Rightarrow> Inr (gs_maxGoalRounds g)) (\<lambda>k.
         Inr (g\<lparr>gs_revision := gs_revision g + 1, gs_objective := obj, gs_maxGoalRounds := k\<rparr>))) = x"
  shows "case x of Inl err \<Rightarrow> \<exists>code. err = GoalError code
    | Inr g' \<Rightarrow> snapshot_wf g' \<and> gs_id g' = gs_id g \<and> gs_revision g' = gs_revision g + 1 \<and> gs_phase g' = gs_phase g \<and>
        gs_blockedReason g' = gs_blockedReason g"
  using assms
  by (cases x) (auto simp: result_simps snapshot_wf_def safe_from_def split: option.splits dest: resolve_ok resolve_codes)

lemma goal_edit_outcome:
  assumes "goal_ok w" "goal_env_ok env w"
  shows "op_outcome UNIV w (goal_edit env w ref objective cap)"
  unfolding goal_edit_def
proof (rule on_current_outcome [OF assms])
  fix w' c g st
  assume a: "goal_ok w'" "goal_env_ok env w'" "current_cache (goal_log w') c st" "gf_goal st = Some g" "snapshot_wf g"
    "gs_revision g < max_safe_integer"
  let ?x = "bind_result (case objective of Some v \<Rightarrow> resolveObjective v | None \<Rightarrow> Inr (gs_objective g)) (\<lambda>obj.
       bind_result (case cap of Some v \<Rightarrow> resolveMaxGoalRounds v | None \<Rightarrow> Inr (gs_maxGoalRounds g)) (\<lambda>k.
         Inr (g\<lparr>gs_revision := gs_revision g + 1, gs_objective := obj, gs_maxGoalRounds := k\<rparr>)))"
  show "op_outcome UNIV w' (if objective = None \<and> cap = None then (w', Inl (GoalError GOAL_INVALID_EDIT))
      else case ?x of Inl err \<Rightarrow> (w', Inl err) | Inr g' \<Rightarrow> commitCurrent env w' c GoalEdit g' (gc_activation c))"
    using edited_wf [OF a(5,6), of objective cap ?x] a op_outcome_error commitCurrent_outcome [OF a(1,3,2,4), where op = GoalEdit]
    by (cases ?x) auto
qed

lemma goal_clear_outcome:
  assumes "goal_ok w" "goal_env_ok env w"
  shows "op_outcome {Disarmed} w (goal_clear env w ref)"
  unfolding goal_clear_def
proof (rule on_current_outcome [OF assms])
  fix w' c g st
  assume a: "goal_ok w'" "goal_env_ok env w'" "current_cache (goal_log w') c st" "gf_goal st = Some g" "snapshot_wf g"
    "gs_revision g < max_safe_integer" "gc_state c = st"
  have inv: "goal_inv (goal_log w') st" using a(3) goal_ok_inv by (simp add: current_cache_def)
  with a(4) obtain u where u: "gf_updatedAt st = Some u" "u \<le> max_safe_integer" by (auto simp: goal_inv_def)
  have "u \<le> max (ge_now env) u" "max (ge_now env) u \<le> max_safe_integer"
    using u(2) a(2) by (simp_all add: goal_env_ok_def safe_from_def)
  from clear_applies [OF inv a(4) u(1) a(6) this] commit_change_outcome [OF a(1,3)] u(1) a(7)
  show "op_outcome {Disarmed} w'
      (case gf_updatedAt (gc_state c) of
         None \<Rightarrow> (w', Inl CacheLacksTimes)
       | Some updated \<Rightarrow> commit_change env w' c (goalClearChange g (max (ge_now env) updated)) Disarmed)"
    by auto
qed

lemma goal_create_outcome:
  assumes ok: "goal_ok w" and env: "goal_env_ok env w"
  shows "op_outcome {Armed} w (goal_create env w objective cap)"
proof -
  obtain st where st: "goal_replay (goal_log w) = Inr st" using ok by (auto simp: goal_ok_def)
  show ?thesis
  proof (cases "resolveCreateGoal objective cap (ge_defaultMaxGoalRounds env)")
    case (Inl err)
    then have "\<exists>code. err = GoalError code" by (auto simp: resolveCreateGoal_def result_simps dest: resolve_codes)
    with Inl ok show ?thesis using op_outcome_error by (auto simp: goal_create_def)
  next
    case (Inr x)
    then obtain obj k where x: "x = (obj, k)" "is_normalized obj" "safe_from 1 k"
      by (auto simp: resolveCreateGoal_def result_simps dest: resolve_ok)
    show ?thesis
    proof (cases "ge_live env")
      case False
      with ok Inr x show ?thesis by (simp add: goal_create_def prepareMutation_def op_outcome_error)
    next
      case True
      from prepareMutation_ok [OF ok True st] obtain w' c where p: "prepareMutation env w = (w', Inr c)"
        "gw_session w' = gw_session w" "goal_ok w'" "current_cache (goal_log w') c st" "gc_state c = st"
        by (auto simp: current_cache_def)
      let ?g = "\<lparr>gs_id = ''goal-'' @ ge_uuid env, gs_revision = 1, gs_objective = obj, gs_phase = PhaseActive,
                  gs_blockedReason = None, gs_maxGoalRounds = k\<rparr>"
      let ?ch = "SnapshotChange GoalCreate ?g 0 (ge_now env) (ge_now env)"
      show ?thesis
      proof (cases "\<exists>g. gf_goal st = Some g \<and> gs_phase g \<noteq> PhaseComplete")
        case True
        with Inr x p op_outcome_error show ?thesis by (auto simp: goal_create_def)
      next
        case False
        have "change_wf ?ch"
          using x env by (auto simp: snapshot_wf_def safe_from_def max_safe_integer_def goal_env_ok_def)
        moreover have "\<exists>st'. applyGoalChange st ?ch = Inr st'"
          using False env st by (auto simp: goal_env_ok_def split: option.split)
        ultimately have "op_outcome {Armed} w' (commit_change env w' c ?ch Armed)"
          using commit_change_outcome [OF p(3,4)] by blast
        with Inr x p False show ?thesis
          by (auto simp: goal_create_def op_outcome_same [OF p(2)] split: option.split)
      qed
    qed
  qed
qed

lemma goal_get_outcome:
  assumes ok: "goal_ok w"
  shows "op_outcome UNIV w (goal_get env w)" "op_outcome UNIV w (goal_disarm env w)"
proof -
  obtain st where st: "goal_replay (goal_log w) = Inr st" using ok by (auto simp: goal_ok_def)
  have "op_outcome UNIV w (goal_get env w) \<and> op_outcome UNIV w (goal_disarm env w)"
  proof (cases "ge_live env")
    case False
    with ok show ?thesis by (simp add: goal_get_def goal_disarm_def prepareMutation_def op_outcome_error)
  next
    case True
    from prepareMutation_ok [OF ok True st] obtain w' c where p: "prepareMutation env w = (w', Inr c)"
      "gw_session w' = gw_session w" "goal_ok w'" "current_cache (goal_log w) c st" by blast
    have v: "view_of (c\<lparr>gc_activation := a\<rparr>) = Inr (spec_view st a)" "view_of c = Inr (spec_view st (gc_activation c))" for a
      using view_of_spec [of "goal_log w" "c\<lparr>gc_activation := a\<rparr>"] view_of_spec [of "goal_log w" c] goal_ok_inv [OF st] p(4)
      by (simp_all add: current_cache_def)
    have "goal_ok (w'\<lparr>gw_cache := Some (c\<lparr>gc_activation := Disarmed\<rparr>)\<rparr>)"
      using p by (simp add: goal_ok_def current_cache_def cache_ok_def)
    with p st v show ?thesis by (auto simp: goal_get_def goal_disarm_def op_outcome_def Let_def)
  qed
  then show "op_outcome UNIV w (goal_get env w)" "op_outcome UNIV w (goal_disarm env w)" by blast+
qed

lemma goal_session_start_ok: "goal_ok w \<Longrightarrow> goal_ok (fst (goal_session_start w))"
  using load_cache_ok [of w] by (auto simp: goal_session_start_def goal_ok_def cache_ok_def)

section \<open>Runs\<close>

datatype goal_op =
    OpGet
  | OpDisarm
  | OpCreate string "rat option"
  | OpEdit goal_ref "string option" "rat option"
  | OpPause goal_ref
  | OpResume goal_ref
  | OpComplete goal_ref
  | OpBlock goal_ref json
  | OpClear goal_ref

fun goal_step :: "goal_env \<Rightarrow> goal_world \<Rightarrow> goal_op \<Rightarrow> goal_world \<times> (goal_error + goal_view option)" where
  "goal_step env w OpGet = goal_get env w"
| "goal_step env w OpDisarm = goal_disarm env w"
| "goal_step env w (OpCreate obj cap) = goal_create env w obj cap"
| "goal_step env w (OpEdit ref obj cap) = goal_edit env w ref obj cap"
| "goal_step env w (OpPause ref) = goal_pause env w ref"
| "goal_step env w (OpResume ref) = goal_resume env w ref"
| "goal_step env w (OpComplete ref) = goal_complete env w ref"
| "goal_step env w (OpBlock ref reason) = goal_block env w ref reason"
| "goal_step env w (OpClear ref) = goal_clear env w ref"

fun op_activations :: "goal_op \<Rightarrow> activation set" where
  "op_activations (OpCreate _ _) = {Armed}"
| "op_activations (OpResume _) = {Armed}"
| "op_activations (OpPause _) = {Disarmed}"
| "op_activations (OpComplete _) = {Disarmed}"
| "op_activations (OpBlock _ _) = {Disarmed}"
| "op_activations (OpClear _) = {Disarmed}"
| "op_activations _ = {Armed, Disarmed}"

fun op_ref :: "goal_op \<Rightarrow> goal_ref option" where
  "op_ref (OpEdit ref _ _) = Some ref"
| "op_ref (OpPause ref) = Some ref"
| "op_ref (OpResume ref) = Some ref"
| "op_ref (OpComplete ref) = Some ref"
| "op_ref (OpBlock ref _) = Some ref"
| "op_ref (OpClear ref) = Some ref"
| "op_ref _ = None"

text \<open>
  A session and its goal service over time: service operations, the session-start edge, and events
  that other parts append. The last are any events the session accepts whose goal stream replays.
\<close>

inductive goal_run :: "goal_world \<Rightarrow> bool" where
  goal_start: "session_run s \<Longrightarrow> goal_replay (se_log s) = Inr st \<Longrightarrow>
    goal_run \<lparr>gw_session = s, gw_cache = None, gw_notes = []\<rparr>"
| goal_operation: "goal_run w \<Longrightarrow> goal_env_ok env w \<Longrightarrow> goal_run (fst (goal_step env w op))"
| goal_sessions: "goal_run w \<Longrightarrow> goal_run (fst (goal_session_start w))"
| goal_foreign: "goal_run w \<Longrightarrow> session_append (gw_session w) False veto now d opts = (s, r) \<Longrightarrow>
    goal_replay (se_log s) = Inr st \<Longrightarrow> goal_run (w\<lparr>gw_session := s\<rparr>)"

lemma activation_UNIV: "UNIV = {Armed, Disarmed}"
  using activation.exhaust by auto

lemma goal_step_outcome:
  assumes "goal_ok w" "goal_env_ok env w"
  shows "op_outcome (op_activations op) w (goal_step env w op)"
  using goal_get_outcome [OF assms(1), of env] goal_create_outcome [OF assms] goal_edit_outcome [OF assms]
    goal_pause_outcome [OF assms] goal_resume_outcome [OF assms] goal_complete_outcome [OF assms]
    goal_block_outcome [OF assms] goal_clear_outcome [OF assms]
  by (cases op) (simp_all add: activation_UNIV)

lemma cache_ok_append: "cache_ok lg c \<Longrightarrow> cache_ok (lg @ xs) c"
  by (simp add: cache_ok_def)

lemma goal_run_ok: "goal_run w \<Longrightarrow> goal_ok w"
proof (induction rule: goal_run.induct)
  case (goal_start s st)
  then show ?case using session_run_ok by (simp add: goal_ok_def)
next
  case (goal_operation w env op)
  then show ?case using goal_step_outcome by (simp add: op_outcome_def)
next
  case (goal_sessions w)
  then show ?case by (simp add: goal_session_start_ok)
next
  case (goal_foreign w veto now d opts s r st)
  have "session_ok s" using session_append_ok goal_foreign by (metis goal_ok_def)
  moreover have "\<exists>xs. se_log s = goal_log w @ xs"
    using goal_foreign.hyps(2) by (cases rule: session_append_cases) auto
  ultimately show ?case
    using goal_foreign.IH goal_foreign.hyps(3) by (cases "gw_cache w") (auto simp: goal_ok_def cache_ok_append)
qed

lemma on_current_stale:
  assumes ok: "goal_ok w" and st: "goal_replay (goal_log w) = Inr st"
    and ref: "map_option snapshot_ref (gf_goal st) \<noteq> Some ref"
  shows "snd (on_current env w ref f) \<in> {Inl (GoalError GOAL_AGENT_NOT_LIVE), Inl (GoalError GOAL_NOT_FOUND), Inl (GoalError GOAL_STALE_REVISION)}"
proof (cases "ge_live env")
  case True
  from prepareMutation_ok [OF ok True st] obtain w' c where p: "prepareMutation env w = (w', Inr c)" "gc_state c = st"
    by (auto simp: current_cache_def)
  then have "expectCurrent c ref \<in> {Inl (GoalError GOAL_NOT_FOUND), Inl (GoalError GOAL_STALE_REVISION)}"
    using ref by (cases ref) (auto simp: expectCurrent_def snapshot_ref_def split: option.splits)
  with p show ?thesis by (auto simp: on_current_def)
qed (simp add: on_current_def prepareMutation_def)

lemma ref_ops_on_current: "op_ref op = Some ref \<Longrightarrow> \<exists>f. goal_step env w op = on_current env w ref f"
  by (cases op) (auto simp: goal_edit_def goal_pause_def goal_resume_def goal_complete_def goal_block_def
        goal_clear_def goal_transition_def)

section \<open>Properties\<close>


definition sample_goal_env :: goal_env where
  "sample_goal_env = \<lparr>ge_live = True, ge_now = 7, ge_uuid = ''u'', ge_veto = (\<lambda>_ _. False), ge_defaultMaxGoalRounds = 256\<rparr>"

definition sample_goal_world :: goal_world where
  "sample_goal_world = \<lparr>gw_session = sample_session, gw_cache = None, gw_notes = []\<rparr>"

lemma sample_session_goals: "goal_replay (se_log sample_session) = Inr emptyGoalFoldState"
  by code_simp

lemma sample_goal_run: "goal_run sample_goal_world"
  unfolding sample_goal_world_def by (rule goal_start [OF sample_session_run sample_session_goals])

lemma sample_goal_env_ok: "goal_env_ok sample_goal_env sample_goal_world"
  using sample_session_goals
  by (simp add: goal_env_ok_def sample_goal_env_def sample_goal_world_def safe_from_def max_safe_integer_def emptyGoalFoldState_def)


end
