(* ===== verification/Team_Graph.thy ===== *)
theory Team_Graph
  imports Session_Types
begin

text \<open>
  The task dependency graph of agent teams: the task snapshot of \<open>agent-team/src/types.ts\<close>, the
  complete validator of \<open>task-graph.ts\<close>, and the text and path normalization of \<open>validation.ts\<close>. The
  validator first checks every active task's blockers, then looks for a cycle by depth-first search
  with the sets of visiting and visited tasks. The search is given fuel one more than the number of
  tasks, which is enough because every nested call adds a task to the visiting set. The theorem shows
  that the validator accepts exactly the well-formed acyclic graphs and names a true defect otherwise.
\<close>

section \<open>Tasks\<close>

type_synonym task_id = string

datatype task_status = TaskPending | TaskInProgress | TaskDone | TaskDeleted

record team_task =
  tk_id :: task_id
  tk_revision :: int
  tk_subject :: string
  tk_description :: string
  tk_status :: task_status
  tk_ownerId :: "session_id option"
  tk_blockedBy :: "task_id list"
  tk_writeScopes :: "string list"

type_synonym task_map = "(task_id \<times> team_task) list"

datatype graph_violation = GraphMissing | GraphDuplicate | GraphCycle | GraphOutOfFuel

abbreviation active_task :: "team_task \<Rightarrow> bool" where
  "active_task t \<equiv> tk_status t \<noteq> TaskDeleted"

section \<open>The validator\<close>

text \<open>The loop over one task's blockers; \<open>seen\<close> holds the blockers before.\<close>

fun check_blockers :: "task_map \<Rightarrow> task_id \<Rightarrow> task_id set \<Rightarrow> task_id list \<Rightarrow> graph_violation + unit" where
  "check_blockers tasks self seen [] = Inr ()"
| "check_blockers tasks self seen (b # bs) =
     (if b = self then Inl GraphCycle
      else if b \<in> seen then Inl GraphDuplicate
      else case map_of tasks b of
             None \<Rightarrow> Inl GraphMissing
           | Some t \<Rightarrow>
               if tk_status t = TaskDeleted then Inl GraphMissing
               else check_blockers tasks self (insert b seen) bs)"

fun check_tasks :: "task_map \<Rightarrow> team_task list \<Rightarrow> graph_violation + unit" where
  "check_tasks tasks [] = Inr ()"
| "check_tasks tasks (t # ts) =
     (if tk_status t = TaskDeleted then check_tasks tasks ts
      else bind_result (check_blockers tasks (tk_id t) {} (tk_blockedBy t)) (\<lambda>_. check_tasks tasks ts))"

text \<open>The depth-first search; the state is the pair of visiting and visited tasks.\<close>

type_synonym visit_state = "task_id set \<times> task_id set"

fun fold_result :: "('s \<Rightarrow> 'a \<Rightarrow> 'e + 's) \<Rightarrow> 's \<Rightarrow> 'a list \<Rightarrow> 'e + 's" where
  "fold_result f s [] = Inr s"
| "fold_result f s (x # xs) = bind_result (f s x) (\<lambda>s'. fold_result f s' xs)"

primrec visit :: "nat \<Rightarrow> task_map \<Rightarrow> visit_state \<Rightarrow> task_id \<Rightarrow> graph_violation + visit_state" where
  "visit 0 tasks st i = Inl GraphOutOfFuel"
| "visit (Suc n) tasks st i =
     (case st of (visiting, visited) \<Rightarrow>
        if i \<in> visiting then Inl GraphCycle
        else if i \<in> visited then Inr st
        else case map_of tasks i of
               None \<Rightarrow> Inr st
             | Some t \<Rightarrow>
                 if tk_status t = TaskDeleted then Inr st
                 else bind_result (fold_result (visit n tasks) (insert i visiting, visited) (tk_blockedBy t))
                        (\<lambda>(visiting', visited'). Inr (visiting' - {i}, insert i visited')))"

definition assertTaskGraphCandidate :: "task_map \<Rightarrow> team_task \<Rightarrow> graph_violation + unit" where
  "assertTaskGraphCandidate current candidate =
     (let tasks = map_set (tk_id candidate) candidate current in
      bind_result (check_tasks tasks (map snd tasks)) (\<lambda>_.
      bind_result (fold_result (visit (Suc (length tasks)) tasks) ({}, {}) (map (tk_id \<circ> snd) tasks)) (\<lambda>_.
        Inr ())))"

section \<open>Normalization of authored text and path prefixes\<close>

datatype team_error_code =
    TEAM_INVALID_ARGUMENT
  | TEAM_INVALID_WRITE_SCOPE
  | TEAM_TASK_LIMIT
  | TEAM_TASK_NOT_FOUND
  | TEAM_TASK_STALE_REVISION
  | TEAM_TASK_DELETED
  | TEAM_TASK_UNAUTHORIZED
  | TEAM_TASK_ALREADY_CLAIMED
  | TEAM_TASK_BLOCKED
  | TEAM_TASK_INVALID_TRANSITION
  | TEAM_TASK_DEPENDENCY_CYCLE
  | TEAM_TASK_HAS_DEPENDENTS
  | TEAM_LEAD_REQUIRED
  | TEAM_MEMBER_NOT_FOUND
  | TEAM_SELF_MESSAGE
  | TEAM_MAILBOX_FULL
  | TEAM_MESSAGE_TOO_LARGE

definition requiredText :: "string \<Rightarrow> nat \<Rightarrow> team_error_code + string" where
  "requiredText value maxLength =
     (let s = js_trim value in
      if s = [] then Inl TEAM_INVALID_ARGUMENT
      else if maxLength < length s then Inl TEAM_INVALID_ARGUMENT
      else Inr s)"

fun split_on :: "char \<Rightarrow> string \<Rightarrow> string list" where
  "split_on d [] = [[]]"
| "split_on d (c # cs) = (if c = d then [] # split_on d cs
     else case split_on d cs of [] \<Rightarrow> [[c]] | w # ws \<Rightarrow> (c # w) # ws)"

definition drop_dot_slash :: "string \<Rightarrow> string" where
  "drop_dot_slash s = (if take 2 s = ''./'' then drop 2 s else s)"

definition drop_trailing_slashes :: "string \<Rightarrow> string" where
  "drop_trailing_slashes s = rev (dropWhile (\<lambda>c. c = CHR ''/'') (rev s))"

definition is_letter :: "char \<Rightarrow> bool" where
  "is_letter c \<longleftrightarrow> (let n = of_char c :: nat in (97 \<le> n \<and> n \<le> 122) \<or> (65 \<le> n \<and> n \<le> 90))"

fun drive_prefix :: "string \<Rightarrow> bool" where
  "drive_prefix (c # d # _) = (is_letter c \<and> d = CHR '':'')"
| "drive_prefix _ = False"

definition writeScope :: "string \<Rightarrow> team_error_code + string" where
  "writeScope value =
     (let normalized = drop_trailing_slashes (drop_dot_slash
            (map (\<lambda>c. if c = CHR 0x5C then CHR ''/'' else c) value));
          segments = split_on CHR ''/'' normalized
      in if normalized = [] \<or> take 1 normalized = ''/'' \<or> drive_prefix normalized
            \<or> list_ex (\<lambda>s. s = [] \<or> s = ''.'' \<or> s = ''..'') segments
         then Inl TEAM_INVALID_WRITE_SCOPE else Inr normalized)"


section \<open>The specification: an acyclic graph of live tasks\<close>

definition task_wf :: "task_map \<Rightarrow> bool" where
  "task_wf tasks \<longleftrightarrow> distinct (map_keys tasks) \<and> (\<forall>(k, t) \<in> set tasks. tk_id t = k)"

definition live_tasks :: "task_map \<Rightarrow> task_id set" where
  "live_tasks tasks = {i. \<exists>t. map_of tasks i = Some t \<and> active_task t}"

definition dep_edges :: "task_map \<Rightarrow> (task_id \<times> task_id) set" where
  "dep_edges tasks = {(i, b). \<exists>t. map_of tasks i = Some t \<and> active_task t \<and> b \<in> set (tk_blockedBy t)}"

definition blockers_ok :: "task_map \<Rightarrow> bool" where
  "blockers_ok tasks \<longleftrightarrow> (\<forall>i t. map_of tasks i = Some t \<longrightarrow> active_task t \<longrightarrow>
     distinct (tk_blockedBy t) \<and> set (tk_blockedBy t) \<subseteq> live_tasks tasks)"

definition task_graph_ok :: "task_map \<Rightarrow> bool" where
  "task_graph_ok tasks \<longleftrightarrow> blockers_ok tasks \<and> acyclic (dep_edges tasks)"

lemma task_wf_Nil [simp]: "task_wf []"
  by (simp add: task_wf_def)

lemma task_wf_lookup: "task_wf tasks \<Longrightarrow> map_of tasks i = Some t \<Longrightarrow> tk_id t = i"
  by (auto simp: task_wf_def dest: map_of_SomeD)

lemma task_wf_mem: "task_wf tasks \<Longrightarrow> t \<in> snd ` set tasks \<longleftrightarrow> map_of tasks (tk_id t) = Some t"
  by (force simp: task_wf_def dest: map_of_SomeD)

lemma task_wf_set [simp]:
  assumes "task_wf tasks"
  shows "task_wf (map_set (tk_id t) t tasks)"
proof -
  have d: "distinct (map_keys (map_set (tk_id t) t tasks))" using assms by (simp add: task_wf_def)
  have "tk_id u = k" if "(k, u) \<in> set (map_set (tk_id t) t tasks)" for k u
  proof -
    from that d have "((map_of tasks)(tk_id t \<mapsto> t)) k = Some u"
      by (metis map_of_eq_Some_iff map_of_map_set)
    with task_wf_lookup [OF assms] show ?thesis by (auto split: if_splits)
  qed
  with d show ?thesis by (auto simp: task_wf_def)
qed

lemma finite_live [simp]: "finite (live_tasks tasks)"
proof (rule finite_subset)
  show "live_tasks tasks \<subseteq> fst ` set tasks" by (force simp: live_tasks_def dest: map_of_SomeD)
qed simp

lemma card_live: "card (live_tasks tasks) \<le> length tasks"
proof -
  have "live_tasks tasks \<subseteq> fst ` set tasks" by (force simp: live_tasks_def dest: map_of_SomeD)
  then have "card (live_tasks tasks) \<le> card (set tasks)"
    by (metis List.finite_set card_image_le card_mono dual_order.trans finite_imageI)
  also have "\<dots> \<le> length tasks" by (rule card_length)
  finally show ?thesis .
qed

lemma dep_edges_live: "(i, b) \<in> dep_edges tasks \<Longrightarrow> i \<in> live_tasks tasks"
  by (auto simp: dep_edges_def live_tasks_def)

section \<open>The blocker check is exact\<close>

lemma check_blockers_Inr:
  "check_blockers tasks self seen bs = Inr () \<longleftrightarrow>
     self \<notin> set bs \<and> distinct bs \<and> set bs \<inter> seen = {} \<and> set bs \<subseteq> live_tasks tasks"
  by (induction bs arbitrary: seen) (auto simp: live_tasks_def split: option.splits)

lemma check_blockers_Inl:
  "check_blockers tasks self seen bs = Inl v \<Longrightarrow>
     (v = GraphCycle \<and> self \<in> set bs) \<or> (v = GraphDuplicate \<and> (\<not> distinct bs \<or> set bs \<inter> seen \<noteq> {}))
     \<or> (v = GraphMissing \<and> \<not> set bs \<subseteq> live_tasks tasks)"
  by (induction bs arbitrary: seen) (auto simp: live_tasks_def split: option.splits if_splits)

lemma check_tasks_Inr:
  "check_tasks tasks ts = Inr () \<longleftrightarrow>
     (\<forall>t \<in> set ts. active_task t \<longrightarrow> check_blockers tasks (tk_id t) {} (tk_blockedBy t) = Inr ())"
  by (induction ts) (auto simp: result_simps)

lemma check_tasks_Inl:
  "check_tasks tasks ts = Inl v \<Longrightarrow>
     \<exists>t \<in> set ts. active_task t \<and> check_blockers tasks (tk_id t) {} (tk_blockedBy t) = Inl v"
  by (induction ts) (auto simp: result_simps split: if_splits)

lemma check_tasks_all:
  assumes "task_wf tasks"
  shows "check_tasks tasks (map snd tasks) = Inr () \<longleftrightarrow>
    blockers_ok tasks \<and> (\<forall>i. (i, i) \<notin> dep_edges tasks)"
proof -
  have "check_tasks tasks (map snd tasks) = Inr () \<longleftrightarrow> (\<forall>i t. map_of tasks i = Some t \<longrightarrow> active_task t \<longrightarrow>
      check_blockers tasks i {} (tk_blockedBy t) = Inr ())"
    unfolding check_tasks_Inr set_map using task_wf_mem [OF assms] task_wf_lookup [OF assms] by metis
  then show ?thesis by (auto simp: check_blockers_Inr blockers_ok_def dep_edges_def)
qed

section \<open>The depth-first search is exact\<close>

text \<open>
  What the search keeps: the visited tasks are closed under blocking and lie on no cycle, and none
  of them is being visited.
\<close>

definition visit_inv :: "task_map \<Rightarrow> task_id set \<Rightarrow> task_id set \<Rightarrow> bool" where
  "visit_inv tasks vg vd \<longleftrightarrow> vg \<inter> vd = {} \<and> dep_edges tasks `` vd \<subseteq> vd \<and>
     (\<forall>x \<in> vd. (x, x) \<notin> (dep_edges tasks)\<^sup>+)"

definition visit_result ::
  "task_map \<Rightarrow> task_id set \<Rightarrow> task_id set \<Rightarrow> task_id set \<Rightarrow> graph_violation + visit_state \<Rightarrow> bool" where
  "visit_result tasks vg vd todo r \<longleftrightarrow>
     (case r of
        Inl v \<Rightarrow> v = GraphCycle \<and> \<not> acyclic (dep_edges tasks)
      | Inr (vg', vd') \<Rightarrow> vg' = vg \<and> vd \<subseteq> vd' \<and> visit_inv tasks vg vd' \<and> todo \<inter> live_tasks tasks \<subseteq> vd')"

lemma fold_visit:
  assumes step: "\<And>vd i. visit_inv tasks vg vd \<Longrightarrow> i \<in> set is \<Longrightarrow> visit_result tasks vg vd {i} (f (vg, vd) i)"
    and inv: "visit_inv tasks vg vd"
  shows "visit_result tasks vg vd (set is) (fold_result f (vg, vd) is)"
  using assms
proof (induction "is" arbitrary: vd)
  case (Cons i js)
  note r = Cons.prems(1) [OF Cons.prems(2), of i, simplified]
  show ?case
  proof (cases "f (vg, vd) i")
    case (Inr p)
    with r obtain vd' where p: "p = (vg, vd')" "vd \<subseteq> vd'" "visit_inv tasks vg vd'" "{i} \<inter> live_tasks tasks \<subseteq> vd'"
      by (cases p) (auto simp: visit_result_def)
    have "visit_result tasks vg vd' (set js) (fold_result f (vg, vd') js)"
      by (rule Cons.IH) (use Cons.prems(1) p(3) in auto)
    with p Inr show ?thesis by (auto simp: visit_result_def split: sum.splits)
  qed (use r in \<open>simp add: visit_result_def\<close>)
qed (simp add: visit_result_def)

lemma closed_rtrancl: "r `` A \<subseteq> A \<Longrightarrow> x \<in> A \<Longrightarrow> (x, y) \<in> r\<^sup>* \<Longrightarrow> y \<in> A"
  by (metis Image_closed_trancl rev_ImageI subset_eq)

lemma visit_inv_insert:
  assumes inv: "visit_inv tasks (insert i vg) vd" and succ: "dep_edges tasks `` {i} \<subseteq> vd" and i: "i \<notin> vg"
  shows "visit_inv tasks vg (insert i vd)"
proof -
  from inv have c: "dep_edges tasks `` vd \<subseteq> vd" and ni: "i \<notin> vd" by (auto simp: visit_inv_def)
  have "(i, i) \<notin> (dep_edges tasks)\<^sup>+"
  proof
    assume "(i, i) \<in> (dep_edges tasks)\<^sup>+"
    then obtain s where s: "(i, s) \<in> dep_edges tasks" "(s, i) \<in> (dep_edges tasks)\<^sup>*" by (meson tranclD)
    with succ have "s \<in> vd" by auto
    with closed_rtrancl [OF c] s(2) ni show False by blast
  qed
  with inv succ i show ?thesis by (auto simp: visit_inv_def)
qed

lemma visit_exact:
  assumes ok: "blockers_ok tasks"
  shows "card (live_tasks tasks - vg) < n \<Longrightarrow> visit_inv tasks vg vd \<Longrightarrow> \<forall>u \<in> vg. (u, i) \<in> (dep_edges tasks)\<^sup>+
    \<Longrightarrow> visit_result tasks vg vd {i} (visit n tasks (vg, vd) i)"
proof (induction n arbitrary: vg vd i)
  case (Suc n)
  show ?case
  proof (cases "i \<in> live_tasks tasks - vg - vd")
    case False
    with Suc.prems show ?thesis
      by (auto simp: visit_result_def live_tasks_def acyclic_def split: option.splits)
  next
    case True
    then obtain t where t: "map_of tasks i = Some t" "active_task t" and i: "i \<notin> vg" "i \<notin> vd"
      by (auto simp: live_tasks_def)
    have "live_tasks tasks - vg = insert i (live_tasks tasks - insert i vg)" using True by auto
    then have card: "card (live_tasks tasks - insert i vg) < n"
      using Suc.prems(1) by (metis Diff_iff Suc_less_eq card_insert_disjoint finite_Diff finite_live insertI1)
    have inv: "visit_inv tasks (insert i vg) vd" using Suc.prems(2) i by (simp add: visit_inv_def)
    have E: "(i, b) \<in> dep_edges tasks" if "b \<in> set (tk_blockedBy t)" for b
      using t that by (auto simp: dep_edges_def)
    have reach: "(u, b) \<in> (dep_edges tasks)\<^sup>+" if "u \<in> insert i vg" "b \<in> set (tk_blockedBy t)" for u b
      using E [OF that(2)] that(1) Suc.prems(3) by (auto intro: trancl_into_trancl)
    have r: "visit_result tasks (insert i vg) vd (set (tk_blockedBy t))
        (fold_result (visit n tasks) (insert i vg, vd) (tk_blockedBy t))"
      by (rule fold_visit [OF _ inv]) (use Suc.IH [OF card] reach in blast)
    have live: "set (tk_blockedBy t) \<subseteq> live_tasks tasks" using ok t by (auto simp: blockers_ok_def)
    have succ: "dep_edges tasks `` {i} = set (tk_blockedBy t)" using t by (auto simp: dep_edges_def)
    show ?thesis
    proof (cases "fold_result (visit n tasks) (insert i vg, vd) (tk_blockedBy t)")
      case (Inl v)
      with r t i show ?thesis by (simp add: visit_result_def)
    next
      case (Inr p)
      with r live obtain vd' where p: "p = (insert i vg, vd')" "vd \<subseteq> vd'" "visit_inv tasks (insert i vg) vd'"
          "set (tk_blockedBy t) \<subseteq> vd'"
        by (cases p) (auto simp: visit_result_def)
      have "visit_inv tasks vg (insert i vd')"
        by (rule visit_inv_insert [OF p(3) _ i(1)]) (simp add: succ p(4))
      with p Inr t i show ?thesis by (auto simp: visit_result_def)
    qed
  qed
qed simp

lemma search_exact:
  assumes wf: "task_wf tasks" and ok: "blockers_ok tasks"
  shows "(\<exists>st. fold_result (visit (Suc (length tasks)) tasks) ({}, {}) (map (tk_id \<circ> snd) tasks) = Inr st)
      \<longleftrightarrow> acyclic (dep_edges tasks)" (is "(\<exists>st. ?r = Inr st) \<longleftrightarrow> _")
    and "fold_result (visit (Suc (length tasks)) tasks) ({}, {}) (map (tk_id \<circ> snd) tasks) = Inl v \<Longrightarrow> v = GraphCycle"
proof -
  have fuel: "card (live_tasks tasks - {}) < Suc (length tasks)" using card_live [of tasks] by simp
  have ids: "set (map (tk_id \<circ> snd) tasks) \<inter> live_tasks tasks = live_tasks tasks"
  proof -
    have "i \<in> set (map (tk_id \<circ> snd) tasks)" if "i \<in> live_tasks tasks" for i
      using that task_wf_lookup [OF wf] by (force simp: live_tasks_def dest: map_of_SomeD)
    then show ?thesis by blast
  qed
  have "visit_result tasks {} {} (set (map (tk_id \<circ> snd) tasks)) ?r"
    by (rule fold_visit) (use visit_exact [OF ok fuel] in \<open>simp_all add: visit_inv_def\<close>)
  then have r: "case ?r of Inl v \<Rightarrow> v = GraphCycle \<and> \<not> acyclic (dep_edges tasks)
      | Inr (vg, vd) \<Rightarrow> visit_inv tasks {} vd \<and> live_tasks tasks \<subseteq> vd"
    unfolding visit_result_def ids by (auto split: sum.splits)
  show "(\<exists>st. ?r = Inr st) \<longleftrightarrow> acyclic (dep_edges tasks)"
  proof (cases ?r)
    case (Inr st)
    then obtain vd where "visit_inv tasks {} vd" "live_tasks tasks \<subseteq> vd" using r by (cases st) auto
    then have "(x, x) \<notin> (dep_edges tasks)\<^sup>+" for x
      unfolding visit_inv_def using tranclD [of x x "dep_edges tasks"] dep_edges_live by blast
    with Inr show ?thesis by (auto simp: acyclic_def)
  qed (use r in simp)
  show "?r = Inl v \<Longrightarrow> v = GraphCycle" using r by simp
qed


lemma assert_graph_parts:
  assumes "task_wf current" and "tasks = map_set (tk_id candidate) candidate current"
  shows "assertTaskGraphCandidate current candidate = Inr () \<longleftrightarrow> task_graph_ok tasks"
    and "assertTaskGraphCandidate current candidate = Inl v \<Longrightarrow>
      (v = GraphCycle \<and> \<not> acyclic (dep_edges tasks))
      \<or> (v = GraphDuplicate \<and> (\<exists>i t. map_of tasks i = Some t \<and> active_task t \<and> \<not> distinct (tk_blockedBy t)))
      \<or> (v = GraphMissing \<and> (\<exists>i b. (i, b) \<in> dep_edges tasks \<and> b \<notin> live_tasks tasks))"
proof -
  have wf: "task_wf tasks" using assms by simp
  let ?c = "check_tasks tasks (map snd tasks)"
  let ?r = "fold_result (visit (Suc (length tasks)) tasks) ({}, {}) (map (tk_id \<circ> snd) tasks)"
  have eq: "assertTaskGraphCandidate current candidate = bind_result ?c (\<lambda>_. bind_result ?r (\<lambda>_. Inr ()))"
    by (simp add: assertTaskGraphCandidate_def assms(2) Let_def)
  have loop: "acyclic (dep_edges tasks) \<Longrightarrow> (i, i) \<notin> dep_edges tasks" for i by (auto simp: acyclic_def)
  show "assertTaskGraphCandidate current candidate = Inr () \<longleftrightarrow> task_graph_ok tasks"
  proof (cases "?c = Inr ()")
    case True
    then have ok: "blockers_ok tasks" using check_tasks_all [OF wf] by simp
    show ?thesis unfolding eq True using search_exact(1) [OF wf ok] ok
      by (auto simp: task_graph_ok_def result_simps)
  next
    case False
    then have "\<not> task_graph_ok tasks" using check_tasks_all [OF wf] loop by (auto simp: task_graph_ok_def)
    with False show ?thesis by (auto simp: eq result_simps)
  qed
  assume err: "assertTaskGraphCandidate current candidate = Inl v"
  show "(v = GraphCycle \<and> \<not> acyclic (dep_edges tasks))
      \<or> (v = GraphDuplicate \<and> (\<exists>i t. map_of tasks i = Some t \<and> active_task t \<and> \<not> distinct (tk_blockedBy t)))
      \<or> (v = GraphMissing \<and> (\<exists>i b. (i, b) \<in> dep_edges tasks \<and> b \<notin> live_tasks tasks))"
  proof (cases ?c)
    case (Inr u)
    then have ok: "blockers_ok tasks" using check_tasks_all [OF wf] by simp
    from err Inr have r: "?r = Inl v" by (simp add: eq result_simps)
    then have "\<not> acyclic (dep_edges tasks)" using search_exact(1) [OF wf ok] by fastforce
    with search_exact(2) [OF wf ok r] show ?thesis by simp
  next
    case (Inl w)
    with err have w: "w = v" by (simp add: eq)
    from check_tasks_Inl [OF Inl] obtain t where t: "t \<in> snd ` set tasks" "active_task t"
      "check_blockers tasks (tk_id t) {} (tk_blockedBy t) = Inl v" by (auto simp: w)
    then have lk: "map_of tasks (tk_id t) = Some t" using task_wf_mem [OF wf] by blast
    have "(tk_id t, b) \<in> dep_edges tasks \<longleftrightarrow> b \<in> set (tk_blockedBy t)" for b
      using lk t(2) by (auto simp: dep_edges_def)
    with check_blockers_Inl [OF t(3)] lk t(2) loop show ?thesis by (metis inf_bot_right subsetI)
  qed
qed

section \<open>Normalized text and scopes\<close>

lemma requiredText_Inr: "requiredText v n = Inr s \<Longrightarrow> s = js_trim v \<and> s \<noteq> [] \<and> length s \<le> n"
  by (auto simp: requiredText_def Let_def split: if_splits)

lemma split_on_dot: "take 2 s = ''./'' \<Longrightarrow> ''.'' \<in> set (split_on CHR ''/'' s)"
proof -
  assume "take 2 s = ''./''"
  then obtain r where "s = CHR ''.'' # CHR ''/'' # r"
    by (cases s; cases "tl s") auto
  then show ?thesis by simp
qed

text \<open>A scope that normalizes is a fixed point: normalizing it again changes nothing.\<close>

lemma writeScope_idem: "writeScope v = Inr s \<Longrightarrow> writeScope s = Inr s"
proof -
  assume ok: "writeScope v = Inr s"
  define slash where "slash = (\<lambda>c. if c = CHR 0x5C then CHR ''/'' else c :: char)"
  define m where "m = drop_dot_slash (map slash v)"
  have s: "s = drop_trailing_slashes m"
    and good: "s \<noteq> [] \<and> take 1 s \<noteq> ''/'' \<and> \<not> drive_prefix s"
      "\<not> list_ex (\<lambda>s. s = [] \<or> s = ''.'' \<or> s = ''..'') (split_on CHR ''/'' s)"
    using ok by (auto simp: writeScope_def Let_def m_def slash_def split: if_splits)
  have "set m \<subseteq> slash ` set v" by (auto simp: m_def drop_dot_slash_def dest: in_set_dropD)
  then have "set s \<subseteq> slash ` set v" unfolding s drop_trailing_slashes_def
    using set_dropWhileD by fastforce
  then have "\<forall>c \<in> set s. slash c = c" by (auto simp: slash_def)
  then have a: "map slash s = s" by (simp add: map_idI)
  have b: "drop_dot_slash s = s"
    using good(2) split_on_dot [of s] by (auto simp: drop_dot_slash_def list_ex_iff)
  have c: "drop_trailing_slashes s = s"
    unfolding s drop_trailing_slashes_def by (simp add: dropWhile_idem)
  show ?thesis using a b c good by (simp add: writeScope_def Let_def slash_def)
qed

section \<open>Properties\<close>

definition sample_task :: "string \<Rightarrow> task_id list \<Rightarrow> team_task" where
  "sample_task i bs = \<lparr>tk_id = i, tk_revision = 1, tk_subject = ''s'', tk_description = ''d'',
     tk_status = TaskPending, tk_ownerId = None, tk_blockedBy = bs, tk_writeScopes = []\<rparr>"

text \<open>
  C36. The task-graph validator is exact and its search ends: over any task map, a candidate is accepted
  if and only if, in the map that has it, every active task names distinct active blockers and the
  dependency relation is acyclic. A rejection names a true defect (a cycle, a repeated blocker, or a
  blocker that is missing or deleted), never a search that ran out.
\<close>

theorem task_graph_exact:
  assumes "task_wf current"
  shows "(let tasks = map_set (tk_id candidate) candidate current in
    (case assertTaskGraphCandidate current candidate of
       Inr _ \<Rightarrow> task_graph_ok tasks
     | Inl GraphCycle \<Rightarrow> \<not> acyclic (dep_edges tasks)
     | Inl GraphDuplicate \<Rightarrow> \<exists>i t. map_of tasks i = Some t \<and> active_task t \<and> \<not> distinct (tk_blockedBy t)
     | Inl GraphMissing \<Rightarrow> \<exists>i b. (i, b) \<in> dep_edges tasks \<and> b \<notin> live_tasks tasks
     | Inl GraphOutOfFuel \<Rightarrow> False))"
proof (cases "assertTaskGraphCandidate current candidate")
  case (Inl v)
  from assert_graph_parts(2) [OF assms refl Inl] Inl show ?thesis by (cases v) (auto simp: Let_def)
next
  case (Inr u)
  with assert_graph_parts(1) [OF assms refl, of candidate] show ?thesis by (simp add: Let_def)
qed

theorem task_graph_exact_witness:
  "task_graph_ok [(''a'', sample_task ''a'' []), (''b'', sample_task ''b'' [''a''])]
   \<and> \<not> acyclic (dep_edges [(''a'', sample_task ''a'' [''b'']), (''b'', sample_task ''b'' [''a''])])"
  using task_graph_exact [of "[(''a'', sample_task ''a'' [])]" "sample_task ''b'' [''a'']"]
    task_graph_exact [of "[(''a'', sample_task ''a'' [''b''])]" "sample_task ''b'' [''a'']"]
  by (simp add: task_wf_def sample_task_def assertTaskGraphCandidate_def Let_def)

end
