(* ===== verification/Team_Fold.thy ===== *)
theory Team_Fold
  imports Team_Graph
begin

text \<open>
  The durable team stream of \<open>agent-team/src/fold.ts\<close>: members, tasks and mailbox messages are whole
  snapshots in the lead's session log, and the fold accepts only legal successions of them. The payload
  schemas are values of a parsing library, so the fold takes them as an argument: a selector that reads
  the version and the team, and one decoder per event type. Records of another team, which a forked
  session inherits, are skipped. The theorem characterizes the folded state by the stream.
\<close>

section \<open>Members and messages\<close>

type_synonym team_id = string
type_synonym team_message_id = string

datatype member_context = ContextFresh | ContextFork

datatype member_phase = PhaseProvisioning | PhaseMemberActive | PhaseMemberFailed

record team_member =
  tm_id :: session_id
  tm_name :: string
  tm_description :: string
  tm_provider :: string
  tm_context :: member_context
  tm_phase :: member_phase
  tm_error :: "string option"

datatype team_delivery = DeliverQuiet | DeliverWakeup

record team_message =
  mm_id :: team_message_id
  mm_senderId :: session_id
  mm_senderName :: string
  mm_targetId :: session_id
  mm_delivery :: team_delivery
  mm_content :: "content_block list"

datatype team_event_type = TeamMemberEv | TeamTaskEv | TeamQueuedEv | TeamDeliveredEv

datatype team_data =
    MemberData team_member
  | TaskData team_task
  | QueuedData team_message
  | DeliveredData team_message_id session_id

record team_schemas =
  zs_selector :: "json \<Rightarrow> (int \<times> team_id) option"
  zs_member :: "json \<Rightarrow> (team_id \<times> team_member) option"
  zs_task :: "json \<Rightarrow> (team_id \<times> team_task) option"
  zs_queued :: "json \<Rightarrow> (team_id \<times> team_message) option"
  zs_delivered :: "json \<Rightarrow> (team_id \<times> team_message_id \<times> session_id) option"

datatype team_fold_error =
    PayloadInvalid team_event_type
  | UnsupportedVersion int
  | NameReused string
  | MustBeginProvisioning string
  | IdentityChanged session_id
  | BadPhaseTransition member_phase member_phase
  | MustBeginRevisionOne task_id
  | RevisionNotContiguous task_id
  | TaskGraphInvalid graph_violation
  | QueuedTwice team_message_id
  | DeliveredBeforeQueueing team_message_id
  | TargetChanged team_message_id
  | DeliveredTwice team_message_id

record team_state =
  tf_id :: team_id
  tf_members :: "(session_id \<times> team_member) list"
  tf_memberIdsByName :: "(string \<times> session_id) list"
  tf_tasks :: task_map
  tf_messages :: "(team_message_id \<times> team_message) list"
  tf_delivered :: "team_message_id set"
  tf_nextTaskNumber :: int

definition emptyTeamFoldState :: "session_id \<Rightarrow> team_state" where
  "emptyTeamFoldState rootId =
     \<lparr>tf_id = rootId, tf_members = [], tf_memberIdsByName = [], tf_tasks = [], tf_messages = [],
      tf_delivered = {}, tf_nextTaskNumber = 1\<rparr>"

section \<open>Decoding\<close>

fun team_event_name :: "team_event_type \<Rightarrow> string" where
  "team_event_name TeamMemberEv = ''team/member''"
| "team_event_name TeamTaskEv = ''team/task''"
| "team_event_name TeamQueuedEv = ''team/message/queued''"
| "team_event_name TeamDeliveredEv = ''team/message/delivered''"

definition isTeamEvent :: "string \<Rightarrow> team_event_type option" where
  "isTeamEvent t = find (\<lambda>ty. team_event_name ty = t) [TeamMemberEv, TeamTaskEv, TeamQueuedEv, TeamDeliveredEv]"

fun parseCurrentTeamEvent :: "team_schemas \<Rightarrow> team_event_type \<Rightarrow> json \<Rightarrow> (team_id \<times> team_data) option" where
  "parseCurrentTeamEvent z TeamMemberEv v = map_option (map_prod id MemberData) (zs_member z v)"
| "parseCurrentTeamEvent z TeamTaskEv v = map_option (map_prod id TaskData) (zs_task z v)"
| "parseCurrentTeamEvent z TeamQueuedEv v = map_option (map_prod id QueuedData) (zs_queued z v)"
| "parseCurrentTeamEvent z TeamDeliveredEv v =
     map_option (\<lambda>(team, m, target). (team, DeliveredData m target)) (zs_delivered z v)"

text \<open>
  The number of \<open>task-<digits>\<close>. The task schema admits it only up to the greatest safe integer, where
  \<open>Number\<close> of the digits is exact.
\<close>

definition numericTaskId :: "task_id \<Rightarrow> nat option" where
  "numericTaskId s =
     (if take 5 s = ''task-'' \<and> drop 5 s \<noteq> [] \<and> list_all is_decimal (drop 5 s)
      then Some (decimal_value (drop 5 s)) else None)"

section \<open>Applying one record\<close>

definition apply_member :: "team_state \<Rightarrow> team_member \<Rightarrow> team_fold_error + team_state" where
  "apply_member st m =
     (let named = map_of (tf_memberIdsByName st) (tm_name m) in
      if named \<noteq> None \<and> named \<noteq> Some (tm_id m) then Inl (NameReused (tm_name m))
      else case map_of (tf_members st) (tm_id m) of
             None \<Rightarrow>
               if tm_phase m \<noteq> PhaseProvisioning then Inl (MustBeginProvisioning (tm_name m))
               else Inr (st\<lparr>tf_memberIdsByName := map_set (tm_name m) (tm_id m) (tf_memberIdsByName st),
                            tf_members := map_set (tm_id m) m (tf_members st)\<rparr>)
           | Some prior \<Rightarrow>
               if tm_name prior \<noteq> tm_name m \<or> tm_provider prior \<noteq> tm_provider m \<or> tm_context prior \<noteq> tm_context m
               then Inl (IdentityChanged (tm_id m))
               else if tm_phase prior \<noteq> PhaseProvisioning \<or> tm_phase m = PhaseProvisioning
               then Inl (BadPhaseTransition (tm_phase prior) (tm_phase m))
               else Inr (st\<lparr>tf_members := map_set (tm_id m) m (tf_members st)\<rparr>))"

definition next_number :: "int \<Rightarrow> task_id \<Rightarrow> int" where
  "next_number next i =
     (case numericTaskId i of
        None \<Rightarrow> next
      | Some n \<Rightarrow> max next (if int n = max_safe_integer then int n else int n + 1))"

definition apply_task :: "team_state \<Rightarrow> team_task \<Rightarrow> team_fold_error + team_state" where
  "apply_task st t =
     (let prior = map_of (tf_tasks st) (tk_id t) in
      if prior = None \<and> tk_revision t \<noteq> 1 then Inl (MustBeginRevisionOne (tk_id t))
      else if prior \<noteq> None \<and> tk_revision t \<noteq> tk_revision (the prior) + 1
      then Inl (RevisionNotContiguous (tk_id t))
      else case assertTaskGraphCandidate (tf_tasks st) t of
             Inl v \<Rightarrow> Inl (TaskGraphInvalid v)
           | Inr _ \<Rightarrow>
               Inr (st\<lparr>tf_nextTaskNumber := next_number (tf_nextTaskNumber st) (tk_id t),
                       tf_tasks := map_set (tk_id t) t (tf_tasks st)\<rparr>))"

definition apply_queued :: "team_state \<Rightarrow> team_message \<Rightarrow> team_fold_error + team_state" where
  "apply_queued st m =
     (if map_of (tf_messages st) (mm_id m) \<noteq> None then Inl (QueuedTwice (mm_id m))
      else Inr (st\<lparr>tf_messages := map_set (mm_id m) m (tf_messages st)\<rparr>))"

definition apply_delivered :: "team_state \<Rightarrow> team_message_id \<Rightarrow> session_id \<Rightarrow> team_fold_error + team_state" where
  "apply_delivered st i target =
     (case map_of (tf_messages st) i of
        None \<Rightarrow> Inl (DeliveredBeforeQueueing i)
      | Some queued \<Rightarrow>
          if mm_targetId queued \<noteq> target then Inl (TargetChanged i)
          else if i \<in> tf_delivered st then Inl (DeliveredTwice i)
          else Inr (st\<lparr>tf_delivered := insert i (tf_delivered st)\<rparr>))"

fun apply_team_data :: "team_state \<Rightarrow> team_data \<Rightarrow> team_fold_error + team_state" where
  "apply_team_data st (MemberData m) = apply_member st m"
| "apply_team_data st (TaskData t) = apply_task st t"
| "apply_team_data st (QueuedData m) = apply_queued st m"
| "apply_team_data st (DeliveredData i target) = apply_delivered st i target"

text \<open>The record an event carries for a team, if any: the guards before the switch.\<close>

definition team_record ::
  "team_schemas \<Rightarrow> team_id \<Rightarrow> session_event \<Rightarrow> team_fold_error + team_data option" where
  "team_record z team e =
     (case ev_data e of
        OtherEvent t v \<Rightarrow>
          (case isTeamEvent t of
             None \<Rightarrow> Inr None
           | Some ty \<Rightarrow>
               (case zs_selector z v of
                  None \<Rightarrow> Inl (PayloadInvalid ty)
                | Some (version, selected) \<Rightarrow>
                    if version \<noteq> 1 then
                      (if selected \<noteq> team then Inr None else Inl (UnsupportedVersion version))
                    else (case parseCurrentTeamEvent z ty v of
                            None \<Rightarrow> Inl (PayloadInvalid ty)
                          | Some (owner, d) \<Rightarrow> if owner \<noteq> team then Inr None else Inr (Some d))))
      | _ \<Rightarrow> Inr None)"

definition applyTeamEvent ::
  "team_schemas \<Rightarrow> team_state \<Rightarrow> session_event \<Rightarrow> team_fold_error + team_state" where
  "applyTeamEvent z st e =
     bind_result (team_record z (tf_id st) e) (\<lambda>d.
       case d of None \<Rightarrow> Inr st | Some d \<Rightarrow> apply_team_data st d)"

fun fold_team_events ::
  "team_schemas \<Rightarrow> team_state \<Rightarrow> session_event list \<Rightarrow> team_fold_error + team_state" where
  "fold_team_events z st [] = Inr st"
| "fold_team_events z st (e # es) = bind_result (applyTeamEvent z st e) (\<lambda>st'. fold_team_events z st' es)"

definition foldTeam :: "team_schemas \<Rightarrow> session_id \<Rightarrow> session_event list \<Rightarrow> team_fold_error + team_state" where
  "foldTeam z rootId events = fold_team_events z (emptyTeamFoldState rootId) events"

section \<open>Numeric task identities\<close>

lemma numericTaskId_render: "numericTaskId (''task-'' @ nat_string n) = Some n"
  using nat_string_digits [of n] by (simp add: numericTaskId_def)

lemma next_number_ge: "next \<le> next_number next i"
  by (simp add: next_number_def split: option.splits)

text \<open>Every numbered task lies below the next number, unless the numbers are exhausted.\<close>

definition numbers_ok :: "int \<Rightarrow> task_map \<Rightarrow> bool" where
  "numbers_ok next tasks \<longleftrightarrow> 1 \<le> next \<and>
     (\<forall>i n. i \<in> fst ` set tasks \<longrightarrow> numericTaskId i = Some n \<longrightarrow>
        int n < next \<or> (int n = max_safe_integer \<and> max_safe_integer \<le> next))"

lemma numbers_ok_set:
  "numbers_ok next tasks \<Longrightarrow> numbers_ok (next_number next i) (map_set i t tasks)"
proof -
  assume ok: "numbers_ok next tasks"
  have keys: "fst ` set (map_set i t tasks) = insert i (fst ` set tasks)"
    using keys_map_set [of i t tasks] by simp
  have "int n < next_number next i \<or> (int n = max_safe_integer \<and> max_safe_integer \<le> next_number next i)"
    if "j = i \<or> j \<in> fst ` set tasks" "numericTaskId j = Some n" for j n
    using that ok next_number_ge [of "next" i] by (force simp: numbers_ok_def next_number_def)
  with ok next_number_ge [of "next" i] keys show ?thesis by (auto simp: numbers_ok_def)
qed

lemma fresh_task_id:
  assumes "numbers_ok next tasks" "next < max_safe_integer"
  shows "map_of tasks (''task-'' @ nat_string (nat next)) = None"
proof (rule ccontr)
  let ?i = "''task-'' @ nat_string (nat next)"
  assume "map_of tasks ?i \<noteq> None"
  then have "?i \<in> fst ` set tasks" by (metis map_of_eq_None_iff)
  with assms numericTaskId_render [of "nat next"] show False by (force simp: numbers_ok_def)
qed


section \<open>What the stream determines\<close>

definition records_of :: "team_schemas \<Rightarrow> team_id \<Rightarrow> session_event list \<Rightarrow> team_data list" where
  "records_of z team es =
     concat (map (\<lambda>e. case team_record z team e of Inr (Some d) \<Rightarrow> [d] | _ \<Rightarrow> []) es)"

fun task_records :: "team_data list \<Rightarrow> team_task list" where
  "task_records [] = []"
| "task_records (TaskData t # ds) = t # task_records ds"
| "task_records (_ # ds) = task_records ds"

fun queued_records :: "team_data list \<Rightarrow> team_message list" where
  "queued_records [] = []"
| "queued_records (QueuedData m # ds) = m # queued_records ds"
| "queued_records (_ # ds) = queued_records ds"

fun delivered_records :: "team_data list \<Rightarrow> (team_message_id \<times> session_id) list" where
  "delivered_records [] = []"
| "delivered_records (DeliveredData i target # ds) = (i, target) # delivered_records ds"
| "delivered_records (_ # ds) = delivered_records ds"

definition versions_of :: "task_id \<Rightarrow> team_data list \<Rightarrow> team_task list" where
  "versions_of i ds = filter (\<lambda>t. tk_id t = i) (task_records ds)"

definition tasks_ok :: "team_data list \<Rightarrow> team_state \<Rightarrow> bool" where
  "tasks_ok ds st \<longleftrightarrow> task_wf (tf_tasks st) \<and> task_graph_ok (tf_tasks st)
     \<and> numbers_ok (tf_nextTaskNumber st) (tf_tasks st)
     \<and> (\<forall>i. map_of (tf_tasks st) i = (if versions_of i ds = [] then None else Some (last (versions_of i ds)))
          \<and> map tk_revision (versions_of i ds) = map int [1..<Suc (length (versions_of i ds))])"

definition members_ok :: "team_state \<Rightarrow> bool" where
  "members_ok st \<longleftrightarrow>
     (\<forall>k m. map_of (tf_members st) k = Some m \<longrightarrow> tm_id m = k \<and> map_of (tf_memberIdsByName st) (tm_name m) = Some k)
     \<and> (\<forall>n k. map_of (tf_memberIdsByName st) n = Some k \<longrightarrow> (\<exists>m. map_of (tf_members st) k = Some m \<and> tm_name m = n))"

definition mail_ok :: "team_data list \<Rightarrow> team_state \<Rightarrow> bool" where
  "mail_ok ds st \<longleftrightarrow> tf_messages st = map (\<lambda>m. (mm_id m, m)) (queued_records ds)
     \<and> distinct (map mm_id (queued_records ds))
     \<and> tf_delivered st = fst ` set (delivered_records ds) \<and> distinct (map fst (delivered_records ds))
     \<and> (\<forall>(i, target) \<in> set (delivered_records ds). \<exists>m \<in> set (queued_records ds). mm_id m = i \<and> mm_targetId m = target)"

definition team_ok :: "session_id \<Rightarrow> team_data list \<Rightarrow> team_state \<Rightarrow> bool" where
  "team_ok rootId ds st \<longleftrightarrow> tf_id st = rootId \<and> tasks_ok ds st \<and> members_ok st \<and> mail_ok ds st"

lemma task_records_append [simp]: "task_records (xs @ ys) = task_records xs @ task_records ys"
  by (induction xs rule: task_records.induct) simp_all

lemma queued_records_append [simp]: "queued_records (xs @ ys) = queued_records xs @ queued_records ys"
  by (induction xs rule: queued_records.induct) simp_all

lemma delivered_records_append [simp]: "delivered_records (xs @ ys) = delivered_records xs @ delivered_records ys"
  by (induction xs rule: delivered_records.induct) simp_all

lemma versions_of_append [simp]: "versions_of i (xs @ ys) = versions_of i xs @ versions_of i ys"
  by (simp add: versions_of_def)

lemma map_of_ids: "map_of (map (\<lambda>m. (mm_id m, m)) ms) i = Some m \<Longrightarrow> m \<in> set ms \<and> mm_id m = i"
  by (induction ms) (auto split: if_splits)

lemma map_of_ids_None: "map_of (map (\<lambda>m. (mm_id m, m)) ms) i = None \<longleftrightarrow> i \<notin> mm_id ` set ms"
  by (induction ms) auto

lemma empty_graph_ok [simp]: "task_graph_ok []"
  by (simp add: task_graph_ok_def blockers_ok_def dep_edges_def acyclic_def)

lemma team_ok_empty: "team_ok rootId [] (emptyTeamFoldState rootId)"
  by (simp add: team_ok_def tasks_ok_def members_ok_def mail_ok_def emptyTeamFoldState_def numbers_ok_def versions_of_def)

lemma apply_task_Inr:
  "apply_task st t = Inr st' \<longleftrightarrow>
     (case map_of (tf_tasks st) (tk_id t) of None \<Rightarrow> tk_revision t = 1 | Some p \<Rightarrow> tk_revision t = tk_revision p + 1)
     \<and> assertTaskGraphCandidate (tf_tasks st) t = Inr ()
     \<and> st' = st\<lparr>tf_nextTaskNumber := next_number (tf_nextTaskNumber st) (tk_id t),
               tf_tasks := map_set (tk_id t) t (tf_tasks st)\<rparr>"
  by (auto simp: apply_task_def Let_def split: option.splits sum.splits)

lemma tasks_ok_step:
  assumes ok: "tasks_ok ds st" and step: "apply_task st t = Inr st'"
  shows "tasks_ok (ds @ [TaskData t]) st'"
proof -
  let ?vs = "versions_of (tk_id t) ds"
  from ok have wf: "task_wf (tf_tasks st)" and num: "numbers_ok (tf_nextTaskNumber st) (tf_tasks st)"
    and lk: "\<And>i. map_of (tf_tasks st) i = (if versions_of i ds = [] then None else Some (last (versions_of i ds)))"
    and rev: "\<And>i. map tk_revision (versions_of i ds) = map int [1..<Suc (length (versions_of i ds))]"
    by (auto simp: tasks_ok_def)
  from step have st': "st' = st\<lparr>tf_nextTaskNumber := next_number (tf_nextTaskNumber st) (tk_id t),
               tf_tasks := map_set (tk_id t) t (tf_tasks st)\<rparr>"
    and graph: "task_graph_ok (map_set (tk_id t) t (tf_tasks st))"
    and prior: "case map_of (tf_tasks st) (tk_id t) of None \<Rightarrow> tk_revision t = 1 | Some p \<Rightarrow> tk_revision t = tk_revision p + 1"
    using assert_graph_parts(1) [OF wf refl, of t] by (auto simp: apply_task_Inr)
  have "tk_revision t = int (Suc (length ?vs))"
  proof (cases "?vs = []")
    case False
    then have "tk_revision (last ?vs) = last (map int [1..<Suc (length ?vs)])"
      using rev [of "tk_id t"] by (metis last_map)
    also have "\<dots> = int (length ?vs)" using False by (simp add: last_map Suc_le_eq)
    finally show ?thesis using prior lk [of "tk_id t"] False by simp
  qed (use prior lk [of "tk_id t"] in simp)
  moreover have "versions_of i [TaskData t] = (if i = tk_id t then [t] else [])" for i
    by (simp add: versions_of_def)
  ultimately show ?thesis
    using wf graph numbers_ok_set [OF num] lk rev by (simp add: tasks_ok_def st')
qed

lemma members_ok_step:
  assumes ok: "members_ok st" and step: "apply_member st m = Inr st'"
  shows "members_ok st'"
proof (cases "map_of (tf_members st) (tm_id m)")
  case None
  with ok have new: "map_of (tf_memberIdsByName st) n \<noteq> Some (tm_id m)" for n
    unfolding members_ok_def by (metis option.distinct(1))
  with step None have st': "st' = st\<lparr>tf_memberIdsByName := map_set (tm_name m) (tm_id m) (tf_memberIdsByName st),
      tf_members := map_set (tm_id m) m (tf_members st)\<rparr>" and free: "map_of (tf_memberIdsByName st) (tm_name m) = None"
    by (auto simp: apply_member_def Let_def split: if_splits)
  from ok free have "tm_name u \<noteq> tm_name m" if "map_of (tf_members st) k = Some u" for k u
    using that unfolding members_ok_def by (metis option.distinct(1))
  with ok new show ?thesis by (auto simp: members_ok_def st')
next
  case (Some prior)
  with step have "st' = st\<lparr>tf_members := map_set (tm_id m) m (tf_members st)\<rparr>" "tm_name prior = tm_name m"
    by (auto simp: apply_member_def Let_def split: if_splits)
  with ok Some show ?thesis by (fastforce simp: members_ok_def)
qed

lemma queued_ok_step:
  assumes ok: "mail_ok ds st" and step: "apply_queued st m = Inr st'"
  shows "mail_ok (ds @ [QueuedData m]) st'"
proof -
  from step have new: "map_of (tf_messages st) (mm_id m) = None"
    and st': "st' = st\<lparr>tf_messages := map_set (mm_id m) m (tf_messages st)\<rparr>"
    by (auto simp: apply_queued_def split: if_splits)
  with ok show ?thesis by (auto simp: mail_ok_def map_set_new map_of_ids_None)
qed

lemma delivered_ok_step:
  assumes ok: "mail_ok ds st" and step: "apply_delivered st i target = Inr st'"
  shows "mail_ok (ds @ [DeliveredData i target]) st'"
proof -
  from step obtain m where m: "map_of (tf_messages st) i = Some m" "mm_targetId m = target" "i \<notin> tf_delivered st"
    and st': "st' = st\<lparr>tf_delivered := insert i (tf_delivered st)\<rparr>"
    by (auto simp: apply_delivered_def split: if_splits option.splits)
  from m(1) ok have "m \<in> set (queued_records ds)" "mm_id m = i" by (auto simp: mail_ok_def dest: map_of_ids)
  with ok m st' show ?thesis by (auto simp: mail_ok_def)
qed

lemma apply_frames:
  "apply_member st m = Inr st' \<Longrightarrow> tf_id st' = tf_id st \<and> tf_tasks st' = tf_tasks st
     \<and> tf_nextTaskNumber st' = tf_nextTaskNumber st \<and> tf_messages st' = tf_messages st \<and> tf_delivered st' = tf_delivered st"
  "apply_queued st q = Inr st' \<Longrightarrow> tf_id st' = tf_id st \<and> tf_tasks st' = tf_tasks st
     \<and> tf_nextTaskNumber st' = tf_nextTaskNumber st \<and> tf_members st' = tf_members st \<and> tf_memberIdsByName st' = tf_memberIdsByName st"
  "apply_delivered st i target = Inr st' \<Longrightarrow> tf_id st' = tf_id st \<and> tf_tasks st' = tf_tasks st
     \<and> tf_nextTaskNumber st' = tf_nextTaskNumber st \<and> tf_members st' = tf_members st \<and> tf_memberIdsByName st' = tf_memberIdsByName st"
  by (auto simp: apply_member_def apply_queued_def apply_delivered_def Let_def split: if_splits option.splits)

lemma team_ok_step:
  assumes ok: "team_ok rootId ds st" and step: "apply_team_data st d = Inr st'"
  shows "team_ok rootId (ds @ [d]) st'"
proof -
  from ok have parts: "tf_id st = rootId" "tasks_ok ds st" "members_ok st" "mail_ok ds st" by (auto simp: team_ok_def)
  show ?thesis
  proof (cases d)
    case (MemberData m)
    with step have s: "apply_member st m = Inr st'" by simp
    from apply_frames(1) [OF s] members_ok_step [OF parts(3) s] parts MemberData show ?thesis
      by (simp add: team_ok_def tasks_ok_def mail_ok_def versions_of_def)
  next
    case (TaskData t)
    with step have s: "apply_task st t = Inr st'" by simp
    with tasks_ok_step [OF parts(2) s] parts TaskData show ?thesis
      by (auto simp: team_ok_def members_ok_def mail_ok_def apply_task_Inr)
  next
    case (QueuedData q)
    with step have s: "apply_queued st q = Inr st'" by simp
    from apply_frames(2) [OF s] queued_ok_step [OF parts(4) s] parts QueuedData show ?thesis
      by (simp add: team_ok_def tasks_ok_def members_ok_def versions_of_def)
  next
    case (DeliveredData i target)
    with step have s: "apply_delivered st i target = Inr st'" by simp
    from apply_frames(3) [OF s] delivered_ok_step [OF parts(4) s] parts DeliveredData show ?thesis
      by (simp add: team_ok_def tasks_ok_def members_ok_def versions_of_def)
  qed
qed

interpretation team: log_replay "\<lambda>pre st e. applyTeamEvent z st e" "emptyTeamFoldState rootId"
  "\<lambda>es st. team_ok rootId (records_of z rootId es) st" for z rootId
proof
  show "team_ok rootId (records_of z rootId []) (emptyTeamFoldState rootId)"
    by (simp add: records_of_def team_ok_empty)
next
  fix pre st e st'
  assume ok: "team_ok rootId (records_of z rootId pre) st" and step: "applyTeamEvent z st e = Inr st'"
  from ok have root: "tf_id st = rootId" by (simp add: team_ok_def)
  from step obtain d where d: "team_record z rootId e = Inr d"
    "(case d of None \<Rightarrow> Inr st | Some d \<Rightarrow> apply_team_data st d) = Inr st'"
    by (auto simp: applyTeamEvent_def result_simps root)
  then show "team_ok rootId (records_of z rootId (pre @ [e])) st'"
    using ok team_ok_step [OF ok] by (cases d) (simp_all add: records_of_def)
qed

lemma fold_team_replay: "fold_team_events z st es = replay_from (\<lambda>pre st e. applyTeamEvent z st e) pre st es"
  by (induction es arbitrary: st pre) simp_all

lemma foldTeam_project: "foldTeam z rootId es = team.project z rootId es"
  unfolding foldTeam_def team.project_def by (rule fold_team_replay)

lemma foldTeam_snoc: "foldTeam z rootId (es @ [e]) = bind_result (foldTeam z rootId es) (\<lambda>st. applyTeamEvent z st e)"
  by (simp add: foldTeam_project team.project_snoc)

lemma foldTeam_ok: "foldTeam z rootId es = Inr st \<Longrightarrow> team_ok rootId (records_of z rootId es) st"
  by (simp add: foldTeam_project team.project_inv)

lemma members_injective:
  "members_ok st \<Longrightarrow> map_of (tf_members st) a = Some m \<Longrightarrow> map_of (tf_members st) b = Some n \<Longrightarrow> tm_name m = tm_name n
    \<Longrightarrow> a = b"
  unfolding members_ok_def by (metis option.inject)

section \<open>Properties\<close>

text \<open>
  C37. A team stream that folds determines its state. The current tasks are the latest snapshots, whose
  revisions are 1, 2, 3, ... without gap, and their dependency graph is well-formed and acyclic; the next
  task number names no task until the safe integers are exhausted. No two members share a name, and the
  name index finds exactly the members. Every message was queued once, the map lists the messages in
  queueing order, and a message was delivered at most once, to its target, after it was queued.
\<close>

theorem team_history_ok:
  assumes "foldTeam z rootId es = Inr st"
  shows "let ds = records_of z rootId es in
     (\<forall>i. map_of (tf_tasks st) i = (if versions_of i ds = [] then None else Some (last (versions_of i ds)))
        \<and> map tk_revision (versions_of i ds) = map int [1..<Suc (length (versions_of i ds))])
     \<and> task_graph_ok (tf_tasks st)
     \<and> (tf_nextTaskNumber st < max_safe_integer \<longrightarrow>
          map_of (tf_tasks st) (''task-'' @ nat_string (nat (tf_nextTaskNumber st))) = None)
     \<and> (\<forall>n k. map_of (tf_memberIdsByName st) n = Some k \<longleftrightarrow>
          (\<exists>m. map_of (tf_members st) k = Some m \<and> tm_name m = n))
     \<and> mail_ok ds st"
proof -
  let ?ds = "records_of z rootId es"
  from foldTeam_ok [OF assms] have t: "tasks_ok ?ds st" and m: "members_ok st" and q: "mail_ok ?ds st"
    by (auto simp: team_ok_def)
  from m have "map_of (tf_memberIdsByName st) n = Some k \<longleftrightarrow> (\<exists>m. map_of (tf_members st) k = Some m \<and> tm_name m = n)"
    for n k unfolding members_ok_def by metis
  with t q fresh_task_id show ?thesis unfolding Let_def tasks_ok_def by blast
qed

definition sample_schemas :: team_schemas where
  "sample_schemas =
     \<lparr>zs_selector = (\<lambda>v. case v of JArr (JStr team # _) \<Rightarrow> Some (1, team) | _ \<Rightarrow> None),
      zs_member = (\<lambda>v. None),
      zs_task = (\<lambda>v. case v of JArr [JStr team, JStr i, JNum r] \<Rightarrow>
          Some (team, (sample_task i [])\<lparr>tk_revision := \<lfloor>r\<rfloor>\<rparr>) | _ \<Rightarrow> None),
      zs_queued = (\<lambda>v. None), zs_delivered = (\<lambda>v. None)\<rparr>"

definition sample_team_event :: "int \<Rightarrow> string \<Rightarrow> rat \<Rightarrow> session_event" where
  "sample_team_event seq i r =
     \<lparr>ev_seq = seq, ev_time = 0, ev_data = OtherEvent ''team/task'' (JArr [JStr ''lead'', JStr i, JNum r]),
      ev_surfaceOp = None, ev_sourceEventSeqs = None, ev_ignorable = False\<rparr>"

definition sample_team_log :: "session_event list" where
  "sample_team_log = [sample_team_event 0 ''task-1'' 1, sample_team_event 1 ''task-1'' 2, sample_team_event 2 ''task-4'' 1]"

theorem team_history_ok_witness:
  "\<exists>st. foldTeam sample_schemas ''lead'' sample_team_log = Inr st \<and> tf_nextTaskNumber st = 5 \<and>
     map_of (tf_tasks st) ''task-5'' = None \<and> task_graph_ok (tf_tasks st)"
proof -
  have "\<not> isl (foldTeam sample_schemas ''lead'' sample_team_log)" by code_simp
  then obtain st where st: "foldTeam sample_schemas ''lead'' sample_team_log = Inr st"
    by (cases "foldTeam sample_schemas ''lead'' sample_team_log") auto
  moreover have "map_sum id tf_nextTaskNumber (foldTeam sample_schemas ''lead'' sample_team_log) = Inr 5" by code_simp
  ultimately have n: "tf_nextTaskNumber st = 5" by simp
  moreover have "''task-'' @ nat_string (nat 5) = ''task-5''" by code_simp
  moreover have "tf_nextTaskNumber st < max_safe_integer \<longrightarrow>
      map_of (tf_tasks st) (''task-'' @ nat_string (nat (tf_nextTaskNumber st))) = None" "task_graph_ok (tf_tasks st)"
    using team_history_ok [OF st] unfolding Let_def by blast+
  ultimately show ?thesis using st by (simp add: max_safe_integer_def)
qed

end
