(* ===== verification/Team_Board.thy ===== *)
theory Team_Board
  imports Team_Fold Session_Log
begin

text \<open>
  The shared task board of \<open>agent-team/src/task-board.ts\<close> over the lead's session log: a command folds
  the log, checks its limits, authorization and the transition, validates the complete graph, and
  appends one whole snapshot through the journal (\<open>journal.ts\<close>). The journal runs the commands of one
  lead one after the other, so a command is one transition of the lead's session. The clock, the
  dispatch vetoes, the outcome of the flush and the payload schemas are the environment. The theorem
  shows that what the board writes always replays, that the view it returns is the view of the new
  state, and that a transition is authorized, contiguous and never starts a blocked task.
\<close>

section \<open>Commands and views\<close>

record create_task_request =
  nr_subject :: string
  nr_description :: string
  nr_blockedBy :: "task_id list option"
  nr_writeScopes :: "string list option"

datatype team_task_action = ActClaim | ActRelease | ActEdit | ActSetDependencies | ActComplete | ActReopen | ActReassign | ActDelete

record update_task_request =
  ur_taskId :: task_id
  ur_expectedRevision :: js_number
  ur_action :: team_task_action
  ur_subject :: "string option"
  ur_description :: "string option"
  ur_blockedBy :: "task_id list option"
  ur_writeScopes :: "string list option"
  ur_owner :: "string option"

record team_task_view =
  tw_id :: task_id
  tw_revision :: int
  tw_subject :: string
  tw_description :: string
  tw_status :: task_status
  tw_blockedBy :: "task_id list"
  tw_writeScopes :: "string list"
  tw_ownerName :: "string option"
  tw_ready :: bool
  tw_warnings :: "string list"

datatype team_error =
    TeamError team_error_code
  | TeamReplay team_fold_error
  | TeamAppend session_error
  | TeamFlush

record team_membership =
  mb_root :: session_id
  mb_lead :: bool

record team_env =
  tv_schemas :: team_schemas
  tv_now :: int
  tv_veto :: "session \<Rightarrow> session_event \<Rightarrow> bool"
  tv_flushed :: bool
  tv_maxTasks :: int

record team_world =
  lw_session :: session
  lw_commits :: nat

section \<open>The journal\<close>

definition journal_state :: "team_env \<Rightarrow> session_id \<Rightarrow> team_world \<Rightarrow> team_error + team_state" where
  "journal_state env rootId w =
     (case foldTeam (tv_schemas env) rootId (se_log (lw_session w)) of Inl err \<Rightarrow> Inl (TeamReplay err) | Inr st \<Rightarrow> Inr st)"

fun task_status_json :: "task_status \<Rightarrow> json" where
  "task_status_json TaskPending = JStr ''pending''"
| "task_status_json TaskInProgress = JStr ''in_progress''"
| "task_status_json TaskDone = JStr ''completed''"
| "task_status_json TaskDeleted = JStr ''deleted''"

definition task_json :: "team_task \<Rightarrow> json" where
  "task_json t = JObj ([(''id'', JStr (tk_id t)), (''revision'', JNum (of_int (tk_revision t))),
      (''subject'', JStr (tk_subject t)), (''description'', JStr (tk_description t)),
      (''status'', task_status_json (tk_status t))] @ opt_field ''ownerId'' JStr (tk_ownerId t)
      @ [(''blockedBy'', JArr (map JStr (tk_blockedBy t))), (''writeScopes'', JArr (map JStr (tk_writeScopes t)))])"

definition task_event_json :: "team_id \<Rightarrow> team_task \<Rightarrow> json" where
  "task_event_json team t = JObj [(''version'', JNum 1), (''teamId'', JStr team), (''task'', task_json t)]"

definition appendAndFlush ::
  "team_env \<Rightarrow> team_world \<Rightarrow> team_event_type \<Rightarrow> json \<Rightarrow> team_world \<times> (team_error + unit)" where
  "appendAndFlush env w ty v =
     (case session_append (lw_session w) False (tv_veto env (lw_session w)) (tv_now env)
             (OtherEvent (team_event_name ty) v)
             \<lparr>ao_surfaceOp = None, ao_sourceEventSeqs = None, ao_ignorable = False\<rparr> of
        (s, Inl err) \<Rightarrow> (w\<lparr>lw_session := s\<rparr>, Inl (TeamAppend err))
      | (s, Inr _) \<Rightarrow>
          if tv_flushed env then (w\<lparr>lw_session := s, lw_commits := lw_commits w + 1\<rparr>, Inr ())
          else (w\<lparr>lw_session := s\<rparr>, Inl TeamFlush))"

section \<open>Validation and derived views\<close>

text \<open>The elements of a \<open>Set\<close> in insertion order.\<close>

definition set_elements :: "'a list \<Rightarrow> 'a list" where
  "set_elements xs = rev (remdups (rev xs))"

definition has_prefix :: "string \<Rightarrow> string \<Rightarrow> bool" where
  "has_prefix p s \<longleftrightarrow> take (length p) s = p"

definition scopesOverlap :: "string \<Rightarrow> string \<Rightarrow> bool" where
  "scopesOverlap l r \<longleftrightarrow> l = r \<or> has_prefix (r @ ''/'') l \<or> has_prefix (l @ ''/'') r"

fun graph_error_code :: "graph_violation \<Rightarrow> team_error_code" where
  "graph_error_code GraphMissing = TEAM_TASK_NOT_FOUND"
| "graph_error_code GraphDuplicate = TEAM_INVALID_ARGUMENT"
| "graph_error_code GraphCycle = TEAM_TASK_DEPENDENCY_CYCLE"
| "graph_error_code GraphOutOfFuel = TEAM_TASK_DEPENDENCY_CYCLE"

definition assertTaskGraph :: "team_state \<Rightarrow> team_task \<Rightarrow> team_error_code + unit" where
  "assertTaskGraph st t =
     (case assertTaskGraphCandidate (tf_tasks st) t of Inl v \<Rightarrow> Inl (graph_error_code v) | Inr _ \<Rightarrow> Inr ())"

fun dependencies_loop ::
  "team_state \<Rightarrow> task_id option \<Rightarrow> task_id set \<Rightarrow> task_id list \<Rightarrow> task_id list \<Rightarrow> team_error_code + task_id list" where
  "dependencies_loop st self seen result [] = Inr result"
| "dependencies_loop st self seen result (i # is) =
     (if Some i = self then Inl TEAM_TASK_DEPENDENCY_CYCLE
      else if i \<in> seen then Inl TEAM_INVALID_ARGUMENT
      else case map_of (tf_tasks st) i of
             None \<Rightarrow> Inl TEAM_TASK_NOT_FOUND
           | Some t \<Rightarrow>
               if tk_status t = TaskDeleted then Inl TEAM_TASK_NOT_FOUND
               else dependencies_loop st self (insert i seen) (result @ [i]) is)"

definition dependencies :: "task_id list \<Rightarrow> team_state \<Rightarrow> task_id option \<Rightarrow> team_error_code + task_id list" where
  "dependencies values st self = dependencies_loop st self {} [] values"

fun map_result :: "('a \<Rightarrow> 'e + 'b) \<Rightarrow> 'a list \<Rightarrow> 'e + 'b list" where
  "map_result f [] = Inr []"
| "map_result f (x # xs) = bind_result (f x) (\<lambda>y. bind_result (map_result f xs) (\<lambda>ys. Inr (y # ys)))"

definition writeScopes :: "string list \<Rightarrow> team_error_code + string list" where
  "writeScopes values = bind_result (map_result writeScope values) (\<lambda>ss. Inr (set_elements ss))"

definition taskReady :: "team_state \<Rightarrow> team_task \<Rightarrow> bool" where
  "taskReady st t =
     list_all (\<lambda>i. map_option tk_status (map_of (tf_tasks st) i) = Some TaskDone) (tk_blockedBy t)"

definition withoutOwner :: "team_task \<Rightarrow> team_task" where
  "withoutOwner t = t\<lparr>tk_ownerId := None\<rparr>"

definition scope_warnings :: "team_state \<Rightarrow> team_task \<Rightarrow> string list" where
  "scope_warnings st t =
     set_elements (map (\<lambda>u. ''write scopes overlap with '' @ tk_id u)
       (filter (\<lambda>u. \<not> (tk_id u = tk_id t \<or> tk_status u \<noteq> TaskInProgress)
            \<and> list_ex (\<lambda>l. list_ex (scopesOverlap l) (tk_writeScopes u)) (tk_writeScopes t))
          (map snd (tf_tasks st))))"

definition taskView :: "session_id \<Rightarrow> team_state \<Rightarrow> team_task \<Rightarrow> team_task_view" where
  "taskView rootId st t =
     \<lparr>tw_id = tk_id t, tw_revision = tk_revision t, tw_subject = tk_subject t, tw_description = tk_description t,
      tw_status = tk_status t, tw_blockedBy = tk_blockedBy t, tw_writeScopes = tk_writeScopes t,
      tw_ownerName = (case tk_ownerId t of
          None \<Rightarrow> None
        | Some o' \<Rightarrow> if o' = rootId then Some ''lead'' else map_option tm_name (map_of (tf_members st) o')),
      tw_ready = (tk_status t = TaskPending \<and> taskReady st t),
      tw_warnings = scope_warnings st t\<rparr>"

definition resolveActiveMember :: "session_id \<Rightarrow> team_state \<Rightarrow> string \<Rightarrow> team_error_code + session_id \<times> string" where
  "resolveActiveMember rootId st rawName =
     (let name = js_trim rawName in
      if name = ''lead'' then Inr (rootId, name)
      else case Option.bind (map_of (tf_memberIdsByName st) name) (map_of (tf_members st)) of
             None \<Rightarrow> Inl TEAM_MEMBER_NOT_FOUND
           | Some m \<Rightarrow>
               if tm_phase m \<noteq> PhaseMemberActive then Inl TEAM_MEMBER_NOT_FOUND else Inr (tm_id m, name))"

section \<open>Commands\<close>

definition commit_task ::
  "team_env \<Rightarrow> session_id \<Rightarrow> team_state \<Rightarrow> team_world \<Rightarrow> team_task \<Rightarrow> team_world \<times> (team_error + team_task_view)" where
  "commit_task env rootId st w t =
     (case assertTaskGraph st t of
        Inl code \<Rightarrow> (w, Inl (TeamError code))
      | Inr _ \<Rightarrow>
          (case appendAndFlush env w TeamTaskEv (task_event_json rootId t) of
             (w', Inl err) \<Rightarrow> (w', Inl err)
           | (w', Inr _) \<Rightarrow> (w', Inr (taskView rootId st t))))"

definition new_task :: "team_env \<Rightarrow> team_state \<Rightarrow> create_task_request \<Rightarrow> team_error_code + team_task" where
  "new_task env st req =
     (if tv_maxTasks env \<le> int (length (filter active_task (map snd (tf_tasks st)))) then Inl TEAM_TASK_LIMIT
      else let i = ''task-'' @ int_string (tf_nextTaskNumber st) in
        if map_of (tf_tasks st) i \<noteq> None then Inl TEAM_TASK_LIMIT
        else bind_result (requiredText (nr_subject req) 200) (\<lambda>subject.
             bind_result (requiredText (nr_description req) 16384) (\<lambda>description.
             bind_result (dependencies (case nr_blockedBy req of None \<Rightarrow> [] | Some bs \<Rightarrow> bs) st None) (\<lambda>blockedBy.
             bind_result (writeScopes (case nr_writeScopes req of None \<Rightarrow> [] | Some ss \<Rightarrow> ss)) (\<lambda>scopes.
               Inr \<lparr>tk_id = i, tk_revision = 1, tk_subject = subject, tk_description = description,
                    tk_status = TaskPending, tk_ownerId = None, tk_blockedBy = blockedBy, tk_writeScopes = scopes\<rparr>)))))"

definition board_create ::
  "team_env \<Rightarrow> team_membership \<Rightarrow> team_world \<Rightarrow> create_task_request \<Rightarrow> team_world \<times> (team_error + team_task_view)" where
  "board_create env mb w req =
     (case journal_state env (mb_root mb) w of
        Inl err \<Rightarrow> (w, Inl err)
      | Inr st \<Rightarrow>
          (case new_task env st req of
             Inl code \<Rightarrow> (w, Inl (TeamError code))
           | Inr t \<Rightarrow> commit_task env (mb_root mb) st w t))"

definition board_get :: "team_env \<Rightarrow> team_membership \<Rightarrow> team_world \<Rightarrow> task_id \<Rightarrow> team_error + team_task_view" where
  "board_get env mb w i =
     bind_result (journal_state env (mb_root mb) w) (\<lambda>st.
       case map_of (tf_tasks st) i of
         None \<Rightarrow> Inl (TeamError TEAM_TASK_NOT_FOUND)
       | Some t \<Rightarrow> Inr (taskView (mb_root mb) st t))"

definition board_list :: "team_env \<Rightarrow> team_membership \<Rightarrow> team_world \<Rightarrow> team_error + team_task_view list" where
  "board_list env mb w =
     bind_result (journal_state env (mb_root mb) w) (\<lambda>st.
       Inr (map (taskView (mb_root mb) st) (filter active_task (map snd (tf_tasks st)))))"

text \<open>The guard \<open>authorizeOwner\<close> and the switch over the action, up to the next snapshot.\<close>

definition authorizeOwner :: "bool \<Rightarrow> session_id \<Rightarrow> team_task \<Rightarrow> team_error_code + unit" where
  "authorizeOwner lead caller current =
     ensure (lead \<or> tk_ownerId current = Some caller) TEAM_TASK_UNAUTHORIZED"

definition edit_task :: "team_task \<Rightarrow> update_task_request \<Rightarrow> team_error_code + team_task" where
  "edit_task current req =
     (if ur_subject req = None \<and> ur_description req = None \<and> ur_writeScopes req = None then Inl TEAM_INVALID_ARGUMENT
      else bind_result (case ur_subject req of None \<Rightarrow> Inr (tk_subject current) | Some s \<Rightarrow> requiredText s 200) (\<lambda>subject.
           bind_result (case ur_description req of None \<Rightarrow> Inr (tk_description current) | Some d \<Rightarrow> requiredText d 16384) (\<lambda>description.
           bind_result (case ur_writeScopes req of None \<Rightarrow> Inr (tk_writeScopes current) | Some ss \<Rightarrow> writeScopes ss) (\<lambda>scopes.
             Inr (current\<lparr>tk_subject := subject, tk_description := description, tk_writeScopes := scopes\<rparr>)))))"

definition reassign_task ::
  "session_id \<Rightarrow> bool \<Rightarrow> team_state \<Rightarrow> team_task \<Rightarrow> update_task_request \<Rightarrow> team_error_code + team_task" where
  "reassign_task rootId lead st current req =
     (if \<not> lead then Inl TEAM_LEAD_REQUIRED
      else if tk_status current \<noteq> TaskPending \<and> tk_status current \<noteq> TaskInProgress then Inl TEAM_TASK_INVALID_TRANSITION
      else let unassigned = Inr (withoutOwner (current\<lparr>tk_status := TaskPending\<rparr>)) in
        case ur_owner req of
          None \<Rightarrow> unassigned
        | Some name \<Rightarrow>
            if js_trim name = [] then unassigned
            else if \<not> taskReady st current then Inl TEAM_TASK_BLOCKED
            else bind_result (resolveActiveMember rootId st name) (\<lambda>(assignee, _).
                   Inr (current\<lparr>tk_status := TaskInProgress, tk_ownerId := Some assignee\<rparr>)))"

definition next_snapshot ::
  "session_id \<Rightarrow> bool \<Rightarrow> session_id \<Rightarrow> team_state \<Rightarrow> team_task \<Rightarrow> update_task_request \<Rightarrow> team_error_code + team_task" where
  "next_snapshot rootId lead caller st current req =
     (case ur_action req of
        ActClaim \<Rightarrow>
          if tk_ownerId current \<noteq> None \<and> tk_ownerId current \<noteq> Some caller then Inl TEAM_TASK_ALREADY_CLAIMED
          else if tk_status current \<noteq> TaskPending \<or> \<not> taskReady st current then Inl TEAM_TASK_BLOCKED
          else Inr (current\<lparr>tk_status := TaskInProgress, tk_ownerId := Some caller\<rparr>)
      | ActRelease \<Rightarrow>
          bind_result (authorizeOwner lead caller current) (\<lambda>_.
          bind_result (ensure (tk_status current = TaskInProgress) TEAM_TASK_INVALID_TRANSITION) (\<lambda>_.
            Inr (withoutOwner (current\<lparr>tk_status := TaskPending\<rparr>))))
      | ActEdit \<Rightarrow> bind_result (authorizeOwner lead caller current) (\<lambda>_. edit_task current req)
      | ActSetDependencies \<Rightarrow>
          bind_result (authorizeOwner lead caller current) (\<lambda>_.
            case ur_blockedBy req of
              None \<Rightarrow> Inl TEAM_INVALID_ARGUMENT
            | Some bs \<Rightarrow> bind_result (dependencies bs st (Some (tk_id current))) (\<lambda>bs'. Inr (current\<lparr>tk_blockedBy := bs'\<rparr>)))
      | ActComplete \<Rightarrow>
          bind_result (authorizeOwner lead caller current) (\<lambda>_.
          bind_result (ensure (tk_status current = TaskInProgress) TEAM_TASK_INVALID_TRANSITION) (\<lambda>_.
            Inr (current\<lparr>tk_status := TaskDone\<rparr>)))
      | ActReopen \<Rightarrow>
          bind_result (authorizeOwner lead caller current) (\<lambda>_.
          bind_result (ensure (tk_status current = TaskDone) TEAM_TASK_INVALID_TRANSITION) (\<lambda>_.
            Inr (withoutOwner (current\<lparr>tk_status := TaskPending\<rparr>))))
      | ActReassign \<Rightarrow> reassign_task rootId lead st current req
      | ActDelete \<Rightarrow>
          bind_result (authorizeOwner lead caller current) (\<lambda>_.
            case find (\<lambda>t. active_task t \<and> tk_id t \<noteq> tk_id current \<and> tk_id current \<in> set (tk_blockedBy t))
                   (map snd (tf_tasks st)) of
              Some _ \<Rightarrow> Inl TEAM_TASK_HAS_DEPENDENTS
            | None \<Rightarrow> Inr (current\<lparr>tk_status := TaskDeleted\<rparr>)))"

definition updated_task ::
  "team_membership \<Rightarrow> session_id \<Rightarrow> team_state \<Rightarrow> update_task_request \<Rightarrow> team_error_code + team_task" where
  "updated_task mb caller st req =
     (case map_of (tf_tasks st) (ur_taskId req) of
        None \<Rightarrow> Inl TEAM_TASK_NOT_FOUND
      | Some current \<Rightarrow>
          if JsFin (of_int (tk_revision current)) \<noteq> ur_expectedRevision req then Inl TEAM_TASK_STALE_REVISION
          else if tk_status current = TaskDeleted then Inl TEAM_TASK_DELETED
          else bind_result (next_snapshot (mb_root mb) (mb_lead mb) caller st current req) (\<lambda>t.
                 Inr (t\<lparr>tk_revision := tk_revision current + 1\<rparr>)))"

definition board_update ::
  "team_env \<Rightarrow> team_membership \<Rightarrow> session_id \<Rightarrow> team_world \<Rightarrow> update_task_request \<Rightarrow> team_world \<times> (team_error + team_task_view)" where
  "board_update env mb caller w req =
     (case journal_state env (mb_root mb) w of
        Inl err \<Rightarrow> (w, Inl err)
      | Inr st \<Rightarrow>
          (case updated_task mb caller st req of
             Inl code \<Rightarrow> (w, Inl (TeamError code))
           | Inr t \<Rightarrow> commit_task env (mb_root mb) st w t))"

section \<open>What the schemas promise\<close>

definition task_id_ok :: "task_id \<Rightarrow> bool" where
  "task_id_ok i \<longleftrightarrow> i \<noteq> [] \<and> (case numericTaskId i of None \<Rightarrow> True | Some n \<Rightarrow> int n \<le> max_safe_integer)"

definition task_in_schema :: "team_task \<Rightarrow> bool" where
  "task_in_schema t \<longleftrightarrow> task_id_ok (tk_id t) \<and> 1 \<le> tk_revision t \<and> tk_revision t \<le> max_safe_integer
     \<and> tk_ownerId t \<noteq> Some [] \<and> list_all task_id_ok (tk_blockedBy t)"

text \<open>
  The documented behaviour of the schemas: a payload within the declared bounds parses to itself, and
  what parses is within the bounds.
\<close>

definition schemas_ok :: "team_schemas \<Rightarrow> bool" where
  "schemas_ok z \<longleftrightarrow>
     (\<forall>team t. team \<noteq> [] \<longrightarrow> task_in_schema t \<longrightarrow>
        zs_selector z (task_event_json team t) = Some (1, team) \<and> zs_task z (task_event_json team t) = Some (team, t))
     \<and> (\<forall>v team t. zs_task z v = Some (team, t) \<longrightarrow> task_in_schema t)
     \<and> (\<forall>v team m. zs_member z v = Some (team, m) \<longrightarrow> tm_id m \<noteq> [])"

definition state_in_schema :: "team_state \<Rightarrow> bool" where
  "state_in_schema st \<longleftrightarrow> tf_nextTaskNumber st \<le> max_safe_integer
     \<and> (\<forall>i t. map_of (tf_tasks st) i = Some t \<longrightarrow> task_in_schema t)
     \<and> (\<forall>k m. map_of (tf_members st) k = Some m \<longrightarrow> tm_id m \<noteq> [])"

fun data_in_schema :: "team_data \<Rightarrow> bool" where
  "data_in_schema (TaskData t) = task_in_schema t"
| "data_in_schema (MemberData m) = (tm_id m \<noteq> [])"
| "data_in_schema _ = True"

lemma record_in_schema: "schemas_ok z \<Longrightarrow> team_record z team e = Inr (Some d) \<Longrightarrow> data_in_schema d"
proof -
  assume z: "schemas_ok z" and r: "team_record z team e = Inr (Some d)"
  then obtain ty v owner where "parseCurrentTeamEvent z ty v = Some (owner, d)"
    by (auto simp: team_record_def split: event_data.splits option.splits if_splits)
  with z show ?thesis by (cases ty) (auto simp: schemas_ok_def)
qed

lemma next_number_bound: "task_id_ok i \<Longrightarrow> next \<le> max_safe_integer \<Longrightarrow> next_number next i \<le> max_safe_integer"
  by (auto simp: next_number_def task_id_ok_def split: option.splits)

lemma apply_in_schema:
  assumes "state_in_schema st" "data_in_schema d" "apply_team_data st d = Inr st'"
  shows "state_in_schema st'"
proof (cases d)
  case (TaskData t)
  with assms next_number_bound [of "tk_id t"] show ?thesis
    by (auto simp: state_in_schema_def apply_task_Inr task_in_schema_def)
next
  case (MemberData m)
  with assms show ?thesis
    by (auto simp: state_in_schema_def apply_member_def Let_def split: if_splits option.splits)
next
  case (QueuedData q)
  with assms apply_frames(2) [of st q st'] show ?thesis by (simp add: state_in_schema_def)
next
  case (DeliveredData i target)
  with assms apply_frames(3) [of st i target st'] show ?thesis by (simp add: state_in_schema_def)
qed

lemma folded_in_schema:
  assumes z: "schemas_ok z"
  shows "foldTeam z rootId es = Inr st \<Longrightarrow> state_in_schema st"
proof (induction es arbitrary: st rule: rev_induct)
  case Nil
  then show ?case
    by (auto simp: foldTeam_def emptyTeamFoldState_def state_in_schema_def max_safe_integer_def)
next
  case (snoc e es)
  then obtain st0 d where st0: "foldTeam z rootId es = Inr st0" and d: "team_record z (tf_id st0) e = Inr d"
    and step: "(case d of None \<Rightarrow> Inr st0 | Some d \<Rightarrow> apply_team_data st0 d) = Inr st"
    by (auto simp: foldTeam_snoc applyTeamEvent_def result_simps)
  show ?case
  proof (cases d)
    case (Some r)
    with d have "data_in_schema r" using record_in_schema [OF z] by simp
    with apply_in_schema [OF snoc.IH [OF st0]] step Some show ?thesis by simp
  qed (use step snoc.IH [OF st0] in simp)
qed

lemma records_length: "length (records_of z team es) \<le> length es"
  by (induction es) (auto simp: records_of_def split: sum.splits option.splits)

lemma task_records_length: "length (task_records ds) \<le> length ds"
  by (induction ds rule: task_records.induct) auto

lemma revision_bound:
  assumes "foldTeam z rootId es = Inr st" "map_of (tf_tasks st) i = Some t"
  shows "tk_revision t \<le> int (length es)"
proof -
  let ?vs = "versions_of i (records_of z rootId es)"
  have ok: "tasks_ok (records_of z rootId es) st" using foldTeam_ok [OF assms(1)] by (simp add: team_ok_def)
  then have vs: "?vs \<noteq> []" "t = last ?vs" "map tk_revision ?vs = map int [1..<Suc (length ?vs)]"
    using assms(2) unfolding tasks_ok_def by (auto split: if_splits)
  then have "tk_revision t = last (map int [1..<Suc (length ?vs)])" by (metis last_map)
  also have "\<dots> = int (length ?vs)" using vs(1) by (simp add: last_map Suc_le_eq)
  also have "\<dots> \<le> int (length es)"
    using length_filter_le [of _ "task_records (records_of z rootId es)"] task_records_length records_length
    unfolding versions_of_def by (meson le_trans of_nat_le_iff)
  finally show ?thesis .
qed

lemma live_ids_ok:
  assumes "state_in_schema st" "task_wf (tf_tasks st)" "set bs \<subseteq> live_tasks (tf_tasks st)"
  shows "list_all task_id_ok bs"
proof -
  have "task_id_ok b" if "map_of (tf_tasks st) b = Some u" for b u
    using that assms(1) task_wf_lookup [OF assms(2) that] by (auto simp: state_in_schema_def task_in_schema_def)
  with assms(3) show ?thesis by (auto simp: live_tasks_def list_all_iff)
qed

section \<open>Transitions\<close>

definition status_edges :: "(task_status \<times> task_status) set" where
  "status_edges = {(TaskPending, TaskInProgress), (TaskInProgress, TaskPending), (TaskInProgress, TaskDone),
     (TaskDone, TaskPending), (TaskPending, TaskDeleted), (TaskInProgress, TaskDeleted), (TaskDone, TaskDeleted)}"

definition owner_ok :: "team_task \<Rightarrow> bool" where
  "owner_ok t \<longleftrightarrow> (tk_status t = TaskPending \<longrightarrow> tk_ownerId t = None)
     \<and> (tk_status t \<in> {TaskInProgress, TaskDone} \<longrightarrow> tk_ownerId t \<noteq> None)"

text \<open>
  The contract of a transition: the revision is the next one, the caller leads the team, owns the task or
  claims it unowned, the status follows the lifecycle, a task starts only when all its blockers
  completed, and a task is owned exactly while it runs and once it is done.
\<close>

definition task_step :: "team_state \<Rightarrow> bool \<Rightarrow> session_id \<Rightarrow> team_task \<Rightarrow> team_task \<Rightarrow> bool" where
  "task_step st lead caller old new \<longleftrightarrow> tk_id new = tk_id old \<and> tk_revision new = tk_revision old + 1 \<and> active_task old
     \<and> (lead \<or> tk_ownerId old = Some caller
        \<or> tk_ownerId old = None \<and> tk_status old = TaskPending \<and> tk_status new = TaskInProgress \<and> tk_ownerId new = Some caller)
     \<and> (tk_status new = tk_status old \<or> (tk_status old, tk_status new) \<in> status_edges)
     \<and> (tk_status new = TaskInProgress \<and> tk_status old \<noteq> TaskInProgress \<longrightarrow> taskReady st new)
     \<and> (owner_ok old \<longrightarrow> owner_ok new)"

lemma dependencies_loop_Inr:
  "dependencies_loop st self seen result is = Inr bs \<Longrightarrow> bs = result @ is \<and> set is \<subseteq> live_tasks (tf_tasks st)"
proof (induction "is" arbitrary: seen result)
  case (Cons i js)
  then obtain t where "map_of (tf_tasks st) i = Some t" "active_task t"
    "dependencies_loop st self (insert i seen) (result @ [i]) js = Inr bs"
    by (auto split: if_splits option.splits)
  with Cons.IH [of "insert i seen" "result @ [i]"] show ?case by (auto simp: live_tasks_def)
qed simp

lemma dependencies_Inr: "dependencies vs st self = Inr bs \<Longrightarrow> bs = vs \<and> set bs \<subseteq> live_tasks (tf_tasks st)"
  using dependencies_loop_Inr [of st self "{}" "[]" vs bs] by (simp add: dependencies_def)

lemma edit_task_Inr:
  "edit_task current req = Inr t \<Longrightarrow>
     \<exists>s d ws. t = current\<lparr>tk_subject := s, tk_description := d, tk_writeScopes := ws\<rparr>"
  by (auto simp: edit_task_def result_simps split: if_splits)

lemma resolveActiveMember_id:
  "resolveActiveMember rootId st name = Inr (i, n) \<Longrightarrow> i = rootId \<or> (\<exists>k m. map_of (tf_members st) k = Some m \<and> tm_id m = i)"
  by (auto simp: resolveActiveMember_def Let_def bind_eq_Some_conv split: if_splits option.splits)

lemma reassign_task_Inr:
  "reassign_task rootId lead st current req = Inr t \<Longrightarrow> lead \<and> tk_status current \<in> {TaskPending, TaskInProgress}
     \<and> (t = withoutOwner (current\<lparr>tk_status := TaskPending\<rparr>)
        \<or> taskReady st current \<and> (\<exists>i. t = current\<lparr>tk_status := TaskInProgress, tk_ownerId := Some i\<rparr>
             \<and> (i = rootId \<or> (\<exists>k m. map_of (tf_members st) k = Some m \<and> tm_id m = i))))"
  by (auto simp: reassign_task_def Let_def result_simps split: if_splits option.splits dest: resolveActiveMember_id)

lemma taskReady_cong: "tk_blockedBy t = tk_blockedBy u \<Longrightarrow> taskReady st t = taskReady st u"
  by (simp add: taskReady_def)

lemmas snapshot_simps = next_snapshot_def authorizeOwner_def result_simps withoutOwner_def

lemma next_snapshot_step:
  assumes "next_snapshot rootId lead caller st current req = Inr t" "active_task current"
  shows "task_step st lead caller current (t\<lparr>tk_revision := tk_revision current + 1\<rparr>)"
proof (cases "ur_action req")
  case ActEdit
  with assms obtain s d ws where "t = current\<lparr>tk_subject := s, tk_description := d, tk_writeScopes := ws\<rparr>"
      "lead \<or> tk_ownerId current = Some caller"
    by (auto simp: snapshot_simps dest!: edit_task_Inr)
  with assms(2) show ?thesis by (auto simp: task_step_def owner_ok_def)
next
  case ActReassign
  with assms(1) have "reassign_task rootId lead st current req = Inr t" by (simp add: next_snapshot_def)
  from reassign_task_Inr [OF this] assms(2) show ?thesis
    by (auto simp: task_step_def owner_ok_def withoutOwner_def status_edges_def taskReady_def)
next
  case ActClaim
  with assms show ?thesis
    by (auto simp: snapshot_simps task_step_def owner_ok_def status_edges_def taskReady_def split: if_splits)
next
  case ActDelete
  with assms show ?thesis
    by (cases "tk_status current") (auto simp: snapshot_simps task_step_def owner_ok_def status_edges_def split: option.splits)
qed (use assms in \<open>auto simp: snapshot_simps task_step_def owner_ok_def status_edges_def split: option.splits\<close>)

lemma next_snapshot_in_schema:
  assumes step: "next_snapshot rootId lead caller st current req = Inr t"
    and st: "state_in_schema st" "task_wf (tf_tasks st)" and cur: "task_in_schema current"
    and ids: "rootId \<noteq> []" "caller \<noteq> []" and rev: "tk_revision current < max_safe_integer"
  shows "task_in_schema (t\<lparr>tk_revision := tk_revision current + 1\<rparr>)"
proof -
  have member: "tm_id m \<noteq> []" if "map_of (tf_members st) k = Some m" for k m
    using that st(1) by (auto simp: state_in_schema_def)
  have "t = current\<lparr>tk_subject := s, tk_description := d, tk_writeScopes := ws\<rparr> \<Longrightarrow> ?thesis" for s d ws
    using cur rev by (simp add: task_in_schema_def)
  moreover have ?thesis if "reassign_task rootId lead st current req = Inr t"
    using reassign_task_Inr [OF that] cur rev member ids by (auto simp: task_in_schema_def withoutOwner_def)
  ultimately show ?thesis
    using step cur rev ids live_ids_ok [OF st]
    by (cases "ur_action req")
      (auto simp: snapshot_simps task_in_schema_def split: if_splits option.splits
        dest!: edit_task_Inr dependencies_Inr)
qed

section \<open>Committing\<close>

lemma new_task_Inr:
  assumes "new_task env st req = Inr t"
  shows "tk_id t = ''task-'' @ int_string (tf_nextTaskNumber st) \<and> map_of (tf_tasks st) (tk_id t) = None
    \<and> tk_revision t = 1 \<and> tk_status t = TaskPending \<and> tk_ownerId t = None \<and> set (tk_blockedBy t) \<subseteq> live_tasks (tf_tasks st)
    \<and> int (length (filter active_task (map snd (tf_tasks st)))) < tv_maxTasks env"
  using assms by (auto simp: new_task_def Let_def result_simps not_le split: if_splits dest!: dependencies_Inr)

lemma new_task_in_schema:
  assumes "new_task env st req = Inr t" "state_in_schema st" "task_wf (tf_tasks st)"
    "1 \<le> tf_nextTaskNumber st"
  shows "task_in_schema t"
proof -
  note n = new_task_Inr [OF assms(1)]
  have "int_string (tf_nextTaskNumber st) = nat_string (nat (tf_nextTaskNumber st))"
    using assms(4) by (simp add: int_string_def)
  then have "numericTaskId (tk_id t) = Some (nat (tf_nextTaskNumber st))"
    using n numericTaskId_render by simp
  then have "task_id_ok (tk_id t)" using n assms(2,4) by (simp add: task_id_ok_def state_in_schema_def)
  with n live_ids_ok [OF assms(2,3)] show ?thesis by (simp add: task_in_schema_def max_safe_integer_def)
qed

lemma filter_others:
  assumes "\<forall>(k, u) \<in> set xs. tk_id u = k"
  shows "filter (\<lambda>u. tk_id u \<noteq> tk_id t \<and> P u) (map snd (map_set (tk_id t) t xs))
    = filter (\<lambda>u. tk_id u \<noteq> tk_id t \<and> P u) (map snd xs)"
  using assms by (induction xs) auto

text \<open>The view a commit returns, computed from the state before the append, is the view after it.\<close>

lemma taskView_stable:
  assumes wf: "task_wf (tf_tasks st)" and st': "tf_tasks st' = map_set (tk_id t) t (tf_tasks st)" "tf_members st' = tf_members st"
    and ok: "task_graph_ok (tf_tasks st')"
  shows "taskView rootId st' t = taskView rootId st t"
proof -
  have "scope_warnings st' t = scope_warnings st t"
    using filter_others [of "tf_tasks st" t] wf by (simp add: scope_warnings_def st' task_wf_def)
  moreover have "taskReady st' t = taskReady st t" if "active_task t"
  proof -
    have "tk_id t \<notin> set (tk_blockedBy t)"
    proof
      assume "tk_id t \<in> set (tk_blockedBy t)"
      with that have "(tk_id t, tk_id t) \<in> dep_edges (tf_tasks st')" by (simp add: dep_edges_def st')
      with ok show False by (auto simp: task_graph_ok_def acyclic_def)
    qed
    then have "(i = tk_id t) = False" if "i \<in> set (tk_blockedBy t)" for i using that by auto
    then show ?thesis by (simp add: taskReady_def st' list_all_iff)
  qed
  ultimately show ?thesis by (auto simp: taskView_def st' split: option.splits)
qed

definition committed_state :: "team_state \<Rightarrow> team_task \<Rightarrow> team_state" where
  "committed_state st t = st\<lparr>tf_nextTaskNumber := next_number (tf_nextTaskNumber st) (tk_id t),
     tf_tasks := map_set (tk_id t) t (tf_tasks st)\<rparr>"

abbreviation lead_log :: "team_world \<Rightarrow> session_event list" where
  "lead_log w \<equiv> se_log (lw_session w)"

lemma appendAndFlush_cases:
  assumes "appendAndFlush env w ty v = (w', r)"
  obtains (Rejected) err where "r = Inl (TeamAppend err)" "lead_log w' = lead_log w"
  | (Written) e where "lead_log w' = lead_log w @ [e]" "ev_data e = OtherEvent (team_event_name ty) v"
      "r = (if tv_flushed env then Inr () else Inl TeamFlush)"
proof (cases "session_append (lw_session w) False (tv_veto env (lw_session w)) (tv_now env)
             (OtherEvent (team_event_name ty) v) \<lparr>ao_surfaceOp = None, ao_sourceEventSeqs = None, ao_ignorable = False\<rparr>")
  case (Pair s x)
  from Pair show thesis
  proof (cases rule: session_append_cases)
    case (Rejected m err)
    with assms Pair show thesis by (intro that(1)) (auto simp: appendAndFlush_def)
  next
    case (Accepted m e)
    with assms Pair show thesis
      by (intro that(2) [of e]) (auto simp: appendAndFlush_def candidate_event_def split: if_splits)
  qed
qed

lemma isTeamEvent_task: "isTeamEvent (team_event_name TeamTaskEv) = Some TeamTaskEv"
  by (simp add: isTeamEvent_def)

lemma commit_task_outcome:
  assumes z: "schemas_ok (tv_schemas env)" "rootId \<noteq> []"
    and st: "foldTeam (tv_schemas env) rootId (lead_log w) = Inr st"
    and t: "task_in_schema t"
    and rev: "case map_of (tf_tasks st) (tk_id t) of None \<Rightarrow> tk_revision t = 1 | Some p \<Rightarrow> tk_revision t = tk_revision p + 1"
    and step: "commit_task env rootId st w t = (w', r)"
  shows "lead_log w' = lead_log w \<and> (\<exists>code rej. r \<in> {Inl (TeamError code), Inl (TeamAppend rej)})
    \<or> (\<exists>e. lead_log w' = lead_log w @ [e]) \<and> foldTeam (tv_schemas env) rootId (lead_log w') = Inr (committed_state st t)
       \<and> r = (if tv_flushed env then Inr (taskView rootId (committed_state st t) t) else Inl TeamFlush)"
proof (cases "assertTaskGraph st t")
  case (Inl code)
  with step show ?thesis by (auto simp: commit_task_def)
next
  case (Inr u)
  then have graph: "assertTaskGraphCandidate (tf_tasks st) t = Inr ()"
    by (simp add: assertTaskGraph_def split: sum.splits)
  from foldTeam_ok [OF st] have wf: "task_wf (tf_tasks st)" and i: "tf_id st = rootId"
    by (simp_all add: team_ok_def tasks_ok_def)
  from rev graph have applied: "apply_task st t = Inr (committed_state st t)"
    by (simp add: apply_task_Inr committed_state_def)
  have view: "taskView rootId (committed_state st t) t = taskView rootId st t"
    using graph assert_graph_parts(1) [OF wf refl, of t]
    by (intro taskView_stable [OF wf]) (simp_all add: committed_state_def)
  obtain x where x: "appendAndFlush env w TeamTaskEv (task_event_json rootId t) = (w', x)"
    and r: "r = (case x of Inl err \<Rightarrow> Inl err | Inr _ \<Rightarrow> Inr (taskView rootId st t))"
    using step Inr by (auto simp: commit_task_def split: prod.splits sum.splits)
  from x show ?thesis
  proof (cases rule: appendAndFlush_cases)
    case (Rejected err)
    then show ?thesis using r by auto
  next
    case (Written e)
    have "team_record (tv_schemas env) rootId e = Inr (Some (TaskData t))"
      using z t Written(2) isTeamEvent_task by (simp add: team_record_def schemas_ok_def)
    then have "foldTeam (tv_schemas env) rootId (lead_log w') = Inr (committed_state st t)"
      using applied by (simp add: Written foldTeam_snoc st applyTeamEvent_def i)
    then show ?thesis using Written r view by auto
  qed
qed

section \<open>Properties\<close>

datatype board_op = OpCreateTask create_task_request | OpUpdateTask update_task_request

fun board_step ::
  "team_env \<Rightarrow> team_membership \<Rightarrow> session_id \<Rightarrow> team_world \<Rightarrow> board_op \<Rightarrow> team_world \<times> (team_error + team_task_view)" where
  "board_step env mb caller w (OpCreateTask req) = board_create env mb w req"
| "board_step env mb caller w (OpUpdateTask req) = board_update env mb caller w req"

text \<open>What a command intends for the task it commits.\<close>

fun op_allows :: "team_env \<Rightarrow> team_membership \<Rightarrow> session_id \<Rightarrow> team_state \<Rightarrow> board_op \<Rightarrow> team_task \<Rightarrow> bool" where
  "op_allows env mb caller st (OpCreateTask req) t \<longleftrightarrow>
     map_of (tf_tasks st) (tk_id t) = None \<and> tk_revision t = 1 \<and> tk_status t = TaskPending \<and> tk_ownerId t = None
     \<and> int (length (filter active_task (map snd (tf_tasks st)))) < tv_maxTasks env"
| "op_allows env mb caller st (OpUpdateTask req) t \<longleftrightarrow>
     (\<exists>old. map_of (tf_tasks st) (ur_taskId req) = Some old \<and> ur_expectedRevision req = JsFin (of_int (tk_revision old))
        \<and> task_step st (mb_lead mb) caller old t)"

lemma updated_task_Inr:
  assumes "updated_task mb caller st req = Inr t"
  obtains old u where "map_of (tf_tasks st) (ur_taskId req) = Some old" "active_task old"
    "ur_expectedRevision req = JsFin (of_int (tk_revision old))"
    "next_snapshot (mb_root mb) (mb_lead mb) caller st old req = Inr u" "t = u\<lparr>tk_revision := tk_revision old + 1\<rparr>"
  using assms by (auto simp: updated_task_def result_simps split: option.splits if_splits)

lemma prepared_ok:
  assumes z: "schemas_ok z" and ids: "mb_root mb \<noteq> []" "caller \<noteq> []"
    and st: "foldTeam z (mb_root mb) es = Inr st" and len: "int (length es) < max_safe_integer"
  shows "new_task env st req = Inr t \<Longrightarrow> task_in_schema t \<and> op_allows env mb caller st (OpCreateTask req) t"
    and "updated_task mb caller st ureq = Inr t \<Longrightarrow> task_in_schema t \<and> op_allows env mb caller st (OpUpdateTask ureq) t"
proof -
  have wf: "task_wf (tf_tasks st)" and one: "1 \<le> tf_nextTaskNumber st"
    using foldTeam_ok [OF st] by (simp_all add: team_ok_def tasks_ok_def numbers_ok_def)
  note sch = folded_in_schema [OF z st]
  show "task_in_schema t \<and> op_allows env mb caller st (OpCreateTask req) t" if "new_task env st req = Inr t"
    using new_task_in_schema [OF that sch wf one] new_task_Inr [OF that] unfolding op_allows.simps by blast
  show "task_in_schema t \<and> op_allows env mb caller st (OpUpdateTask ureq) t" if "updated_task mb caller st ureq = Inr t"
    using that
  proof (cases rule: updated_task_Inr)
    case (1 old u)
    have "task_in_schema old" using 1(1) sch by (auto simp: state_in_schema_def)
    moreover have "tk_revision old < max_safe_integer" using revision_bound [OF st 1(1)] len by simp
    ultimately have "task_in_schema t"
      using next_snapshot_in_schema [OF 1(4) sch wf _ ids] 1(5) by simp
    with 1 next_snapshot_step [OF 1(4,2)] show ?thesis by auto
  qed
qed

lemma op_allows_revision:
  "task_wf (tf_tasks st) \<Longrightarrow> op_allows env mb caller st op t \<Longrightarrow>
    (case map_of (tf_tasks st) (tk_id t) of None \<Rightarrow> tk_revision t = 1 | Some p \<Rightarrow> tk_revision t = tk_revision p + 1)"
  by (cases op) (auto simp: task_step_def dest: task_wf_lookup)

text \<open>
  C38. The task board keeps the team stream valid. From any lead log that folds, a command either leaves
  the log unchanged and fails with a declared code or because the append was refused, or it appends one
  event after which the log folds to the old state with exactly one task replaced. A creation adds a fresh
  pending task within the limit. An update carries the current revision, and its transition is
  authorized, follows the lifecycle, starts no blocked task and keeps ownership consistent. The returned
  view, computed from the state before the append, is the view of the new state; it is withheld exactly
  when the flush failed.
\<close>

theorem task_board_sound:
  assumes "schemas_ok (tv_schemas env)" "mb_root mb \<noteq> []" "caller \<noteq> []"
    and "foldTeam (tv_schemas env) (mb_root mb) (lead_log w) = Inr st" "int (length (lead_log w)) < max_safe_integer"
    and "board_step env mb caller w op = (w', r)"
  shows "lead_log w' = lead_log w \<and> (\<exists>code rej. r \<in> {Inl (TeamError code), Inl (TeamAppend rej)})
    \<or> (\<exists>t. (\<exists>e. lead_log w' = lead_log w @ [e]) \<and> op_allows env mb caller st op t
         \<and> foldTeam (tv_schemas env) (mb_root mb) (lead_log w') = Inr (committed_state st t)
         \<and> r = (if tv_flushed env then Inr (taskView (mb_root mb) (committed_state st t) t) else Inl TeamFlush))"
proof -
  have js: "journal_state env (mb_root mb) w = Inr st" using assms(4) by (simp add: journal_state_def)
  have wf: "task_wf (tf_tasks st)" using foldTeam_ok [OF assms(4)] by (simp add: team_ok_def tasks_ok_def)
  note commit = commit_task_outcome [OF assms(1,2,4)]
  have written: ?thesis if "commit_task env (mb_root mb) st w t = (w', r)" "task_in_schema t" "op_allows env mb caller st op t" for t
    using commit [OF that(2) op_allows_revision [OF wf that(3)] that(1)] that(3) by blast
  show ?thesis
  proof (cases op)
    case (OpCreateTask req)
    then show ?thesis
      using assms(6) js written prepared_ok(1) [OF assms(1-5)]
      by (cases "new_task env st req") (auto simp: board_create_def)
  next
    case (OpUpdateTask req)
    then show ?thesis
      using assms(6) js written prepared_ok(2) [OF assms(1-5)]
      by (cases "updated_task mb caller st req") (auto simp: board_update_def)
  qed
qed

section \<open>A decoder that keeps the promise\<close>

text \<open>Schemas that read the payload back field by field, as an instance for the hypothesis of the theorem.\<close>

definition read_status :: "json option \<Rightarrow> task_status option" where
  "read_status v = find (\<lambda>s. v = Some (task_status_json s)) [TaskPending, TaskInProgress, TaskDone, TaskDeleted]"

fun read_strings :: "json option \<Rightarrow> string list option" where
  "read_strings (Some (JArr vs)) = those (map (\<lambda>v. as_string (Some v)) vs)"
| "read_strings _ = None"

fun read_task :: "json option \<Rightarrow> team_task option" where
  "read_task (Some (JObj ps)) =
     Option.bind (as_string (jget ps ''id'')) (\<lambda>i.
     Option.bind (as_safe_integer (jget ps ''revision'')) (\<lambda>revision.
     Option.bind (as_string (jget ps ''subject'')) (\<lambda>subject.
     Option.bind (as_string (jget ps ''description'')) (\<lambda>description.
     Option.bind (read_status (jget ps ''status'')) (\<lambda>status.
     Option.bind (read_strings (jget ps ''blockedBy'')) (\<lambda>blockedBy.
     Option.bind (read_strings (jget ps ''writeScopes'')) (\<lambda>scopes.
       let t = \<lparr>tk_id = i, tk_revision = revision, tk_subject = subject, tk_description = description, tk_status = status,
                tk_ownerId = as_string (jget ps ''ownerId''), tk_blockedBy = blockedBy, tk_writeScopes = scopes\<rparr>
       in if task_in_schema t then Some t else None)))))))"
| "read_task _ = None"

fun read_selector :: "json \<Rightarrow> (int \<times> team_id) option" where
  "read_selector (JObj ps) =
     Option.bind (as_safe_integer (jget ps ''version'')) (\<lambda>version.
     Option.bind (as_string (jget ps ''teamId'')) (\<lambda>team. Some (version, team)))"
| "read_selector _ = None"

fun read_task_event :: "json \<Rightarrow> (team_id \<times> team_task) option" where
  "read_task_event (JObj ps) =
     Option.bind (as_string (jget ps ''teamId'')) (\<lambda>team. map_option (Pair team) (read_task (jget ps ''task'')))"
| "read_task_event _ = None"

definition reading_schemas :: team_schemas where
  "reading_schemas = \<lparr>zs_selector = read_selector, zs_member = (\<lambda>_. None), zs_task = read_task_event,
     zs_queued = (\<lambda>_. None), zs_delivered = (\<lambda>_. None)\<rparr>"

lemma read_strings_map [simp]: "those (map ((\<lambda>v. as_string (Some v)) \<circ> JStr) xs) = Some xs"
  by (induction xs) auto

lemma read_status_json [simp]: "read_status (Some (task_status_json s)) = Some s"
  by (cases s) (simp_all add: read_status_def)

lemma read_task_json: "task_in_schema t \<Longrightarrow> read_task (Some (task_json t)) = Some t"
  by (cases "tk_ownerId t")
    (simp_all add: task_json_def jget_def opt_field_def task_in_schema_def safe_integer_of_def safe_int_def Let_def)

lemma read_task_in_schema: "read_task v = Some t \<Longrightarrow> task_in_schema t"
  by (induction v rule: read_task.induct) (auto simp: bind_eq_Some_conv Let_def split: if_splits)

lemma read_task_event_in_schema: "read_task_event v = Some (team, t) \<Longrightarrow> task_in_schema t"
  by (induction v rule: read_task_event.induct) (auto simp: bind_eq_Some_conv dest: read_task_in_schema)

lemma reading_schemas_ok: "schemas_ok reading_schemas"
proof -
  have "read_selector (task_event_json team t) = Some (1, team)" for team t
    by (simp add: task_event_json_def jget_def safe_integer_of_def safe_int_def max_safe_integer_def)
  moreover have "read_task_event (task_event_json team t) = Some (team, t)" if "task_in_schema t" for team t
    using read_task_json [OF that] by (simp add: task_event_json_def jget_def)
  ultimately show ?thesis using read_task_event_in_schema by (simp add: schemas_ok_def reading_schemas_def)
qed

definition sample_team_env :: team_env where
  "sample_team_env = \<lparr>tv_schemas = reading_schemas, tv_now = 5, tv_veto = (\<lambda>_ _. False), tv_flushed = True, tv_maxTasks = 8\<rparr>"

definition sample_team_world :: team_world where
  "sample_team_world = \<lparr>lw_session = sample_session, lw_commits = 0\<rparr>"

definition sample_create :: create_task_request where
  "sample_create = \<lparr>nr_subject = '' build '', nr_description = ''all'', nr_blockedBy = None, nr_writeScopes = Some [''./src/'']\<rparr>"

theorem task_board_sound_witness:
  "\<exists>st' t. foldTeam reading_schemas ''s'' (lead_log (fst (board_step sample_team_env \<lparr>mb_root = ''s'', mb_lead = True\<rparr> ''s''
       sample_team_world (OpCreateTask sample_create)))) = Inr st' \<and> map_of (tf_tasks st') (tk_id t) = Some t \<and> tk_revision t = 1"
proof -
  let ?x = "board_step sample_team_env \<lparr>mb_root = ''s'', mb_lead = True\<rparr> ''s'' sample_team_world (OpCreateTask sample_create)"
  have f: "foldTeam reading_schemas ''s'' (lead_log sample_team_world) = Inr (emptyTeamFoldState ''s'')" by code_simp
  have x: "length (lead_log (fst ?x)) \<noteq> length (lead_log sample_team_world)"
    "length (lead_log sample_team_world) < 100" by code_simp+
  have "tv_schemas sample_team_env = reading_schemas" by (simp add: sample_team_env_def)
  with task_board_sound [of sample_team_env "\<lparr>mb_root = ''s'', mb_lead = True\<rparr>" "''s''" sample_team_world
      "emptyTeamFoldState ''s''" "OpCreateTask sample_create" "fst ?x" "snd ?x"] reading_schemas_ok f x
  show ?thesis by (auto simp: max_safe_integer_def committed_state_def)
qed

end
