(* ===== verification/Session_Store.thy ===== *)
theory Session_Store
  imports Session_Log Repair
begin

text \<open>
  The live session store of \<open>core/session/src/index.ts\<close>: preparing, entering, announcing, appending to,
  detaching and forking sessions. Session objects and store entries have an identity, so they live in
  heaps and are named by references. Listeners run synchronously inside \<open>announce\<close>, \<open>append\<close> and the
  teardown notifications and may call back into the store; the stack of open calls is part of the state
  and the finishing of a call (its \<open>finally\<close> block) is an operation of its own, so a run is any
  interleaving the call stack allows. The lifecycle theorem shows that creation and disposal are paired,
  that a detach requested by a listener is deferred and never lost, and that a reentrant append never
  breaks the numbering of the log.
\<close>

section \<open>State\<close>

record session_entry =
  sy_id :: session_id
  sy_session :: nat
  sy_announced :: bool
  sy_announcing :: bool
  sy_appending :: bool
  sy_detachRequested :: bool

text \<open>
  An open call: announcing an entry, appending to it (with the candidate until it is pushed to the log),
  and the two teardown notifications.
\<close>

datatype store_frame =
    FrameAnnounce nat
  | FrameAppend nat "session_event option"
  | FrameDetached nat
  | FrameDisposed nat

datatype store_note = NoteCreated nat | NoteEvent nat session_event | NoteDetached nat | NoteDisposed nat

record store_state =
  st_sessions :: "nat \<Rightarrow> session"
  st_sessionCount :: nat
  st_entry :: "nat \<Rightarrow> session_entry"
  st_entryCount :: nat
  st_store :: "(session_id \<times> nat) list"
  st_attachments :: "nat \<Rightarrow> nat option"
  st_entered :: "nat set"
  st_counter :: nat
  st_frames :: "store_frame list"
  st_notes :: "store_note list"

datatype store_error =
    SessionExists session_id
  | AlreadyAttached session_id
  | NotLiveInStore session_id
  | AlreadyAnnounced session_id
  | SessionFailed session_error
  | ForkNotFound
  | ForkNotLive
  | ForkAlreadyExists
  | ForkInvalidBoundary
  | ForkOpenTurn

definition blank_entry :: session_entry where
  "blank_entry = \<lparr>sy_id = [], sy_session = 0, sy_announced = False, sy_announcing = False, sy_appending = False,
     sy_detachRequested = False\<rparr>"

definition empty_header :: session_header where
  "empty_header = \<lparr>sh_id = [], sh_createdAt = 0, sh_cwd = None, sh_parentSession = None, sh_seedLength = None,
     sh_origin = False, sh_delegationDepth = None, sh_agentPreset = None\<rparr>"

definition new_store :: store_state where
  "new_store = \<lparr>st_sessions = (\<lambda>_. blank_session empty_header), st_sessionCount = 0, st_entry = (\<lambda>_. blank_entry),
     st_entryCount = 0, st_store = [], st_attachments = (\<lambda>_. None), st_entered = {}, st_counter = 0, st_frames = [],
     st_notes = []\<rparr>"

abbreviation session_ident :: "session \<Rightarrow> session_id" where
  "session_ident s \<equiv> sh_id (se_header s)"

definition upd_entry :: "nat \<Rightarrow> (session_entry \<Rightarrow> session_entry) \<Rightarrow> store_state \<Rightarrow> store_state" where
  "upd_entry e f st = st\<lparr>st_entry := (st_entry st)(e := f (st_entry st e))\<rparr>"

section \<open>Preparing\<close>

definition minted :: "nat \<Rightarrow> session_id" where
  "minted n = ''session-'' @ nat_string n"

text \<open>The \<open>do ... while (this.store.has(sessionId))\<close> loop over the counter.\<close>

function mint_id :: "session_id list \<Rightarrow> nat \<Rightarrow> nat" where
  "mint_id keys c = (if minted (c + 1) \<in> set keys then mint_id keys (c + 1) else c + 1)"
  by pat_completeness auto
termination
proof (relation "measure (\<lambda>(keys, c). card {n. Suc c \<le> n \<and> minted n \<in> set keys})")
  fix keys :: "session_id list" and c
  assume "minted (c + 1) \<in> set keys"
  moreover have "inj minted" by (simp add: inj_def minted_def nat_string_inject)
  ultimately show "((keys, c + 1), (keys, c)) \<in> measure (\<lambda>(keys, c). card {n. Suc c \<le> n \<and> minted n \<in> set keys})"
    using fresh_search_decreases [of minted "c + 1" keys] by simp
qed simp

declare mint_id.simps [simp del]

text \<open>\<open>create\<close> metadata is a header without identity; a restored session passes its stored header.\<close>

datatype prepare_source = FromMeta "session_event list option" session_header "int option" | FromPersistence "session_event list" json

definition prepared_session :: "session_id \<Rightarrow> prepare_source \<Rightarrow> int \<Rightarrow> session_error + session" where
  "prepared_session sid src now =
     (case src of
        FromPersistence seed header \<Rightarrow> new_session True sid (Some seed) header now
      | FromMeta seed meta createdAt \<Rightarrow>
          new_session False sid seed
            (header_json (meta\<lparr>sh_id := sid, sh_createdAt := (case createdAt of Some t \<Rightarrow> t | None \<Rightarrow> now)\<rparr>)) now)"

definition prepare :: "store_state \<Rightarrow> session_id option \<Rightarrow> prepare_source \<Rightarrow> int \<Rightarrow> store_state \<times> (store_error + nat)" where
  "prepare st ident src now =
     (let (st1, sid) = (case ident of
            Some i \<Rightarrow> (st, i)
          | None \<Rightarrow> let n = mint_id (map fst (st_store st)) (st_counter st) in (st\<lparr>st_counter := n\<rparr>, minted n))
      in if map_of (st_store st) sid \<noteq> None then (st1, Inl (SessionExists sid))
         else case prepared_session sid src now of
                Inl err \<Rightarrow> (st1, Inl (SessionFailed err))
              | Inr s \<Rightarrow>
                  (st1\<lparr>st_sessions := (st_sessions st1)(st_sessionCount st1 := s),
                       st_sessionCount := st_sessionCount st1 + 1\<rparr>, Inr (st_sessionCount st1)))"

section \<open>The lifecycle of an entry\<close>

definition enter :: "store_state \<Rightarrow> nat \<Rightarrow> store_state \<times> (store_error + nat)" where
  "enter st s =
     (let sid = session_ident (st_sessions st s); e = st_entryCount st in
      if map_of (st_store st) sid \<noteq> None then (st, Inl (SessionExists sid))
      else if st_attachments st s \<noteq> None then (st, Inl (AlreadyAttached sid))
      else (st\<lparr>st_entry := (st_entry st)(e := blank_entry\<lparr>sy_id := sid, sy_session := s\<rparr>),
               st_entryCount := e + 1,
               st_store := map_set sid e (st_store st),
               st_attachments := (st_attachments st)(s := Some e),
               st_entered := insert e (st_entered st)\<rparr>, Inr e))"

text \<open>\<open>detachEntered\<close> up to the start of the \<open>session/detached\<close> notification.\<close>

definition detachEntered :: "store_state \<Rightarrow> nat \<Rightarrow> store_state" where
  "detachEntered st e =
     (let st1 = upd_entry e (\<lambda>y. y\<lparr>sy_detachRequested := False\<rparr>) st; y = st_entry st e in
      if map_of (st_store st) (sy_id y) \<noteq> Some e then st1
      else st1\<lparr>st_store := map_delete (sy_id y) (st_store st),
               st_attachments := (st_attachments st)(sy_session y := None),
               st_notes := st_notes st @ [NoteDetached e],
               st_frames := FrameDetached e # st_frames st\<rparr>)"

definition detach :: "store_state \<Rightarrow> nat \<Rightarrow> store_state" where
  "detach st e =
     (if e \<notin> st_entered st then st
      else let st1 = st\<lparr>st_entered := st_entered st - {e}\<rparr> in
        if sy_announcing (st_entry st e) \<or> sy_appending (st_entry st e)
        then upd_entry e (\<lambda>y. y\<lparr>sy_detachRequested := True\<rparr>) st1
        else detachEntered st1 e)"

definition liveEntryFor :: "store_state \<Rightarrow> nat \<Rightarrow> store_error + nat" where
  "liveEntryFor st s =
     (case st_attachments st s of
        None \<Rightarrow> Inl (NotLiveInStore (session_ident (st_sessions st s)))
      | Some e \<Rightarrow>
          if map_of (st_store st) (sy_id (st_entry st e)) \<noteq> Some e
          then Inl (NotLiveInStore (session_ident (st_sessions st s))) else Inr e)"

definition announce :: "store_state \<Rightarrow> nat \<Rightarrow> store_state \<times> (store_error + nat)" where
  "announce st s =
     (case liveEntryFor st s of
        Inl err \<Rightarrow> (st, Inl err)
      | Inr e \<Rightarrow>
          let y = st_entry st e in
          if sy_announced y \<or> sy_announcing y then (st, Inl (AlreadyAnnounced (sy_id y)))
          else ((upd_entry e (\<lambda>y. y\<lparr>sy_announced := True, sy_announcing := True\<rparr>) st)
                  \<lparr>st_notes := st_notes st @ [NoteCreated e], st_frames := FrameAnnounce e # st_frames st\<rparr>, Inr e))"

text \<open>
  An append of a session with an entry: validation, then the dispatch with the appending flag set. The
  validated candidate waits in the frame. A detached session has no listeners and appends at once.
\<close>

definition open_append ::
  "store_state \<Rightarrow> nat \<Rightarrow> int \<Rightarrow> event_data \<Rightarrow> append_opts \<Rightarrow> store_state \<times> (store_error + session_event)" where
  "open_append st s now d opts =
     (let x = st_sessions st s in
      case st_attachments st s of
        None \<Rightarrow>
          (case session_append x False (\<lambda>_. False) now d opts of
             (x', Inl err) \<Rightarrow> (st\<lparr>st_sessions := (st_sessions st)(s := x')\<rparr>, Inl (SessionFailed err))
           | (x', Inr ev) \<Rightarrow> (st\<lparr>st_sessions := (st_sessions st)(s := x')\<rparr>, Inr ev))
      | Some e \<Rightarrow>
          (case session_append x (sy_appending (st_entry st e)) (\<lambda>_. True) now d opts of
             (x', Inr ev) \<Rightarrow> (st\<lparr>st_sessions := (st_sessions st)(s := x')\<rparr>, Inr ev)
           | (x', Inl err) \<Rightarrow>
               let st1 = st\<lparr>st_sessions := (st_sessions st)(s := x')\<rparr> in
               if err \<noteq> DispatchVetoed then (st1, Inl (SessionFailed err))
               else let ev = candidate_event x now d opts in
                 ((upd_entry e (\<lambda>y. y\<lparr>sy_appending := True\<rparr>) st1)
                    \<lparr>st_frames := FrameAppend e (Some ev) # st_frames st\<rparr>, Inr ev)))"

text \<open>The dispatch checks passed: push the candidate and start the listeners.\<close>

definition commit_append :: "store_state \<Rightarrow> store_state" where
  "commit_append st =
     (case st_frames st of
        FrameAppend e (Some ev) # fs \<Rightarrow>
          let s = sy_session (st_entry st e); x = st_sessions st s in
          st\<lparr>st_sessions := (st_sessions st)(s := x\<lparr>se_log := se_log x @ [ev], se_eventsSnapshot := None\<rparr>),
             st_notes := st_notes st @ [NoteEvent e ev],
             st_frames := FrameAppend e None # fs\<rparr>
      | _ \<Rightarrow> st)"

text \<open>The top call returns or throws: its \<open>finally\<close> block, or the next teardown notification.\<close>

definition end_frame :: "store_state \<Rightarrow> store_state" where
  "end_frame st =
     (case st_frames st of
        [] \<Rightarrow> st
      | f # fs \<Rightarrow>
          let st0 = st\<lparr>st_frames := fs\<rparr> in
          (case f of
             FrameAnnounce e \<Rightarrow>
               let st1 = upd_entry e (\<lambda>y. y\<lparr>sy_announcing := False\<rparr>) st0 in
               if sy_detachRequested (st_entry st e) \<and> \<not> sy_appending (st_entry st e) then detachEntered st1 e else st1
           | FrameAppend e _ \<Rightarrow>
               let st1 = upd_entry e (\<lambda>y. y\<lparr>sy_appending := False\<rparr>) st0 in
               if sy_detachRequested (st_entry st e) \<and> \<not> sy_announcing (st_entry st e) then detachEntered st1 e else st1
           | FrameDetached e \<Rightarrow>
               if sy_announced (st_entry st e)
               then st0\<lparr>st_notes := st_notes st @ [NoteDisposed e], st_frames := FrameDisposed e # fs\<rparr>
               else st0
           | FrameDisposed e \<Rightarrow> st0))"

definition store_get :: "store_state \<Rightarrow> session_id \<Rightarrow> nat option" where
  "store_get st sid = map_option (\<lambda>e. sy_session (st_entry st e)) (map_of (st_store st) sid)"

definition store_list :: "store_state \<Rightarrow> nat list" where
  "store_list st = map (\<lambda>(_, e). sy_session (st_entry st e)) (st_store st)"

text \<open>\<open>flush\<close>: the outcomes of the listeners; the first failure is rethrown after all have settled.\<close>

definition store_flush :: "store_state \<Rightarrow> nat \<Rightarrow> ('e + unit) list \<Rightarrow> (store_error + 'e) + bool" where
  "store_flush st s results =
     (case liveEntryFor st s of
        Inl err \<Rightarrow> Inl (Inl err)
      | Inr _ \<Rightarrow> (case find isl results of Some r \<Rightarrow> Inl (Inr (projl r)) | None \<Rightarrow> Inr (results \<noteq> [])))"

section \<open>Forking\<close>

definition boundary_value :: "js_number \<Rightarrow> int option" where
  "boundary_value n =
     (case n of
        JsFin q \<Rightarrow> (case safe_integer_of q of Some i \<Rightarrow> if 0 \<le> i then Some i else None | None \<Rightarrow> None)
      | JsNegZero \<Rightarrow> Some 0
      | _ \<Rightarrow> None)"

fun turn_boundary :: "session_event \<Rightarrow> bool" where
  "turn_boundary e = (case ev_data e of TurnStart _ \<Rightarrow> True | TurnEnd _ _ \<Rightarrow> True | _ \<Rightarrow> False)"

fun starts_turn :: "session_event option \<Rightarrow> bool" where
  "starts_turn (Some e) = (case ev_data e of TurnStart _ \<Rightarrow> True | _ \<Rightarrow> False)"
| "starts_turn None = False"

definition forkSeed :: "session_event list \<Rightarrow> js_number option \<Rightarrow> store_error + session_event list" where
  "forkSeed events requested =
     (case (case requested of
              Some n \<Rightarrow> Some n
            | None \<Rightarrow> if events = [] then None else Some (JsFin (of_int (ev_seq (last events))))) of
        None \<Rightarrow> Inr []
      | Some n \<Rightarrow>
          (case boundary_value n of
             None \<Rightarrow> Inl ForkInvalidBoundary
           | Some b \<Rightarrow>
               if int (length events) \<le> b then Inl ForkInvalidBoundary
               else if ev_seq (events ! nat b) \<noteq> b then Inl ForkInvalidBoundary
               else let prefix = take (nat b + 1) events in
                 if starts_turn (find turn_boundary (rev prefix)) then Inl ForkOpenTurn else Inr prefix))"

datatype fork_source = ForkById session_id | ForkObject nat

definition resolveForkSource :: "store_state \<Rightarrow> fork_source \<Rightarrow> store_error + nat" where
  "resolveForkSource st src =
     (case src of
        ForkById sid \<Rightarrow> (case store_get st sid of None \<Rightarrow> Inl ForkNotFound | Some s \<Rightarrow> Inr s)
      | ForkObject s \<Rightarrow>
          (case store_get st (session_ident (st_sessions st s)) of
             None \<Rightarrow> Inl ForkNotFound
           | Some live \<Rightarrow> if live \<noteq> s then Inl ForkNotLive else Inr s))"

definition fork_meta :: "session \<Rightarrow> nat \<Rightarrow> session_header" where
  "fork_meta source n = empty_header\<lparr>sh_cwd := sh_cwd (se_header source),
     sh_parentSession := Some (session_ident source), sh_seedLength := Some (int n)\<rparr>"

text \<open>\<open>fork\<close> up to the child's entering, which is that of every created session.\<close>

definition fork ::
  "store_state \<Rightarrow> fork_source \<Rightarrow> js_number option \<Rightarrow> session_id option \<Rightarrow> int \<Rightarrow> store_state \<times> (store_error + nat)" where
  "fork st src boundary child now =
     (if (case child of Some c \<Rightarrow> store_get st c \<noteq> None | None \<Rightarrow> False) then (st, Inl ForkAlreadyExists)
      else case resolveForkSource st src of
             Inl err \<Rightarrow> (st, Inl err)
           | Inr s \<Rightarrow>
               (case forkSeed (se_log (st_sessions st s)) boundary of
                  Inl err \<Rightarrow> (st, Inl err)
                | Inr seed \<Rightarrow>
                    prepare st child (FromMeta (Some seed) (fork_meta (st_sessions st s) (length seed)) None) now))"

section \<open>Runs\<close>

datatype store_op =
    OpPrepare "session_id option" prepare_source int
  | OpFork fork_source "js_number option" "session_id option" int
  | OpEnter nat
  | OpDetach nat
  | OpAnnounce nat
  | OpAppend nat int event_data append_opts
  | OpCommit
  | OpEnd

fun store_step :: "store_state \<Rightarrow> store_op \<Rightarrow> store_state" where
  "store_step st (OpPrepare ident src now) = fst (prepare st ident src now)"
| "store_step st (OpFork src b child now) = fst (fork st src b child now)"
| "store_step st (OpEnter s) = fst (enter st s)"
| "store_step st (OpDetach e) = detach st e"
| "store_step st (OpAnnounce s) = fst (announce st s)"
| "store_step st (OpAppend s now d opts) = fst (open_append st s now d opts)"
| "store_step st OpCommit = commit_append st"
| "store_step st OpEnd = end_frame st"

text \<open>Only constructed session objects can be entered or appended to.\<close>

fun op_object :: "store_op \<Rightarrow> nat option" where
  "op_object (OpEnter s) = Some s"
| "op_object (OpAppend s _ _ _) = Some s"
| "op_object _ = None"

inductive store_run :: "store_state \<Rightarrow> bool" where
  store_start: "store_run new_store"
| store_stepped: "store_run st \<Longrightarrow> (\<forall>s. op_object op = Some s \<longrightarrow> s < st_sessionCount st) \<Longrightarrow> store_run (store_step st op)"

section \<open>The invariant\<close>

definition live_entry :: "store_state \<Rightarrow> nat \<Rightarrow> bool" where
  "live_entry st e \<longleftrightarrow> e < st_entryCount st \<and> map_of (st_store st) (sy_id (st_entry st e)) = Some e"

definition registry_ok :: "store_state \<Rightarrow> bool" where
  "registry_ok st \<longleftrightarrow>
     (\<forall>i e. map_of (st_store st) i = Some e \<longrightarrow> e < st_entryCount st \<and> sy_id (st_entry st e) = i)
     \<and> (\<forall>s e. st_attachments st s = Some e \<longleftrightarrow> live_entry st e \<and> sy_session (st_entry st e) = s)
     \<and> (\<forall>e. live_entry st e \<longrightarrow> sy_session (st_entry st e) < st_sessionCount st)"

definition flags_ok :: "store_state \<Rightarrow> nat \<Rightarrow> bool" where
  "flags_ok st e \<longleftrightarrow>
     (live_entry st e \<longleftrightarrow> e \<in> st_entered st \<or> sy_detachRequested (st_entry st e))
     \<and> (sy_detachRequested (st_entry st e) \<longrightarrow>
          e \<notin> st_entered st \<and> (sy_announcing (st_entry st e) \<or> sy_appending (st_entry st e)))"

fun frame_key :: "store_frame \<Rightarrow> nat \<times> nat" where
  "frame_key (FrameAnnounce e) = (0, e)"
| "frame_key (FrameAppend e _) = (1, e)"
| "frame_key (FrameDetached e) = (2, e)"
| "frame_key (FrameDisposed e) = (3, e)"

definition frame_keys :: "store_frame list \<Rightarrow> (nat \<times> nat) set" where
  "frame_keys fs = frame_key ` set fs"

lemma frame_keys_simps [simp]:
  "frame_keys [] = {}"
  "frame_keys (f # fs) = insert (frame_key f) (frame_keys fs)"
  "frame_key f \<in> frame_key ` set fs \<longleftrightarrow> frame_key f \<in> frame_keys fs"
  by (auto simp: frame_keys_def)

definition frames_ok :: "store_state \<Rightarrow> bool" where
  "frames_ok st \<longleftrightarrow> distinct (map frame_key (st_frames st))
     \<and> (\<forall>e. (0, e) \<in> frame_keys (st_frames st) \<longleftrightarrow> live_entry st e \<and> sy_announcing (st_entry st e))
     \<and> (\<forall>e. (1, e) \<in> frame_keys (st_frames st) \<longleftrightarrow> live_entry st e \<and> sy_appending (st_entry st e))
     \<and> (\<forall>e. (2, e) \<in> frame_keys (st_frames st) \<longrightarrow> e < st_entryCount st \<and> \<not> live_entry st e)
     \<and> (\<forall>e. (3, e) \<in> frame_keys (st_frames st) \<longrightarrow> e < st_entryCount st \<and> \<not> live_entry st e)
     \<and> (\<forall>e. (sy_announcing (st_entry st e) \<or> sy_appending (st_entry st e)) \<longrightarrow> live_entry st e)
     \<and> (\<forall>e. (2, e) \<in> frame_keys (st_frames st) \<longrightarrow> (3, e) \<notin> frame_keys (st_frames st))"

definition lifecycle_notes :: "nat \<Rightarrow> store_note list \<Rightarrow> store_note list" where
  "lifecycle_notes e ns = filter (\<lambda>n. n \<in> {NoteCreated e, NoteDetached e, NoteDisposed e}) ns"

definition expected_notes :: "store_state \<Rightarrow> nat \<Rightarrow> store_note list" where
  "expected_notes st e =
     (if sy_announced (st_entry st e) then [NoteCreated e] else [])
     @ (if e < st_entryCount st \<and> \<not> live_entry st e
        then NoteDetached e # (if sy_announced (st_entry st e) \<and> (2, e) \<notin> frame_keys (st_frames st)
                               then [NoteDisposed e] else [])
        else [])"

definition events_before_detach :: "store_note list \<Rightarrow> bool" where
  "events_before_detach ns \<longleftrightarrow> (\<forall>pre e ev post. ns = pre @ NoteEvent e ev # post \<longrightarrow> NoteDetached e \<notin> set pre)"

definition notes_ok :: "store_state \<Rightarrow> bool" where
  "notes_ok st \<longleftrightarrow> (\<forall>e. lifecycle_notes e (st_notes st) = expected_notes st e) \<and> events_before_detach (st_notes st)"

definition logs_ok :: "store_state \<Rightarrow> bool" where
  "logs_ok st \<longleftrightarrow>
     (\<forall>s < st_sessionCount st. map ev_seq (se_log (st_sessions st s)) = map int [0..<length (se_log (st_sessions st s))])
     \<and> (\<forall>e ev. FrameAppend e (Some ev) \<in> set (st_frames st) \<longrightarrow>
          ev_seq ev = int (length (se_log (st_sessions st (sy_session (st_entry st e))))))"

definition inv_but :: "nat set \<Rightarrow> store_state \<Rightarrow> bool" where
  "inv_but X st \<longleftrightarrow> registry_ok st \<and> frames_ok st \<and> notes_ok st \<and> logs_ok st
     \<and> (\<forall>e. e \<notin> X \<longrightarrow> flags_ok st e) \<and> (\<forall>e. st_entryCount st \<le> e \<longrightarrow> st_entry st e = blank_entry)"

lemma events_before_detach_snoc:
  "events_before_detach (ns @ [n]) \<longleftrightarrow>
     events_before_detach ns \<and> (\<forall>e ev. n = NoteEvent e ev \<longrightarrow> NoteDetached e \<notin> set ns)"
proof -
  have split: "ns @ [n] = pre @ x # post \<longleftrightarrow> (post = [] \<and> pre = ns \<and> x = n) \<or> (\<exists>p. post = p @ [n] \<and> ns = pre @ x # p)"
    for pre x post by (cases post rule: rev_cases) auto
  show ?thesis unfolding events_before_detach_def split by (rule iffI; fastforce)
qed

lemma lifecycle_notes_simps [simp]:
  "lifecycle_notes e [] = []"
  "lifecycle_notes e (ns @ ms) = lifecycle_notes e ns @ lifecycle_notes e ms"
  "lifecycle_notes e [NoteEvent e' ev] = []"
  "lifecycle_notes e [NoteCreated e'] = (if e = e' then [NoteCreated e] else [])"
  "lifecycle_notes e [NoteDetached e'] = (if e = e' then [NoteDetached e] else [])"
  "lifecycle_notes e [NoteDisposed e'] = (if e = e' then [NoteDisposed e] else [])"
  by (auto simp: lifecycle_notes_def)

lemma not_detached_note:
  assumes "notes_ok st" "live_entry st e"
  shows "NoteDetached e \<notin> set (st_notes st)"
proof
  assume "NoteDetached e \<in> set (st_notes st)"
  then have "NoteDetached e \<in> set (lifecycle_notes e (st_notes st))" by (simp add: lifecycle_notes_def)
  with assms show False by (auto simp: notes_ok_def expected_notes_def split: if_splits)
qed

lemma registry_unique:
  "registry_ok st \<Longrightarrow> live_entry st a \<Longrightarrow> live_entry st b \<Longrightarrow> sy_session (st_entry st a) = sy_session (st_entry st b) \<Longrightarrow> a = b"
  unfolding registry_ok_def by (metis option.inject)

lemma inv_new_store: "inv_but {} new_store"
  by (simp add: inv_but_def new_store_def registry_ok_def frames_ok_def notes_ok_def logs_ok_def flags_ok_def
      live_entry_def lifecycle_notes_def expected_notes_def events_before_detach_def blank_entry_def)

section \<open>Every operation keeps it\<close>

lemma live_upd [simp]: "(\<And>y. sy_id (f y) = sy_id y) \<Longrightarrow> live_entry (upd_entry e f st) x \<longleftrightarrow> live_entry st x"
  by (simp add: live_entry_def upd_entry_def)

lemma live_fields [simp]:
  "live_entry (st\<lparr>st_frames := fs\<rparr>) x \<longleftrightarrow> live_entry st x"
  "live_entry (st\<lparr>st_notes := ns\<rparr>) x \<longleftrightarrow> live_entry st x"
  "live_entry (st\<lparr>st_entered := es\<rparr>) x \<longleftrightarrow> live_entry st x"
  "live_entry (st\<lparr>st_sessions := ss\<rparr>) x \<longleftrightarrow> live_entry st x"
  "live_entry (st\<lparr>st_sessionCount := n\<rparr>) x \<longleftrightarrow> live_entry st x"
  "live_entry (st\<lparr>st_counter := n\<rparr>) x \<longleftrightarrow> live_entry st x"
  by (simp_all add: live_entry_def)

lemma inv_butD:
  assumes "inv_but X st"
  shows "registry_ok st" "frames_ok st" "notes_ok st" "logs_ok st" "e \<notin> X \<Longrightarrow> flags_ok st e"
    "st_entryCount st \<le> e \<Longrightarrow> st_entry st e = blank_entry"
  using assms by (auto simp: inv_but_def)

lemma inv_butI:
  assumes "registry_ok st" "frames_ok st" "notes_ok st" "logs_ok st" "\<And>e. e \<notin> X \<Longrightarrow> flags_ok st e"
    "\<And>e. st_entryCount st \<le> e \<Longrightarrow> st_entry st e = blank_entry"
  shows "inv_but X st"
  using assms by (auto simp: inv_but_def)

text \<open>
  A change of flags: everything but the entered set, one entry's flags, the frames, the session objects
  and the notes stays, so the registry and the liveness of entries stay.
\<close>

lemma registry_flags:
  assumes "registry_ok st" "st_entryCount st' = st_entryCount st" "st_store st' = st_store st"
    "st_attachments st' = st_attachments st" "st_sessionCount st' = st_sessionCount st"
    "\<And>x. sy_id (st_entry st' x) = sy_id (st_entry st x) \<and> sy_session (st_entry st' x) = sy_session (st_entry st x)"
  shows "registry_ok st'" "live_entry st' x \<longleftrightarrow> live_entry st x"
  using assms unfolding registry_ok_def live_entry_def by simp_all

lemma inv_detachEntered:
  assumes inv: "inv_but {e} st" and live: "live_entry st e"
    and idle: "e \<notin> st_entered st" "\<not> sy_announcing (st_entry st e)" "\<not> sy_appending (st_entry st e)"
  shows "inv_but {} (detachEntered st e)"
proof -
  let ?y = "st_entry st e"
  define st' where "st' = detachEntered st e"
  from live have st': "st' = (upd_entry e (\<lambda>y. y\<lparr>sy_detachRequested := False\<rparr>) st)
      \<lparr>st_store := map_delete (sy_id ?y) (st_store st), st_attachments := (st_attachments st)(sy_session ?y := None),
       st_notes := st_notes st @ [NoteDetached e], st_frames := FrameDetached e # st_frames st\<rparr>"
    by (simp add: st'_def detachEntered_def live_entry_def Let_def)
  from inv have reg: "registry_ok st" and fr: "frames_ok st" and no: "notes_ok st" and lo: "logs_ok st"
    and fl: "\<And>x. x \<noteq> e \<Longrightarrow> flags_ok st x" and bl: "\<forall>x. st_entryCount st \<le> x \<longrightarrow> st_entry st x = blank_entry"
    by (auto simp: inv_but_def)
  have same: "live_entry st' x \<longleftrightarrow> live_entry st x \<and> x \<noteq> e" for x
    using live reg by (auto simp: live_entry_def st' upd_entry_def registry_ok_def)
  have uniq: "\<forall>b. live_entry st b \<longrightarrow> sy_session (st_entry st b) = sy_session ?y \<longrightarrow> b = e"
    using registry_unique [OF reg _ live] by blast
  have "registry_ok st'"
    using reg live uniq unfolding registry_ok_def same by (auto simp: st' upd_entry_def)
  moreover have "e < st_entryCount st" using live by (simp add: live_entry_def)
  with fr live idle have "frames_ok st'"
    unfolding frames_ok_def same by (auto simp: st' upd_entry_def simp flip: frame_keys_def)
  moreover have "notes_ok st'"
    using no live fr unfolding notes_ok_def expected_notes_def same frames_ok_def
    by (auto simp: st' upd_entry_def events_before_detach_snoc live_entry_def)
  moreover have "logs_ok st'" using lo by (auto simp: logs_ok_def st' upd_entry_def)
  moreover have "flags_ok st' x" for x
    using fl [of x] idle live unfolding flags_ok_def same by (auto simp: st' upd_entry_def)
  moreover have "\<forall>x. st_entryCount st' \<le> x \<longrightarrow> st_entry st' x = blank_entry"
    using bl live by (auto simp: st' upd_entry_def live_entry_def)
  ultimately show ?thesis by (simp add: inv_but_def st'_def)
qed

lemma inv_detach:
  assumes inv: "inv_but {} st"
  shows "inv_but {} (detach st e)"
proof (cases "e \<in> st_entered st")
  case True
  with inv have live: "live_entry st e" and nr: "\<not> sy_detachRequested (st_entry st e)" by (auto simp: inv_but_def flags_ok_def)
  let ?st1 = "st\<lparr>st_entered := st_entered st - {e}\<rparr>"
  show ?thesis
  proof (cases "sy_announcing (st_entry st e) \<or> sy_appending (st_entry st e)")
    case busy: True
    then have "detach st e = upd_entry e (\<lambda>y. y\<lparr>sy_detachRequested := True\<rparr>) ?st1"
      using True by (simp add: detach_def)
    moreover have "inv_but {} (upd_entry e (\<lambda>y. y\<lparr>sy_detachRequested := True\<rparr>) ?st1)" (is "inv_but {} ?st2")
    proof (rule inv_butI)
      have st2: "st_entryCount ?st2 = st_entryCount st" "st_store ?st2 = st_store st" "st_attachments ?st2 = st_attachments st"
        "st_sessionCount ?st2 = st_sessionCount st"
        "\<And>x. sy_id (st_entry ?st2 x) = sy_id (st_entry st x) \<and> sy_session (st_entry ?st2 x) = sy_session (st_entry st x)"
        by (simp_all add: upd_entry_def)
      note reg = registry_flags [OF inv_butD(1) [OF inv] st2]
      show "registry_ok ?st2" by (rule reg)
      show "frames_ok ?st2" using inv_butD(2) [OF inv] unfolding frames_ok_def reg(2) by (simp add: upd_entry_def)
      show "notes_ok ?st2" using inv_butD(3) [OF inv] unfolding notes_ok_def expected_notes_def reg(2) by (simp add: upd_entry_def)
      show "logs_ok ?st2" using inv_butD(4) [OF inv] by (simp add: logs_ok_def upd_entry_def)
      show "flags_ok ?st2 x" for x
        using inv_butD(5) [OF inv, of x] live busy unfolding flags_ok_def reg(2) by (auto simp: upd_entry_def)
      show "st_entryCount ?st2 \<le> x \<Longrightarrow> st_entry ?st2 x = blank_entry" for x
        using inv_butD(6) [OF inv, of x] live by (auto simp: upd_entry_def live_entry_def)
    qed
    ultimately show ?thesis by simp
  next
    case False
    have "inv_but {e} ?st1"
      using inv_butD [OF inv]
      by (intro inv_butI) (auto simp: registry_ok_def frames_ok_def notes_ok_def expected_notes_def logs_ok_def flags_ok_def)
    with inv_detachEntered [of e ?st1] live False True show ?thesis by (simp add: detach_def)
  qed
qed (use inv in \<open>simp add: detach_def\<close>)

lemma inv_enter:
  assumes inv: "inv_but {} st" and s: "s < st_sessionCount st"
  shows "inv_but {} (fst (enter st s))"
proof (cases "map_of (st_store st) (session_ident (st_sessions st s)) \<noteq> None \<or> st_attachments st s \<noteq> None")
  case True
  with inv show ?thesis by (auto simp: enter_def Let_def)
next
  case False
  define sid where "sid = session_ident (st_sessions st s)"
  let ?e = "st_entryCount st"
  define st' where "st' = fst (enter st s)"
  have st': "st' = st\<lparr>st_entry := (st_entry st)(?e := blank_entry\<lparr>sy_id := sid, sy_session := s\<rparr>),
      st_entryCount := ?e + 1, st_store := map_set sid ?e (st_store st),
      st_attachments := (st_attachments st)(s := Some ?e), st_entered := insert ?e (st_entered st)\<rparr>"
    using False by (simp add: st'_def enter_def sid_def Let_def)
  from inv have reg: "registry_ok st" and fr: "frames_ok st" and no: "notes_ok st" and lo: "logs_ok st"
    and fl: "\<And>x. flags_ok st x" and bl: "\<And>x. ?e \<le> x \<Longrightarrow> st_entry st x = blank_entry"
    by (auto simp: inv_but_def)
  have free: "map_of (st_store st) sid = None" "st_attachments st s = None" using False by (auto simp: sid_def)
  have same: "live_entry st' x \<longleftrightarrow> live_entry st x \<or> x = ?e" for x
    using free by (auto simp: live_entry_def st' blank_entry_def)
  have old: "\<not> live_entry st ?e" "st_entry st ?e = blank_entry" using bl by (simp_all add: live_entry_def)
  have entered: "?e \<notin> st_entered st" using fl [of ?e] old by (simp add: flags_ok_def)
  have other: "\<forall>x. live_entry st x \<longrightarrow> sy_session (st_entry st x) \<noteq> s"
    using reg free(2) unfolding registry_ok_def by (metis option.distinct(1))
  have "FrameAppend ?e x \<notin> set (st_frames st)" for x
  proof
    assume "FrameAppend ?e x \<in> set (st_frames st)"
    then have "(1, ?e) \<in> frame_keys (st_frames st)" by (force simp: frame_keys_def)
    with fr old show False by (simp add: frames_ok_def)
  qed
  then have new_frame: "\<forall>x. FrameAppend ?e x \<notin> set (st_frames st)" by blast
  have "registry_ok st'"
    using reg old other s unfolding registry_ok_def same by (auto simp: st' less_Suc_eq)
  moreover have "frames_ok st'"
    using fr old unfolding frames_ok_def same by (auto simp: st' blank_entry_def)
  moreover have "notes_ok st'"
    using no old unfolding notes_ok_def expected_notes_def same by (auto simp: st' blank_entry_def)
  moreover have "logs_ok st'" using lo new_frame by (auto simp: logs_ok_def st')
  moreover have "flags_ok st' x" for x
    using fl [of x] old entered unfolding flags_ok_def same by (auto simp: st' blank_entry_def)
  moreover have "\<forall>x. st_entryCount st' \<le> x \<longrightarrow> st_entry st' x = blank_entry"
    using bl by (auto simp: st')
  ultimately show ?thesis by (simp add: inv_but_def st'_def)
qed

lemma inv_announce:
  assumes inv: "inv_but {} st"
  shows "inv_but {} (fst (announce st s))"
proof (cases "liveEntryFor st s")
  case (Inl err)
  with inv show ?thesis by (simp add: announce_def)
next
  case (Inr e)
  with inv have live: "live_entry st e"
    by (auto simp: liveEntryFor_def inv_but_def registry_ok_def split: option.splits if_splits)
  show ?thesis
  proof (cases "sy_announced (st_entry st e) \<or> sy_announcing (st_entry st e)")
    case True
    with inv Inr show ?thesis by (auto simp: announce_def Let_def)
  next
    case False
    define st' where "st' = fst (announce st s)"
    have st': "st' = (upd_entry e (\<lambda>y. y\<lparr>sy_announced := True, sy_announcing := True\<rparr>) st)
        \<lparr>st_notes := st_notes st @ [NoteCreated e], st_frames := FrameAnnounce e # st_frames st\<rparr>"
      using Inr False by (simp add: st'_def announce_def Let_def)
    from inv have reg: "registry_ok st" and fr: "frames_ok st" and no: "notes_ok st" and lo: "logs_ok st"
      and fl: "\<And>x. flags_ok st x" and bl: "\<And>x. st_entryCount st \<le> x \<Longrightarrow> st_entry st x = blank_entry"
      by (auto simp: inv_but_def)
    have same: "live_entry st' x \<longleftrightarrow> live_entry st x" for x by (simp add: st' live_entry_def upd_entry_def)
    have "registry_ok st'" using reg unfolding registry_ok_def same by (auto simp: st' upd_entry_def)
    moreover have "frames_ok st'" using fr live False unfolding frames_ok_def same by (auto simp: st' upd_entry_def simp flip: frame_keys_def)
    moreover have "notes_ok st'"
      using no live False unfolding notes_ok_def expected_notes_def same
      by (auto simp: st' upd_entry_def events_before_detach_snoc)
    moreover have "logs_ok st'" using lo by (auto simp: logs_ok_def st' upd_entry_def)
    moreover have "flags_ok st' x" for x
      using fl [of x] unfolding flags_ok_def same by (auto simp: st' upd_entry_def)
    moreover have "\<forall>x. st_entryCount st' \<le> x \<longrightarrow> st_entry st' x = blank_entry"
      using bl live by (auto simp: st' upd_entry_def live_entry_def)
    ultimately show ?thesis by (simp add: inv_but_def st'_def)
  qed
qed

lemma run_contiguous: "session_run s \<Longrightarrow> map ev_seq (se_log s) = map int [0..<length (se_log s)]"
  using session_run_ok session_ok_seqs(1) by blast

lemma prepared_contiguous:
  assumes "prepared_session sid src now = Inr s"
  shows "map ev_seq (se_log s) = map int [0..<length (se_log s)]"
proof -
  from assms have "session_run s"
    by (auto simp: prepared_session_def split: prepare_source.splits intro: session_start)
  then show ?thesis by (rule run_contiguous)
qed

lemma inv_sessions:
  assumes inv: "inv_but {} st" and n: "st_sessionCount st \<le> n"
    and logs: "\<And>s. s < n \<Longrightarrow> map ev_seq (se_log (ss s)) = map int [0..<length (se_log (ss s))]"
    and same: "\<And>e ev. FrameAppend e (Some ev) \<in> set (st_frames st) \<Longrightarrow>
      length (se_log (ss (sy_session (st_entry st e)))) = length (se_log (st_sessions st (sy_session (st_entry st e))))"
  shows "inv_but {} (st\<lparr>st_counter := c, st_sessions := ss, st_sessionCount := n\<rparr>)"
proof (rule inv_butI)
  let ?st' = "st\<lparr>st_counter := c, st_sessions := ss, st_sessionCount := n\<rparr>"
  have live: "live_entry ?st' x \<longleftrightarrow> live_entry st x" for x by (simp add: live_entry_def)
  show "registry_ok ?st'" using inv_butD(1) [OF inv] n unfolding registry_ok_def live by fastforce
  show "frames_ok ?st'" using inv_butD(2) [OF inv] unfolding frames_ok_def live by simp
  show "notes_ok ?st'" using inv_butD(3) [OF inv] unfolding notes_ok_def expected_notes_def live by simp
  show "logs_ok ?st'" using inv_butD(4) [OF inv] logs same by (simp add: logs_ok_def)
  show "flags_ok ?st' x" for x using inv_butD(5) [OF inv, of x] unfolding flags_ok_def live by simp
  show "st_entryCount ?st' \<le> x \<Longrightarrow> st_entry ?st' x = blank_entry" for x using inv_butD(6) [OF inv] by simp
qed

lemma append_frame_live:
  assumes "frames_ok st" "FrameAppend e x \<in> set (st_frames st)"
  shows "live_entry st e \<and> sy_appending (st_entry st e)"
proof -
  have "(1, e) \<in> frame_keys (st_frames st)" using assms(2) by (force simp: frame_keys_def)
  with assms(1) show ?thesis by (simp add: frames_ok_def)
qed

lemma inv_prepare:
  assumes inv: "inv_but {} st"
  shows "inv_but {} (fst (prepare st ident src now))"
proof -
  have counter: "inv_but {} (st\<lparr>st_counter := c\<rparr>)" for c
    using inv_sessions [OF inv order_refl, of "st_sessions st" c] inv_butD(4) [OF inv] by (simp add: logs_ok_def)
  have added: "inv_but {} (st\<lparr>st_counter := c, st_sessions := (st_sessions st)(st_sessionCount st := s),
      st_sessionCount := st_sessionCount st + 1\<rparr>)" if "prepared_session sid src now = Inr s" for c sid s
  proof (rule inv_sessions [OF inv])
    fix e ev assume "FrameAppend e (Some ev) \<in> set (st_frames st)"
    then have "sy_session (st_entry st e) < st_sessionCount st"
      using append_frame_live [OF inv_butD(2) [OF inv]] inv_butD(1) [OF inv] by (simp add: registry_ok_def)
    then show "length (se_log (((st_sessions st)(st_sessionCount st := s)) (sy_session (st_entry st e))))
        = length (se_log (st_sessions st (sy_session (st_entry st e))))" by simp
  qed (use inv_butD(4) [OF inv] prepared_contiguous [OF that] in \<open>auto simp: logs_ok_def less_Suc_eq\<close>)
  have id: "st = st\<lparr>st_counter := st_counter st\<rparr>" by simp
  show ?thesis
  proof (cases ident)
    case None
    then show ?thesis using counter added
      by (auto simp: prepare_def Let_def split: sum.splits)
  next
    case (Some i)
    have added': "inv_but {} (st\<lparr>st_sessions := (st_sessions st)(st_sessionCount st := s),
      st_sessionCount := st_sessionCount st + 1\<rparr>)" if "prepared_session sid src now = Inr s" for sid s
      using added [OF that, of "st_counter st"] by simp
    with Some inv show ?thesis by (auto simp: prepare_def Let_def split: sum.splits)
  qed
qed

lemma inv_fork: "inv_but {} st \<Longrightarrow> inv_but {} (fst (fork st src b child now))"
  using inv_prepare by (auto simp: fork_def split: sum.splits option.splits)

lemma inv_open_append:
  assumes inv: "inv_but {} st" and s: "s < st_sessionCount st"
  shows "inv_but {} (fst (open_append st s now d opts))"
proof (cases "st_attachments st s")
  case None
  obtain x' r where x': "session_append (st_sessions st s) False (\<lambda>_. False) now d opts = (x', r)" by force
  have free: "sy_session (st_entry st e) \<noteq> s" if "FrameAppend e (Some ev) \<in> set (st_frames st)" for e ev
    using append_frame_live [OF inv_butD(2) [OF inv] that] inv_butD(1) [OF inv] None unfolding registry_ok_def
    by (metis option.distinct(1))
  have old: "map ev_seq (se_log (st_sessions st t)) = map int [0..<length (se_log (st_sessions st t))]" if "t < st_sessionCount st" for t
    using inv_butD(4) [OF inv] that by (simp add: logs_ok_def)
  from x' have "map ev_seq (se_log x') = map int [0..<length (se_log x')]"
    by (cases rule: session_append_cases) (use old [OF s] in \<open>simp_all add: candidate_event_def\<close>)
  with old free have "inv_but {} (st\<lparr>st_counter := st_counter st, st_sessions := (st_sessions st)(s := x'), st_sessionCount := st_sessionCount st\<rparr>)"
    by (intro inv_sessions [OF inv]) auto
  with None x' show ?thesis by (cases r) (simp_all add: open_append_def)
next
  case (Some e)
  have live: "live_entry st e" "sy_session (st_entry st e) = s" using inv_butD(1) [OF inv] Some by (auto simp: registry_ok_def)
  obtain x' r where x': "session_append (st_sessions st s) (sy_appending (st_entry st e)) (\<lambda>_. True) now d opts = (x', r)" by force
  from x' obtain err where r: "r = Inl err" "se_log x' = se_log (st_sessions st s)"
    by (cases rule: session_append_cases) auto
  let ?st1 = "st\<lparr>st_sessions := (st_sessions st)(s := x')\<rparr>"
  have "inv_but {} (st\<lparr>st_counter := st_counter st, st_sessions := (st_sessions st)(s := x'), st_sessionCount := st_sessionCount st\<rparr>)"
    by (rule inv_sessions [OF inv]) (use inv_butD(4) [OF inv] r(2) in \<open>auto simp: logs_ok_def\<close>)
  then have inv1: "inv_but {} ?st1" by simp
  show ?thesis
  proof (cases "err = DispatchVetoed")
    case False
    with Some x' r inv1 show ?thesis by (simp add: open_append_def)
  next
    case True
    have "assertSupportedRequestHeader d \<noteq> Inl DispatchVetoed"
      by (cases d) (auto simp: assertSupportedRequestHeader_def result_simps)
    with True x' r have idle: "\<not> sy_appending (st_entry st e)"
      by (auto simp: session_append_def split: sum.splits)
    define st' where "st' = fst (open_append st s now d opts)"
    have st': "st' = (upd_entry e (\<lambda>y. y\<lparr>sy_appending := True\<rparr>) ?st1)
        \<lparr>st_frames := FrameAppend e (Some (candidate_event (st_sessions st s) now d opts)) # st_frames st\<rparr>"
      using Some x' r True by (simp add: st'_def open_append_def Let_def)
    have same: "live_entry st' x \<longleftrightarrow> live_entry ?st1 x" for x by (simp add: st' live_entry_def upd_entry_def)
    have live1: "live_entry ?st1 e" using live by simp
    have "inv_but {} st'"
    proof (rule inv_butI)
      show "registry_ok st'" using inv_butD(1) [OF inv1] unfolding registry_ok_def same by (auto simp: st' upd_entry_def)
      show "frames_ok st'" using inv_butD(2) [OF inv1] live1 idle unfolding frames_ok_def same
        by (auto simp: st' upd_entry_def simp flip: frame_keys_def)
      show "notes_ok st'" using inv_butD(3) [OF inv1] unfolding notes_ok_def expected_notes_def same by (auto simp: st' upd_entry_def)
      show "logs_ok st'" using inv_butD(4) [OF inv1] live r(2) by (auto simp: logs_ok_def st' upd_entry_def candidate_event_def)
      show "flags_ok st' x" for x using inv_butD(5) [OF inv1, of x] unfolding flags_ok_def same by (auto simp: st' upd_entry_def)
      show "st_entryCount st' \<le> x \<Longrightarrow> st_entry st' x = blank_entry" for x
        using inv_butD(6) [OF inv1, of x] live by (auto simp: st' upd_entry_def live_entry_def)
    qed
    then show ?thesis by (simp add: st'_def)
  qed
qed

lemma inv_commit_append:
  assumes inv: "inv_but {} st"
  shows "inv_but {} (commit_append st)"
proof (cases "\<exists>e ev fs. st_frames st = FrameAppend e (Some ev) # fs")
  case False
  then have "commit_append st = st"
    by (auto simp: commit_append_def split: list.splits store_frame.splits option.splits)
  with inv show ?thesis by simp
next
  case True
  then obtain e ev fs where f: "st_frames st = FrameAppend e (Some ev) # fs" by blast
  let ?s = "sy_session (st_entry st e)"
  define x where "x = st_sessions st ?s"
  define st' where "st' = commit_append st"
  have st': "st' = st\<lparr>st_sessions := (st_sessions st)(?s := x\<lparr>se_log := se_log x @ [ev], se_eventsSnapshot := None\<rparr>),
      st_notes := st_notes st @ [NoteEvent e ev], st_frames := FrameAppend e None # fs\<rparr>"
    by (simp add: st'_def commit_append_def f x_def Let_def)
  have same: "live_entry st' y \<longleftrightarrow> live_entry st y" for y by (simp add: st' live_entry_def)
  have live: "live_entry st e" using append_frame_live [OF inv_butD(2) [OF inv], of e "Some ev"] f by simp
  have seq: "ev_seq ev = int (length (se_log x))" using inv_butD(4) [OF inv] f by (simp add: logs_ok_def x_def)
  have keys: "frame_keys (st_frames st') = frame_keys (st_frames st)" "map frame_key (st_frames st') = map frame_key (st_frames st)"
    by (simp_all add: st' f)
  have others: "sy_session (st_entry st a) \<noteq> ?s" if a: "FrameAppend a (Some w) \<in> set fs" for a w
  proof
    assume eq: "sy_session (st_entry st a) = ?s"
    have "live_entry st a" using append_frame_live [OF inv_butD(2) [OF inv], of a "Some w"] a f by simp
    then have "a = e" using registry_unique [OF inv_butD(1) [OF inv] _ live eq] by simp
    with a have "(1, e) \<in> frame_key ` set fs" by force
    with inv_butD(2) [OF inv] f show False by (simp add: frames_ok_def del: frame_keys_simps)
  qed
  have "inv_but {} st'"
  proof (rule inv_butI)
    show "registry_ok st'" using inv_butD(1) [OF inv] unfolding registry_ok_def same by (simp add: st')
    show "frames_ok st'" using inv_butD(2) [OF inv] unfolding frames_ok_def same keys by (simp add: st')
    show "notes_ok st'"
      using inv_butD(3) [OF inv] not_detached_note [OF inv_butD(3) [OF inv] live]
      unfolding notes_ok_def expected_notes_def same keys by (simp add: st' events_before_detach_snoc)
    show "logs_ok st'" using inv_butD(4) [OF inv] seq others f unfolding logs_ok_def by (auto simp: st' x_def)
    show "flags_ok st' y" for y using inv_butD(5) [OF inv, of y] unfolding flags_ok_def same by (simp add: st')
    show "st_entryCount st' \<le> y \<Longrightarrow> st_entry st' y = blank_entry" for y using inv_butD(6) [OF inv] by (simp add: st')
  qed
  then show ?thesis by (simp add: st'_def)
qed

text \<open>Closing the call of one kind on an entry: the frame goes, its flag is cleared.\<close>

lemma inv_close:
  assumes inv: "inv_but {} st" and f: "st_frames st = g # fs"
    and g: "g = FrameAnnounce e \<and> h = (\<lambda>y. y\<lparr>sy_announcing := False\<rparr>) \<or> (\<exists>w. g = FrameAppend e w) \<and> h = (\<lambda>y. y\<lparr>sy_appending := False\<rparr>)"
  shows "inv_but {e} (upd_entry e h (st\<lparr>st_frames := fs\<rparr>))" (is "inv_but {e} ?st'") and "live_entry st e"
proof -
  have old: "frames_ok st" "registry_ok st" "notes_ok st" "logs_ok st" by (rule inv_butD [OF inv])+
  have same: "live_entry ?st' y \<longleftrightarrow> live_entry st y" for y using g by (auto simp: live_entry_def upd_entry_def)
  have fields: "sy_id (h y) = sy_id y" "sy_session (h y) = sy_session y" "sy_announced (h y) = sy_announced y"
    "sy_detachRequested (h y) = sy_detachRequested y" for y using g by auto
  show live: "live_entry st e" using old(1) f g by (auto simp: frames_ok_def)
  have top: "frame_key g \<notin> frame_keys fs" using old(1) f by (simp add: frames_ok_def frame_keys_def del: frame_keys_simps)
  show "inv_but {e} ?st'"
  proof (rule inv_butI)
    show "registry_ok ?st'" using old(2) fields unfolding registry_ok_def same by (simp add: upd_entry_def)
    show "frames_ok ?st'" using old(1) f g top live unfolding frames_ok_def same by (auto simp: upd_entry_def)
    show "notes_ok ?st'" using old(3) fields f g live unfolding notes_ok_def expected_notes_def same by (auto simp: upd_entry_def)
    show "logs_ok ?st'" using old(4) fields f by (auto simp: logs_ok_def upd_entry_def)
    show "x \<notin> {e} \<Longrightarrow> flags_ok ?st' x" for x using inv_butD(5) [OF inv, of x] unfolding flags_ok_def same by (simp add: upd_entry_def)
    show "st_entryCount ?st' \<le> x \<Longrightarrow> st_entry ?st' x = blank_entry" for x
      using inv_butD(6) [OF inv, of x] live by (auto simp: upd_entry_def live_entry_def)
  qed
qed

lemma inv_but_one: "inv_but {e} st \<Longrightarrow> flags_ok st e \<Longrightarrow> inv_but {} st"
  by (auto simp: inv_but_def)

lemma inv_end_frame:
  assumes inv: "inv_but {} st"
  shows "inv_but {} (end_frame st)"
proof (cases "st_frames st")
  case Nil
  with inv show ?thesis by (simp add: end_frame_def)
next
  case (Cons g fs)
  have old: "frames_ok st" "notes_ok st" by (rule inv_butD [OF inv])+
  have closing: "inv_but {} (if sy_detachRequested (st_entry st e) \<and> \<not> other then detachEntered st1 e else st1)"
    if st1: "st1 = upd_entry e h (st\<lparr>st_frames := fs\<rparr>)"
      and g: "g = FrameAnnounce e \<and> h = (\<lambda>y. y\<lparr>sy_announcing := False\<rparr>) \<and> other = sy_appending (st_entry st e)
        \<or> (\<exists>w. g = FrameAppend e w) \<and> h = (\<lambda>y. y\<lparr>sy_appending := False\<rparr>) \<and> other = sy_announcing (st_entry st e)"
    for e h st1 other
  proof -
    have c: "inv_but {e} st1" "live_entry st e" using inv_close [OF inv Cons, of e h] g by (auto simp: st1)
    have live1: "live_entry st1 e" using c(2) g by (auto simp: st1 live_entry_def upd_entry_def)
    have fl: "flags_ok st e" using inv_butD(5) [OF inv] by simp
    show ?thesis
    proof (cases "sy_detachRequested (st_entry st e) \<and> \<not> other")
      case True
      have "inv_but {} (detachEntered st1 e)"
        by (rule inv_detachEntered [OF c(1) live1]) (use True fl g in \<open>auto simp: st1 upd_entry_def flags_ok_def\<close>)
      with True show ?thesis by simp
    next
      case False
      have "flags_ok st1 e" using fl False g live1 c(2) unfolding flags_ok_def by (auto simp: st1 upd_entry_def)
      with False inv_but_one [OF c(1)] show ?thesis by auto
    qed
  qed
  show ?thesis
  proof (cases g)
    case (FrameAnnounce e)
    then show ?thesis using closing [OF refl, of e] Cons by (simp add: end_frame_def Let_def)
  next
    case (FrameAppend e w)
    then show ?thesis using closing [OF refl, of e] Cons by (simp add: end_frame_def Let_def)
  next
    case (FrameDetached e)
    define st' where "st' = end_frame st"
    have st': "st' = (if sy_announced (st_entry st e)
        then st\<lparr>st_frames := FrameDisposed e # fs, st_notes := st_notes st @ [NoteDisposed e]\<rparr> else st\<lparr>st_frames := fs\<rparr>)"
      by (simp add: st'_def end_frame_def Cons FrameDetached Let_def)
    have same: "live_entry st' y \<longleftrightarrow> live_entry st y" for y by (simp add: st' live_entry_def)
    have top: "(2, e) \<notin> frame_keys fs" "(3, e) \<notin> frame_keys fs" "e < st_entryCount st" "\<not> live_entry st e"
      using old(1) Cons FrameDetached by (auto simp: frames_ok_def frame_keys_def simp del: frame_keys_simps)
    have "inv_but {} st'"
    proof (rule inv_butI)
      show "registry_ok st'" using inv_butD(1) [OF inv] unfolding registry_ok_def same by (simp add: st')
      show "frames_ok st'" using old(1) Cons FrameDetached top unfolding frames_ok_def same
        by (auto simp: st' simp flip: frame_keys_def)
      show "notes_ok st'" using old(2) Cons FrameDetached top unfolding notes_ok_def expected_notes_def same
        by (auto simp: st' events_before_detach_snoc)
      show "logs_ok st'" using inv_butD(4) [OF inv] Cons by (auto simp: logs_ok_def st')
      show "flags_ok st' y" for y using inv_butD(5) [OF inv, of y] unfolding flags_ok_def same by (simp add: st')
      show "st_entryCount st' \<le> y \<Longrightarrow> st_entry st' y = blank_entry" for y using inv_butD(6) [OF inv, of y] by (auto simp: st' split: if_splits)
    qed
    then show ?thesis by (simp add: st'_def)
  next
    case (FrameDisposed e)
    then have st': "end_frame st = st\<lparr>st_frames := fs\<rparr>" by (simp add: end_frame_def Cons)
    show ?thesis unfolding st'
      using inv_butD [OF inv] Cons FrameDisposed
      by (intro inv_butI) (auto simp: registry_ok_def frames_ok_def notes_ok_def expected_notes_def logs_ok_def flags_ok_def)
  qed
qed

lemma store_run_inv: "store_run st \<Longrightarrow> inv_but {} st"
proof (induction rule: store_run.induct)
  case (store_stepped st op)
  then show ?case
    by (cases op) (auto intro: inv_prepare inv_fork inv_enter inv_detach inv_announce inv_open_append inv_commit_append inv_end_frame)
qed (rule inv_new_store)

section \<open>Properties\<close>

text \<open>
  C39. The lifecycle of a store entry is paired under every reentrant interleaving. In every reachable
  state of the store, what was published about an entry is: created if and only if it was announced, once;
  detached if and only if it left the store, once; disposed if and only if it was both, after detached,
  except while the detached notification is still running. No event of an entry is published after it
  detached. An entry with an open call is still in the store, and once its calls have returned a
  requested detach has happened: it is in the store exactly when its detach capability is unused. Two
  live entries never share a session object or an identity, and every log stays numbered from zero
  without gap.
\<close>

theorem store_lifecycle:
  assumes "store_run st" "e < st_entryCount st"
  shows "lifecycle_notes e (st_notes st) =
      (if sy_announced (st_entry st e) then [NoteCreated e] else [])
      @ (if live_entry st e then []
         else NoteDetached e # (if sy_announced (st_entry st e) \<and> FrameDetached e \<notin> set (st_frames st) then [NoteDisposed e] else []))
    \<and> events_before_detach (st_notes st)
    \<and> (FrameAnnounce e \<in> set (st_frames st) \<or> (\<exists>x. FrameAppend e x \<in> set (st_frames st)) \<longrightarrow> live_entry st e)
    \<and> (FrameAnnounce e \<notin> set (st_frames st) \<and> (\<forall>x. FrameAppend e x \<notin> set (st_frames st)) \<longrightarrow>
        (live_entry st e \<longleftrightarrow> e \<in> st_entered st))
    \<and> (\<forall>a. live_entry st e \<and> live_entry st a \<and> (sy_session (st_entry st a) = sy_session (st_entry st e)
           \<or> sy_id (st_entry st a) = sy_id (st_entry st e)) \<longrightarrow> a = e)
    \<and> (\<forall>s < st_sessionCount st. map ev_seq (se_log (st_sessions st s)) = map int [0..<length (se_log (st_sessions st s))])"
proof -
  have inv: "inv_but {} st" by (rule store_run_inv [OF assms(1)])
  note parts = inv_butD [OF inv]
  have key: "(0, a) \<in> frame_keys fs \<longleftrightarrow> FrameAnnounce a \<in> set fs" "(1, a) \<in> frame_keys fs \<longleftrightarrow> (\<exists>x. FrameAppend a x \<in> set fs)"
    "(2, a) \<in> frame_keys fs \<longleftrightarrow> FrameDetached a \<in> set fs" for a fs
  proof -
    have "frame_key f = (0, a) \<longleftrightarrow> f = FrameAnnounce a" "frame_key f = (1, a) \<longleftrightarrow> (\<exists>x. f = FrameAppend a x)"
      "frame_key f = (2, a) \<longleftrightarrow> f = FrameDetached a" for f by (cases f; simp)+
    then show "(0, a) \<in> frame_keys fs \<longleftrightarrow> FrameAnnounce a \<in> set fs" "(1, a) \<in> frame_keys fs \<longleftrightarrow> (\<exists>x. FrameAppend a x \<in> set fs)"
      "(2, a) \<in> frame_keys fs \<longleftrightarrow> FrameDetached a \<in> set fs" unfolding frame_keys_def image_iff by metis+
  qed
  show ?thesis
  proof (intro conjI)
    show "lifecycle_notes e (st_notes st) =
      (if sy_announced (st_entry st e) then [NoteCreated e] else [])
      @ (if live_entry st e then []
         else NoteDetached e # (if sy_announced (st_entry st e) \<and> FrameDetached e \<notin> set (st_frames st) then [NoteDisposed e] else []))"
      using parts(3) assms(2) by (simp add: notes_ok_def expected_notes_def key)
    show "events_before_detach (st_notes st)" using parts(3) by (simp add: notes_ok_def)
    show "FrameAnnounce e \<in> set (st_frames st) \<or> (\<exists>x. FrameAppend e x \<in> set (st_frames st)) \<longrightarrow> live_entry st e"
      using parts(2) by (auto simp: frames_ok_def key simp del: One_nat_def)
    show "FrameAnnounce e \<notin> set (st_frames st) \<and> (\<forall>x. FrameAppend e x \<notin> set (st_frames st)) \<longrightarrow> (live_entry st e \<longleftrightarrow> e \<in> st_entered st)"
      using parts(2) parts(5) [of e] by (auto simp: frames_ok_def flags_ok_def key simp del: One_nat_def)
    show "\<forall>a. live_entry st e \<and> live_entry st a \<and> (sy_session (st_entry st a) = sy_session (st_entry st e)
           \<or> sy_id (st_entry st a) = sy_id (st_entry st e)) \<longrightarrow> a = e"
      using registry_unique [OF parts(1)] by (auto simp: live_entry_def)
    show "\<forall>s < st_sessionCount st. map ev_seq (se_log (st_sessions st s)) = map int [0..<length (se_log (st_sessions st s))]"
      using parts(4) by (simp add: logs_ok_def)
  qed
qed

text \<open>A creation listener detaches the session it is told about; the removal waits for the announcement.\<close>

definition sample_store_ops :: "store_op list" where
  "sample_store_ops = [OpPrepare None (FromMeta None empty_header None) 1, OpEnter 0, OpAnnounce 0, OpDetach 0, OpEnd, OpEnd, OpEnd]"

definition sample_store :: store_state where
  "sample_store = foldl store_step new_store sample_store_ops"

fun valid_ops :: "store_state \<Rightarrow> store_op list \<Rightarrow> bool" where
  "valid_ops st [] = True"
| "valid_ops st (op # ops) =
     ((case op_object op of None \<Rightarrow> True | Some s \<Rightarrow> s < st_sessionCount st) \<and> valid_ops (store_step st op) ops)"

lemma store_run_ops: "store_run st \<Longrightarrow> valid_ops st ops \<Longrightarrow> store_run (foldl store_step st ops)"
proof (induction ops arbitrary: st)
  case (Cons op ops)
  then have "store_run (store_step st op)" by (intro store_stepped) (auto split: option.splits)
  with Cons show ?case by simp
qed simp

lemma sample_store_run: "store_run sample_store"
proof -
  have "valid_ops new_store sample_store_ops" by code_simp
  then show ?thesis unfolding sample_store_def by (rule store_run_ops [OF store_start])
qed

theorem store_lifecycle_witness:
  "st_notes sample_store = [NoteCreated 0, NoteDetached 0, NoteDisposed 0]
   \<and> lifecycle_notes 0 (st_notes sample_store) = [NoteCreated 0, NoteDetached 0, NoteDisposed 0] \<and> \<not> live_entry sample_store 0"
proof -
  have c: "0 < st_entryCount sample_store" by code_simp
  have n: "st_notes sample_store = [NoteCreated 0, NoteDetached 0, NoteDisposed 0]" by code_simp
  have f: "st_frames sample_store = []" "st_entered sample_store = {}" by code_simp+
  from store_lifecycle [OF sample_store_run c] have "\<not> live_entry sample_store 0" by (simp add: f)
  with n show ?thesis by (simp add: lifecycle_notes_def)
qed

end
