(* ===== verification/Session_Fork.thy ===== *)
theory Session_Fork
  imports Session_Store
begin

text \<open>
  What a fork builds: the prefix that \<open>_forkSeed\<close> of \<open>core/session/src/index.ts\<close> selects, the session that
  the constructor makes of it, and how that session's log stands with the session trace, the repair scan
  and the surface. The property over the components together is in the root theory.
\<close>

section \<open>Open turns\<close>

text \<open>The fork's last turn boundary and the repair scan agree on whether a turn is open, on every log.\<close>

lemma open_turn_boundary: "starts_turn (find turn_boundary (rev es)) \<longleftrightarrow> rs_openTurn (scan_log es) \<noteq> None"
proof (induction es rule: rev_induct)
  case Nil
  then show ?case by (simp add: scan_log_def fresh_scan_def)
next
  case (snoc e es)
  then show ?case
    by (cases "ev_data e") (auto simp: scan_event_def split: option.splits)
qed

lemma no_closers_iff: "es \<noteq> [] \<Longrightarrow> interruptedTurnClosers es = [] \<longleftrightarrow> rs_openTurn (scan_log es) = None"
  by (auto simp: interruptedTurnClosers_def Let_def boundary_closers_def split: option.splits)

lemma forkSeed_Inr:
  assumes "forkSeed es b = Inr seed"
  shows "\<exists>n. seed = take n es \<and> rs_openTurn (scan_log seed) = None"
proof -
  have "rs_openTurn (scan_log []) = None" by (simp add: scan_log_def fresh_scan_def)
  with assms show ?thesis
    by (auto simp: forkSeed_def Let_def open_turn_boundary split: option.splits if_splits)
qed

lemma forkSeed_open_turn:
  assumes "forkSeed es b = Inl ForkOpenTurn"
  shows "\<exists>n \<le> length es. interruptedTurnClosers (take n es) \<noteq> []"
proof -
  from assms obtain i where i: "\<not> int (length es) \<le> i" "starts_turn (find turn_boundary (rev (take (nat i + 1) es)))"
    by (auto simp: forkSeed_def Let_def split: option.splits if_splits)
  then have ne: "take (nat i + 1) es \<noteq> []" by (cases es) auto
  then have "nat i + 1 \<le> length es" using i(1) by (cases es) auto
  moreover have "interruptedTurnClosers (take (nat i + 1) es) \<noteq> []"
    using i(2) no_closers_iff [OF ne] open_turn_boundary by blast
  ultimately show ?thesis by blast
qed

lemma header_lineage:
  assumes "validateSessionHeader sid (header_json h) = Inr h'"
  shows "sh_parentSession h' = sh_parentSession h \<and> sh_cwd h' = sh_cwd h \<and> sh_seedLength h' = sh_seedLength h \<and> sh_id h' = sid"
proof -
  obtain ps where ps: "header_json h = JObj ps"
    and opts: "jget ps ''cwd'' = map_option JStr (sh_cwd h)"
      "jget ps ''parentSession'' = map_option JStr (sh_parentSession h)"
      "jget ps ''seedLength'' = map_option (\<lambda>i. JNum (of_int i)) (sh_seedLength h)"
    by (simp add: header_json_def jget_def map_add_def opt_field_lookup split: option.split)
  have s: "opt_string ps ''cwd'' HeaderCwd = Inr (sh_cwd h)"
    "opt_string ps ''parentSession'' HeaderParentSession = Inr (sh_parentSession h)"
    using opts by (simp_all add: opt_string_json)
  have c: "opt_count ps ''seedLength'' HeaderSeedLength = Inr n \<Longrightarrow> n = sh_seedLength h" for n
    using opts(3) by (cases "sh_seedLength h")
      (auto simp: opt_count_def isEventSeq_def safe_integer_of_def split: option.splits if_splits)
  show ?thesis using assms s c by (auto simp: ps validateSessionHeader_def result_simps)
qed

lemma new_session_log:
  assumes "new_session False sid (Some seed) (header_json h) now = Inr s"
  shows "\<exists>marker. se_log s = seed @ marker
    \<and> (marker = [] \<or> (\<exists>e. marker = [e] \<and> ev_data e = EndSeed \<and> ev_seq e = int (length seed) \<and> ev_surfaceOp e = None \<and> ev_sourceEventSeqs e = None))
    \<and> sh_parentSession (se_header s) = sh_parentSession h \<and> sh_cwd (se_header s) = sh_cwd h
    \<and> sh_seedLength (se_header s) = sh_seedLength h \<and> session_ident s = sid"
proof -
  from assms obtain m lg h' where loop: "seed_loop 0 (new_manager 0) [] seed = Inr (m, lg)"
    and h': "validateSessionHeader sid (header_json h) = Inr h'"
    by (auto simp: new_session_def result_simps)
  have lg: "lg = seed" using seed_loop_run [OF run_start foldSurface_Nil loop] by simp
  let ?s = "(blank_session h')\<lparr>se_log := lg, se_surface := m, se_firstLiveSeq := length lg\<rparr>"
  have "s = ?s \<or> (\<exists>e. session_append ?s False (\<lambda>_. False) now EndSeed
      \<lparr>ao_surfaceOp = None, ao_sourceEventSeqs = None, ao_ignorable = False\<rparr> = (s, Inr e))"
    using assms loop h' by (auto simp: new_session_def result_simps Let_def split: if_splits prod.splits sum.splits)
  then consider "s = ?s" | e where "session_append ?s False (\<lambda>_. False) now EndSeed
      \<lparr>ao_surfaceOp = None, ao_sourceEventSeqs = None, ao_ignorable = False\<rparr> = (s, Inr e)" by blast
  then show ?thesis
  proof cases
    case 1
    then show ?thesis using header_lineage [OF h'] by (simp add: lg blank_session_def)
  next
    case 2
    then show ?thesis
      by (cases rule: session_append_cases)
        (use header_lineage [OF h'] in \<open>auto simp: lg blank_session_def candidate_event_def\<close>)
  qed
qed

lemma trace_marker:
  assumes "trace.project es = Inr tr" "ev_data e = EndSeed" "ev_seq e = int (length es)" "map ev_seq es = map int [0..<length es]"
  shows "\<exists>tr'. trace.project (es @ [e]) = Inr tr' \<and> openTurn tr' = openTurn tr \<and> openStep tr' = openStep tr"
proof -
  have "lastSeq tr < int (length es)"
  proof (cases es rule: rev_cases)
    case Nil
    then have "tr = freshTrace" using assms(1) by simp
    then show ?thesis by (simp add: freshTrace_def)
  next
    case (snoc es0 e0)
    then have "lastSeq tr = ev_seq e0" using assms(1) trace_step_seq by (auto simp: trace.project_snoc result_simps)
    moreover have "ev_seq e0 = int (length es0)" using assms(4) snoc by simp
    ultimately show ?thesis using snoc by simp
  qed
  then show ?thesis
    using assms(1-3) by (simp add: trace.project_snoc trace_step_def validateEvent_def applyTransition_def unchanged_transition_def)
qed

lemma marker_surface:
  assumes "foldSurface (es @ [e]) = Inr p" "ev_data e = EndSeed" "ev_seq e = int (length es)" "ev_surfaceOp e = None" "ev_sourceEventSeqs e = None"
  shows "foldSurface es = Inr p"
proof -
  have "surface.project (es @ [e]) = surface.project es"
    using assms(2-5) by (cases "surface.project es")
      (simp_all add: surface.project_snoc surface_step_log_only isSurfaceEligibleType_def surface_event_types_def)
  with assms(1) show ?thesis by (simp add: foldSurface_project)
qed

lemma prepare_Inr:
  assumes "prepare st ident src now = (st', Inr c)"
  shows "\<exists>sid. c = st_sessionCount st \<and> prepared_session sid src now = Inr (st_sessions st' c) \<and> (\<forall>t. t \<noteq> c \<longrightarrow> st_sessions st' t = st_sessions st t)
    \<and> st_store st' = st_store st \<and> map_of (st_store st) sid = None \<and> (\<forall>i. ident = Some i \<longrightarrow> sid = i)"
  using assms by (auto simp: prepare_def Let_def split: option.splits if_splits sum.splits)

lemma fork_unchanged:
  assumes "fork st src b child now = (st', Inl err)"
  shows "st_sessions st' = st_sessions st \<and> st_store st' = st_store st \<and> st_notes st' = st_notes st"
  using assms by (auto simp: fork_def prepare_def Let_def split: option.splits if_splits sum.splits)

lemma fork_child:
  assumes new: "new_session False sid (Some seed) (header_json h) now = Inr x"
    and seed: "seed = take n es" "rs_openTurn (scan_log seed) = None"
  shows "\<exists>marker. se_log x = seed @ marker \<and> map ev_data marker \<in> {[], [EndSeed]} \<and> interruptedTurnClosers (se_log x) = []
    \<and> (\<forall>tr. seedSession es = Inr tr \<longrightarrow>
         (\<exists>tr'. seedSession (se_log x) = Inr tr' \<and> openTurn tr' = None \<and> openStep tr' = None))
    \<and> (\<exists>p. foldSurface (se_log x) = Inr p \<and> foldSurface seed = Inr p)"
proof -
  from new_session_log [OF new] obtain marker where lg: "se_log x = seed @ marker"
    and mk: "marker = [] \<or> (\<exists>e. marker = [e] \<and> ev_data e = EndSeed \<and> ev_seq e = int (length seed) \<and> ev_surfaceOp e = None \<and> ev_sourceEventSeqs e = None)"
    by blast
  have run: "session_run x" using new by (rule session_start)
  have "take (length seed) (map ev_seq (se_log x)) = take (length seed) (map int [0..<length (se_log x)])"
    using run_contiguous [OF run] by simp
  then have cont: "map ev_seq seed = map int [0..<length seed]" by (simp add: lg take_map)
  have closed: "rs_openTurn (scan_log (se_log x)) = None" using mk seed(2) by (auto simp: lg scan_event_def)
  have "\<exists>tr'. seedSession (se_log x) = Inr tr' \<and> openTurn tr' = None \<and> openStep tr' = None" if "seedSession es = Inr tr" for tr
  proof -
    have "trace.project (seed @ drop n es) = Inr tr" using that by (simp add: seed seedSession_project)
    then obtain t0 where t0: "trace.project seed = Inr t0" using trace.project_prefix by blast
    have t0': "openTurn t0 = None" "openStep t0 = None"
      using scan_log_tracks [OF t0] seed(2) trace.project_inv [OF t0] by (auto simp: scan_tracks_def trace_inv_def trace_wf_def)
    from mk show ?thesis
      using t0 t0' trace_marker [OF t0 _ _ cont] by (auto simp: lg seedSession_project)
  qed
  moreover obtain p where p: "foldSurface (se_log x) = Inr p" using session_run_ok [OF run] by (auto simp: session_ok_def)
  moreover have "foldSurface seed = Inr p" using mk p marker_surface [of seed _ p] by (cases p) (auto simp: lg)
  moreover have "interruptedTurnClosers (se_log x) = []" using closed by (simp add: interruptedTurnClosers_def Let_def)
  ultimately show ?thesis using lg mk by (intro exI [of _ marker]) auto
qed

end
