(* ===== verification/Calendar.thy ===== *)
theory Calendar
  imports Json
begin

text \<open>
  The part of the JavaScript \<open>Date\<close> object that \<open>schedule/schedule/src/domain.ts\<close> computes with: the
  proleptic Gregorian calendar in UTC, the setters and getters \<open>calendarEpoch\<close> uses,
  \<open>toISOString\<close>, and \<open>Date.parse\<close> on the one format the package accepts. Times are integral
  milliseconds since 1970, as in the language definition; an invalid date is \<open>None\<close>. Year and month
  are computed by estimation and table lookup, and shown to be the inverse of the day count, so that
  times and valid calendar fields are in bijection.
\<close>

section \<open>Days, years and months\<close>

definition msPerDay :: int where
  "msPerDay = 86400000"

definition dayFromYear :: "int \<Rightarrow> int" where
  "dayFromYear y = 365 * (y - 1970) + (y - 1969) div 4 - (y - 1901) div 100 + (y - 1601) div 400"

definition leap_year :: "int \<Rightarrow> bool" where
  "leap_year y \<longleftrightarrow> y mod 4 = 0 \<and> (y mod 100 \<noteq> 0 \<or> y mod 400 = 0)"

definition daysInYear :: "int \<Rightarrow> int" where
  "daysInYear y = (if leap_year y then 366 else 365)"

definition yearFromDay :: "int \<Rightarrow> int" where
  "yearFromDay d =
     (let y = 1970 + (400 * d) div 146097
      in if d < dayFromYear y then y - 1 else if dayFromYear (y + 1) \<le> d then y + 1 else y)"

definition month_starts :: "bool \<Rightarrow> int list" where
  "month_starts leap =
     (let l = (if leap then 1 else 0)
      in [0, 31, 59 + l, 90 + l, 120 + l, 151 + l, 181 + l, 212 + l, 243 + l, 273 + l, 304 + l, 334 + l, 365 + l])"

definition month_start :: "bool \<Rightarrow> int \<Rightarrow> int" where
  "month_start leap m = month_starts leap ! nat m"

definition monthFromDay :: "bool \<Rightarrow> int \<Rightarrow> int" where
  "monthFromDay leap doy = int (length (filter (\<lambda>s. s \<le> doy) (month_starts leap))) - 1"

definition daysInMonth :: "int \<Rightarrow> int \<Rightarrow> int" where
  "daysInMonth y m = month_start (leap_year y) m - month_start (leap_year y) (m - 1)"

lemma div_step: "(k :: int) > 0 \<Longrightarrow> (a + 1) div k = a div k + (if (a + 1) mod k = 0 then 1 else 0)"
proof -
  assume k: "k > 0"
  have a: "a = k * (a div k) + a mod k" by simp
  have r: "0 \<le> a mod k" "a mod k < k" using k by simp_all
  show ?thesis
  proof (cases "a mod k = k - 1")
    case True
    with a have e: "a + 1 = k * (a div k + 1) + 0" by (simp add: algebra_simps)
    with k have "(a + 1) div k = a div k + 1" "(a + 1) mod k = 0"
      by (metis int_div_pos_eq order_refl, metis int_mod_pos_eq order_refl)
    then show ?thesis by simp
  next
    case False
    with a r have e: "a + 1 = k * (a div k) + (a mod k + 1)" "a mod k + 1 < k" "0 \<le> a mod k + 1" by simp_all
    then have "(a + 1) div k = a div k" "(a + 1) mod k = a mod k + 1"
      using int_div_pos_eq int_mod_pos_eq by blast+
    with r show ?thesis by simp
  qed
qed

lemma dayFromYear_step: "dayFromYear (y + 1) = dayFromYear y + daysInYear y"
proof -
  have m: "(y - 1969 + 1) mod 4 = y mod 4" "(y - 1901 + 1) mod 100 = y mod 100" "(y - 1601 + 1) mod 400 = y mod 400"
    by (simp_all add: mod_eq_dvd_iff)
  have c: "y mod 400 = 0 \<Longrightarrow> y mod 100 = 0" "y mod 100 = 0 \<Longrightarrow> y mod 4 = 0"
    using dvd_trans [of 100 400 y] dvd_trans [of 4 100 y] by (simp_all add: mod_eq_0_iff_dvd)
  have e: "y + 1 - 1969 = y - 1969 + 1" "y + 1 - 1901 = y - 1901 + 1" "y + 1 - 1601 = y - 1601 + 1" by simp_all
  have leap: "(R \<Longrightarrow> Q) \<Longrightarrow> (Q \<Longrightarrow> P) \<Longrightarrow>
      d + 365 + (if P then 1 else 0) - (if Q then 1 else 0) + (if R then 1 else 0)
      = d + (if P \<and> (\<not> Q \<or> R) then 366 else 365)" for P Q R and d :: int
    by (cases P; cases Q; cases R) simp_all
  have sum: "365 * (y + 1 - 1970) + (a + i) - (b + j) + (c + k) = 365 * (y - 1970) + a - b + c + 365 + i - j + k"
    for a b c i j k :: int by simp
  have "(y + 1 - 1969) div 4 = (y - 1969) div 4 + (if y mod 4 = 0 then 1 else 0)"
    "(y + 1 - 1901) div 100 = (y - 1901) div 100 + (if y mod 100 = 0 then 1 else 0)"
    "(y + 1 - 1601) div 400 = (y - 1601) div 400 + (if y mod 400 = 0 then 1 else 0)"
    unfolding e using div_step [of 4 "y - 1969", unfolded m] div_step [of 100 "y - 1901", unfolded m]
      div_step [of 400 "y - 1601", unfolded m] by (simp_all only: zero_less_numeral simp_thms)
  then have "dayFromYear (y + 1) = dayFromYear y + 365 + (if y mod 4 = 0 then 1 else 0)
      - (if y mod 100 = 0 then 1 else 0) + (if y mod 400 = 0 then 1 else 0)"
    unfolding dayFromYear_def by (simp only: sum)
  then show ?thesis using leap [of "y mod 400 = 0" "y mod 100 = 0" "y mod 4 = 0" "dayFromYear y", OF c] unfolding daysInYear_def leap_year_def by (simp only:)
qed

lemma div_bounds: "(k :: int) > 0 \<Longrightarrow> k * (a div k) \<le> a \<and> a < k * (a div k) + k"
  using mult_div_mod_eq [of k a] pos_mod_bound [of k a] pos_mod_sign [of k a] by linarith

lemma daysInYear_bounds: "365 \<le> daysInYear y" "daysInYear y \<le> 366"
  by (simp_all add: daysInYear_def)

lemma dayFromYear_mono: "y \<le> y' \<Longrightarrow> dayFromYear y + 365 * (y' - y) \<le> dayFromYear y'"
proof (induction y' rule: int_ge_induct)
  case (step i)
  then show ?case using dayFromYear_step [of i] daysInYear_bounds [of i] by (simp add: algebra_simps)
qed simp

text \<open>The mean year has 146097 / 400 days and the day count stays within two days of it.\<close>

lemma dayFromYear_mean:
  "146097 * (y - 1970) - 600 \<le> 400 * dayFromYear y" "400 * dayFromYear y \<le> 146097 * (y - 1970) + 600"
proof -
  note d = div_bounds [of 4 "y - 1969"] div_bounds [of 100 "y - 1901"] div_bounds [of 400 "y - 1601"]
  show "146097 * (y - 1970) - 600 \<le> 400 * dayFromYear y" "400 * dayFromYear y \<le> 146097 * (y - 1970) + 600"
    using d unfolding dayFromYear_def by (simp_all add: algebra_simps)
qed

lemma yearFromDay_range:
  "dayFromYear (yearFromDay d) \<le> d" "d < dayFromYear (yearFromDay d + 1)"
proof -
  define y where "y = 1970 + (400 * d) div 146097"
  have "146097 * (y - 1970) \<le> 400 * d" "400 * d < 146097 * (y - 1969)"
    using div_bounds [of 146097 "400 * d"] unfolding y_def by simp_all
  then have "dayFromYear (y - 1) \<le> d" "d < dayFromYear (y + 2)"
    using dayFromYear_mean [of "y - 1"] dayFromYear_mean [of "y + 2"] by simp_all
  then have "dayFromYear (yearFromDay d) \<le> d \<and> d < dayFromYear (yearFromDay d + 1)"
    by (auto simp: yearFromDay_def Let_def add.commute add.left_commute simp flip: y_def)
  then show "dayFromYear (yearFromDay d) \<le> d" "d < dayFromYear (yearFromDay d + 1)" by simp_all
qed

lemma yearFromDay_unique:
  assumes "dayFromYear y \<le> d" "d < dayFromYear (y + 1)"
  shows "yearFromDay d = y"
proof (rule ccontr)
  assume "yearFromDay d \<noteq> y"
  then consider "yearFromDay d + 1 \<le> y" | "y + 1 \<le> yearFromDay d" by linarith
  then show False
    using dayFromYear_mono [of "yearFromDay d + 1" y] dayFromYear_mono [of "y + 1" "yearFromDay d"]
      yearFromDay_range [of d] assms by cases fastforce+
qed

lemma twelve_months:
  assumes "0 \<le> m" "m < (12 :: int)"
  obtains "m = 0" | "m = 1" | "m = 2" | "m = 3" | "m = 4" | "m = 5" | "m = 6" | "m = 7" | "m = 8"
    | "m = 9" | "m = 10" | "m = 11"
proof -
  from assms have "m = 0 \<or> m = 1 \<or> m = 2 \<or> m = 3 \<or> m = 4 \<or> m = 5 \<or> m = 6 \<or> m = 7 \<or> m = 8 \<or> m = 9 \<or>
    m = 10 \<or> m = 11" by presburger
  with that show thesis by blast
qed

lemmas month_simps = month_start_def month_starts_def monthFromDay_def Let_def eval_nat_numeral

lemma month_start_mono: "0 \<le> m \<Longrightarrow> m < 12 \<Longrightarrow> month_start leap m + 28 \<le> month_start leap (m + 1)"
  by (erule (1) twelve_months) (simp_all add: month_simps)

lemma month_start_ends: "month_start leap 0 = 0" "month_start leap 12 = (if leap then 366 else 365)"
  by (simp_all add: month_simps)

lemma monthFromDay_unique:
  assumes "0 \<le> m" "m < 12" "month_start leap m \<le> doy" "doy < month_start leap (m + 1)"
  shows "monthFromDay leap doy = m"
  using assms(1,2)
  by (rule twelve_months) (use assms(3,4) in \<open>simp_all add: month_simps split: if_splits\<close>)

lemma monthFromDay_range:
  assumes "0 \<le> doy" "doy < (if leap then 366 else 365)"
  shows "0 \<le> monthFromDay leap doy \<and> monthFromDay leap doy < 12 \<and>
         month_start leap (monthFromDay leap doy) \<le> doy \<and> doy < month_start leap (monthFromDay leap doy + 1)"
proof -
  have "\<exists>m. 0 \<le> m \<and> m < 12 \<and> month_start leap m \<le> doy \<and> doy < month_start leap (m + 1)"
  proof (rule ccontr)
    assume none: "\<not> ?thesis"
    have "month_start leap (int n) \<le> doy" if "n \<le> 12" for n
      using that
    proof (induction n)
      case 0
      show ?case using assms(1) by (simp add: month_start_ends)
    next
      case (Suc n)
      then have "0 \<le> int n" "int n < 12" "month_start leap (int n) \<le> doy" by simp_all
      with none have "month_start leap (int n + 1) \<le> doy" by (metis not_less)
      then show ?case by (simp add: add.commute)
    qed
    from this [of 12] assms(2) show False by (simp add: month_start_ends)
  qed
  then show ?thesis using monthFromDay_unique by metis
qed

section \<open>Calendar fields of a time\<close>

record calendar_parts =
  cp_year :: int
  cp_month :: int
  cp_day :: int
  cp_hour :: int
  cp_minute :: int
  cp_second :: int
  cp_millisecond :: int

text \<open>\<open>MakeDay\<close> with a zero-based month, \<open>MakeTime\<close> and \<open>TimeClip\<close> of the language definition.\<close>

definition make_day :: "int \<Rightarrow> int \<Rightarrow> int \<Rightarrow> int" where
  "make_day y m dt = dayFromYear (y + m div 12) + month_start (leap_year (y + m div 12)) (m mod 12) + dt - 1"

definition make_time :: "int \<Rightarrow> int \<Rightarrow> int \<Rightarrow> int \<Rightarrow> int" where
  "make_time h mi s ms = h * 3600000 + mi * 60000 + s * 1000 + ms"

definition time_clip :: "int \<Rightarrow> int option" where
  "time_clip t = (if \<bar>t\<bar> \<le> 8640000000000000 then Some t else None)"

text \<open>The UTC getters, with the month counted from one.\<close>

definition date_fields :: "int \<Rightarrow> calendar_parts" where
  "date_fields t =
     (let d = t div msPerDay; r = t mod msPerDay; y = yearFromDay d; doy = d - dayFromYear y;
          m = monthFromDay (leap_year y) doy
      in \<lparr>cp_year = y, cp_month = m + 1, cp_day = doy - month_start (leap_year y) m + 1,
          cp_hour = r div 3600000, cp_minute = r div 60000 mod 60, cp_second = r div 1000 mod 60,
          cp_millisecond = r mod 1000\<rparr>)"

definition parts_time :: "calendar_parts \<Rightarrow> int" where
  "parts_time p = make_day (cp_year p) (cp_month p - 1) (cp_day p) * msPerDay
     + make_time (cp_hour p) (cp_minute p) (cp_second p) (cp_millisecond p)"

definition valid_parts :: "calendar_parts \<Rightarrow> bool" where
  "valid_parts p \<longleftrightarrow>
     1 \<le> cp_month p \<and> cp_month p \<le> 12 \<and> 1 \<le> cp_day p \<and> cp_day p \<le> daysInMonth (cp_year p) (cp_month p) \<and>
     0 \<le> cp_hour p \<and> cp_hour p \<le> 23 \<and> 0 \<le> cp_minute p \<and> cp_minute p \<le> 59 \<and>
     0 \<le> cp_second p \<and> cp_second p \<le> 59 \<and> 0 \<le> cp_millisecond p \<and> cp_millisecond p \<le> 999"

lemma time_of_day_fields:
  assumes "0 \<le> r" "r < 86400000"
  shows "make_time (r div 3600000) (r div 60000 mod 60) (r div 1000 mod 60) (r mod 1000) = r"
    "0 \<le> r div 3600000" "r div 3600000 \<le> 23" "0 \<le> r div 60000 mod 60" "r div 60000 mod 60 \<le> 59"
    "0 \<le> r div 1000 mod 60" "r div 1000 mod 60 \<le> 59" "0 \<le> r mod 1000" "r mod 1000 \<le> 999"
proof -
  have q: "r div 60000 = r div 1000 div 60" "r div 3600000 = r div 1000 div 60 div 60"
    by (simp_all add: zdiv_zmult2_eq [symmetric])
  have mix: "r = 1000 * a + m \<Longrightarrow> a = 60 * b + m' \<Longrightarrow> b = 60 * c + m'' \<Longrightarrow>
      c * 3600000 + m'' * 60000 + m' * 1000 + m = r" for a b c m m' m'' :: int
    by simp
  show "make_time (r div 3600000) (r div 60000 mod 60) (r div 1000 mod 60) (r mod 1000) = r"
    unfolding make_time_def q by (rule mix) (simp_all only: mult_div_mod_eq)
  show "0 \<le> r div 3600000" using assms by (simp add: pos_imp_zdiv_nonneg_iff)
  show "r div 3600000 \<le> 23" using assms div_bounds [of 3600000 r] by simp
  show "0 \<le> r div 60000 mod 60" "0 \<le> r div 1000 mod 60" "0 \<le> r mod 1000" by simp_all
  show "r div 60000 mod 60 \<le> 59" using pos_mod_bound [of 60 "r div 60000"] by linarith
  show "r div 1000 mod 60 \<le> 59" using pos_mod_bound [of 60 "r div 1000"] by linarith
  show "r mod 1000 \<le> 999" using pos_mod_bound [of 1000 r] by linarith
qed

lemma make_time_inverse:
  assumes "0 \<le> h" "h \<le> 23" "0 \<le> mi" "mi \<le> 59" "0 \<le> s" "s \<le> 59" "0 \<le> ms" "ms \<le> (999 :: int)"
  defines "r \<equiv> make_time h mi s ms"
  shows "0 \<le> r" "r < 86400000" "r div 3600000 = h" "r div 60000 mod 60 = mi" "r div 1000 mod 60 = s" "r mod 1000 = ms"
proof -
  show "0 \<le> r" "r < 86400000" using assms unfolding r_def make_time_def by simp_all
  have r: "r = 1000 * (3600 * h + 60 * mi + s) + ms" unfolding r_def make_time_def by simp
  have a: "r div 1000 = 60 * (60 * h + mi) + s"
    using int_div_pos_eq [OF r assms(7)] assms(8) by simp
  show "r mod 1000 = ms" using int_mod_pos_eq [OF r assms(7)] assms(8) by simp
  show "r div 1000 mod 60 = s" using int_mod_pos_eq [OF a assms(5)] assms(6) by simp
  have b: "r = 60000 * (60 * h + mi) + (1000 * s + ms)" unfolding r_def make_time_def by simp
  have c: "r div 60000 = 60 * h + mi" using int_div_pos_eq [OF b] assms(5-8) by simp
  show "r div 60000 mod 60 = mi" using int_mod_pos_eq [OF c assms(3)] assms(4) by simp
  have d: "r = 3600000 * h + (60000 * mi + 1000 * s + ms)" unfolding r_def make_time_def by simp
  show "r div 3600000 = h" using int_div_pos_eq [OF d] assms(3-8) by simp
qed

lemma day_of_year:
  fixes d :: int
  defines "y \<equiv> yearFromDay d"
  shows "0 \<le> d - dayFromYear y" "d - dayFromYear y < (if leap_year y then 366 else 365)"
  using yearFromDay_range [of d] dayFromYear_step [of "yearFromDay d"] unfolding y_def daysInYear_def by simp_all

text \<open>The fields of a time, with the ranges of all quotients and remainders at hand.\<close>

lemma date_fields_cases:
  obtains d y m h mi s ms where
    "date_fields t = \<lparr>cp_year = y, cp_month = m + 1, cp_day = d - dayFromYear y - month_start (leap_year y) m + 1,
       cp_hour = h, cp_minute = mi, cp_second = s, cp_millisecond = ms\<rparr>"
    "0 \<le> m" "m < 12" "month_start (leap_year y) m \<le> d - dayFromYear y"
    "d - dayFromYear y < month_start (leap_year y) (m + 1)"
    "0 \<le> h" "h \<le> 23" "0 \<le> mi" "mi \<le> 59" "0 \<le> s" "s \<le> 59" "0 \<le> ms" "ms \<le> 999"
    "t = d * msPerDay + make_time h mi s ms"
proof -
  define d where "d = t div msPerDay"
  define r where "r = t mod msPerDay"
  have r: "0 \<le> r" "r < 86400000" unfolding r_def msPerDay_def by simp_all
  note m = monthFromDay_range [OF day_of_year [of d]]
  have t: "t = d * msPerDay + r" unfolding d_def r_def by simp
  show thesis
    by (rule that, unfold date_fields_def Let_def d_def [symmetric] r_def [symmetric], rule refl)
      (use m in blast, use m in blast, use m in blast, use m in blast,
        (rule time_of_day_fields [OF r])+, simp only: time_of_day_fields(1) [OF r] t)
qed

lemma valid_date_fields: "valid_parts (date_fields t)"
  by (rule date_fields_cases [of t]) (simp add: valid_parts_def daysInMonth_def)

lemma parts_time_fields: "parts_time (date_fields t) = t"
  by (rule date_fields_cases [of t]) (simp add: parts_time_def make_day_def)

lemma make_day_inverse:
  assumes "1 \<le> m" "m \<le> 12" "1 \<le> dt" "dt \<le> daysInMonth y m"
  defines "d \<equiv> make_day y (m - 1) dt"
  shows "yearFromDay d = y" "monthFromDay (leap_year y) (d - dayFromYear y) = m - 1"
    "d - dayFromYear y - month_start (leap_year y) (m - 1) + 1 = dt"
proof -
  have d: "d = dayFromYear y + month_start (leap_year y) (m - 1) + dt - 1"
    using assms(1,2) unfolding d_def make_day_def by simp
  have upto: "month_start leap (int a) \<le> month_start leap (int b)" if "a \<le> b" "b \<le> 12" for leap a b
    using that
  proof (induction b)
    case (Suc b)
    then show ?case
      using month_start_mono [of "int b" leap] by (cases "a = Suc b") (auto simp: add.commute)
  qed simp
  have lo: "0 \<le> month_start (leap_year y) (m - 1)"
    using upto [of 0 "nat (m - 1)"] assms(1,2) month_start_ends by simp
  have hi: "month_start (leap_year y) m \<le> daysInYear y"
    using upto [of "nat m" 12 "leap_year y"] assms(1,2) month_start_ends by (simp add: daysInYear_def)
  show y: "yearFromDay d = y"
    using lo hi assms(3,4) dayFromYear_step [of y] unfolding d daysInMonth_def
    by (intro yearFromDay_unique) simp_all
  show "monthFromDay (leap_year y) (d - dayFromYear y) = m - 1"
    using assms(1-4) unfolding d daysInMonth_def by (intro monthFromDay_unique) simp_all
  show "d - dayFromYear y - month_start (leap_year y) (m - 1) + 1 = dt" unfolding d by simp
qed

lemma date_fields_parts:
  assumes "valid_parts p"
  shows "date_fields (parts_time p) = p"
proof -
  from assms have v: "1 \<le> cp_month p" "cp_month p \<le> 12" "1 \<le> cp_day p" "cp_day p \<le> daysInMonth (cp_year p) (cp_month p)"
    "0 \<le> cp_hour p" "cp_hour p \<le> 23" "0 \<le> cp_minute p" "cp_minute p \<le> 59"
    "0 \<le> cp_second p" "cp_second p \<le> 59" "0 \<le> cp_millisecond p" "cp_millisecond p \<le> 999"
    unfolding valid_parts_def by simp_all
  note f = make_time_inverse [OF v(5-12)]
  have e: "parts_time p = msPerDay * make_day (cp_year p) (cp_month p - 1) (cp_day p)
      + make_time (cp_hour p) (cp_minute p) (cp_second p) (cp_millisecond p)"
    by (simp add: parts_time_def)
  have "parts_time p div msPerDay = make_day (cp_year p) (cp_month p - 1) (cp_day p)"
    "parts_time p mod msPerDay = make_time (cp_hour p) (cp_minute p) (cp_second p) (cp_millisecond p)"
    using int_div_pos_eq [OF e f(1)] int_mod_pos_eq [OF e f(1)] f(2) by (simp_all add: msPerDay_def)
  then show ?thesis
    unfolding date_fields_def Let_def
    by (simp only: make_day_inverse [OF v(1-4)] f) simp
qed

section \<open>Fixed-width decimal patterns\<close>

text \<open>
  The regular expressions of the package are sequences of fixed-width digit groups and literal
  characters, with range conditions on the groups. \<open>scan\<close> matches such a sequence at the front of a
  string and returns the numbers and the rest; \<open>render\<close> writes the numbers zero-padded.
\<close>

datatype pattern_item = Digits nat | Sep char

fun pad :: "nat \<Rightarrow> nat \<Rightarrow> string" where
  "pad 0 k = []"
| "pad (Suc n) k = pad n (k div 10) @ [char_of (48 + k mod 10)]"

fun scan :: "pattern_item list \<Rightarrow> string \<Rightarrow> (nat list \<times> string) option" where
  "scan [] s = Some ([], s)"
| "scan (Digits n # ps) s =
     (if n \<le> length s \<and> list_all is_decimal (take n s)
      then map_option (\<lambda>(ks, rest). (decimal_value (take n s) # ks, rest)) (scan ps (drop n s))
      else None)"
| "scan (Sep c # ps) s = (case s of [] \<Rightarrow> None | a # s' \<Rightarrow> if a = c then scan ps s' else None)"

fun render :: "pattern_item list \<Rightarrow> nat list \<Rightarrow> string" where
  "render [] ks = []"
| "render (Digits n # ps) ks = (case ks of [] \<Rightarrow> [] | k # ks' \<Rightarrow> pad n k @ render ps ks')"
| "render (Sep c # ps) ks = c # render ps ks"

fun fits :: "pattern_item list \<Rightarrow> nat list \<Rightarrow> bool" where
  "fits [] ks = (ks = [])"
| "fits (Digits n # ps) ks = (case ks of [] \<Rightarrow> False | k # ks' \<Rightarrow> k < 10 ^ n \<and> fits ps ks')"
| "fits (Sep c # ps) ks = fits ps ks"

lemma pad_digits: "length (pad n k) = n \<and> list_all is_decimal (pad n k) \<and> decimal_value (pad n k) = k mod 10 ^ n"
proof (induction n arbitrary: k)
  case 0
  then show ?case by (simp add: decimal_value_def)
next
  case (Suc n)
  have "k mod 10 ^ Suc n = 10 * (k div 10 mod 10 ^ n) + k mod 10"
    by (simp add: mod_mult2_eq)
  moreover have "is_decimal (char_of (48 + k mod 10))"
    using of_char_digit [of "k mod 10"] by (simp add: is_decimal_def del: of_char_of)
  ultimately show ?case
    using Suc [of "k div 10"] of_char_digit [of "k mod 10"]
    by (simp add: decimal_value_snoc del: of_char_of)
qed

lemma pad_decimal_value: "list_all is_decimal s \<Longrightarrow> pad (length s) (decimal_value s) = s \<and> decimal_value s < 10 ^ length s"
proof (induction s rule: rev_induct)
  case Nil
  then show ?case by (simp add: decimal_value_def)
next
  case (snoc c s)
  then have "48 \<le> (of_char c :: nat)" "(of_char c :: nat) \<le> 57" by (simp_all add: is_decimal_def Let_def)
  moreover define k where "k = (of_char c :: nat) - 48"
  ultimately have k: "(of_char c :: nat) = 48 + k" "k < 10" by simp_all
  then have "char_of (48 + k) = c" by (metis char_of_char)
  with k snoc show ?case by (simp add: decimal_value_snoc)
qed

lemma scan_render: "fits ps ks \<Longrightarrow> scan ps (render ps ks @ rest) = Some (ks, rest)"
proof (induction ps ks arbitrary: rest rule: fits.induct)
  case (2 n ps ks)
  then show ?case using pad_digits [of n "hd ks"] by (cases ks) simp_all
qed simp_all

lemma scan_Some: "scan ps s = Some (ks, rest) \<Longrightarrow> fits ps ks \<and> s = render ps ks @ rest"
proof (induction ps s arbitrary: ks rule: scan.induct)
  case (2 n ps s)
  from 2(2) obtain ks' where n: "n \<le> length s" "list_all is_decimal (take n s)"
    and r: "scan ps (drop n s) = Some (ks', rest)" and ks: "ks = decimal_value (take n s) # ks'"
    by (auto split: if_splits)
  from n have "pad n (decimal_value (take n s)) = take n s \<and> decimal_value (take n s) < 10 ^ n"
    using pad_decimal_value [OF n(2)] by simp
  moreover from 2(1) [OF _ r] n have "fits ps ks' \<and> drop n s = render ps ks' @ rest" by simp
  ultimately show ?case using append_take_drop_id [of n s] by (simp add: ks)
qed (auto split: list.splits if_splits)

lemma scan_iff: "scan ps s = Some (ks, rest) \<longleftrightarrow> fits ps ks \<and> s = render ps ks @ rest"
  using scan_render scan_Some by blast

section \<open>The ISO format\<close>

definition ISO_PATTERN :: "pattern_item list" where
  "ISO_PATTERN =
     [Digits 4, Sep (CHR ''-''), Digits 2, Sep (CHR ''-''), Digits 2, Sep (CHR ''T''),
      Digits 2, Sep (CHR '':''), Digits 2, Sep (CHR '':''), Digits 2, Sep (CHR ''.''), Digits 3, Sep (CHR ''Z'')]"

definition part_numbers :: "calendar_parts \<Rightarrow> nat list" where
  "part_numbers p = map nat [cp_year p, cp_month p, cp_day p, cp_hour p, cp_minute p, cp_second p, cp_millisecond p]"

text \<open>
  \<open>toISOString\<close>: an invalid time raises; a year outside the four-digit range is written with a sign
  and six digits.
\<close>

definition toISOString :: "int \<Rightarrow> string option" where
  "toISOString t =
     (if time_clip t = None then None
      else let p = date_fields t in
        if 0 \<le> cp_year p \<and> cp_year p \<le> 9999 then Some (render ISO_PATTERN (part_numbers p))
        else Some ((if cp_year p < 0 then ''-'' else ''+'')
               @ render (Digits 6 # tl ISO_PATTERN) (nat \<bar>cp_year p\<bar> # tl (part_numbers p))))"

text \<open>
  \<open>UTC_INSTANT.test\<close> and \<open>Date.parse\<close> on the strings that pass it. A day of the month up to 31 that the
  month does not have runs over into the next month.
\<close>

fun parts_of_numbers :: "nat list \<Rightarrow> calendar_parts option" where
  "parts_of_numbers [y, mo, d, h, mi, s, ms] =
     Some \<lparr>cp_year = int y, cp_month = int mo, cp_day = int d, cp_hour = int h, cp_minute = int mi,
           cp_second = int s, cp_millisecond = int ms\<rparr>"
| "parts_of_numbers _ = None"

definition utc_parts :: "string \<Rightarrow> calendar_parts option" where
  "utc_parts s =
     (case scan ISO_PATTERN s of
        Some (ks, []) \<Rightarrow>
          (case parts_of_numbers ks of
             Some p \<Rightarrow>
               if cp_year p \<noteq> 0 \<and> 1 \<le> cp_month p \<and> cp_month p \<le> 12 \<and> 1 \<le> cp_day p \<and> cp_day p \<le> 31 \<and>
                  cp_hour p \<le> 23 \<and> cp_minute p \<le> 59 \<and> cp_second p \<le> 59
               then Some p else None
           | None \<Rightarrow> None)
      | _ \<Rightarrow> None)"

definition UTC_INSTANT :: "string \<Rightarrow> bool" where
  "UTC_INSTANT s \<longleftrightarrow> utc_parts s \<noteq> None"

definition Date_parse :: "string \<Rightarrow> int option" where
  "Date_parse s = (case utc_parts s of Some p \<Rightarrow> time_clip (parts_time p) | None \<Rightarrow> None)"

definition MIN_FOUR_DIGIT_YEAR_MS :: int where
  "MIN_FOUR_DIGIT_YEAR_MS = - 62135596800000"

definition MAX_FOUR_DIGIT_YEAR_MS :: int where
  "MAX_FOUR_DIGIT_YEAR_MS = 253402300799999"

lemma ISO_fits:
  "fits ISO_PATTERN ks \<longleftrightarrow>
     (\<exists>y mo d h mi s ms. ks = [y, mo, d, h, mi, s, ms] \<and> y < 10000 \<and> mo < 100 \<and> d < 100 \<and> h < 100 \<and> mi < 100 \<and>
        s < 100 \<and> ms < 1000)"
  by (auto simp: ISO_PATTERN_def split: list.splits)

text \<open>The strings of the format are the renderings of their numbers.\<close>

lemma utc_parts_Some:
  "utc_parts s = Some p \<longleftrightarrow>
     s = render ISO_PATTERN (part_numbers p) \<and> 1 \<le> cp_year p \<and> cp_year p \<le> 9999 \<and>
     1 \<le> cp_month p \<and> cp_month p \<le> 12 \<and> 1 \<le> cp_day p \<and> cp_day p \<le> 31 \<and> 0 \<le> cp_hour p \<and> cp_hour p \<le> 23 \<and>
     0 \<le> cp_minute p \<and> cp_minute p \<le> 59 \<and> 0 \<le> cp_second p \<and> cp_second p \<le> 59 \<and>
     0 \<le> cp_millisecond p \<and> cp_millisecond p \<le> 999" (is "?l = ?r")
proof
  assume ?l
  then obtain ks where k: "scan ISO_PATTERN s = Some (ks, [])" "parts_of_numbers ks = Some p"
    and c: "cp_year p \<noteq> 0" "1 \<le> cp_month p" "cp_month p \<le> 12" "1 \<le> cp_day p" "cp_day p \<le> 31"
      "cp_hour p \<le> 23" "cp_minute p \<le> 59" "cp_second p \<le> 59"
    by (auto simp: utc_parts_def split: option.splits prod.splits list.splits if_splits)
  from k(1) have f: "fits ISO_PATTERN ks" "s = render ISO_PATTERN ks" by (simp_all add: scan_iff)
  then obtain y mo d h mi sc ms where ks: "ks = [y, mo, d, h, mi, sc, ms]" "y < 10000" "ms < 1000"
    by (auto simp: ISO_fits)
  with k(2) have p: "p = \<lparr>cp_year = int y, cp_month = int mo, cp_day = int d, cp_hour = int h, cp_minute = int mi,
      cp_second = int sc, cp_millisecond = int ms\<rparr>" by simp
  then have "part_numbers p = ks" by (simp add: part_numbers_def ks)
  with f c ks show ?r by (simp add: p)
next
  assume r: ?r
  then have "fits ISO_PATTERN (part_numbers p)" by (auto simp: ISO_fits part_numbers_def)
  with r have "scan ISO_PATTERN s = Some (part_numbers p, [])" by (simp add: scan_iff)
  moreover have "parts_of_numbers (part_numbers p) = Some p"
    using r by (cases p) (simp add: part_numbers_def)
  ultimately show ?l using r by (simp add: utc_parts_def)
qed

lemma year_in_range:
  "1 \<le> cp_year (date_fields t) \<and> cp_year (date_fields t) \<le> 9999
   \<longleftrightarrow> MIN_FOUR_DIGIT_YEAR_MS \<le> t \<and> t \<le> MAX_FOUR_DIGIT_YEAR_MS"
proof -
  define d where "d = t div msPerDay"
  have y: "cp_year (date_fields t) = yearFromDay d" by (simp add: date_fields_def Let_def d_def)
  have e: "dayFromYear 1 = - 719162" "dayFromYear 10000 = 2932897" by (simp_all add: dayFromYear_def)
  have "1 \<le> yearFromDay d \<longleftrightarrow> - 719162 \<le> d"
    using yearFromDay_range [of d] dayFromYear_mono [of 1 "yearFromDay d"] dayFromYear_mono [of "yearFromDay d + 1" 1] e(1)
    by (cases "1 \<le> yearFromDay d") simp_all
  moreover have "yearFromDay d \<le> 9999 \<longleftrightarrow> d < 2932897"
    using yearFromDay_range [of d] dayFromYear_mono [of 10000 "yearFromDay d"] dayFromYear_mono [of "yearFromDay d + 1" 10000] e(2)
    by (cases "yearFromDay d \<le> 9999") simp_all
  moreover have "- 719162 \<le> d \<longleftrightarrow> MIN_FOUR_DIGIT_YEAR_MS \<le> t" "d < 2932897 \<longleftrightarrow> t \<le> MAX_FOUR_DIGIT_YEAR_MS"
    using div_bounds [of 86400000 t] unfolding d_def msPerDay_def MIN_FOUR_DIGIT_YEAR_MS_def MAX_FOUR_DIGIT_YEAR_MS_def
    by linarith+
  ultimately show ?thesis unfolding y by blast
qed

text \<open>
  In the four-digit range the ISO rendering parses back to the same time, and a string of the format
  that re-renders to itself is the rendering of its time.
\<close>

lemma toISOString_range:
  assumes "MIN_FOUR_DIGIT_YEAR_MS \<le> t" "t \<le> MAX_FOUR_DIGIT_YEAR_MS"
  shows "toISOString t = Some (render ISO_PATTERN (part_numbers (date_fields t)))"
    "utc_parts (render ISO_PATTERN (part_numbers (date_fields t))) = Some (date_fields t)"
proof -
  have y: "1 \<le> cp_year (date_fields t)" "cp_year (date_fields t) \<le> 9999" using year_in_range assms by blast+
  have "time_clip t \<noteq> None"
    using assms by (auto simp: time_clip_def MIN_FOUR_DIGIT_YEAR_MS_def MAX_FOUR_DIGIT_YEAR_MS_def)
  with y show "toISOString t = Some (render ISO_PATTERN (part_numbers (date_fields t)))"
    by (simp add: toISOString_def Let_def)
  have "daysInMonth (cp_year (date_fields t)) m \<le> 31" if "1 \<le> m" "m \<le> 12" for m
  proof -
    from that have "0 \<le> m - 1" "m - 1 < 12" by simp_all
    then show ?thesis by (rule twelve_months) (simp_all add: daysInMonth_def month_simps)
  qed
  with y valid_date_fields [of t]
  show "utc_parts (render ISO_PATTERN (part_numbers (date_fields t))) = Some (date_fields t)"
    by (fastforce simp: utc_parts_Some valid_parts_def)
qed

lemma Date_parse_toISOString:
  assumes "MIN_FOUR_DIGIT_YEAR_MS \<le> t" "t \<le> MAX_FOUR_DIGIT_YEAR_MS" "toISOString t = Some s"
  shows "UTC_INSTANT s \<and> Date_parse s = Some t"
  using toISOString_range [OF assms(1,2)] assms
  by (simp add: UTC_INSTANT_def Date_parse_def parts_time_fields time_clip_def MIN_FOUR_DIGIT_YEAR_MS_def
      MAX_FOUR_DIGIT_YEAR_MS_def)

lemma parts_time_year:
  assumes "1 \<le> cp_month p" "cp_month p \<le> 12" "1 \<le> cp_day p" "cp_day p \<le> 31"
    and h: "0 \<le> cp_hour p" "cp_hour p \<le> 23" "0 \<le> cp_minute p" "cp_minute p \<le> 59"
      "0 \<le> cp_second p" "cp_second p \<le> 59" "0 \<le> cp_millisecond p" "cp_millisecond p \<le> 999"
  shows "cp_year (date_fields (parts_time p)) = cp_year p"
proof -
  define y where "y = cp_year p"
  define d where "d = make_day y (cp_month p - 1) (cp_day p)"
  have m: "0 \<le> cp_month p - 1" "cp_month p - 1 < 12" using assms by simp_all
  then have "0 \<le> month_start (leap_year y) (cp_month p - 1) \<and> month_start (leap_year y) (cp_month p - 1) + 31 \<le> daysInYear y"
    by (rule twelve_months) (simp_all add: month_simps daysInYear_def)
  moreover have "d = dayFromYear y + month_start (leap_year y) (cp_month p - 1) + cp_day p - 1"
    using m unfolding d_def make_day_def by simp
  ultimately have "yearFromDay d = y"
    using assms dayFromYear_step [of y] by (intro yearFromDay_unique) simp_all
  moreover note f = make_time_inverse [OF h]
  have "parts_time p = msPerDay * d + make_time (cp_hour p) (cp_minute p) (cp_second p) (cp_millisecond p)"
    by (simp add: parts_time_def d_def y_def)
  from int_div_pos_eq [OF this f(1)] f(2) have "parts_time p div msPerDay = d" by (simp add: msPerDay_def)
  ultimately show ?thesis by (simp add: date_fields_def Let_def y_def)
qed

lemma Date_parse_range:
  "Date_parse s = Some t \<Longrightarrow> MIN_FOUR_DIGIT_YEAR_MS \<le> t \<and> t \<le> MAX_FOUR_DIGIT_YEAR_MS"
proof -
  assume "Date_parse s = Some t"
  then obtain p where p: "utc_parts s = Some p" "t = parts_time p"
    by (auto simp: Date_parse_def time_clip_def split: option.splits if_splits)
  then have "cp_year (date_fields t) = cp_year p" "1 \<le> cp_year p \<and> cp_year p \<le> 9999"
    using parts_time_year [of p] by (simp_all add: utc_parts_Some)
  then show ?thesis using year_in_range [of t] by simp
qed

text \<open>A canonical instant is exactly the rendering of a time in the four-digit range.\<close>

lemma canonical_instant:
  "(\<exists>t. UTC_INSTANT s \<and> Date_parse s = Some t \<and> toISOString t = Some s) \<longleftrightarrow>
   (\<exists>t. MIN_FOUR_DIGIT_YEAR_MS \<le> t \<and> t \<le> MAX_FOUR_DIGIT_YEAR_MS \<and> toISOString t = Some s)"
  using Date_parse_range Date_parse_toISOString by blast

end
