(* ===== verification/Schedule_Time.thy ===== *)
theory Schedule_Time
  imports Calendar
begin

text \<open>
  The time inputs of \<open>schedule/schedule/src/domain.ts\<close>: the strict calendar constructor
  \<open>calendarEpoch\<close>, the offset date-time parser, the local date and time with an explicit time zone,
  and \<open>futureInstant\<close>. The time-zone database is the environment: \<open>resolve_zone\<close> is what
  \<open>Intl.DateTimeFormat(\<dots>).resolvedOptions().timeZone\<close> answers (\<open>None\<close> when the constructor raises)
  and \<open>formatToParts\<close> the typed parts a formatter of that zone gives for a time. The regular
  expressions are \<open>scan\<close> patterns with conditions on the numbers they capture.
\<close>

section \<open>Errors\<close>

datatype input_code =
    invalid_prompt
  | invalid_rule
  | invalid_time_zone
  | not_future
  | time_out_of_range
  | frequency_too_high

section \<open>Calendar times\<close>

definition set_utc_full_year :: "int \<Rightarrow> int \<Rightarrow> int \<Rightarrow> int \<Rightarrow> int option" where
  "set_utc_full_year t y m d = time_clip (make_day y m d * msPerDay + t mod msPerDay)"

definition set_utc_hours :: "int \<Rightarrow> int \<Rightarrow> int \<Rightarrow> int \<Rightarrow> int \<Rightarrow> int option" where
  "set_utc_hours t h mi s ms = time_clip (t div msPerDay * msPerDay + make_time h mi s ms)"

definition calendarEpoch :: "calendar_parts \<Rightarrow> input_code + int" where
  "calendarEpoch p =
     (case Option.bind (set_utc_hours 0 0 0 0 0) (\<lambda>v.
           Option.bind (set_utc_full_year v (cp_year p) (cp_month p - 1) (cp_day p)) (\<lambda>v.
             set_utc_hours v (cp_hour p) (cp_minute p) (cp_second p) (cp_millisecond p))) of
        None \<Rightarrow> Inl invalid_rule
      | Some epoch \<Rightarrow> if date_fields epoch = p then Inr epoch else Inl invalid_rule)"

text \<open>\<open>padEnd(3, '0')\<close> before the conversion.\<close>

definition milliseconds :: "string option \<Rightarrow> int" where
  "milliseconds v =
     (case v of None \<Rightarrow> 0 | Some s \<Rightarrow> int (decimal_value (s @ replicate (3 - length s) (CHR ''0''))))"

text \<open>
  The sums the callers form are exact: a rounded double is beyond the safe integers, hence out of
  range here as well.
\<close>

definition in_four_digit_range :: "int \<Rightarrow> bool" where
  "in_four_digit_range t \<longleftrightarrow> MIN_FOUR_DIGIT_YEAR_MS \<le> t \<and> t \<le> MAX_FOUR_DIGIT_YEAR_MS"

definition futureInstant :: "int \<Rightarrow> int \<Rightarrow> input_code + string" where
  "futureInstant epoch now =
     bind_result (ensure (safe_int now \<and> safe_int epoch \<and> in_four_digit_range epoch) time_out_of_range) (\<lambda>_.
     bind_result (ensure (now < epoch) not_future) (\<lambda>_.
       case toISOString epoch of
         None \<Rightarrow> Inl time_out_of_range
       | Some instant \<Rightarrow> if UTC_INSTANT instant then Inr instant else Inl time_out_of_range))"

section \<open>Date-times with an offset\<close>

definition DATE_PATTERN :: "pattern_item list" where
  "DATE_PATTERN = [Digits 4, Sep (CHR ''-''), Digits 2, Sep (CHR ''-''), Digits 2]"

definition TIME_PATTERN :: "pattern_item list" where
  "TIME_PATTERN = [Digits 2, Sep (CHR '':''), Digits 2, Sep (CHR '':''), Digits 2]"

text \<open>An optional fraction of one to three digits; the group is greedy and what follows is no digit.\<close>

definition scan_fraction :: "string \<Rightarrow> (string option \<times> string) option" where
  "scan_fraction s =
     (case s of
        c # r \<Rightarrow>
          if c = CHR ''.'' then
            let f = takeWhile is_decimal r
            in if 1 \<le> length f \<and> length f \<le> 3 then Some (Some f, drop (length f) r) else None
          else Some (None, s)
      | [] \<Rightarrow> Some (None, s))"

datatype zone_match = Zulu | Offset bool int int

definition scan_zone :: "string \<Rightarrow> zone_match option" where
  "scan_zone s =
     (if s = ''Z'' then Some Zulu
      else case s of
        c # r \<Rightarrow>
          if c = CHR ''+'' \<or> c = CHR ''-'' then
            (case scan [Digits 2, Sep (CHR '':''), Digits 2] r of
               Some ([h, m], []) \<Rightarrow> Some (Offset (c = CHR ''+'') (int h) (int m))
             | _ \<Rightarrow> None)
          else None
      | [] \<Rightarrow> None)"

definition OFFSET_INSTANT :: "string \<Rightarrow> (nat list \<times> string option \<times> zone_match) option" where
  "OFFSET_INSTANT s =
     Option.bind (scan (DATE_PATTERN @ [Sep (CHR ''T'')] @ TIME_PATTERN) s) (\<lambda>(ks, r).
     Option.bind (scan_fraction r) (\<lambda>(f, r).
       map_option (\<lambda>z. (ks, f, z)) (scan_zone r)))"

definition parts_with_fraction :: "nat list \<Rightarrow> string option \<Rightarrow> calendar_parts option" where
  "parts_with_fraction ks f =
     map_option (\<lambda>p. p\<lparr>cp_millisecond := milliseconds f\<rparr>) (parts_of_numbers (ks @ [0]))"

definition clock_ok :: "calendar_parts \<Rightarrow> bool" where
  "clock_ok p \<longleftrightarrow> cp_year p \<noteq> 0 \<and> cp_hour p \<le> 23 \<and> cp_minute p \<le> 59 \<and> cp_second p \<le> 59"

definition parseOffsetInstant :: "string \<Rightarrow> input_code + int" where
  "parseOffsetInstant v =
     (case OFFSET_INSTANT v of
        None \<Rightarrow> Inl invalid_rule
      | Some (ks, f, z) \<Rightarrow>
          (case parts_with_fraction ks f of
             None \<Rightarrow> Inl invalid_rule
           | Some p \<Rightarrow>
               bind_result (ensure (clock_ok p) invalid_rule) (\<lambda>_.
               bind_result (calendarEpoch p) (\<lambda>localEpoch.
                 case z of
                   Zulu \<Rightarrow> Inr localEpoch
                 | Offset east h m \<Rightarrow>
                     bind_result (ensure (\<not> (h > 23 \<or> m > 59 \<or> (\<not> east \<and> h = 0 \<and> m = 0))) invalid_rule) (\<lambda>_.
                       Inr (localEpoch - (if east then 1 else - 1) * (h * 60 + m) * 60000))))))"

section \<open>Local times\<close>

definition alpha :: "char \<Rightarrow> bool" where
  "alpha c \<longleftrightarrow> (let n = of_char c :: nat in (65 \<le> n \<and> n \<le> 90) \<or> (97 \<le> n \<and> n \<le> 122))"

definition zone_char :: "char \<Rightarrow> bool" where
  "zone_char c \<longleftrightarrow> alpha c \<or> is_decimal c \<or> c \<in> set ''_+.-''"

text \<open>\<open>IANA_ZONE\<close>: a letter, further name characters, and one or more slash-separated non-empty names.\<close>

fun zone_segments :: "string \<Rightarrow> string list" where
  "zone_segments [] = [[]]"
| "zone_segments (c # s) =
     (if c = CHR ''/'' then [] # zone_segments s
      else case zone_segments s of [] \<Rightarrow> [[c]] | seg # segs \<Rightarrow> (c # seg) # segs)"

definition IANA_ZONE :: "string \<Rightarrow> bool" where
  "IANA_ZONE s \<longleftrightarrow>
     (case zone_segments s of
        (c # seg) # seg' # segs \<Rightarrow>
          alpha c \<and> list_all zone_char seg \<and> list_all (\<lambda>q. q \<noteq> [] \<and> list_all zone_char q) (seg' # segs)
      | _ \<Rightarrow> False)"

definition canonicalizeTimeZone :: "(string \<Rightarrow> string option) \<Rightarrow> string \<Rightarrow> input_code + string" where
  "canonicalizeTimeZone resolve_zone v =
     bind_result (ensure (\<not> (v = [] \<or> js_trim v \<noteq> v \<or> (v \<noteq> ''UTC'' \<and> \<not> IANA_ZONE v))) invalid_time_zone) (\<lambda>_.
       case resolve_zone v of
         None \<Rightarrow> Inl invalid_time_zone
       | Some canonical \<Rightarrow>
           if canonical \<noteq> ''UTC'' \<and> \<not> IANA_ZONE canonical then Inl invalid_time_zone else Inr canonical)"

record local_at_input =
  la_date :: string
  la_time :: string
  la_time_zone :: string

definition parseLocalAt :: "local_at_input \<Rightarrow> input_code + calendar_parts" where
  "parseLocalAt v =
     (case (scan DATE_PATTERN (la_date v),
            Option.bind (scan TIME_PATTERN (la_time v)) (\<lambda>(ks, r).
              Option.bind (scan_fraction r) (\<lambda>(f, r). if r = [] then Some (ks, f) else None))) of
        (Some (ds, []), Some (ts, f)) \<Rightarrow>
          (case parts_with_fraction (ds @ ts) f of
             None \<Rightarrow> Inl invalid_rule
           | Some p \<Rightarrow>
               bind_result (ensure (clock_ok p) invalid_rule) (\<lambda>_.
               bind_result (calendarEpoch p) (\<lambda>_. Inr p)))
      | _ \<Rightarrow> Inl invalid_rule)"

text \<open>
  \<open>localProjection\<close>. A part of the formatter is a type with its text; \<open>Number\<close> of a text that is not a
  decimal numeral, or of a missing part, is not a number and equals nothing (\<open>None\<close>).
\<close>

type_synonym format_parts = "(string \<times> string) list"

definition part_number :: "format_parts \<Rightarrow> string \<Rightarrow> int option" where
  "part_number vs k =
     (case map_of vs k of
        Some s \<Rightarrow> if s \<noteq> [] \<and> list_all is_decimal s then Some (int (decimal_value s)) else None
      | None \<Rightarrow> None)"

text \<open>\<open>OFFSET_NAME\<close> and the offset in milliseconds; a bare \<open>GMT\<close> is zero.\<close>

definition offset_name :: "string \<Rightarrow> int option" where
  "offset_name s =
     (if s = ''GMT'' then Some 0
      else if take 3 s = ''GMT'' then
        (case drop 3 s of
           c # r \<Rightarrow>
             if c = CHR ''+'' \<or> c = CHR ''-'' then
               let dir = (if c = CHR ''-'' then - 1 else 1) in
               (case scan [Digits 2, Sep (CHR '':''), Digits 2] r of
                  Some ([h, m], []) \<Rightarrow> Some (dir * (int h * 3600 + int m * 60 + 0) * 1000)
                | Some ([h, m], r') \<Rightarrow>
                    (case scan [Sep (CHR '':''), Digits 2] r' of
                       Some ([s'], []) \<Rightarrow> Some (dir * (int h * 3600 + int m * 60 + int s') * 1000)
                     | _ \<Rightarrow> None)
                | _ \<Rightarrow> None)
             else None
         | [] \<Rightarrow> None)
      else None)"

record local_projection =
  lp_fields :: "int option list"
  lp_offset :: int

definition localProjection :: "(int \<Rightarrow> format_parts) \<Rightarrow> int \<Rightarrow> input_code + local_projection" where
  "localProjection formatToParts epoch =
     (let values = rev (formatToParts epoch) in
      case Option.bind (map_of values ''timeZoneName'') offset_name of
        None \<Rightarrow> Inl invalid_time_zone
      | Some off \<Rightarrow>
          Inr \<lparr>lp_fields = map (part_number values)
                 [''year'', ''month'', ''day'', ''hour'', ''minute'', ''second'', ''fractionalSecond''],
               lp_offset = off\<rparr>)"

definition field_values :: "calendar_parts \<Rightarrow> int option list" where
  "field_values p =
     map Some [cp_year p, cp_month p, cp_day p, cp_hour p, cp_minute p, cp_second p, cp_millisecond p]"

definition sample_deltas :: "int list" where
  "sample_deltas = [- 172800000, - 86400000, 0, 86400000, 172800000]"

definition clamp_time :: "int \<Rightarrow> int" where
  "clamp_time t = min MAX_FOUR_DIGIT_YEAR_MS (max MIN_FOUR_DIGIT_YEAR_MS t)"

text \<open>The sampled offsets, a set in insertion order.\<close>

fun sample_offsets :: "(int \<Rightarrow> format_parts) \<Rightarrow> int \<Rightarrow> int list \<Rightarrow> int list \<Rightarrow> input_code + int list" where
  "sample_offsets fmt localEpoch [] offs = Inr offs"
| "sample_offsets fmt localEpoch (delta # ds) offs =
     bind_result (localProjection fmt (clamp_time (localEpoch + delta))) (\<lambda>p.
       sample_offsets fmt localEpoch ds (if lp_offset p \<in> set offs then offs else offs @ [lp_offset p]))"

fun local_candidates ::
  "(int \<Rightarrow> format_parts) \<Rightarrow> calendar_parts \<Rightarrow> int \<Rightarrow> int list \<Rightarrow> int list \<Rightarrow> bool \<Rightarrow> input_code + int list \<times> bool" where
  "local_candidates fmt p localEpoch [] cs out = Inr (cs, out)"
| "local_candidates fmt p localEpoch (off # offs) cs out =
     (let candidate = localEpoch - off in
      if \<not> in_four_digit_range candidate then local_candidates fmt p localEpoch offs cs True
      else bind_result (localProjection fmt candidate) (\<lambda>q.
        local_candidates fmt p localEpoch offs
          (if lp_fields q = field_values p then cs @ [candidate] else cs) out))"

definition resolveLocalInstant :: "(int \<Rightarrow> format_parts) \<Rightarrow> calendar_parts \<Rightarrow> input_code + int" where
  "resolveLocalInstant fmt p =
     bind_result (calendarEpoch p) (\<lambda>localEpoch.
     bind_result (sample_offsets fmt localEpoch sample_deltas []) (\<lambda>offs.
     bind_result (local_candidates fmt p localEpoch offs [] False) (\<lambda>(cs, out).
       case sort cs of
         first # _ \<Rightarrow> Inr first
       | [] \<Rightarrow> if out then Inl time_out_of_range else Inl invalid_rule)))"

section \<open>Facts\<close>

text \<open>The strict constructor accepts exactly the real calendar times.\<close>

lemma parts_time_in_range:
  assumes "valid_parts p" "1 \<le> cp_year p" "cp_year p \<le> 9999"
  shows "in_four_digit_range (parts_time p)"
  using year_in_range [of "parts_time p"] date_fields_parts [OF assms(1)] assms(2,3) by (simp add: in_four_digit_range_def)

lemma time_clip_range: "in_four_digit_range t \<Longrightarrow> time_clip t = Some t"
  by (auto simp: in_four_digit_range_def time_clip_def MIN_FOUR_DIGIT_YEAR_MS_def MAX_FOUR_DIGIT_YEAR_MS_def)

lemma calendarEpoch_Inr: "calendarEpoch p = Inr t \<Longrightarrow> valid_parts p \<and> t = parts_time p"
  using valid_date_fields [of t] parts_time_fields [of t]
  by (auto simp: calendarEpoch_def split: option.splits if_splits)

lemma calendarEpoch_eq:
  assumes y: "1 \<le> cp_year p" "cp_year p \<le> 9999"
  shows "calendarEpoch p = (if valid_parts p then Inr (parts_time p) else Inl invalid_rule)"
proof (cases "valid_parts p")
  case True
  let ?q = "p\<lparr>cp_hour := 0, cp_minute := 0, cp_second := 0, cp_millisecond := 0\<rparr>"
  have "valid_parts ?q" "1 \<le> cp_year ?q" "cp_year ?q \<le> 9999" using True y by (simp_all add: valid_parts_def)
  from time_clip_range [OF parts_time_in_range [OF this]]
  have d: "time_clip (make_day (cp_year p) (cp_month p - 1) (cp_day p) * msPerDay)
      = Some (make_day (cp_year p) (cp_month p - 1) (cp_day p) * msPerDay)"
    by (simp add: parts_time_def make_time_def)
  have "time_clip (parts_time p) = Some (parts_time p)" by (rule time_clip_range [OF parts_time_in_range [OF True y]])
  with d show ?thesis
    using True date_fields_parts [OF True]
    by (simp add: calendarEpoch_def set_utc_hours_def set_utc_full_year_def make_time_def time_clip_def [of 0]
        parts_time_def msPerDay_def)
next
  case False
  then show ?thesis using calendarEpoch_Inr [of p] by (cases "calendarEpoch p") (auto simp: calendarEpoch_def split: option.splits if_splits)
qed

lemma futureInstant_Inr:
  "futureInstant epoch now = Inr s \<longleftrightarrow>
     safe_int now \<and> in_four_digit_range epoch \<and> now < epoch \<and> toISOString epoch = Some s"
proof -
  have "safe_int epoch" if "in_four_digit_range epoch"
    using that by (auto simp: in_four_digit_range_def safe_int_def max_safe_integer_def MIN_FOUR_DIGIT_YEAR_MS_def
        MAX_FOUR_DIGIT_YEAR_MS_def)
  then show ?thesis
    using Date_parse_toISOString [of epoch]
    by (auto simp: futureInstant_def result_simps in_four_digit_range_def split: option.splits if_splits)
qed

text \<open>
  What the code relies on from a formatter: at every time of the range it prints the calendar fields
  of the local time and the offset of the zone, which is less than a day.
\<close>

definition zone_formatter :: "(int \<Rightarrow> format_parts) \<Rightarrow> (int \<Rightarrow> int) \<Rightarrow> bool" where
  "zone_formatter fmt off \<longleftrightarrow>
     (\<forall>t. in_four_digit_range t \<longrightarrow> \<bar>off t\<bar> < msPerDay \<and>
        localProjection fmt t = Inr \<lparr>lp_fields = field_values (date_fields (t + off t)), lp_offset = off t\<rparr>)"

text \<open>At most one change of offset within two days of a time.\<close>

definition one_transition :: "(int \<Rightarrow> int) \<Rightarrow> int \<Rightarrow> bool" where
  "one_transition off l \<longleftrightarrow>
     (\<exists>T o1 o2. \<forall>t. in_four_digit_range t \<and> \<bar>t - l\<bar> \<le> 2 * msPerDay \<longrightarrow> off t = (if t < T then o1 else o2))"

lemma field_values_inject: "field_values p = field_values q \<longleftrightarrow> p = q"
  by (cases p; cases q) (simp add: field_values_def)

lemma clamp_in_range: "in_four_digit_range (clamp_time t)"
  by (simp add: clamp_time_def in_four_digit_range_def MIN_FOUR_DIGIT_YEAR_MS_def MAX_FOUR_DIGIT_YEAR_MS_def)

lemma sample_offsets_set:
  assumes "zone_formatter fmt off"
  shows "\<exists>offs'. sample_offsets fmt l ds offs = Inr offs' \<and> set offs' = set offs \<union> (\<lambda>d. off (clamp_time (l + d))) ` set ds"
proof (induction ds arbitrary: offs)
  case (Cons d ds)
  have "localProjection fmt (clamp_time (l + d)) =
      Inr \<lparr>lp_fields = field_values (date_fields (clamp_time (l + d) + off (clamp_time (l + d)))), lp_offset = off (clamp_time (l + d))\<rparr>"
    using assms clamp_in_range by (simp add: zone_formatter_def)
  with Cons [of "if off (clamp_time (l + d)) \<in> set offs then offs else offs @ [off (clamp_time (l + d))]"]
  show ?case by auto
qed simp

lemma local_candidates_set:
  assumes "zone_formatter fmt off"
  shows "\<exists>cs' out'. local_candidates fmt p l offs cs out = Inr (cs', out') \<and>
    set cs' = set cs \<union> {c. \<exists>d \<in> set offs. c = l - d \<and> in_four_digit_range c \<and> date_fields (c + off c) = p}"
proof (induction offs arbitrary: cs out)
  case (Cons d offs)
  show ?case
  proof (cases "in_four_digit_range (l - d)")
    case True
    have "localProjection fmt (l - d) =
        Inr \<lparr>lp_fields = field_values (date_fields (l - d + off (l - d))), lp_offset = off (l - d)\<rparr>"
      using assms True by (simp add: zone_formatter_def)
    with True Cons [of "if date_fields (l - d + off (l - d)) = p then cs @ [l - d] else cs" out]
    show ?thesis by (auto simp: Let_def field_values_inject)
  next
    case False
    with Cons [of cs True] show ?thesis by (auto simp: Let_def)
  qed
qed simp

text \<open>
  The sampled offsets contain the offset of every solution: a solution lies within a day of the local
  time read as UTC, and the samples two days before and after it see both sides of the transition.
\<close>

lemma sample_sees_offset:
  assumes z: "zone_formatter fmt off" and one: "one_transition off l" and l: "in_four_digit_range l"
    and t: "in_four_digit_range t" "t + off t = l"
  shows "off t \<in> (\<lambda>d. off (clamp_time (l + d))) ` set sample_deltas"
proof -
  from one obtain T o1 o2 where
    o: "\<And>t. in_four_digit_range t \<Longrightarrow> \<bar>t - l\<bar> \<le> 2 * msPerDay \<Longrightarrow> off t = (if t < T then o1 else o2)"
    unfolding one_transition_def by blast
  have near: "\<bar>off t\<bar> < msPerDay" using z t(1) by (simp add: zone_formatter_def)
  define a where "a = clamp_time (l - 2 * msPerDay)"
  define b where "b = clamp_time (l + 2 * msPerDay)"
  have ab: "a \<le> t" "t \<le> b" "\<bar>a - l\<bar> \<le> 2 * msPerDay" "\<bar>b - l\<bar> \<le> 2 * msPerDay" "\<bar>t - l\<bar> \<le> 2 * msPerDay"
    using near t l unfolding a_def b_def clamp_time_def in_four_digit_range_def msPerDay_def by auto
  have "in_four_digit_range a" "in_four_digit_range b" unfolding a_def b_def by (rule clamp_in_range)+
  with ab o [of a] o [of b] o [OF t(1)] have "off t = off a \<or> off t = off b" by (auto split: if_splits)
  moreover have "- 2 * msPerDay \<in> set sample_deltas" "2 * msPerDay \<in> set sample_deltas"
    by (simp_all add: sample_deltas_def msPerDay_def)
  ultimately show ?thesis unfolding a_def b_def by force
qed

definition local_solution :: "(int \<Rightarrow> int) \<Rightarrow> calendar_parts \<Rightarrow> int \<Rightarrow> bool" where
  "local_solution off p t \<longleftrightarrow> in_four_digit_range t \<and> date_fields (t + off t) = p"


text \<open>A zone that leaves daylight saving time once, and the formatter of it.\<close>

definition sample_zone_offset :: "int \<Rightarrow> int" where
  "sample_zone_offset t =
     (if t < 1600000000000 then 0 else if t < 1730613600000 then - 14400000 else - 18000000)"

definition sample_zone_format :: "int \<Rightarrow> format_parts" where
  "sample_zone_format t =
     (let p = date_fields (t + sample_zone_offset t) in
      [(''month'', nat_string (nat (cp_month p))), (''literal'', ''/''), (''day'', nat_string (nat (cp_day p))),
       (''literal'', ''/''), (''year'', nat_string (nat (cp_year p))), (''literal'', '', ''),
       (''hour'', nat_string (nat (cp_hour p))), (''minute'', nat_string (nat (cp_minute p))),
       (''second'', nat_string (nat (cp_second p))), (''fractionalSecond'', nat_string (nat (cp_millisecond p))),
       (''timeZoneName'', if t < 1600000000000 then ''GMT'' else if t < 1730613600000 then ''GMT-04:00'' else ''GMT-05:00'')])"

lemma sample_zone_formatter: "zone_formatter sample_zone_format sample_zone_offset"
  unfolding zone_formatter_def
proof (intro allI impI conjI)
  fix t assume t: "in_four_digit_range t"
  show "\<bar>sample_zone_offset t\<bar> < msPerDay" by (simp add: sample_zone_offset_def msPerDay_def)
  have "in_four_digit_range (t + sample_zone_offset t)"
    using t by (auto simp: in_four_digit_range_def sample_zone_offset_def MIN_FOUR_DIGIT_YEAR_MS_def)
  then have y: "0 \<le> cp_year (date_fields (t + sample_zone_offset t))"
    using year_in_range [of "t + sample_zone_offset t"] by (simp add: in_four_digit_range_def)
  have d: "list_all is_decimal (nat_string n)" "nat_string n \<noteq> []" "decimal_value (nat_string n) = n" for n
    using nat_string_digits [of n] by simp_all
  have "offset_name (if t < 1600000000000 then ''GMT'' else if t < 1730613600000 then ''GMT-04:00'' else ''GMT-05:00'')
      = Some (sample_zone_offset t)"
    by (simp add: sample_zone_offset_def offset_name_def is_decimal_def decimal_value_def Let_def)
  with y valid_date_fields [of "t + sample_zone_offset t"] d
  show "localProjection sample_zone_format t = Inr \<lparr>lp_fields = field_values (date_fields (t + sample_zone_offset t)),
      lp_offset = sample_zone_offset t\<rparr>"
    by (simp add: localProjection_def sample_zone_format_def Let_def part_number_def field_values_def valid_parts_def)
qed


end
