(* ===== verification/Schedule_Domain.thy ===== *)
theory Schedule_Domain
  imports Schedule_Time Session_Types
begin

text \<open>
  The durable reminder stream of \<open>schedule/schedule/src/domain.ts\<close> and \<open>types.ts\<close>: strict decoding of
  one \<open>schedule/change\<close> payload, the fixed-rate decision \<open>resolveEveryOccurrence\<close>, the replay fold over
  the session-owned suffix of the log, identity allocation, the three record constructors and the
  management view. An instant is stored as its canonical text. The theorems show that decoding inverts
  encoding and accepts only well-formed changes, that a fixed-rate dispatch lands on the latest due and
  the next future occurrence without enumerating the missed ones, and that constructed records and
  allocated identities always fit the stream.
\<close>

section \<open>Records and changes\<close>

type_synonym schedule_id = string

datatype schedule_record =
    AfterRecord (sr_id: schedule_id) (sr_prompt: string) (sr_afterSeconds: int) (sr_scheduledAt: string)
  | AtRecord (sr_id: schedule_id) (sr_prompt: string) (sr_scheduledAt: string)
  | EveryRecord (sr_id: schedule_id) (sr_prompt: string) (sr_everySeconds: int) (sr_scheduledAt: string)

datatype schedule_change =
    CreateChange schedule_record
  | DeleteChange schedule_id
  | PauseChange schedule_id
  | ResumeChange schedule_id
  | DispatchChange schedule_id "string option"

datatype schedule_log_error =
    PayloadNotObject
  | VersionInvalid
  | OperationInvalid
  | ChangeKeysInvalid
  | RecordNotObject
  | RecordKindInvalid
  | RecordKeysInvalid
  | PromptInvalid
  | SecondsInvalid
  | IdInvalid
  | InstantInvalid
  | InstantNotReal
  | OneShotAcceptedAt
  | EveryLacksAcceptedAt
  | AcceptedAtRange
  | IntervalInvalid
  | DispatchPrecedes
  | OccurrenceArithmetic
  | InstantRange
  | SeedLengthInvalid
  | IdReused schedule_id
  | DeleteInactive schedule_id
  | PauseInactive schedule_id
  | ResumeInactive schedule_id
  | DispatchInactive schedule_id
  | TargetInactive string schedule_id

definition MIN_EVERY_INTERVAL_SECONDS :: int where
  "MIN_EVERY_INTERVAL_SECONDS = 300"

section \<open>Strict decoding\<close>

definition decodeId :: "json option \<Rightarrow> schedule_log_error + schedule_id" where
  "decodeId v =
     (case as_string v of
        Some s \<Rightarrow> if s = [] \<or> js_trim s \<noteq> s then Inl IdInvalid else Inr s
      | None \<Rightarrow> Inl IdInvalid)"

definition decodeInstant :: "json option \<Rightarrow> schedule_log_error + string" where
  "decodeInstant v =
     (case as_string v of
        None \<Rightarrow> Inl InstantInvalid
      | Some s \<Rightarrow>
          bind_result (ensure (UTC_INSTANT s) InstantInvalid) (\<lambda>_.
            case Date_parse s of
              None \<Rightarrow> Inl InstantNotReal
            | Some epoch \<Rightarrow> if toISOString epoch = Some s then Inr s else Inl InstantNotReal))"

definition decodePrompt :: "json option \<Rightarrow> schedule_log_error + string" where
  "decodePrompt v =
     (case as_string v of
        Some s \<Rightarrow> if s = [] \<or> js_trim s \<noteq> s then Inl PromptInvalid else Inr s
      | None \<Rightarrow> Inl PromptInvalid)"

definition decodeAfterRecord :: "json_record \<Rightarrow> schedule_log_error + schedule_record" where
  "decodeAfterRecord v =
     bind_result (ensure (has_exact_keys v [''id'', ''kind'', ''prompt'', ''afterSeconds'', ''scheduledAt'']) RecordKeysInvalid) (\<lambda>_.
     bind_result (decodePrompt (jget v ''prompt'')) (\<lambda>prompt.
     bind_result (case as_safe_integer (jget v ''afterSeconds'') of
         Some n \<Rightarrow> if n \<le> 0 then Inl SecondsInvalid else Inr n | None \<Rightarrow> Inl SecondsInvalid) (\<lambda>afterSeconds.
     bind_result (decodeId (jget v ''id'')) (\<lambda>i.
     bind_result (decodeInstant (jget v ''scheduledAt'')) (\<lambda>scheduledAt.
       Inr (AfterRecord i prompt afterSeconds scheduledAt))))))"

definition decodeAtRecord :: "json_record \<Rightarrow> schedule_log_error + schedule_record" where
  "decodeAtRecord v =
     bind_result (ensure (has_exact_keys v [''id'', ''kind'', ''prompt'', ''scheduledAt'']) RecordKeysInvalid) (\<lambda>_.
     bind_result (decodePrompt (jget v ''prompt'')) (\<lambda>prompt.
     bind_result (decodeId (jget v ''id'')) (\<lambda>i.
     bind_result (decodeInstant (jget v ''scheduledAt'')) (\<lambda>scheduledAt.
       Inr (AtRecord i prompt scheduledAt)))))"

definition decodeEveryRecord :: "json_record \<Rightarrow> schedule_log_error + schedule_record" where
  "decodeEveryRecord v =
     bind_result (ensure (has_exact_keys v [''id'', ''kind'', ''prompt'', ''everySeconds'', ''scheduledAt'']) RecordKeysInvalid) (\<lambda>_.
     bind_result (decodePrompt (jget v ''prompt'')) (\<lambda>prompt.
     bind_result (case as_safe_integer (jget v ''everySeconds'') of
         Some n \<Rightarrow> if n < MIN_EVERY_INTERVAL_SECONDS \<or> \<not> safe_int (n * 1000) then Inl SecondsInvalid else Inr n
       | None \<Rightarrow> Inl SecondsInvalid) (\<lambda>everySeconds.
     bind_result (decodeId (jget v ''id'')) (\<lambda>i.
     bind_result (decodeInstant (jget v ''scheduledAt'')) (\<lambda>scheduledAt.
       Inr (EveryRecord i prompt everySeconds scheduledAt))))))"

definition decodeScheduleRecord :: "json option \<Rightarrow> schedule_log_error + schedule_record" where
  "decodeScheduleRecord v =
     (case Option.bind v as_record of
        None \<Rightarrow> Inl RecordNotObject
      | Some r \<Rightarrow>
          if jget r ''kind'' = Some (JStr ''after'') then decodeAfterRecord r
          else if jget r ''kind'' = Some (JStr ''at'') then decodeAtRecord r
          else if jget r ''kind'' = Some (JStr ''every'') then decodeEveryRecord r
          else Inl RecordKindInvalid)"

definition decode_id_change :: "json_record \<Rightarrow> (schedule_id \<Rightarrow> schedule_change) \<Rightarrow> schedule_log_error + schedule_change" where
  "decode_id_change v mk =
     bind_result (ensure (has_exact_keys v [''version'', ''operation'', ''id'']) ChangeKeysInvalid) (\<lambda>_.
     bind_result (decodeId (jget v ''id'')) (\<lambda>i. Inr (mk i)))"

definition decode_dispatch :: "json_record \<Rightarrow> schedule_log_error + schedule_change" where
  "decode_dispatch v =
     (if has_exact_keys v [''version'', ''operation'', ''id''] then
        bind_result (decodeId (jget v ''id'')) (\<lambda>i. Inr (DispatchChange i None))
      else if has_exact_keys v [''version'', ''operation'', ''id'', ''acceptedAt''] then
        bind_result (decodeId (jget v ''id'')) (\<lambda>i.
        bind_result (decodeInstant (jget v ''acceptedAt'')) (\<lambda>a. Inr (DispatchChange i (Some a))))
      else Inl ChangeKeysInvalid)"

definition decodeScheduleChange :: "json \<Rightarrow> schedule_log_error + schedule_change" where
  "decodeScheduleChange value =
     (case as_record value of
        None \<Rightarrow> Inl PayloadNotObject
      | Some v \<Rightarrow>
          bind_result (ensure (jget v ''version'' = Some (JNum 1)) VersionInvalid) (\<lambda>_.
            case as_string (jget v ''operation'') of
              None \<Rightarrow> Inl OperationInvalid
            | Some op \<Rightarrow>
                if op = ''create'' then
                  bind_result (ensure (has_exact_keys v [''version'', ''operation'', ''schedule'']) ChangeKeysInvalid) (\<lambda>_.
                  bind_result (decodeScheduleRecord (jget v ''schedule'')) (\<lambda>r. Inr (CreateChange r)))
                else if op = ''delete'' then decode_id_change v DeleteChange
                else if op = ''pause'' then decode_id_change v PauseChange
                else if op = ''resume'' then decode_id_change v ResumeChange
                else if op = ''dispatch'' then decode_dispatch v
                else Inl OperationInvalid))"

text \<open>The object literals the package appends.\<close>

fun record_json :: "schedule_record \<Rightarrow> json" where
  "record_json (AfterRecord i p n a) =
     JObj [(''id'', JStr i), (''kind'', JStr ''after''), (''prompt'', JStr p), (''afterSeconds'', JNum (of_int n)), (''scheduledAt'', JStr a)]"
| "record_json (AtRecord i p a) =
     JObj [(''id'', JStr i), (''kind'', JStr ''at''), (''prompt'', JStr p), (''scheduledAt'', JStr a)]"
| "record_json (EveryRecord i p n a) =
     JObj [(''id'', JStr i), (''kind'', JStr ''every''), (''prompt'', JStr p), (''everySeconds'', JNum (of_int n)), (''scheduledAt'', JStr a)]"

definition id_change_json :: "string \<Rightarrow> schedule_id \<Rightarrow> (string \<times> json) list \<Rightarrow> json" where
  "id_change_json op i extra = JObj ([(''version'', JNum 1), (''operation'', JStr op), (''id'', JStr i)] @ extra)"

fun schedule_change_json :: "schedule_change \<Rightarrow> json" where
  "schedule_change_json (CreateChange r) =
     JObj [(''version'', JNum 1), (''operation'', JStr ''create''), (''schedule'', record_json r)]"
| "schedule_change_json (DeleteChange i) = id_change_json ''delete'' i []"
| "schedule_change_json (PauseChange i) = id_change_json ''pause'' i []"
| "schedule_change_json (ResumeChange i) = id_change_json ''resume'' i []"
| "schedule_change_json (DispatchChange i a) =
     id_change_json ''dispatch'' i (case a of Some t \<Rightarrow> [(''acceptedAt'', JStr t)] | None \<Rightarrow> [])"

section \<open>Fixed-rate decisions\<close>

text \<open>
  The quotient of the two bounded operands is floored exactly: they stay below \<open>2\<^sup>53\<close>, where the error
  of one division cannot reach the next integer.
\<close>

record every_occurrence =
  eo_occurrenceAt :: string
  eo_nextScheduledAt :: "string option"

definition iso_result :: "int \<Rightarrow> schedule_log_error + string" where
  "iso_result t = (case toISOString t of Some s \<Rightarrow> Inr s | None \<Rightarrow> Inl InstantRange)"

definition resolveEveryOccurrence :: "string \<Rightarrow> int \<Rightarrow> int \<Rightarrow> schedule_log_error + every_occurrence" where
  "resolveEveryOccurrence scheduledAt everySeconds acceptedAt =
     (let interval = everySeconds * 1000 in
      bind_result (ensure (safe_int acceptedAt \<and> in_four_digit_range acceptedAt) AcceptedAtRange) (\<lambda>_.
      bind_result (ensure (safe_int interval \<and> 0 < interval) IntervalInvalid) (\<lambda>_.
        case Date_parse scheduledAt of
          None \<Rightarrow> Inl OccurrenceArithmetic
        | Some target \<Rightarrow>
            bind_result (ensure (target \<le> acceptedAt) DispatchPrecedes) (\<lambda>_.
              let steps = (acceptedAt - target) div interval; occurrence = target + steps * interval in
              bind_result (ensure (safe_int occurrence \<and> target \<le> occurrence \<and> occurrence \<le> acceptedAt) OccurrenceArithmetic) (\<lambda>_.
              bind_result (iso_result occurrence) (\<lambda>occurrenceAt.
                let nxt = occurrence + interval in
                if \<not> safe_int nxt \<or> MAX_FOUR_DIGIT_YEAR_MS < nxt then
                  Inr \<lparr>eo_occurrenceAt = occurrenceAt, eo_nextScheduledAt = None\<rparr>
                else bind_result (iso_result nxt) (\<lambda>n.
                  Inr \<lparr>eo_occurrenceAt = occurrenceAt, eo_nextScheduledAt = Some n\<rparr>)))))))"

definition advanceDispatchedSchedule ::
  "schedule_record \<Rightarrow> string option \<Rightarrow> schedule_log_error + schedule_record option" where
  "advanceDispatchedSchedule r acceptedAt =
     (case r of
        EveryRecord i p n target \<Rightarrow>
          (case acceptedAt of
             None \<Rightarrow> Inl EveryLacksAcceptedAt
           | Some a \<Rightarrow>
               (case Date_parse a of
                  None \<Rightarrow> Inl AcceptedAtRange
                | Some t \<Rightarrow>
                    bind_result (resolveEveryOccurrence target n t) (\<lambda>eo.
                      Inr (map_option (\<lambda>nxt. EveryRecord i p n nxt) (eo_nextScheduledAt eo)))))
      | _ \<Rightarrow> if acceptedAt \<noteq> None then Inl OneShotAcceptedAt else Inr None)"

section \<open>Replay\<close>

record folded_schedule =
  fs_record :: schedule_record
  fs_paused :: bool

text \<open>The \<open>Map\<close> of retained schedules and the \<open>Set\<close> of seen identities, both in insertion order.\<close>

record schedule_state =
  ss_retained :: "(schedule_id \<times> folded_schedule) list"
  ss_seen :: "schedule_id list"

definition empty_schedules :: schedule_state where
  "empty_schedules = \<lparr>ss_retained = [], ss_seen = []\<rparr>"

definition retain :: "schedule_state \<Rightarrow> schedule_id \<Rightarrow> schedule_record \<Rightarrow> bool \<Rightarrow> schedule_state" where
  "retain st i r paused = st\<lparr>ss_retained := map_set i \<lparr>fs_record = r, fs_paused = paused\<rparr> (ss_retained st)\<rparr>"

fun apply_schedule_change :: "schedule_state \<Rightarrow> schedule_change \<Rightarrow> schedule_log_error + schedule_state" where
  "apply_schedule_change st (CreateChange r) =
     (if sr_id r \<in> set (ss_seen st) then Inl (IdReused (sr_id r))
      else Inr (retain (st\<lparr>ss_seen := ss_seen st @ [sr_id r]\<rparr>) (sr_id r) r False))"
| "apply_schedule_change st (DeleteChange i) =
     (case map_of (ss_retained st) i of
        None \<Rightarrow> Inl (DeleteInactive i)
      | Some _ \<Rightarrow> Inr (st\<lparr>ss_retained := map_delete i (ss_retained st)\<rparr>))"
| "apply_schedule_change st (PauseChange i) =
     (case map_of (ss_retained st) i of
        None \<Rightarrow> Inl (PauseInactive i)
      | Some s \<Rightarrow> if fs_paused s then Inl (PauseInactive i) else Inr (retain st i (fs_record s) True))"
| "apply_schedule_change st (ResumeChange i) =
     (case map_of (ss_retained st) i of
        None \<Rightarrow> Inl (ResumeInactive i)
      | Some s \<Rightarrow> if \<not> fs_paused s then Inl (ResumeInactive i) else Inr (retain st i (fs_record s) False))"
| "apply_schedule_change st (DispatchChange i a) =
     (case map_of (ss_retained st) i of
        None \<Rightarrow> Inl (DispatchInactive i)
      | Some s \<Rightarrow>
          if fs_paused s then Inl (DispatchInactive i)
          else bind_result (advanceDispatchedSchedule (fs_record s) a) (\<lambda>nxt.
            case nxt of
              None \<Rightarrow> Inr (st\<lparr>ss_retained := map_delete i (ss_retained st)\<rparr>)
            | Some r \<Rightarrow> Inr (retain st i r False)))"

definition schedule_step :: "session_event list \<Rightarrow> schedule_state \<Rightarrow> session_event \<Rightarrow> schedule_log_error + schedule_state" where
  "schedule_step pre st e =
     (case ev_data e of
        OtherEvent t v \<Rightarrow>
          if t = ''schedule/change'' then bind_result (decodeScheduleChange v) (apply_schedule_change st) else Inr st
      | _ \<Rightarrow> Inr st)"

definition foldScheduleEvents :: "session_event list \<Rightarrow> int \<Rightarrow> schedule_log_error + schedule_state" where
  "foldScheduleEvents events seedLength =
     bind_result (ensure (safe_int seedLength \<and> 0 \<le> seedLength \<and> seedLength \<le> int (length events)) SeedLengthInvalid) (\<lambda>_.
       replay_from schedule_step [] empty_schedules (drop (nat seedLength) events))"

definition folded_schedules :: "schedule_state \<Rightarrow> folded_schedule list" where
  "folded_schedules st = map snd (ss_retained st)"

definition active_records :: "schedule_state \<Rightarrow> schedule_record list" where
  "active_records st = map fs_record (filter (\<lambda>s. \<not> fs_paused s) (folded_schedules st))"

definition paused_records :: "schedule_state \<Rightarrow> schedule_record list" where
  "paused_records st = map fs_record (filter fs_paused (folded_schedules st))"

section \<open>Identities and constructors\<close>

definition schedule_name :: "nat \<Rightarrow> schedule_id" where
  "schedule_name n = ''schedule-'' @ nat_string n"

lemma inj_schedule_name: "inj schedule_name"
  by (simp add: inj_def schedule_name_def nat_string_inject)

text \<open>The \<open>while (seen.has(candidate))\<close> loop.\<close>

function next_schedule :: "schedule_id list \<Rightarrow> nat \<Rightarrow> nat" where
  "next_schedule seen n = (if schedule_name n \<in> set seen then next_schedule seen (Suc n) else n)"
  by pat_completeness auto
termination
  by (relation "measure (\<lambda>(seen, n). card {k. n \<le> k \<and> schedule_name k \<in> set seen})")
    (simp_all add: fresh_search_decreases inj_schedule_name)

declare next_schedule.simps [simp del]

definition allocateScheduleId :: "schedule_state \<Rightarrow> schedule_id" where
  "allocateScheduleId st =
     (let seen = remdups (ss_seen st) in schedule_name (next_schedule seen (length seen + 1)))"

text \<open>
  An argument of type \<open>number\<close> is a finite double or not a safe integer anyway; only \<open>isSafeInteger\<close>
  and comparisons look at it.
\<close>

definition safe_integer_number :: "js_number \<Rightarrow> int option" where
  "safe_integer_number v = (case v of JsFin q \<Rightarrow> safe_integer_of q | JsNegZero \<Rightarrow> Some 0 | _ \<Rightarrow> None)"

definition normalizedPrompt :: "string \<Rightarrow> input_code + string" where
  "normalizedPrompt prompt = (let p = js_trim prompt in if p = [] then Inl invalid_prompt else Inr p)"

definition createAfterScheduleRecord :: "schedule_id \<Rightarrow> string \<Rightarrow> js_number \<Rightarrow> int \<Rightarrow> input_code + schedule_record" where
  "createAfterScheduleRecord i prompt afterSeconds now =
     bind_result (normalizedPrompt prompt) (\<lambda>p.
     bind_result (case safe_integer_number afterSeconds of
         Some n \<Rightarrow> if n \<le> 0 then Inl invalid_rule else Inr n | None \<Rightarrow> Inl invalid_rule) (\<lambda>n.
     bind_result (futureInstant (now + n * 1000) now) (\<lambda>scheduledAt.
       Inr (AfterRecord i p n scheduledAt))))"

datatype at_input = AtString string | AtLocal json_record | AtOther

definition createAtScheduleRecord ::
  "(string \<Rightarrow> string option) \<Rightarrow> (string \<Rightarrow> int \<Rightarrow> format_parts) \<Rightarrow> schedule_id \<Rightarrow> string \<Rightarrow> at_input \<Rightarrow> int
    \<Rightarrow> input_code + schedule_record" where
  "createAtScheduleRecord resolve_zone format i prompt sel now =
     bind_result (normalizedPrompt prompt) (\<lambda>p.
     bind_result (case sel of
         AtString s \<Rightarrow> parseOffsetInstant s
       | AtLocal v \<Rightarrow>
           bind_result (ensure (has_exact_keys v [''date'', ''time'', ''time_zone'']) invalid_rule) (\<lambda>_.
             case (as_string (jget v ''date''), as_string (jget v ''time'')) of
               (Some d, Some t) \<Rightarrow>
                 (case as_string (jget v ''time_zone'') of
                    None \<Rightarrow> Inl invalid_time_zone
                  | Some z \<Rightarrow>
                      bind_result (parseLocalAt \<lparr>la_date = d, la_time = t, la_time_zone = z\<rparr>) (\<lambda>parts.
                      bind_result (canonicalizeTimeZone resolve_zone z) (\<lambda>zone.
                        resolveLocalInstant (format zone) parts)))
             | _ \<Rightarrow> Inl invalid_rule)
       | AtOther \<Rightarrow> Inl invalid_rule) (\<lambda>target.
     bind_result (futureInstant target now) (\<lambda>scheduledAt.
       Inr (AtRecord i p scheduledAt))))"

definition createEveryScheduleRecord :: "schedule_id \<Rightarrow> string \<Rightarrow> js_number \<Rightarrow> int \<Rightarrow> input_code + schedule_record" where
  "createEveryScheduleRecord i prompt everySeconds now =
     bind_result (normalizedPrompt prompt) (\<lambda>p.
     bind_result (case safe_integer_number everySeconds of
         None \<Rightarrow> Inl invalid_rule
       | Some n \<Rightarrow> if n < MIN_EVERY_INTERVAL_SECONDS then Inl frequency_too_high else Inr n) (\<lambda>n.
     bind_result (futureInstant (now + n * 1000) now) (\<lambda>scheduledAt.
       Inr (EveryRecord i p n scheduledAt))))"

datatype schedule_timing = scheduled | overdue | paused

record schedule_view =
  sv_record :: schedule_record
  sv_state :: schedule_timing

definition scheduleView :: "schedule_record \<Rightarrow> int \<Rightarrow> bool \<Rightarrow> schedule_view" where
  "scheduleView r now isPaused =
     \<lparr>sv_record = r,
      sv_state = (if isPaused then paused
                  else case Date_parse (sr_scheduledAt r) of
                    Some t \<Rightarrow> if t \<le> now then overdue else scheduled
                  | None \<Rightarrow> scheduled)\<rparr>"

section \<open>Well-formed records and changes\<close>

definition trimmed :: "string \<Rightarrow> bool" where
  "trimmed s \<longleftrightarrow> s \<noteq> [] \<and> js_trim s = s"

definition canonical_instant_text :: "string \<Rightarrow> bool" where
  "canonical_instant_text s \<longleftrightarrow> (case Date_parse s of Some t \<Rightarrow> toISOString t = Some s | None \<Rightarrow> False)"

fun record_wf :: "schedule_record \<Rightarrow> bool" where
  "record_wf (AfterRecord i p n a) \<longleftrightarrow> trimmed i \<and> trimmed p \<and> safe_int n \<and> 0 < n \<and> canonical_instant_text a"
| "record_wf (AtRecord i p a) \<longleftrightarrow> trimmed i \<and> trimmed p \<and> canonical_instant_text a"
| "record_wf (EveryRecord i p n a) \<longleftrightarrow>
     trimmed i \<and> trimmed p \<and> safe_int n \<and> MIN_EVERY_INTERVAL_SECONDS \<le> n \<and> safe_int (n * 1000) \<and> canonical_instant_text a"

fun schedule_change_wf :: "schedule_change \<Rightarrow> bool" where
  "schedule_change_wf (CreateChange r) = record_wf r"
| "schedule_change_wf (DeleteChange i) = trimmed i"
| "schedule_change_wf (PauseChange i) = trimmed i"
| "schedule_change_wf (ResumeChange i) = trimmed i"
| "schedule_change_wf (DispatchChange i a) = (trimmed i \<and> (case a of Some t \<Rightarrow> canonical_instant_text t | None \<Rightarrow> True))"

lemma Date_parse_UTC: "Date_parse s = Some t \<Longrightarrow> UTC_INSTANT s"
  by (auto simp: Date_parse_def UTC_INSTANT_def split: option.splits)

lemma canonical_instant_textE:
  assumes "canonical_instant_text s"
  obtains t where "Date_parse s = Some t" "toISOString t = Some s" "in_four_digit_range t"
  using assms Date_parse_range [of s]
  by (auto simp: canonical_instant_text_def in_four_digit_range_def split: option.splits)

lemma canonical_toISOString:
  "in_four_digit_range t \<Longrightarrow> toISOString t = Some s \<Longrightarrow> canonical_instant_text s \<and> Date_parse s = Some t"
  using Date_parse_toISOString [of t s] by (simp add: canonical_instant_text_def in_four_digit_range_def)

lemma iso_result_range: "in_four_digit_range t \<Longrightarrow> \<exists>s. iso_result t = Inr s \<and> toISOString t = Some s"
  using toISOString_range(1) [of t] by (simp add: iso_result_def in_four_digit_range_def)

lemma decodeId_Inr: "decodeId v = Inr i \<longleftrightarrow> v = Some (JStr i) \<and> trimmed i"
  by (cases v rule: as_string.cases) (auto simp: decodeId_def trimmed_def)

lemma decodePrompt_Inr: "decodePrompt v = Inr i \<longleftrightarrow> v = Some (JStr i) \<and> trimmed i"
  by (cases v rule: as_string.cases) (auto simp: decodePrompt_def trimmed_def)

lemma decodeInstant_Inr: "decodeInstant v = Inr s \<longleftrightarrow> v = Some (JStr s) \<and> canonical_instant_text s"
  by (cases v rule: as_string.cases)
    (auto simp: decodeInstant_def canonical_instant_text_def result_simps Date_parse_UTC split: option.splits)

lemmas decode_simps = decodeId_Inr decodePrompt_Inr decodeInstant_Inr

lemma decode_ok:
  "trimmed i \<Longrightarrow> decodeId (Some (JStr i)) = Inr i"
  "trimmed i \<Longrightarrow> decodePrompt (Some (JStr i)) = Inr i"
  "canonical_instant_text i \<Longrightarrow> decodeInstant (Some (JStr i)) = Inr i"
  by (simp_all add: decode_simps)

lemma safe_integer_of_int: "safe_integer_of (of_int n) = (if safe_int n then Some n else None)"
  by (simp add: safe_integer_of_def)

lemma as_safe_integer_iff: "as_safe_integer v = Some n \<longleftrightarrow> v = Some (JNum (of_int n)) \<and> safe_int n"
  by (cases v rule: as_safe_integer.cases) (auto simp: safe_integer_of_def)

lemma decodeScheduleRecord_json: "record_wf r \<Longrightarrow> decodeScheduleRecord (Some (record_json r)) = Inr r"
  by (cases r) (simp_all add: decodeScheduleRecord_def decodeAfterRecord_def decodeAtRecord_def decodeEveryRecord_def
      has_exact_keys_def jget_def decode_ok safe_integer_of_int)

lemma decodeScheduleRecord_wf: "decodeScheduleRecord v = Inr r \<Longrightarrow> record_wf r"
  by (auto simp: decodeScheduleRecord_def decodeAfterRecord_def decodeAtRecord_def decodeEveryRecord_def result_simps
      decode_simps as_safe_integer_iff split: option.splits if_splits)

lemma encoded_change: "schedule_change_wf c \<Longrightarrow> decodeScheduleChange (schedule_change_json c) = Inr c"
  by (cases c) (auto simp: decodeScheduleChange_def id_change_json_def decode_id_change_def decode_dispatch_def
      has_exact_keys_def jget_def decode_ok decodeScheduleRecord_json split: option.splits)

lemma decoded_change_wf: "decodeScheduleChange v = Inr c \<Longrightarrow> schedule_change_wf c"
  by (auto simp: decodeScheduleChange_def decode_id_change_def decode_dispatch_def result_simps decode_simps
      decodeScheduleRecord_wf split: option.splits if_splits)

text \<open>
  C14. Strict decoding inverts encoding: a well-formed schedule change decodes from its durable payload
  to itself, and whatever payload the decoder accepts is a well-formed change (trimmed identities and
  prompts, safe positive intervals, canonical four-digit-year instants).
\<close>

theorem scheduleChange_roundtrip:
  "(schedule_change_wf c \<longrightarrow> decodeScheduleChange (schedule_change_json c) = Inr c) \<and>
   (decodeScheduleChange v = Inr c \<longrightarrow> schedule_change_wf c)"
  using encoded_change decoded_change_wf by blast

theorem scheduleChange_roundtrip_witness:
  "schedule_change_wf (DispatchChange ''schedule-1'' None) \<and>
   decodeScheduleChange (schedule_change_json (DispatchChange ''schedule-1'' None)) = Inr (DispatchChange ''schedule-1'' None)"
proof -
  have "schedule_change_wf (DispatchChange ''schedule-1'' None)"
    by (simp add: trimmed_def js_trim_def is_js_space_def)
  then show ?thesis using scheduleChange_roundtrip [of "DispatchChange ''schedule-1'' None"] by blast
qed

section \<open>Occurrences\<close>

lemma range_safe: "in_four_digit_range t \<Longrightarrow> safe_int t"
  by (auto simp: in_four_digit_range_def safe_int_def max_safe_integer_def MIN_FOUR_DIGIT_YEAR_MS_def MAX_FOUR_DIGIT_YEAR_MS_def)

lemma resolveEveryOccurrence_aux:
  assumes "record_wf (EveryRecord i p n s)" "Date_parse s = Some t0" "in_four_digit_range a" "t0 \<le> a"
  shows "\<exists>eo k. resolveEveryOccurrence s n a = Inr eo \<and> 0 \<le> k \<and>
      t0 + k * (n * 1000) \<le> a \<and> a < t0 + (k + 1) * (n * 1000) \<and>
      Date_parse (eo_occurrenceAt eo) = Some (t0 + k * (n * 1000)) \<and>
      (case eo_nextScheduledAt eo of
         Some s' \<Rightarrow> canonical_instant_text s' \<and> Date_parse s' = Some (t0 + (k + 1) * (n * 1000))
       | None \<Rightarrow> MAX_FOUR_DIGIT_YEAR_MS < t0 + (k + 1) * (n * 1000))"
proof -
  define I where "I = n * 1000"
  define k where "k = (a - t0) div I"
  have I: "0 < I" "safe_int I" using assms(1) by (simp_all add: I_def MIN_EVERY_INTERVAL_SECONDS_def)
  have k: "0 \<le> k" "k * I \<le> a - t0" "a - t0 < k * I + I"
    using div_bounds [OF I(1), of "a - t0"] assms(4) I(1)
    by (simp_all add: k_def pos_imp_zdiv_nonneg_iff mult.commute)
  have occ: "t0 \<le> t0 + k * I" "t0 + k * I \<le> a" "a < t0 + k * I + I" using k I(1) by simp_all
  have t0: "in_four_digit_range t0" using Date_parse_range [OF assms(2)] by (simp add: in_four_digit_range_def)
  with occ assms(3) have r: "in_four_digit_range (t0 + k * I)" by (simp add: in_four_digit_range_def)
  obtain s1 where s1: "iso_result (t0 + k * I) = Inr s1" "toISOString (t0 + k * I) = Some s1"
    using iso_result_range [OF r] by blast
  note p1 = canonical_toISOString [OF r s1(2)]
  have res: "resolveEveryOccurrence s n a =
      (let nxt = t0 + k * I + I in
       if \<not> safe_int nxt \<or> MAX_FOUR_DIGIT_YEAR_MS < nxt then Inr \<lparr>eo_occurrenceAt = s1, eo_nextScheduledAt = None\<rparr>
       else bind_result (iso_result nxt) (\<lambda>m. Inr \<lparr>eo_occurrenceAt = s1, eo_nextScheduledAt = Some m\<rparr>))"
    using I occ assms r s1(1) range_safe by (simp add: resolveEveryOccurrence_def Let_def I_def [symmetric] k_def [symmetric])
  have e: "t0 + (k + 1) * I = t0 + k * I + I" by (simp add: algebra_simps)
  show ?thesis
  proof (cases "in_four_digit_range (t0 + k * I + I)")
    case True
    obtain s2 where s2: "iso_result (t0 + k * I + I) = Inr s2" "toISOString (t0 + k * I + I) = Some s2"
      using iso_result_range [OF True] by blast
    have "resolveEveryOccurrence s n a = Inr \<lparr>eo_occurrenceAt = s1, eo_nextScheduledAt = Some s2\<rparr>"
      using res True s2 range_safe [OF True] by (simp add: Let_def in_four_digit_range_def)
    with k occ p1 canonical_toISOString [OF True s2(2)] e show ?thesis
      unfolding I_def [symmetric] by (intro exI [of _ "\<lparr>eo_occurrenceAt = s1, eo_nextScheduledAt = Some s2\<rparr>"] exI [of _ k]) simp
  next
    case False
    with r I have "MAX_FOUR_DIGIT_YEAR_MS < t0 + k * I + I" by (simp add: in_four_digit_range_def)
    moreover from this have "resolveEveryOccurrence s n a = Inr \<lparr>eo_occurrenceAt = s1, eo_nextScheduledAt = None\<rparr>"
      using res by (simp add: Let_def)
    ultimately show ?thesis using k occ p1 e
      unfolding I_def [symmetric] by (intro exI [of _ "\<lparr>eo_occurrenceAt = s1, eo_nextScheduledAt = None\<rparr>"] exI [of _ k]) simp
  qed
qed

text \<open>
  C15. A fixed-rate decision is exact. For a well-formed record with target \<open>t0\<close> and a decision time
  \<open>a\<close> at or after it, the decision succeeds; the occurrence it reports is the latest point of the grid
  \<open>t0 + k * interval\<close> not after \<open>a\<close>, and the next target is the following grid point, strictly in the
  future, or absent exactly when that point has no four-digit year.
\<close>

theorem resolveEveryOccurrence_exact:
  assumes "record_wf (EveryRecord i p n s)" "Date_parse s = Some t0" "in_four_digit_range a" "t0 \<le> a"
  shows "\<exists>eo k. resolveEveryOccurrence s n a = Inr eo \<and> 0 \<le> k \<and>
      t0 + k * (n * 1000) \<le> a \<and> a < t0 + (k + 1) * (n * 1000) \<and>
      Date_parse (eo_occurrenceAt eo) = Some (t0 + k * (n * 1000)) \<and>
      (case eo_nextScheduledAt eo of
         Some s' \<Rightarrow> canonical_instant_text s' \<and> Date_parse s' = Some (t0 + (k + 1) * (n * 1000))
       | None \<Rightarrow> MAX_FOUR_DIGIT_YEAR_MS < t0 + (k + 1) * (n * 1000))"
  using assms by (rule resolveEveryOccurrence_aux)

text \<open>The text of a calendar time, for concrete instants.\<close>

lemma pad_numeral [simp]: "pad (numeral v) k = pad (pred_numeral v) (k div 10) @ [char_of (48 + k mod 10)]"
  unfolding numeral_eq_Suc [of v] by (rule pad.simps(2))

lemma digit_chars:
  "char_of (48 :: nat) = CHR ''0''" "char_of (49 :: nat) = CHR ''1''" "char_of (50 :: nat) = CHR ''2''"
  "char_of (51 :: nat) = CHR ''3''" "char_of (52 :: nat) = CHR ''4''" "char_of (53 :: nat) = CHR ''5''"
  "char_of (54 :: nat) = CHR ''6''" "char_of (55 :: nat) = CHR ''7''" "char_of (56 :: nat) = CHR ''8''"
  "char_of (57 :: nat) = CHR ''9''"
  by (simp_all add: char_of_def bit_0)

lemma parts_instant:
  assumes "valid_parts p" "1 \<le> cp_year p" "cp_year p \<le> 9999" "parts_time p = t"
    and "s = render ISO_PATTERN (part_numbers p)"
  shows "in_four_digit_range t \<and> toISOString t = Some s \<and> Date_parse s = Some t \<and> canonical_instant_text s"
proof -
  have "in_four_digit_range t" using parts_time_in_range [OF assms(1-3)] assms(4) by simp
  moreover from this have "toISOString t = Some s"
    using toISOString_range(1) [of t] date_fields_parts [OF assms(1)] assms(4,5) by (simp add: in_four_digit_range_def)
  ultimately show ?thesis using canonical_toISOString by blast
qed

lemma sample_instant:
  "in_four_digit_range 1704067200000 \<and> toISOString 1704067200000 = Some ''2024-01-01T00:00:00.000Z'' \<and>
   Date_parse ''2024-01-01T00:00:00.000Z'' = Some 1704067200000 \<and> canonical_instant_text ''2024-01-01T00:00:00.000Z''"
proof (rule parts_instant)
  let ?p = "\<lparr>cp_year = 2024, cp_month = 1, cp_day = 1, cp_hour = 0, cp_minute = 0, cp_second = 0, cp_millisecond = 0\<rparr>"
  show "valid_parts ?p" "parts_time ?p = 1704067200000"
    by (simp_all add: parts_time_def make_day_def make_time_def dayFromYear_def month_start_def month_starts_def msPerDay_def
        leap_year_def valid_parts_def daysInMonth_def)
  show "''2024-01-01T00:00:00.000Z'' = render ISO_PATTERN (part_numbers ?p)"
    by (simp add: ISO_PATTERN_def part_numbers_def digit_chars)
qed simp_all

definition sample_every :: schedule_record where
  "sample_every = EveryRecord ''schedule-1'' ''stretch'' 300 ''2024-01-01T00:00:00.000Z''"

lemma sample_every_wf: "record_wf sample_every"
  using sample_instant
  by (simp add: sample_every_def trimmed_def js_trim_def is_js_space_def safe_int_def max_safe_integer_def MIN_EVERY_INTERVAL_SECONDS_def)

theorem resolveEveryOccurrence_exact_witness:
  "record_wf sample_every \<and> (\<exists>eo k. resolveEveryOccurrence ''2024-01-01T00:00:00.000Z'' 300 1704068200000 = Inr eo \<and>
      Date_parse (eo_occurrenceAt eo) = Some (1704067200000 + k * 300000) \<and> k = 3)"
proof -
  have "in_four_digit_range 1704068200000"
    by (simp add: in_four_digit_range_def MIN_FOUR_DIGIT_YEAR_MS_def MAX_FOUR_DIGIT_YEAR_MS_def)
  moreover have "Date_parse ''2024-01-01T00:00:00.000Z'' = Some 1704067200000" using sample_instant by blast
  moreover have "(1704067200000 :: int) \<le> 1704068200000" by simp
  ultimately obtain eo k where eo: "resolveEveryOccurrence ''2024-01-01T00:00:00.000Z'' 300 1704068200000 = Inr eo"
    "1704067200000 + k * (300 * 1000) \<le> (1704068200000 :: int)" "1704068200000 < 1704067200000 + (k + 1) * (300 * 1000 :: int)"
    "Date_parse (eo_occurrenceAt eo) = Some (1704067200000 + k * (300 * 1000))"
    using resolveEveryOccurrence_exact [OF sample_every_wf [unfolded sample_every_def]] by blast
  then have "k = 3" by simp
  with eo sample_every_wf show ?thesis by auto
qed

section \<open>The replay invariant\<close>

lemma advance_ok:
  assumes "record_wf r" "advanceDispatchedSchedule r a = Inr (Some r')" "case a of Some t \<Rightarrow> canonical_instant_text t | None \<Rightarrow> True"
  shows "record_wf r' \<and> sr_id r' = sr_id r"
proof (cases r)
  case (EveryRecord i p n s)
  with assms(2) obtain w t eo s' where a: "a = Some w" "Date_parse w = Some t" "resolveEveryOccurrence s n t = Inr eo"
    "eo_nextScheduledAt eo = Some s'" "r' = EveryRecord i p n s'"
    by (auto simp: advanceDispatchedSchedule_def result_simps split: option.splits)
  obtain t0 where t0: "Date_parse s = Some t0" using assms(1) EveryRecord by (auto elim: canonical_instant_textE)
  have r: "in_four_digit_range t" using Date_parse_range [OF a(2)] by (simp add: in_four_digit_range_def)
  have "t0 \<le> t" using a(3) t0 by (auto simp: resolveEveryOccurrence_def Let_def result_simps)
  from resolveEveryOccurrence_aux [OF assms(1) [unfolded EveryRecord] t0 r this] a(3,4)
  show ?thesis using a(5) assms(1) EveryRecord by auto
qed (use assms in \<open>auto simp: advanceDispatchedSchedule_def split: if_splits\<close>)

definition retained_ok :: "schedule_id list \<Rightarrow> schedule_id \<times> folded_schedule \<Rightarrow> bool" where
  "retained_ok seen p \<longleftrightarrow> fst p = sr_id (fs_record (snd p)) \<and> fst p \<in> set seen \<and> record_wf (fs_record (snd p))"

definition schedule_inv :: "session_event list \<Rightarrow> schedule_state \<Rightarrow> bool" where
  "schedule_inv lg st \<longleftrightarrow>
     distinct (map_keys (ss_retained st)) \<and> distinct (ss_seen st) \<and> list_all (retained_ok (ss_seen st)) (ss_retained st)"

lemma schedule_inv_init: "schedule_inv [] empty_schedules"
  by (simp add: schedule_inv_def empty_schedules_def)

lemma list_all_map_set: "list_all P xs \<Longrightarrow> P (k, v) \<Longrightarrow> list_all P (map_set k v xs)"
  by (induction xs) auto

lemma list_all_map_delete: "list_all P xs \<Longrightarrow> list_all P (map_delete k xs)"
  by (auto simp: list_all_iff AList.delete_eq)

lemma distinct_map_delete: "distinct (map_keys xs) \<Longrightarrow> distinct (map_keys (map_delete k xs))"
  by (rule AList.distinct_delete)

lemma retained_lookup:
  "list_all (retained_ok seen) xs \<Longrightarrow> map_of xs i = Some s \<Longrightarrow> retained_ok seen (i, s)"
  by (auto simp: list_all_iff dest: map_of_SomeD)

lemma apply_schedule_change_inv:
  assumes inv: "schedule_inv lg st" and wf: "schedule_change_wf c" and step: "apply_schedule_change st c = Inr st'"
  shows "schedule_inv lg' st'"
proof -
  have d: "distinct (map_keys (ss_retained st))" "distinct (ss_seen st)" "list_all (retained_ok (ss_seen st)) (ss_retained st)"
    using inv by (simp_all add: schedule_inv_def)
  note look = retained_lookup [OF d(3)]
  show ?thesis
  proof (cases c)
    case (CreateChange r)
    with step have st': "sr_id r \<notin> set (ss_seen st)"
      "st' = retain (st\<lparr>ss_seen := ss_seen st @ [sr_id r]\<rparr>) (sr_id r) r False" by (auto split: if_splits)
    have "list_all (retained_ok (ss_seen st @ [sr_id r])) (ss_retained st)"
      using d(3) by (auto simp: list_all_iff retained_ok_def)
    with d st' wf CreateChange show ?thesis
      by (simp add: schedule_inv_def retain_def list_all_map_set retained_ok_def)
  next
    case (DispatchChange i a)
    with step obtain s nxt where s: "map_of (ss_retained st) i = Some s" "advanceDispatchedSchedule (fs_record s) a = Inr nxt"
      "st' = (case nxt of None \<Rightarrow> st\<lparr>ss_retained := map_delete i (ss_retained st)\<rparr> | Some r \<Rightarrow> retain st i r False)"
      by (auto simp: result_simps split: option.splits if_splits)
    show ?thesis
    proof (cases nxt)
      case (Some r)
      with look [OF s(1)] advance_ok [of "fs_record s" a r] s(2) wf DispatchChange
      have "retained_ok (ss_seen st) (i, \<lparr>fs_record = r, fs_paused = False\<rparr>)" by (auto simp: retained_ok_def)
      with d s Some show ?thesis by (simp add: schedule_inv_def retain_def list_all_map_set)
    qed (use d s in \<open>simp add: schedule_inv_def list_all_map_delete distinct_map_delete\<close>)
  qed (use step d look in \<open>auto simp: schedule_inv_def retain_def retained_ok_def distinct_map_delete
      intro!: list_all_map_set list_all_map_delete split: option.splits if_splits\<close>)
qed

lemma schedule_step_inv:
  assumes "schedule_inv pre st" "schedule_step pre st e = Inr st'"
  shows "schedule_inv (pre @ [e]) st'"
proof -
  have same: "schedule_inv (pre @ [e]) st" using assms(1) by (simp add: schedule_inv_def)
  show ?thesis
  proof (cases "\<exists>v. ev_data e = OtherEvent ''schedule/change'' v")
    case True
    with assms(2) obtain v c where "decodeScheduleChange v = Inr c" "apply_schedule_change st c = Inr st'"
      by (auto simp: schedule_step_def result_simps)
    then show ?thesis using apply_schedule_change_inv [OF assms(1)] decoded_change_wf by blast
  next
    case False
    with assms(2) have "st' = st" by (auto simp: schedule_step_def split: event_data.splits if_splits)
    with same show ?thesis by simp
  qed
qed

interpretation schedules: log_replay schedule_step empty_schedules schedule_inv
  by unfold_locales (use schedule_inv_init schedule_step_inv in blast)+

lemma foldScheduleEvents_inv: "foldScheduleEvents lg n = Inr st \<Longrightarrow> schedule_inv lg st"
  using schedules.project_inv [of "drop (nat n) lg" st]
  by (auto simp: foldScheduleEvents_def result_simps schedules.project_def schedule_inv_def)

text \<open>An event appended to a folded log is one more step of the fold.\<close>

lemma foldScheduleEvents_snoc:
  assumes "foldScheduleEvents lg n = Inr st"
  shows "foldScheduleEvents (lg @ [e]) n = schedule_step (drop (nat n) lg) st e"
proof -
  from assms have n: "safe_int n" "0 \<le> n" "n \<le> int (length lg)"
    and r: "schedules.project (drop (nat n) lg) = Inr st"
    by (auto simp: foldScheduleEvents_def result_simps schedules.project_def)
  have "drop (nat n) (lg @ [e]) = drop (nat n) lg @ [e]" using n by simp
  with n r show ?thesis by (simp add: foldScheduleEvents_def schedules.project_snoc schedules.project_def [symmetric])
qed

section \<open>What the constructors produce\<close>

lemma next_schedule_fresh: "schedule_name (next_schedule seen n) \<notin> set seen"
  by (induction seen n rule: next_schedule.induct) (metis next_schedule.simps)

lemma allocate_fresh: "allocateScheduleId st \<notin> set (ss_seen st)"
  using next_schedule_fresh [of "remdups (ss_seen st)"] by (simp add: allocateScheduleId_def Let_def)

lemma decimal_not_space: "is_decimal c \<Longrightarrow> \<not> is_js_space c"
  by (auto simp: is_decimal_def is_js_space_def Let_def)

lemma schedule_name_trimmed: "trimmed (schedule_name n)"
proof -
  have "nat_string n \<noteq> []" "list_all is_decimal (nat_string n)" using nat_string_digits [of n] by simp_all
  then have "\<not> is_js_space (last (nat_string n))" by (simp add: list_all_iff decimal_not_space)
  with \<open>nat_string n \<noteq> []\<close> show ?thesis
    by (simp add: trimmed_def schedule_name_def) (rule js_trim_id, simp_all add: is_js_space_def)
qed

lemma allocate_trimmed: "trimmed (allocateScheduleId st)"
  by (simp add: allocateScheduleId_def Let_def schedule_name_trimmed)

lemma normalizedPrompt_Inr: "normalizedPrompt s = Inr p \<longleftrightarrow> p = js_trim s \<and> p \<noteq> []"
  by (auto simp: normalizedPrompt_def Let_def)

lemma trimmed_prompt: "normalizedPrompt s = Inr p \<Longrightarrow> trimmed p"
  by (auto simp: normalizedPrompt_Inr trimmed_def)

lemma safe_integer_number_safe: "safe_integer_number v = Some n \<Longrightarrow> safe_int n"
  by (auto simp: safe_integer_number_def safe_integer_of_def safe_int_def max_safe_integer_def split: js_number.splits if_splits)

definition future_target :: "schedule_record \<Rightarrow> int \<Rightarrow> bool" where
  "future_target r now \<longleftrightarrow> (\<exists>t. Date_parse (sr_scheduledAt r) = Some t \<and> now < t)"

lemma futureInstant_ok:
  "futureInstant t now = Inr s \<Longrightarrow> canonical_instant_text s \<and> Date_parse s = Some t \<and> now < t \<and> in_four_digit_range t"
  using canonical_toISOString by (auto simp: futureInstant_Inr)

lemma createAfter_ok:
  assumes "createAfterScheduleRecord i prompt v now = Inr r" "trimmed i"
  shows "record_wf r \<and> sr_id r = i \<and> future_target r now"
  using assms
  by (auto simp: createAfterScheduleRecord_def result_simps future_target_def trimmed_prompt safe_integer_number_safe
      dest!: futureInstant_ok split: option.splits if_splits)

lemma createAt_ok:
  assumes "createAtScheduleRecord zone fmt i prompt sel now = Inr r" "trimmed i"
  shows "record_wf r \<and> sr_id r = i \<and> future_target r now"
  using assms
  by (auto simp: createAtScheduleRecord_def result_simps future_target_def trimmed_prompt dest!: futureInstant_ok)

text \<open>
  The clock is a valid time value, so a delay whose milliseconds are not a safe integer overshoots the
  four-digit range.
\<close>

lemma createEvery_ok:
  assumes "createEveryScheduleRecord i prompt v now = Inr r" "trimmed i" "time_clip now \<noteq> None"
  shows "record_wf r \<and> sr_id r = i \<and> future_target r now"
proof -
  from assms(1) obtain p n s where n: "normalizedPrompt prompt = Inr p" "safe_integer_number v = Some n"
    "MIN_EVERY_INTERVAL_SECONDS \<le> n" "futureInstant (now + n * 1000) now = Inr s" "r = EveryRecord i p n s"
    by (auto simp: createEveryScheduleRecord_def result_simps split: option.splits if_splits)
  note f = futureInstant_ok [OF n(4)]
  have "0 < n * 1000" using n(3) by (simp add: MIN_EVERY_INTERVAL_SECONDS_def)
  moreover have "n * 1000 \<le> 253402300799999 + 8640000000000000"
    using f assms(3) by (simp add: in_four_digit_range_def MAX_FOUR_DIGIT_YEAR_MS_def time_clip_def split: if_splits)
  ultimately have "safe_int (n * 1000)" by (simp add: safe_int_def max_safe_integer_def)
  with n f assms(2) show ?thesis
    by (simp add: trimmed_prompt safe_integer_number_safe future_target_def)
qed

end
