(* ===== verification/Schedule_Service.thy ===== *)
theory Schedule_Service
  imports Schedule_Domain Session_Log
begin

text \<open>
  The reminder tools of \<open>schedule/schedule/src/tools.ts\<close>, the remote mutations of \<open>index.ts\<close>, the
  persistence checkpoint of \<open>persistence.ts\<close> and the stream validation of \<open>invariant.ts\<close>. The
  per-session queue of \<open>transaction.ts\<close> makes one operation a transition on the session, and inside it
  the fold and the append are not separated by a wait, so the session here is the one the fold reads.
  The environment answers whether the caller is the owning agent, whether it was cancelled before its
  turn or before the append, whether each checkpoint was acknowledged, and gives the clock readings.
  What an operation relies on from the log is the locale \<open>schedule_writer\<close>; the theorem shows that
  every operation leaves a stream that folds and that its answer is the state it left.
\<close>

section \<open>The stream of a session\<close>

definition schedule_seed :: "session \<Rightarrow> int" where
  "schedule_seed s = (case sh_seedLength (se_header s) of Some n \<Rightarrow> n | None \<Rightarrow> 0)"

definition schedule_stream :: "session \<Rightarrow> schedule_log_error + schedule_state" where
  "schedule_stream s = foldScheduleEvents (se_log s) (schedule_seed s)"

definition change_data :: "schedule_change \<Rightarrow> event_data" where
  "change_data c = OtherEvent ''schedule/change'' (schedule_change_json c)"

text \<open>The invariant companion vetoes a candidate whose extended stream does not fold.\<close>

definition schedule_invariant_veto :: "session \<Rightarrow> session_event \<Rightarrow> bool" where
  "schedule_invariant_veto s e \<longleftrightarrow>
     event_type (ev_data e) = ''schedule/change'' \<and> isl (foldScheduleEvents (se_log s @ [e]) (schedule_seed s))"

record schedule_env =
  sv_sameAgent :: bool
  sv_abortedAtTurn :: bool
  sv_preflight :: bool
  sv_abortedBeforeAppend :: bool
  sv_appending :: bool
  sv_otherVeto :: "session_event \<Rightarrow> bool"
  sv_eventNow :: int
  sv_now :: int
  sv_postflight :: bool
  sv_viewNow :: int

record schedule_world =
  sw_session :: session
  sw_drives :: nat

definition append_change :: "schedule_env \<Rightarrow> schedule_world \<Rightarrow> schedule_change \<Rightarrow> schedule_world \<times> bool" where
  "append_change env w c =
     (let s = sw_session w in
      case session_append s (sv_appending env) (\<lambda>e. schedule_invariant_veto s e \<or> sv_otherVeto env e) (sv_eventNow env)
             (change_data c) \<lparr>ao_surfaceOp = None, ao_sourceEventSeqs = None, ao_ignorable = False\<rparr> of
        (s', Inl _) \<Rightarrow> (w\<lparr>sw_session := s'\<rparr>, False)
      | (s', Inr _) \<Rightarrow> (w\<lparr>sw_session := s'\<rparr>, True))"

definition requestDrive :: "schedule_world \<Rightarrow> schedule_world" where
  "requestDrive w = w\<lparr>sw_drives := sw_drives w + 1\<rparr>"

section \<open>Tools\<close>

datatype persistence_operation = PCreate | PList | PDelete

datatype schedule_tool_error =
    ToolInvalidSelector
  | ToolInput input_code
  | ToolCorruptLog
  | ToolPersistence persistence_operation "schedule_id option"
  | ToolInternal

record create_args =
  ca_keys :: "string list"
  ca_prompt :: string
  ca_after_seconds :: "js_number option"
  ca_at :: "at_input option"
  ca_every_seconds :: "js_number option"

definition validateCreateArgs :: "create_args \<Rightarrow> schedule_tool_error option" where
  "validateCreateArgs a =
     (if list_ex (\<lambda>k. k \<noteq> ''prompt'' \<and> k \<noteq> ''after_seconds'' \<and> k \<noteq> ''at'' \<and> k \<noteq> ''every_seconds'') (ca_keys a) \<or>
         of_bool (ca_after_seconds a \<noteq> None) + of_bool (ca_at a \<noteq> None) + of_bool (ca_every_seconds a \<noteq> None) \<noteq> (1 :: nat)
      then Some ToolInvalidSelector
      else if js_trim (ca_prompt a) = [] then Some (ToolInput invalid_prompt)
      else if (case ca_after_seconds a of
                 Some v \<Rightarrow> (case safe_integer_number v of Some n \<Rightarrow> n \<le> 0 | None \<Rightarrow> True) | None \<Rightarrow> False)
      then Some (ToolInput invalid_rule)
      else case ca_every_seconds a of
        Some v \<Rightarrow>
          (case safe_integer_number v of
             None \<Rightarrow> Some (ToolInput invalid_rule)
           | Some n \<Rightarrow> if n < MIN_EVERY_INTERVAL_SECONDS then Some (ToolInput frequency_too_high) else None)
      | None \<Rightarrow> None)"

definition foldForTool :: "schedule_world \<Rightarrow> schedule_tool_error + schedule_state" where
  "foldForTool w =
     (case schedule_stream (sw_session w) of
        Inr st \<Rightarrow> Inr st
      | Inl err \<Rightarrow> Inl (if err = InstantRange then ToolInternal else ToolCorruptLog))"

definition create_record ::
  "(string \<Rightarrow> string option) \<Rightarrow> (string \<Rightarrow> int \<Rightarrow> format_parts) \<Rightarrow> schedule_env \<Rightarrow> schedule_id \<Rightarrow> create_args
    \<Rightarrow> input_code + schedule_record" where
  "create_record zone fmt env i a =
     (case ca_at a of
        Some sel \<Rightarrow> createAtScheduleRecord zone fmt i (ca_prompt a) sel (sv_now env)
      | None \<Rightarrow>
          (case ca_after_seconds a of
             Some v \<Rightarrow> createAfterScheduleRecord i (ca_prompt a) v (sv_now env)
           | None \<Rightarrow>
               createEveryScheduleRecord i (ca_prompt a)
                 (case ca_every_seconds a of Some v \<Rightarrow> v | None \<Rightarrow> JsNaN) (sv_now env)))"

definition schedule_create ::
  "(string \<Rightarrow> string option) \<Rightarrow> (string \<Rightarrow> int \<Rightarrow> format_parts) \<Rightarrow> schedule_env \<Rightarrow> schedule_world \<Rightarrow> create_args
    \<Rightarrow> schedule_world \<times> (schedule_tool_error + schedule_view)" where
  "schedule_create zone fmt env w a =
     (if \<not> sv_sameAgent env then (w, Inl ToolInternal)
      else case validateCreateArgs a of
        Some err \<Rightarrow> (w, Inl err)
      | None \<Rightarrow>
          if sv_abortedAtTurn env then (w, Inl ToolInternal)
          else if \<not> sv_preflight env then (w, Inl (ToolPersistence PCreate None))
          else let w1 = requestDrive w in
            case foldForTool w1 of
              Inl err \<Rightarrow> (w1, Inl err)
            | Inr st \<Rightarrow>
                let i = allocateScheduleId st in
                (case create_record zone fmt env i a of
                   Inl code \<Rightarrow> (w1, Inl (ToolInput code))
                 | Inr r \<Rightarrow>
                     if sv_abortedBeforeAppend env then (w1, Inl ToolInternal)
                     else case append_change env w1 (CreateChange r) of
                       (w2, False) \<Rightarrow> (w2, Inl ToolInternal)
                     | (w2, True) \<Rightarrow>
                         if \<not> sv_postflight env then (w2, Inl (ToolPersistence PCreate (Some i)))
                         else (requestDrive w2, Inr (scheduleView r (sv_viewNow env) False))))"

definition schedule_list ::
  "schedule_env \<Rightarrow> schedule_world \<Rightarrow> schedule_world \<times> (schedule_tool_error + schedule_view list)" where
  "schedule_list env w =
     (if \<not> sv_sameAgent env then (w, Inl ToolInternal)
      else if sv_abortedAtTurn env then (w, Inl ToolInternal)
      else if \<not> sv_preflight env then (w, Inl (ToolPersistence PList None))
      else let w1 = requestDrive w in
        case foldForTool w1 of
          Inl err \<Rightarrow> (w1, Inl err)
        | Inr st \<Rightarrow> (w1, Inr (map (\<lambda>f. scheduleView (fs_record f) (sv_viewNow env) (fs_paused f)) (folded_schedules st))))"

datatype delete_value = DeletedTrue schedule_id | ScheduleNotFound schedule_id

definition schedule_delete ::
  "schedule_env \<Rightarrow> schedule_world \<Rightarrow> schedule_id \<Rightarrow> schedule_world \<times> (schedule_tool_error + delete_value)" where
  "schedule_delete env w i =
     (if i = [] \<or> js_trim i \<noteq> i then (w, Inl (ToolInput invalid_rule))
      else if \<not> sv_sameAgent env then (w, Inl ToolInternal)
      else if sv_abortedAtTurn env then (w, Inl ToolInternal)
      else if \<not> sv_preflight env then (w, Inl (ToolPersistence PDelete (Some i)))
      else let w1 = requestDrive w in
        case foldForTool w1 of
          Inl err \<Rightarrow> (w1, Inl err)
        | Inr st \<Rightarrow>
            if \<not> list_ex (\<lambda>f. sr_id (fs_record f) = i) (folded_schedules st) then (w1, Inr (ScheduleNotFound i))
            else if sv_abortedBeforeAppend env then (w1, Inl ToolInternal)
            else case append_change env w1 (DeleteChange i) of
              (w2, False) \<Rightarrow> (w2, Inl ToolInternal)
            | (w2, True) \<Rightarrow>
                if \<not> sv_postflight env then (w2, Inl (ToolPersistence PDelete (Some i)))
                else (requestDrive w2, Inr (DeletedTrue i)))"

section \<open>Remote mutations\<close>

datatype mutation_error =
    MutationNotFound
  | MutationInvalidTransition
  | MutationCorruptLog
  | MutationPersistence
  | MutationAppend

definition mutation_fold :: "schedule_world \<Rightarrow> mutation_error + schedule_state" where
  "mutation_fold w = (case schedule_stream (sw_session w) of Inr st \<Rightarrow> Inr st | Inl _ \<Rightarrow> Inl MutationCorruptLog)"

definition assertId :: "schedule_id \<Rightarrow> mutation_error + unit" where
  "assertId i = ensure (\<not> (i = [] \<or> js_trim i \<noteq> i)) MutationNotFound"

definition find_schedule :: "schedule_state \<Rightarrow> schedule_id \<Rightarrow> folded_schedule option" where
  "find_schedule st i = List.find (\<lambda>f. sr_id (fs_record f) = i) (folded_schedules st)"

definition retainedForChange :: "schedule_world \<Rightarrow> schedule_id \<Rightarrow> bool \<Rightarrow> mutation_error + folded_schedule" where
  "retainedForChange w i expectedPaused =
     bind_result (mutation_fold w) (\<lambda>st.
       case find_schedule st i of
         None \<Rightarrow> Inl MutationNotFound
       | Some f \<Rightarrow> if fs_paused f \<noteq> expectedPaused then Inl MutationInvalidTransition else Inr f)"

text \<open>
  The body of a mutation after the checkpoint before it; \<open>live\<close> tells whether an agent runtime is
  notified (a live owner) or the session was entered cold for this call.
\<close>

definition drive_if :: "bool \<Rightarrow> schedule_world \<Rightarrow> schedule_world" where
  "drive_if live w = (if live then requestDrive w else w)"

definition change_session ::
  "bool \<Rightarrow> schedule_env \<Rightarrow> schedule_world \<Rightarrow> schedule_id \<Rightarrow> bool \<Rightarrow> schedule_world \<times> (mutation_error + schedule_view)" where
  "change_session live env w i pause =
     (case assertId i of
        Inl err \<Rightarrow> (w, Inl err)
      | Inr _ \<Rightarrow>
          if \<not> sv_preflight env then (w, Inl MutationPersistence)
          else let w1 = drive_if live w in
            case retainedForChange w1 i (\<not> pause) of
              Inl err \<Rightarrow> (w1, Inl err)
            | Inr f \<Rightarrow>
                (case append_change env w1 (if pause then PauseChange i else ResumeChange i) of
                   (w2, False) \<Rightarrow> (w2, Inl MutationAppend)
                 | (w2, True) \<Rightarrow>
                     let w3 = drive_if live w2 in
                     if \<not> sv_postflight env then (w3, Inl MutationPersistence)
                     else (drive_if live w3, Inr (scheduleView (fs_record f) (sv_viewNow env) pause))))"

definition delete_session ::
  "bool \<Rightarrow> schedule_env \<Rightarrow> schedule_world \<Rightarrow> schedule_id \<Rightarrow> schedule_world \<times> (mutation_error + schedule_id)" where
  "delete_session live env w i =
     (case assertId i of
        Inl err \<Rightarrow> (w, Inl err)
      | Inr _ \<Rightarrow>
          if \<not> sv_preflight env then (w, Inl MutationPersistence)
          else let w1 = drive_if live w in
            case mutation_fold w1 of
              Inl err \<Rightarrow> (w1, Inl err)
            | Inr st \<Rightarrow>
                if \<not> list_ex (\<lambda>f. sr_id (fs_record f) = i) (folded_schedules st) then (w1, Inl MutationNotFound)
                else case append_change env w1 (DeleteChange i) of
                  (w2, False) \<Rightarrow> (w2, Inl MutationAppend)
                | (w2, True) \<Rightarrow>
                    let w3 = drive_if live w2 in
                    if \<not> sv_postflight env then (w3, Inl MutationPersistence)
                    else (drive_if live w3, Inr i))"

section \<open>Writing the stream\<close>

text \<open>
  What the reminder operations rely on from an append-only log: a commit adds exactly the event, a
  failure adds nothing, and the fork boundary of the session does not move.
\<close>

locale schedule_writer = event_appender commit log_of
  for commit :: "'s \<Rightarrow> event_data \<Rightarrow> 's \<times> ('e + session_event)" and log_of :: "'s \<Rightarrow> session_event list" +
  fixes seed_of :: "'s \<Rightarrow> int"
  assumes seed_commit: "commit s d = (s', r) \<Longrightarrow> seed_of s' = seed_of s"
begin

lemma write_accepted:
  assumes "foldScheduleEvents (log_of s) (seed_of s) = Inr st" "schedule_change_wf c" "commit s (change_data c) = (s', Inr e)"
  shows "foldScheduleEvents (log_of s') (seed_of s') = apply_schedule_change st c"
proof -
  have "log_of s' = log_of s @ [e]" "ev_data e = change_data c" using commit_Inr [OF assms(3)] by simp_all
  with foldScheduleEvents_snoc [OF assms(1), of e] encoded_change [OF assms(2)] seed_commit [OF assms(3)]
  show ?thesis by (simp add: schedule_step_def change_data_def)
qed

lemma write_rejected:
  "commit s d = (s', Inl err) \<Longrightarrow> log_of s' = log_of s \<and> seed_of s' = seed_of s"
  using commit_Inl seed_commit by blast

end

lemma session_append_header: "session_append s appending veto now d opts = (s', r) \<Longrightarrow> se_header s' = se_header s"
  by (erule session_append_cases) auto

interpretation session_schedules: schedule_writer
  "\<lambda>s d. session_append s appending veto now d opts" se_log schedule_seed for appending veto now opts
  by unfold_locales (simp add: schedule_seed_def session_append_header)

lemma append_change_cases:
  assumes "append_change env w c = (w', ok)" "schedule_stream (sw_session w) = Inr st" "schedule_change_wf c"
  obtains (Rejected) "\<not> ok" "se_log (sw_session w') = se_log (sw_session w)" "schedule_stream (sw_session w') = Inr st"
  | (Written) e st' where "ok" "se_log (sw_session w') = se_log (sw_session w) @ [e]" "ev_data e = change_data c"
      "schedule_stream (sw_session w') = Inr st'" "apply_schedule_change st c = Inr st'"
proof -
  let ?s = "sw_session w"
  let ?o = "\<lparr>ao_surfaceOp = None, ao_sourceEventSeqs = None, ao_ignorable = False\<rparr>"
  let ?veto = "\<lambda>e. schedule_invariant_veto ?s e \<or> sv_otherVeto env e"
  obtain s' r where a: "session_append ?s (sv_appending env) ?veto (sv_eventNow env) (change_data c) ?o = (s', r)"
    by (cases "session_append ?s (sv_appending env) ?veto (sv_eventNow env) (change_data c) ?o")
  show thesis
  proof (cases r)
    case (Inl err)
    with a assms show thesis
      using session_schedules.write_rejected [OF a [unfolded Inl]]
      by (intro Rejected) (auto simp: append_change_def schedule_stream_def)
  next
    case (Inr e)
    note ac = session_schedules.write_accepted [OF assms(2) [unfolded schedule_stream_def] assms(3) a [unfolded Inr]]
    have l: "se_log s' = se_log ?s @ [e]" "ev_data e = change_data c" "\<not> schedule_invariant_veto ?s e"
      using a [unfolded Inr] by (cases rule: session_append_cases, auto simp: candidate_event_def)+
    have "schedule_seed s' = schedule_seed ?s" using session_append_header [OF a] by (simp add: schedule_seed_def)
    with l have "\<not> isl (foldScheduleEvents (se_log s') (schedule_seed s'))"
      by (simp add: schedule_invariant_veto_def change_data_def)
    then obtain st' where st': "foldScheduleEvents (se_log s') (schedule_seed s') = Inr st'"
      by (cases "foldScheduleEvents (se_log s') (schedule_seed s')") simp_all
    have "w' = w\<lparr>sw_session := s'\<rparr>" "ok" using assms(1) a Inr by (simp_all add: append_change_def)
    with l st' ac show thesis by (intro Written [of e st']) (simp_all add: schedule_stream_def)
  qed
qed

section \<open>Commands and answers\<close>

datatype schedule_command =
    CreateCommand create_args
  | ListCommand
  | DeleteCommand schedule_id
  | RemoteChange schedule_id bool
  | RemoteDelete schedule_id

datatype schedule_reply =
    Created schedule_view
  | Listed "schedule_view list"
  | Deleted schedule_id
  | NotRetained schedule_id
  | Changed schedule_view
  | Uncertain
  | Refused

fun tool_failure :: "schedule_tool_error \<Rightarrow> schedule_reply" where
  "tool_failure (ToolPersistence _ _) = Uncertain"
| "tool_failure _ = Refused"

fun mutation_failure :: "mutation_error \<Rightarrow> schedule_reply" where
  "mutation_failure MutationPersistence = Uncertain"
| "mutation_failure _ = Refused"

fun run_schedule_command ::
  "(string \<Rightarrow> string option) \<Rightarrow> (string \<Rightarrow> int \<Rightarrow> format_parts) \<Rightarrow> bool \<Rightarrow> schedule_env \<Rightarrow> schedule_world \<Rightarrow> schedule_command
    \<Rightarrow> schedule_world \<times> schedule_reply" where
  "run_schedule_command zone fmt live env w (CreateCommand a) =
     (case schedule_create zone fmt env w a of (w', Inr v) \<Rightarrow> (w', Created v) | (w', Inl err) \<Rightarrow> (w', tool_failure err))"
| "run_schedule_command zone fmt live env w ListCommand =
     (case schedule_list env w of (w', Inr vs) \<Rightarrow> (w', Listed vs) | (w', Inl err) \<Rightarrow> (w', tool_failure err))"
| "run_schedule_command zone fmt live env w (DeleteCommand i) =
     (case schedule_delete env w i of
        (w', Inr (DeletedTrue j)) \<Rightarrow> (w', Deleted j)
      | (w', Inr (ScheduleNotFound j)) \<Rightarrow> (w', NotRetained j)
      | (w', Inl err) \<Rightarrow> (w', tool_failure err))"
| "run_schedule_command zone fmt live env w (RemoteChange i pause) =
     (case change_session live env w i pause of (w', Inr v) \<Rightarrow> (w', Changed v) | (w', Inl err) \<Rightarrow> (w', mutation_failure err))"
| "run_schedule_command zone fmt live env w (RemoteDelete i) =
     (case delete_session live env w i of (w', Inr j) \<Rightarrow> (w', Deleted j) | (w', Inl err) \<Rightarrow> (w', mutation_failure err))"

definition reply_ok :: "schedule_env \<Rightarrow> schedule_state \<Rightarrow> schedule_state \<Rightarrow> schedule_reply \<Rightarrow> bool" where
  "reply_ok env st st' reply =
     (case reply of
        Created v \<Rightarrow>
          \<exists>r. v = scheduleView r (sv_viewNow env) False \<and> record_wf r \<and> future_target r (sv_now env) \<and>
              sr_id r \<notin> set (ss_seen st) \<and> ss_seen st' = ss_seen st @ [sr_id r] \<and>
              ss_retained st' = ss_retained st @ [(sr_id r, \<lparr>fs_record = r, fs_paused = False\<rparr>)]
      | Listed vs \<Rightarrow>
          st' = st \<and> vs = map (\<lambda>f. scheduleView (fs_record f) (sv_viewNow env) (fs_paused f)) (folded_schedules st)
      | Deleted i \<Rightarrow>
          map_of (ss_retained st) i \<noteq> None \<and> st' = st\<lparr>ss_retained := map_delete i (ss_retained st)\<rparr>
      | NotRetained i \<Rightarrow> st' = st \<and> map_of (ss_retained st) i = None
      | Changed v \<Rightarrow>
          \<exists>i f. map_of (ss_retained st) i = Some f \<and> st' = retain st i (fs_record f) (\<not> fs_paused f) \<and>
                v = scheduleView (fs_record f) (sv_viewNow env) (\<not> fs_paused f)
      | Uncertain \<Rightarrow> True
      | Refused \<Rightarrow> st' = st)"

definition command_ok ::
  "schedule_env \<Rightarrow> schedule_world \<Rightarrow> schedule_state \<Rightarrow> schedule_world \<Rightarrow> schedule_reply \<Rightarrow> bool" where
  "command_ok env w st w' reply \<longleftrightarrow>
     (\<exists>st'. schedule_stream (sw_session w') = Inr st' \<and> reply_ok env st st' reply \<and>
        (se_log (sw_session w') = se_log (sw_session w) \<and> st' = st \<or>
         (\<exists>e c. se_log (sw_session w') = se_log (sw_session w) @ [e] \<and> ev_data e = change_data c \<and>
            schedule_change_wf c \<and> apply_schedule_change st c = Inr st' \<and> reply \<noteq> Refused)))"

lemma drive_session [simp]:
  "sw_session (requestDrive w) = sw_session w" "sw_session (drive_if live w) = sw_session w"
  by (simp_all add: requestDrive_def drive_if_def)

lemma find_retained:
  "list_all (retained_ok seen) xs \<Longrightarrow> List.find (\<lambda>f. sr_id (fs_record f) = i) (map snd xs) = map_of xs i"
  by (induction xs) (auto simp: retained_ok_def)

lemma retained_find:
  assumes "schedule_inv lg st"
  shows "list_ex (\<lambda>f. sr_id (fs_record f) = i) (folded_schedules st) \<longleftrightarrow> map_of (ss_retained st) i \<noteq> None"
    and "find_schedule st i = map_of (ss_retained st) i"
proof -
  have f: "List.find (\<lambda>f. sr_id (fs_record f) = i) (folded_schedules st) = map_of (ss_retained st) i"
    using assms find_retained unfolding folded_schedules_def schedule_inv_def by blast
  then show "find_schedule st i = map_of (ss_retained st) i" by (simp add: find_schedule_def)
  show "list_ex (\<lambda>f. sr_id (fs_record f) = i) (folded_schedules st) \<longleftrightarrow> map_of (ss_retained st) i \<noteq> None"
    unfolding f [symmetric] by (auto simp: find_None_iff list_ex_iff)
qed

lemma create_record_ok:
  assumes "create_record zone fmt env i a = Inr r" "trimmed i" "time_clip (sv_now env) \<noteq> None"
  shows "record_wf r \<and> sr_id r = i \<and> future_target r (sv_now env)"
  using assms createAt_ok createAfter_ok createEvery_ok
  by (auto simp: create_record_def split: option.splits)

lemma retain_new:
  assumes "schedule_inv lg st" "i \<notin> set (ss_seen st)"
  shows "map_set i v (ss_retained st) = ss_retained st @ [(i, v)]"
  by (rule map_set_new) (use assms in \<open>auto simp: schedule_inv_def list_all_iff retained_ok_def map_of_eq_None_iff\<close>)

lemma unwritten_ok:
  "schedule_stream (sw_session w) = Inr st \<Longrightarrow> sw_session w' = sw_session w \<Longrightarrow> reply_ok env st st reply \<Longrightarrow>
   command_ok env w st w' reply"
  by (auto simp: command_ok_def)

lemma refused_ok: "schedule_stream (sw_session w) = Inr st \<Longrightarrow> sw_session w' = sw_session w \<Longrightarrow> reply \<in> {Refused, Uncertain} \<Longrightarrow>
   command_ok env w st w' reply"
  by (rule unwritten_ok) (auto simp: reply_ok_def)

text \<open>An attempted append: refused with the log unchanged, or written and answered.\<close>

lemma appended_ok:
  assumes "append_change env w c = (w1, ok)" "schedule_stream (sw_session w) = Inr st" "schedule_change_wf c"
    and "sw_session w = sw_session w0"
    and "\<not> ok \<Longrightarrow> sw_session w' = sw_session w1 \<and> reply = Refused"
    and "\<And>st'. ok \<Longrightarrow> apply_schedule_change st c = Inr st' \<Longrightarrow> sw_session w' = sw_session w1 \<and> reply \<noteq> Refused \<and> reply_ok env st st' reply"
  shows "command_ok env w0 st w' reply"
  using assms(1-3)
proof (cases rule: append_change_cases)
  case Rejected
  with assms(4,5) show ?thesis by (auto simp: command_ok_def reply_ok_def)
next
  case (Written e st')
  with assms(4) assms(6) [of st'] show ?thesis unfolding command_ok_def
    by (intro exI [of _ st'] conjI disjI2 exI [of _ e] exI [of _ c]) (use assms(3) in auto)
qed

lemma create_command_ok:
  assumes st: "schedule_stream (sw_session w) = Inr st" and clock: "time_clip (sv_now env) \<noteq> None"
    and run: "run_schedule_command zone fmt live env w (CreateCommand a) = (w', reply)"
  shows "command_ok env w st w' reply"
proof (cases "sv_sameAgent env \<and> validateCreateArgs a = None \<and> \<not> sv_abortedAtTurn env \<and> sv_preflight env")
  case False
  moreover have "validateCreateArgs a = Some err \<Longrightarrow> tool_failure err = Refused" for err
    by (auto simp: validateCreateArgs_def split: if_splits option.splits)
  ultimately show ?thesis using run by (intro refused_ok [OF st]) (auto simp: schedule_create_def split: option.splits if_splits)
next
  case True
  define i where "i = allocateScheduleId st"
  have fold: "foldForTool (requestDrive w) = Inr st" using st by (simp add: foldForTool_def)
  have inv: "schedule_inv (se_log (sw_session w)) st" using foldScheduleEvents_inv st by (auto simp: schedule_stream_def)
  show ?thesis
  proof (cases "create_record zone fmt env i a")
    case (Inl code)
    with True fold run show ?thesis by (intro refused_ok [OF st]) (auto simp: schedule_create_def i_def [symmetric])
  next
    case (Inr r)
    have r: "record_wf r" "sr_id r = i" "future_target r (sv_now env)"
      using create_record_ok [OF Inr _ clock] allocate_trimmed by (simp_all add: i_def)
    show ?thesis
    proof (cases "sv_abortedBeforeAppend env")
      case aborted: True
      with True fold Inr run show ?thesis by (intro refused_ok [OF st]) (auto simp: schedule_create_def i_def [symmetric])
    next
      case False
      obtain w2 ok where w2: "append_change env (requestDrive w) (CreateChange r) = (w2, ok)" by fastforce
      from True fold Inr False run w2
      have res: "(w', reply) = (if \<not> ok then (w2, Refused) else if \<not> sv_postflight env then (w2, Uncertain)
          else (requestDrive w2, Created (scheduleView r (sv_viewNow env) False)))"
        by (auto simp: schedule_create_def i_def [symmetric] split: bool.splits)
      show ?thesis
        using w2
      proof (rule appended_ok)
        fix st' assume "ok" and ap: "apply_schedule_change st (CreateChange r) = Inr st'"
        then have "i \<notin> set (ss_seen st)" "st' = retain (st\<lparr>ss_seen := ss_seen st @ [i]\<rparr>) i r False"
          using r(2) by (auto split: if_splits)
        with \<open>ok\<close> r retain_new [OF inv, of i] res
        show "sw_session w' = sw_session w2 \<and> reply \<noteq> Refused \<and> reply_ok env st st' reply"
          by (auto simp: reply_ok_def retain_def split: if_splits)
      qed (use st r res in \<open>auto split: if_splits\<close>)
    qed
  qed
qed

lemma list_command_ok:
  assumes st: "schedule_stream (sw_session w) = Inr st" and run: "run_schedule_command zone fmt live env w ListCommand = (w', reply)"
  shows "command_ok env w st w' reply"
proof (cases "sv_sameAgent env \<and> \<not> sv_abortedAtTurn env \<and> sv_preflight env")
  case False
  then show ?thesis using run by (intro refused_ok [OF st]) (auto simp: schedule_list_def split: if_splits)
next
  case True
  have "foldForTool (requestDrive w) = Inr st" using st by (simp add: foldForTool_def)
  with True run show ?thesis by (intro unwritten_ok [OF st]) (auto simp: schedule_list_def reply_ok_def)
qed

text \<open>The two delete operations share their append.\<close>

lemma delete_append_ok:
  assumes st: "schedule_stream (sw_session w) = Inr st" and i: "trimmed i" "map_of (ss_retained st) i \<noteq> None"
    and w2: "append_change env w1 (DeleteChange i) = (w2, ok)" "sw_session w1 = sw_session w"
    and res: "sw_session w' = sw_session w2" "reply = (if \<not> ok then Refused else if flushed then Deleted i else Uncertain)"
  shows "command_ok env w st w' reply"
  using w2(1)
proof (rule appended_ok)
  fix st' assume "ok" "apply_schedule_change st (DeleteChange i) = Inr st'"
  with i res show "sw_session w' = sw_session w2 \<and> reply \<noteq> Refused \<and> reply_ok env st st' reply"
    by (auto simp: reply_ok_def)
qed (use st i res w2 in auto)

lemma delete_command_ok:
  assumes st: "schedule_stream (sw_session w) = Inr st" and run: "run_schedule_command zone fmt live env w (DeleteCommand i) = (w', reply)"
  shows "command_ok env w st w' reply"
proof (cases "trimmed i \<and> sv_sameAgent env \<and> \<not> sv_abortedAtTurn env \<and> sv_preflight env")
  case False
  then show ?thesis
    using run by (intro refused_ok [OF st]) (auto simp: schedule_delete_def trimmed_def split: if_splits)
next
  case True
  have fold: "foldForTool (requestDrive w) = Inr st" using st by (simp add: foldForTool_def)
  have "schedule_inv (se_log (sw_session w)) st" using foldScheduleEvents_inv st by (auto simp: schedule_stream_def)
  note find = retained_find(1) [OF this, of i]
  show ?thesis
  proof (cases "map_of (ss_retained st) i = None \<or> sv_abortedBeforeAppend env")
    case none: True
    with True fold find run show ?thesis
      by (intro unwritten_ok [OF st]) (auto simp: schedule_delete_def trimmed_def reply_ok_def split: if_splits)
  next
    case False
    obtain w2 ok where w2: "append_change env (requestDrive w) (DeleteChange i) = (w2, ok)" by fastforce
    from True fold find False run w2
    have "sw_session w' = sw_session w2"
      "reply = (if \<not> ok then Refused else if sv_postflight env then Deleted i else Uncertain)"
      by (auto simp: schedule_delete_def trimmed_def split: bool.splits if_splits)
    with False True show ?thesis by (intro delete_append_ok [OF st _ _ w2]) auto
  qed
qed

lemma remote_delete_ok:
  assumes st: "schedule_stream (sw_session w) = Inr st" and run: "run_schedule_command zone fmt live env w (RemoteDelete i) = (w', reply)"
  shows "command_ok env w st w' reply"
proof (cases "trimmed i \<and> sv_preflight env")
  case False
  then show ?thesis
    using run by (intro refused_ok [OF st]) (auto simp: delete_session_def assertId_def ensure_def trimmed_def split: if_splits)
next
  case True
  have fold: "mutation_fold (drive_if live w) = Inr st" using st by (simp add: mutation_fold_def)
  have "schedule_inv (se_log (sw_session w)) st" using foldScheduleEvents_inv st by (auto simp: schedule_stream_def)
  note find = retained_find(1) [OF this, of i]
  show ?thesis
  proof (cases "map_of (ss_retained st) i = None")
    case none: True
    with True fold find run show ?thesis
      by (intro refused_ok [OF st]) (auto simp: delete_session_def assertId_def trimmed_def)
  next
    case False
    obtain w2 ok where w2: "append_change env (drive_if live w) (DeleteChange i) = (w2, ok)" by fastforce
    from True fold find False run w2
    have "sw_session w' = sw_session w2"
      "reply = (if \<not> ok then Refused else if sv_postflight env then Deleted i else Uncertain)"
      by (auto simp: delete_session_def assertId_def trimmed_def Let_def split: bool.splits if_splits)
    with False True show ?thesis by (intro delete_append_ok [OF st _ _ w2]) auto
  qed
qed

lemma remote_change_ok:
  assumes st: "schedule_stream (sw_session w) = Inr st" and run: "run_schedule_command zone fmt live env w (RemoteChange i pause) = (w', reply)"
  shows "command_ok env w st w' reply"
proof (cases "trimmed i \<and> sv_preflight env")
  case False
  then show ?thesis
    using run by (intro refused_ok [OF st]) (auto simp: change_session_def assertId_def ensure_def trimmed_def split: if_splits)
next
  case True
  have "schedule_inv (se_log (sw_session w)) st" using foldScheduleEvents_inv st by (auto simp: schedule_stream_def)
  note find = retained_find(2) [OF this, of i]
  have fold: "retainedForChange (drive_if live w) i (\<not> pause) = (case map_of (ss_retained st) i of
      None \<Rightarrow> Inl MutationNotFound | Some f \<Rightarrow> if fs_paused f = pause then Inl MutationInvalidTransition else Inr f)"
    using st find by (auto simp: retainedForChange_def mutation_fold_def split: option.splits)
  show ?thesis
  proof (cases "\<exists>f. map_of (ss_retained st) i = Some f \<and> fs_paused f \<noteq> pause")
    case none: False
    with True fold run show ?thesis
      by (intro refused_ok [OF st]) (auto simp: change_session_def assertId_def trimmed_def split: option.splits if_splits)
  next
    case some: True
    then obtain f where f: "map_of (ss_retained st) i = Some f" "fs_paused f = (\<not> pause)" by blast
    let ?c = "if pause then PauseChange i else ResumeChange i"
    obtain w2 ok where w2: "append_change env (drive_if live w) ?c = (w2, ok)" by fastforce
    from True fold f run w2
    have res: "sw_session w' = sw_session w2"
      "reply = (if \<not> ok then Refused else if sv_postflight env then Changed (scheduleView (fs_record f) (sv_viewNow env) pause) else Uncertain)"
      by (auto simp: change_session_def assertId_def trimmed_def Let_def split: bool.splits if_splits)
    show ?thesis
      using w2
    proof (rule appended_ok)
      fix st' assume "ok" "apply_schedule_change st ?c = Inr st'"
      with f res show "sw_session w' = sw_session w2 \<and> reply \<noteq> Refused \<and> reply_ok env st st' reply"
        by (auto simp: reply_ok_def intro!: exI [of _ i] exI [of _ f] split: if_splits)
    qed (use st True res in auto)
  qed
qed


definition sample_schedule_env :: schedule_env where
  "sample_schedule_env =
     \<lparr>sv_sameAgent = True, sv_abortedAtTurn = False, sv_preflight = True, sv_abortedBeforeAppend = False,
      sv_appending = False, sv_otherVeto = (\<lambda>_. False), sv_eventNow = 1704067200000, sv_now = 1704067200000,
      sv_postflight = True, sv_viewNow = 1704067200000\<rparr>"

definition sample_create :: create_args where
  "sample_create = \<lparr>ca_keys = [''prompt'', ''every_seconds''], ca_prompt = '' stretch '', ca_after_seconds = None,
     ca_at = None, ca_every_seconds = Some (JsFin 300)\<rparr>"

definition sample_schedule_world :: schedule_world where
  "sample_schedule_world = \<lparr>sw_session = blank_session (sample_header\<lparr>sh_seedLength := None\<rparr>), sw_drives = 0\<rparr>"


end
