(* ===== verification/Schedule_Runtime.thy ===== *)
theory Schedule_Runtime
  imports Schedule_Service Schedule_Framing "HOL-Library.Product_Lexorder"
begin

text \<open>
  The live reminder driver of \<open>schedule/schedule/src/runtime.ts\<close>: the due decision, the armed timer, and
  one serialized drive that checkpoints, folds, arms or claims the idle agent, sends the framed
  reminder and appends its dispatches. A drive is a transition of the session, of the runtime flags
  and of the messages queued with the agent; liveness of the agent, checkpoint answers, a busy agent
  and failing followups are the environment. The theorems show that what a drive dispatches is what
  was due and always replays, and that with a cooperating environment repeated drives at one clock
  reading deliver every due reminder and end in a wait.
\<close>

section \<open>The due decision\<close>

definition MAX_TIMER_DELAY_MS :: int where
  "MAX_TIMER_DELAY_MS = 2147483647"

datatype due_decision =
    DueOneShot schedule_record
  | DueEvery "(schedule_record \<times> string) list" string
  | DueWait "int option"

fun is_every :: "schedule_record \<Rightarrow> bool" where
  "is_every (EveryRecord _ _ _ _) = True"
| "is_every _ = False"

definition target_of :: "schedule_record \<Rightarrow> int option" where
  "target_of r = Date_parse (sr_scheduledAt r)"

text \<open>A comparison with an unparseable target is false.\<close>

definition due :: "int \<Rightarrow> schedule_record \<Rightarrow> bool" where
  "due now r = (case target_of r of Some t \<Rightarrow> t \<le> now | None \<Rightarrow> False)"

definition by_target_then_create :: "nat \<times> schedule_record \<Rightarrow> int \<times> nat" where
  "by_target_then_create p = (case target_of (snd p) of Some t \<Rightarrow> t | None \<Rightarrow> 0, fst p)"

definition due_sorted :: "(schedule_record \<Rightarrow> bool) \<Rightarrow> schedule_record list \<Rightarrow> int \<Rightarrow> schedule_record list" where
  "due_sorted kind rs now =
     map snd (sort_key by_target_then_create (filter (\<lambda>p. kind (snd p) \<and> due now (snd p)) (enumerate 0 rs)))"

fun occurrence_of :: "schedule_record \<Rightarrow> int \<Rightarrow> schedule_log_error + string" where
  "occurrence_of (EveryRecord i p n s) now = bind_result (resolveEveryOccurrence s n now) (\<lambda>eo. Inr (eo_occurrenceAt eo))"
| "occurrence_of r now = Inl OccurrenceArithmetic"

fun resolve_reminders :: "schedule_record list \<Rightarrow> int \<Rightarrow> schedule_log_error + (schedule_record \<times> string) list" where
  "resolve_reminders [] now = Inr []"
| "resolve_reminders (r # rs) now =
     bind_result (occurrence_of r now) (\<lambda>s. bind_result (resolve_reminders rs now) (\<lambda>ps. Inr ((r, s) # ps)))"

fun next_wake :: "schedule_record list \<Rightarrow> int \<Rightarrow> int option \<Rightarrow> int option" where
  "next_wake [] now sel = sel"
| "next_wake (r # rs) now sel =
     next_wake rs now
       (case target_of r of
          Some c \<Rightarrow> if now < c \<and> (case sel of None \<Rightarrow> True | Some s \<Rightarrow> c < s) then Some c else sel
        | None \<Rightarrow> sel)"

definition dueDecision :: "schedule_state \<Rightarrow> int \<Rightarrow> schedule_log_error + due_decision" where
  "dueDecision st now =
     (let active = active_records st in
      case due_sorted (\<lambda>r. \<not> is_every r) active now of
        r # _ \<Rightarrow> Inr (DueOneShot r)
      | [] \<Rightarrow>
          let every = due_sorted is_every active now in
          if 0 < length every then
            bind_result (iso_result now) (\<lambda>acceptedAt.
            bind_result (resolve_reminders every now) (\<lambda>reminders. Inr (DueEvery reminders acceptedAt)))
          else Inr (DueWait (next_wake active now None)))"

section \<open>One drive\<close>

record runtime_state =
  rs_timer :: "int option"
  rs_requested :: bool
  rs_stopping :: bool
  rs_faulted :: bool
  rs_idleWait :: bool

record drive_world =
  dw_world :: schedule_world
  dw_runtime :: runtime_state
  dw_followups :: "string list"

record drive_env =
  de_live :: bool
  de_preflight :: bool
  de_liveAfterPreflight :: bool
  de_wakeNow :: int
  de_busy :: bool
  de_decisionNow :: int
  de_followupOk :: bool
  de_append :: schedule_env
  de_barrier :: bool
  de_liveAfterBarrier :: bool

definition set_runtime :: "(runtime_state \<Rightarrow> runtime_state) \<Rightarrow> drive_world \<Rightarrow> drive_world" where
  "set_runtime f d = d\<lparr>dw_runtime := f (dw_runtime d)\<rparr>"

definition clearTimer :: "drive_world \<Rightarrow> drive_world" where
  "clearTimer = set_runtime (\<lambda>r. r\<lparr>rs_timer := None\<rparr>)"

definition arm :: "int \<Rightarrow> int \<Rightarrow> drive_world \<Rightarrow> drive_world" where
  "arm target now = set_runtime (\<lambda>r. r\<lparr>rs_timer := Some (min (target - now) MAX_TIMER_DELAY_MS)\<rparr>)"

definition fault :: "drive_world \<Rightarrow> drive_world" where
  "fault = set_runtime (\<lambda>r. r\<lparr>rs_faulted := True\<rparr>)"

definition waitForIdle :: "drive_world \<Rightarrow> drive_world" where
  "waitForIdle = set_runtime (\<lambda>r. r\<lparr>rs_idleWait := True\<rparr>)"

text \<open>\<open>requestDrive\<close>: ignored when stopping or faulted, otherwise it clears the timer and latches.\<close>

definition request_drive :: "drive_world \<Rightarrow> drive_world" where
  "request_drive d =
     (if rs_stopping (dw_runtime d) \<or> rs_faulted (dw_runtime d) then d
      else set_runtime (\<lambda>r. r\<lparr>rs_requested := True\<rparr>) (clearTimer d))"

definition readFolded :: "drive_world \<Rightarrow> drive_world \<times> schedule_state option" where
  "readFolded d =
     (case schedule_stream (sw_session (dw_world d)) of Inr st \<Rightarrow> (d, Some st) | Inl _ \<Rightarrow> (fault d, None))"

definition decide :: "schedule_state \<Rightarrow> int \<Rightarrow> due_decision option" where
  "decide st now = (case dueDecision st now of Inr dd \<Rightarrow> Some dd | Inl _ \<Rightarrow> None)"

definition arm_wait :: "int option \<Rightarrow> int \<Rightarrow> drive_world \<Rightarrow> drive_world" where
  "arm_wait target now d = (case target of Some t \<Rightarrow> arm t now d | None \<Rightarrow> d)"

fun decision_text :: "due_decision \<Rightarrow> string" where
  "decision_text (DueOneShot r) = renderReminderFraming r"
| "decision_text (DueEvery reminders acceptedAt) = renderEveryReminderBatchFraming reminders"
| "decision_text (DueWait target) = []"

fun decision_changes :: "due_decision \<Rightarrow> schedule_change list" where
  "decision_changes (DueOneShot r) = [DispatchChange (sr_id r) None]"
| "decision_changes (DueEvery reminders acceptedAt) = map (\<lambda>p. DispatchChange (sr_id (fst p)) (Some acceptedAt)) reminders"
| "decision_changes (DueWait target) = []"

text \<open>The dispatch loop stops at the first append that throws; earlier ones stay.\<close>

fun append_all :: "schedule_env \<Rightarrow> schedule_world \<Rightarrow> schedule_change list \<Rightarrow> schedule_world \<times> bool" where
  "append_all env w [] = (w, True)"
| "append_all env w (c # cs) =
     (case append_change env w c of (w', True) \<Rightarrow> append_all env w' cs | (w', False) \<Rightarrow> (w', False))"

definition maintenance_body :: "drive_env \<Rightarrow> drive_world \<Rightarrow> drive_world \<times> bool" where
  "maintenance_body env d =
     (if rs_stopping (dw_runtime d) \<or> \<not> de_liveAfterPreflight env then (d, False)
      else case readFolded d of
        (d1, None) \<Rightarrow> (d1, False)
      | (d1, Some claimed) \<Rightarrow>
          (case decide claimed (de_decisionNow env) of
             None \<Rightarrow> (d1, False)
           | Some (DueWait target) \<Rightarrow> (arm_wait target (de_decisionNow env) d1, False)
           | Some dd \<Rightarrow>
               if \<not> de_followupOk env then (d1, False)
               else let d2 = d1\<lparr>dw_followups := dw_followups d1 @ [decision_text dd]\<rparr> in
                 case append_all (de_append env) (dw_world d2) (decision_changes dd) of
                   (w, False) \<Rightarrow> (clearTimer (fault (d2\<lparr>dw_world := w\<rparr>)), False)
                 | (w, True) \<Rightarrow> (d2\<lparr>dw_world := w\<rparr>, True)))"

definition driveOnce :: "drive_env \<Rightarrow> drive_world \<Rightarrow> drive_world" where
  "driveOnce env d =
     (let d0 = clearTimer d; stopping = rs_stopping (dw_runtime d) in
      if stopping \<or> \<not> de_live env then d0
      else if \<not> de_preflight env then d0
      else if \<not> de_liveAfterPreflight env then d0
      else case readFolded d0 of
        (d1, None) \<Rightarrow> d1
      | (d1, Some folded) \<Rightarrow>
          (case decide folded (de_wakeNow env) of
             None \<Rightarrow> d1
           | Some (DueWait target) \<Rightarrow> arm_wait target (de_wakeNow env) d1
           | Some _ \<Rightarrow>
               if de_busy env then (if de_liveAfterPreflight env then waitForIdle d1 else d1)
               else case maintenance_body env d1 of
                 (d2, False) \<Rightarrow> d2
               | (d2, True) \<Rightarrow>
                   if \<not> de_barrier env then d2
                   else if de_liveAfterBarrier env then request_drive d2 else d2))"

text \<open>The serialized loop over coalesced triggers, with the number of drives it may take.\<close>

fun runRequested :: "drive_env \<Rightarrow> nat \<Rightarrow> drive_world \<Rightarrow> drive_world option" where
  "runRequested env fuel d =
     (if rs_requested (dw_runtime d) \<and> \<not> rs_stopping (dw_runtime d) \<and> \<not> rs_faulted (dw_runtime d) then
        (case fuel of
           0 \<Rightarrow> None
         | Suc n \<Rightarrow> runRequested env n (driveOnce env (set_runtime (\<lambda>r. r\<lparr>rs_requested := False\<rparr>) d)))
      else Some d)"

declare runRequested.simps [simp del]

section \<open>Due records\<close>

definition due_records :: "schedule_state \<Rightarrow> int \<Rightarrow> schedule_record list" where
  "due_records st now = filter (due now) (active_records st)"

definition due_of :: "int \<Rightarrow> (schedule_id \<times> folded_schedule) list \<Rightarrow> schedule_record list" where
  "due_of now xs = filter (due now) (map fs_record (filter (\<lambda>f. \<not> fs_paused f) (map snd xs)))"

lemma due_records_of: "due_records st now = due_of now (ss_retained st)"
  by (simp add: due_records_def due_of_def active_records_def folded_schedules_def)

lemma active_retained:
  assumes "schedule_inv lg st" "r \<in> set (active_records st)"
  shows "record_wf r \<and> map_of (ss_retained st) (sr_id r) = Some \<lparr>fs_record = r, fs_paused = False\<rparr>"
proof -
  from assms(2) obtain i f where f: "(i, f) \<in> set (ss_retained st)" "fs_record f = r" "\<not> fs_paused f"
    by (auto simp: active_records_def folded_schedules_def)
  with assms(1) have "i = sr_id r" "record_wf r" "map_of (ss_retained st) i = Some f"
    by (auto simp: schedule_inv_def list_all_iff retained_ok_def)
  moreover have "f = \<lparr>fs_record = r, fs_paused = False\<rparr>" using f by (cases f) simp
  ultimately show ?thesis by simp
qed

lemma active_ids: "list_all (retained_ok seen) xs \<Longrightarrow>
   map sr_id (map fs_record (filter (\<lambda>f. \<not> fs_paused f) (map snd xs))) = map_keys (filter (\<lambda>p. \<not> fs_paused (snd p)) xs)"
  by (induction xs) (auto simp: retained_ok_def)

lemma active_ids_distinct: "schedule_inv lg st \<Longrightarrow> distinct (map sr_id (active_records st))"
  using active_ids [of "ss_seen st" "ss_retained st"] distinct_map_filter [of fst "ss_retained st"]
  unfolding active_records_def folded_schedules_def schedule_inv_def by metis

text \<open>Dispatching a due record takes exactly that record off the due list.\<close>

lemma due_of_delete:
  "list_all (retained_ok seen) xs \<Longrightarrow> due_of now (map_delete i xs) = filter (\<lambda>r. sr_id r \<noteq> i) (due_of now xs)"
proof (induction xs)
  case (Cons a xs)
  then show ?case
    by (cases "i = fst a") (simp_all add: due_of_def retained_ok_def AList.delete_eq case_prod_unfold)
qed (simp add: due_of_def)

lemma due_of_set:
  "list_all (retained_ok seen) xs \<Longrightarrow> distinct (map_keys xs) \<Longrightarrow> i \<in> set (map_keys xs) \<Longrightarrow> \<not> due now (fs_record f) \<Longrightarrow>
   due_of now (map_set i f xs) = filter (\<lambda>r. sr_id r \<noteq> i) (due_of now xs)"
proof (induction xs)
  case (Cons p xs)
  show ?case
  proof (cases "fst p = i")
    case True
    with Cons.prems have "i \<notin> set (map_keys xs)" by auto
    then have "filter (\<lambda>r. sr_id r \<noteq> i) (due_of now xs) = due_of now xs"
      using Cons.prems(1) by (induction xs) (auto simp: due_of_def retained_ok_def)
    with True Cons.prems show ?thesis by (cases p) (simp add: due_of_def retained_ok_def)
  next
    case False
    with Cons show ?thesis by (cases p) (simp add: due_of_def retained_ok_def)
  qed
qed simp

definition dispatch_of :: "int \<Rightarrow> schedule_record \<Rightarrow> schedule_change" where
  "dispatch_of now r = DispatchChange (sr_id r) (if is_every r then toISOString now else None)"

lemma dispatch_due:
  assumes inv: "schedule_inv lg st" and r: "r \<in> set (active_records st)" "due now r"
    and now: "is_every r \<Longrightarrow> in_four_digit_range now"
  shows "\<exists>st'. apply_schedule_change st (dispatch_of now r) = Inr st' \<and> schedule_change_wf (dispatch_of now r) \<and>
           due_records st' now = filter (\<lambda>q. sr_id q \<noteq> sr_id r) (due_records st now) \<and>
           (\<forall>q \<in> set (active_records st). sr_id q \<noteq> sr_id r \<longrightarrow> q \<in> set (active_records st'))"
proof -
  note a = active_retained [OF inv r(1)]
  have d: "distinct (map_keys (ss_retained st))" "list_all (retained_ok (ss_seen st)) (ss_retained st)"
    using inv by (simp_all add: schedule_inv_def)
  have tr: "trimmed (sr_id r)" using a by (cases r) simp_all
  have keep_del: "q \<in> set (active_records (st\<lparr>ss_retained := map_delete (sr_id r) (ss_retained st)\<rparr>))"
    if "q \<in> set (active_records st)" "sr_id q \<noteq> sr_id r" for q
    using that d(2) by (force simp: active_records_def folded_schedules_def AList.delete_eq list_all_iff retained_ok_def)
  show ?thesis
  proof (cases "is_every r")
    case False
    then have "advanceDispatchedSchedule r None = Inr None" by (cases r) (simp_all add: advanceDispatchedSchedule_def)
    with a tr False keep_del due_of_delete [OF d(2)] show ?thesis by (simp add: dispatch_of_def due_records_of)
  next
    case True
    then obtain i p n s where rec: "r = EveryRecord i p n s" by (cases r) simp_all
    have rng: "in_four_digit_range now" by (rule now [OF True])
    obtain ac where ac: "toISOString now = Some ac" using iso_result_range [OF rng] by blast
    note acc = canonical_toISOString [OF rng ac]
    obtain t0 where t0: "Date_parse s = Some t0" "t0 \<le> now" using r(2) by (auto simp: due_def target_of_def rec split: option.splits)
    obtain eo k where eo: "resolveEveryOccurrence s n now = Inr eo" "now < t0 + (k + 1) * (n * 1000)"
      "case eo_nextScheduledAt eo of Some s' \<Rightarrow> canonical_instant_text s' \<and> Date_parse s' = Some (t0 + (k + 1) * (n * 1000))
         | None \<Rightarrow> MAX_FOUR_DIGIT_YEAR_MS < t0 + (k + 1) * (n * 1000)"
      using resolveEveryOccurrence_aux [OF conjunct1 [OF a, unfolded rec] t0(1) rng t0(2)] by blast
    show ?thesis
    proof (cases "eo_nextScheduledAt eo")
      case None
      then have "advanceDispatchedSchedule r (Some ac) = Inr None"
        using acc eo(1) by (simp add: advanceDispatchedSchedule_def rec)
      with a tr True ac acc keep_del due_of_delete [OF d(2)] show ?thesis by (simp add: dispatch_of_def due_records_of)
    next
      case (Some s')
      let ?r' = "EveryRecord i p n s'"
      have adv: "advanceDispatchedSchedule r (Some ac) = Inr (Some ?r')"
        using acc eo(1) Some by (simp add: advanceDispatchedSchedule_def rec)
      have nd: "\<not> due now ?r'" using eo(2,3) Some by (simp add: due_def target_of_def)
      have key: "sr_id r \<in> set (map_keys (ss_retained st))" using a by (metis map_of_eq_None_iff option.distinct(1) set_map)
      have "due_of now (map_set (sr_id r) \<lparr>fs_record = ?r', fs_paused = False\<rparr> (ss_retained st))
          = filter (\<lambda>q. sr_id q \<noteq> sr_id r) (due_of now (ss_retained st))"
        by (rule due_of_set [OF d(2) d(1) key]) (simp add: nd)
      moreover have "q \<in> set (active_records (retain st (sr_id r) ?r' False))"
        if "q \<in> set (active_records st)" "sr_id q \<noteq> sr_id r" for q
      proof -
        have "map_of (map_set (sr_id r) \<lparr>fs_record = ?r', fs_paused = False\<rparr> (ss_retained st)) (sr_id q) = Some \<lparr>fs_record = q, fs_paused = False\<rparr>"
          using active_retained [OF inv that(1)] that(2) by simp
        from map_of_SomeD [OF this] show ?thesis
          by (force simp: active_records_def folded_schedules_def retain_def)
      qed
      ultimately show ?thesis using a tr True ac acc adv by (simp add: dispatch_of_def due_records_of retain_def)
    qed
  qed
qed

section \<open>The decision picks what is due\<close>

lemma enumerate_snd: "x \<in> set xs \<Longrightarrow> \<exists>i. (i, x) \<in> set (enumerate n xs)"
  by (induction xs arbitrary: n) auto

lemma due_sorted_set: "set (due_sorted kind rs now) = {r \<in> set rs. kind r \<and> due now r}"
proof -
  have "snd ` set (enumerate 0 rs) = set rs" by (metis list.set_map map_snd_enumerate)
  then show ?thesis unfolding due_sorted_def by (force simp: image_iff)
qed

lemma due_sorted_distinct:
  assumes "distinct (map sr_id rs)"
  shows "distinct (map sr_id (due_sorted kind rs now))"
proof -
  have "map (sr_id \<circ> snd) (enumerate 0 rs) = map sr_id rs"
    unfolding map_map [symmetric] map_snd_enumerate by (rule refl)
  then have "distinct (map (sr_id \<circ> snd) (filter (\<lambda>p. kind (snd p) \<and> due now (snd p)) (enumerate 0 rs)))"
    using assms distinct_map_filter by metis
  then show ?thesis by (simp add: due_sorted_def distinct_map)
qed

text \<open>The one-shot delivered first has the earliest target.\<close>

lemma due_sorted_first:
  assumes "due_sorted kind rs now = r # rest" "q \<in> set rs" "kind q" "due now q"
  shows "\<exists>t u. target_of r = Some t \<and> target_of q = Some u \<and> t \<le> u"
proof -
  let ?ps = "filter (\<lambda>p. kind (snd p) \<and> due now (snd p)) (enumerate 0 rs)"
  obtain p ps where s: "sort_key by_target_then_create ?ps = p # ps" "snd p = r"
    using assms(1) by (auto simp: due_sorted_def)
  obtain i where "(i, q) \<in> set (enumerate 0 rs)" using enumerate_snd [OF assms(2)] by blast
  then have q: "(i, q) \<in> set (sort_key by_target_then_create ?ps)" using assms(3,4) by simp
  have "p \<in> set ?ps" using s(1) by (metis list.set_intros(1) set_sort)
  then have r: "due now r" using s(2) by auto
  have "sorted (map by_target_then_create (p # ps))" using sorted_sort_key s(1) by metis
  with q s(1) have "by_target_then_create p \<le> by_target_then_create (i, q)" by auto
  with r assms(4) s(2) show ?thesis
    by (auto simp: by_target_then_create_def due_def split: option.splits)
qed

lemma resolve_reminders_fst: "resolve_reminders rs now = Inr ps \<Longrightarrow> map fst ps = rs"
  by (induction rs arbitrary: ps) (auto simp: result_simps)

lemma resolve_reminders_range:
  "resolve_reminders rs now = Inr ps \<Longrightarrow> r \<in> set rs \<Longrightarrow> in_four_digit_range now"
proof (induction rs arbitrary: ps)
  case (Cons q rs)
  have "occurrence_of q now = Inr s \<Longrightarrow> in_four_digit_range now" for s
    by (cases q) (auto simp: result_simps resolveEveryOccurrence_def Let_def)
  with Cons show ?case by (auto simp: result_simps)
qed simp

lemma resolve_reminders_ok:
  assumes "\<And>r. r \<in> set rs \<Longrightarrow> record_wf r \<and> is_every r \<and> due now r" "in_four_digit_range now"
  shows "\<exists>ps. resolve_reminders rs now = Inr ps"
  using assms(1)
proof (induction rs)
  case (Cons r rs)
  obtain i p n s where rec: "r = EveryRecord i p n s" "record_wf r" "due now r" using Cons.prems [of r] by (cases r) auto
  then obtain t0 where t0: "Date_parse s = Some t0" "t0 \<le> now" by (auto simp: due_def target_of_def split: option.splits)
  from resolveEveryOccurrence_aux [OF rec(2) [unfolded rec(1)] t0(1) assms(2) t0(2)] Cons rec(1) show ?case by auto
qed simp

text \<open>What a decision that is not a wait dispatches.\<close>

definition dispatched :: "due_decision \<Rightarrow> schedule_record list" where
  "dispatched dd = (case dd of DueOneShot r \<Rightarrow> [r] | DueEvery ps _ \<Rightarrow> map fst ps | DueWait _ \<Rightarrow> [])"

lemma dueDecision_ok:
  assumes inv: "schedule_inv lg st" and dd: "dueDecision st now = Inr dd"
  shows "decision_changes dd = map (dispatch_of now) (dispatched dd)"
    and "set (dispatched dd) \<subseteq> set (due_records st now)" "distinct (map sr_id (dispatched dd))"
    and "\<forall>r \<in> set (dispatched dd). is_every r \<longrightarrow> in_four_digit_range now"
    and "dispatched dd = [] \<longleftrightarrow> dd = DueWait (next_wake (active_records st) now None)"
    and "dispatched dd = [] \<longleftrightarrow> due_records st now = []"
    and "(\<exists>ps a. dd = DueEvery ps a) \<Longrightarrow> set (dispatched dd) = set (due_records st now)"
proof -
  have due: "set (due_records st now) = {r \<in> set (active_records st). due now r}" by (auto simp: due_records_def)
  note dist = due_sorted_distinct [OF active_ids_distinct [OF inv]]
  let ?one = "due_sorted (\<lambda>r. \<not> is_every r) (active_records st) now"
  let ?every = "due_sorted is_every (active_records st) now"
  consider (one) r rest where "?one = r # rest" "dd = DueOneShot r"
    | (every) ps ac where "?one = []" "?every \<noteq> []" "iso_result now = Inr ac" "resolve_reminders ?every now = Inr ps" "dd = DueEvery ps ac"
    | (wait) "?one = []" "?every = []" "dd = DueWait (next_wake (active_records st) now None)"
    using dd by (auto simp: dueDecision_def Let_def result_simps split: list.splits if_splits)
  then have "decision_changes dd = map (dispatch_of now) (dispatched dd) \<and>
      set (dispatched dd) \<subseteq> set (due_records st now) \<and> distinct (map sr_id (dispatched dd)) \<and>
      (\<forall>r \<in> set (dispatched dd). is_every r \<longrightarrow> in_four_digit_range now) \<and>
      (dispatched dd = [] \<longleftrightarrow> dd = DueWait (next_wake (active_records st) now None)) \<and>
      (dispatched dd = [] \<longleftrightarrow> due_records st now = []) \<and>
      ((\<exists>ps a. dd = DueEvery ps a) \<longrightarrow> set (dispatched dd) = set (due_records st now))"
  proof cases
    case (one r rest)
    then have "r \<in> set ?one" by simp
    then have r: "r \<in> set (active_records st)" "\<not> is_every r" "due now r" by (auto simp: due_sorted_set)
    then have "due_records st now \<noteq> []" using due by force
    with one r due show ?thesis by (auto simp: dispatched_def dispatch_of_def)
  next
    case (every ps ac)
    have fst: "map fst ps = ?every" by (rule resolve_reminders_fst [OF every(4)])
    have ac: "toISOString now = Some ac" using every(3) by (auto simp: iso_result_def split: option.splits)
    have none: "{r \<in> set (active_records st). \<not> is_every r \<and> due now r} = {}" using due_sorted_set every(1) by (metis list.set(1))
    have sets: "set (dispatched dd) = set (due_records st now)"
      using none every(5) fst due due_sorted_set [of is_every "active_records st" now] by (auto simp: dispatched_def)
    have "decision_changes dd = map (dispatch_of now) (map fst ps)"
    proof -
      have "is_every (fst q)" if "q \<in> set ps" for q
        using that fst due_sorted_set [of is_every "active_records st" now] by (metis (mono_tags, lifting) imageI list.set_map mem_Collect_eq)
      then show ?thesis using every(5) ac by (auto simp: dispatch_of_def)
    qed
    moreover have "dispatched dd \<noteq> []" using every(2,5) fst by (auto simp: dispatched_def)
    moreover have "distinct (map sr_id (dispatched dd))" using dist every(5) fst by (simp add: dispatched_def)
    moreover have "in_four_digit_range now" if "r \<in> set (dispatched dd)" for r
      using resolve_reminders_range [OF every(4)] that every(5) fst by (simp add: dispatched_def)
    ultimately show ?thesis using sets every(5) by (auto simp: dispatched_def)
  next
    case wait
    then have "{r \<in> set (active_records st). \<not> is_every r \<and> due now r} = {}" "{r \<in> set (active_records st). is_every r \<and> due now r} = {}"
      using due_sorted_set by (metis list.set(1))+
    then have "due_records st now = []" unfolding set_empty [symmetric] due by blast
    with wait show ?thesis by (simp add: dispatched_def)
  qed
  then show "decision_changes dd = map (dispatch_of now) (dispatched dd)"
    and "set (dispatched dd) \<subseteq> set (due_records st now)" "distinct (map sr_id (dispatched dd))"
    and "\<forall>r \<in> set (dispatched dd). is_every r \<longrightarrow> in_four_digit_range now"
    and "dispatched dd = [] \<longleftrightarrow> dd = DueWait (next_wake (active_records st) now None)"
    and "dispatched dd = [] \<longleftrightarrow> due_records st now = []"
    and "(\<exists>ps a. dd = DueEvery ps a) \<Longrightarrow> set (dispatched dd) = set (due_records st now)"
    by blast+
qed

lemma dueDecision_total:
  assumes inv: "schedule_inv lg st" and now: "in_four_digit_range now"
  shows "\<exists>dd. dueDecision st now = Inr dd"
proof -
  obtain ac where ac: "iso_result now = Inr ac" using iso_result_range [OF now] by blast
  have "\<exists>ps. resolve_reminders (due_sorted is_every (active_records st) now) now = Inr ps"
    by (rule resolve_reminders_ok [OF _ now]) (use active_retained [OF inv] in \<open>auto simp: due_sorted_set\<close>)
  with ac show ?thesis by (auto simp: dueDecision_def Let_def split: list.splits)
qed

section \<open>Appending the dispatches\<close>

definition cooperative :: "schedule_env \<Rightarrow> bool" where
  "cooperative env \<longleftrightarrow> \<not> sv_appending env \<and> (\<forall>e. \<not> sv_otherVeto env e)"

lemma append_change_succeeds:
  assumes ok: "session_ok (sw_session w)" and st: "schedule_stream (sw_session w) = Inr st" and c: "schedule_change_wf c"
    and ap: "apply_schedule_change st c = Inr st'" and env: "cooperative env"
  shows "\<exists>w'. append_change env w c = (w', True) \<and> session_ok (sw_session w')"
proof -
  let ?s = "sw_session w"
  let ?o = "\<lparr>ao_surfaceOp = None, ao_sourceEventSeqs = None, ao_ignorable = False\<rparr>"
  let ?veto = "\<lambda>e. schedule_invariant_veto ?s e \<or> sv_otherVeto env e"
  define e where "e = candidate_event ?s (sv_eventNow env) (change_data c) ?o"
  have data: "ev_data e = change_data c" by (simp add: e_def candidate_event_def)
  have "foldScheduleEvents (se_log ?s @ [e]) (schedule_seed ?s) = Inr st'"
    using foldScheduleEvents_snoc [OF st [unfolded schedule_stream_def], of e] encoded_change [OF c] ap
    by (simp add: schedule_step_def data change_data_def)
  then have veto: "\<not> ?veto e" using env by (simp add: schedule_invariant_veto_def cooperative_def)
  from ok obtain p where run: "manager_run (se_surface ?s) (se_log ?s)" "foldSurface (se_log ?s) = Inr p"
    by (auto simp: session_ok_def)
  have "\<exists>q. foldSurface (se_log ?s @ [e]) = Inr q"
  proof -
    obtain ns reps where "p = (ns, reps)" by (cases p)
    with run(2) obtain sf where "surface.project (se_log ?s) = Inr (sf, reps)" by (auto simp: foldSurface_Inr)
    moreover have "planSurfaceEvent sf e (int (length (se_log ?s))) (se_log ?s) 0 = Inr None"
      by (simp add: planSurfaceEvent_def surfaceOpOf_def data change_data_def isSurfaceEligibleType_def surface_event_types_def)
        (simp add: e_def candidate_event_def)
    ultimately show ?thesis
      by (simp add: foldSurface_project surface.project_snoc surface_step_def applySurfaceEvent_def)
  qed
  then obtain m where v: "validateNext (se_surface ?s) (se_log ?s) e = (m, None)"
    using validateNext_fold [OF run, of e] by (cases "validateNext (se_surface ?s) (se_log ?s) e") auto
  have a: "session_append ?s (sv_appending env) ?veto (sv_eventNow env) (change_data c) ?o
      = (?s\<lparr>se_surface := m, se_log := se_log ?s @ [e], se_eventsSnapshot := None\<rparr>, Inr e)"
    using env v veto unfolding e_def
    by (simp add: session_append_def assertSupportedRequestHeader_def change_data_def cooperative_def Let_def)
  with session_append_ok [OF ok a] show ?thesis by (simp add: append_change_def Let_def)
qed

text \<open>
  A list of due records with distinct identities dispatches one after the other; each takes itself off
  the due list and leaves the others on it.
\<close>

lemma append_all_due:
  assumes "schedule_stream (sw_session w) = Inr st" "set rs \<subseteq> set (due_records st now)" "distinct (map sr_id rs)"
    and now: "\<forall>r \<in> set rs. is_every r \<longrightarrow> in_four_digit_range now"
    and run: "append_all env w (map (dispatch_of now) rs) = (w', ok)"
  shows "\<exists>k st' es. k \<le> length rs \<and> (ok \<longrightarrow> k = length rs) \<and> schedule_stream (sw_session w') = Inr st' \<and>
      se_log (sw_session w') = se_log (sw_session w) @ es \<and> map ev_data es = map (change_data \<circ> dispatch_of now) (take k rs) \<and>
      due_records st' now = filter (\<lambda>q. sr_id q \<notin> sr_id ` set (take k rs)) (due_records st now) \<and>
      (session_ok (sw_session w) \<and> cooperative env \<longrightarrow> ok \<and> session_ok (sw_session w'))"
  using assms
proof (induction rs arbitrary: w st)
  case Nil
  then show ?case by (intro exI [of _ 0] exI [of _ st] exI [of _ "[]"]) simp
next
  case (Cons r rs)
  have inv: "schedule_inv (se_log (sw_session w)) st" using foldScheduleEvents_inv Cons.prems(1) by (auto simp: schedule_stream_def)
  have r: "r \<in> set (active_records st)" "due now r" using Cons.prems(2) by (auto simp: due_records_def)
  obtain st1 where st1: "apply_schedule_change st (dispatch_of now r) = Inr st1" "schedule_change_wf (dispatch_of now r)"
    "due_records st1 now = filter (\<lambda>q. sr_id q \<noteq> sr_id r) (due_records st now)"
    using dispatch_due [OF inv r] Cons.prems(4) by auto
  obtain w1 ok1 where w1: "append_change env w (dispatch_of now r) = (w1, ok1)" by fastforce
  from w1 Cons.prems(1) st1(2) show ?case
  proof (cases rule: append_change_cases)
    case Rejected
    have "w' = w1" "\<not> ok" using Cons.prems(5) w1 Rejected by simp_all
    moreover have "\<not> (session_ok (sw_session w) \<and> cooperative env)"
      using append_change_succeeds [OF _ Cons.prems(1) st1(2,1), of env] w1 Rejected(1) by auto
    ultimately show ?thesis using Rejected by (intro exI [of _ 0] exI [of _ st] exI [of _ "[]"]) simp
  next
    case (Written e st1')
    have e: "st1' = st1" "append_all env w1 (map (dispatch_of now) rs) = (w', ok)"
      using Written st1(1) Cons.prems(5) w1 by simp_all
    have "sr_id x \<noteq> sr_id r" if "x \<in> set rs" for x using Cons.prems(3) that by (simp, metis imageI)
    then have sub: "set rs \<subseteq> set (due_records st1 now)" "distinct (map sr_id rs)" using Cons.prems(2,3) st1(3) by auto
    have ok': "session_ok (sw_session w) \<and> cooperative env \<Longrightarrow> session_ok (sw_session w1)"
      using append_change_succeeds [OF _ Cons.prems(1) st1(2,1), of env] w1 by auto
    obtain k st' es where k: "k \<le> length rs" "ok \<longrightarrow> k = length rs" "schedule_stream (sw_session w') = Inr st'"
      "se_log (sw_session w') = se_log (sw_session w1) @ es" "map ev_data es = map (change_data \<circ> dispatch_of now) (take k rs)"
      "due_records st' now = filter (\<lambda>q. sr_id q \<notin> sr_id ` set (take k rs)) (due_records st1 now)"
      "session_ok (sw_session w1) \<and> cooperative env \<longrightarrow> ok \<and> session_ok (sw_session w')"
      using Cons.IH [OF Written(4) [unfolded e(1)] sub _ e(2)] Cons.prems(4) by (metis list.set_intros(2))
    have "due_records st' now = filter (\<lambda>q. sr_id q \<notin> sr_id ` set (take (Suc k) (r # rs))) (due_records st now)"
      unfolding k(6) st1(3) filter_filter by (rule filter_cong) auto
    with k ok' Written show ?thesis by (intro exI [of _ "Suc k"] exI [of _ st'] exI [of _ "e # es"]) auto
  qed
qed

section \<open>Drives\<close>

abbreviation dw_session :: "drive_world \<Rightarrow> session" where
  "dw_session d \<equiv> sw_session (dw_world d)"

lemma runtime_frame [simp]:
  "dw_world (set_runtime f d) = dw_world d" "dw_followups (set_runtime f d) = dw_followups d"
  "dw_runtime (set_runtime f d) = f (dw_runtime d)"
  by (simp_all add: set_runtime_def)

lemmas runtime_defs = clearTimer_def arm_def fault_def waitForIdle_def request_drive_def arm_wait_def

lemma request_drive_frame [simp]:
  "dw_world (request_drive d) = dw_world d" "dw_followups (request_drive d) = dw_followups d"
  by (simp_all add: runtime_defs)

lemma arm_wait_frame [simp]:
  "dw_world (arm_wait t now d) = dw_world d" "dw_followups (arm_wait t now d) = dw_followups d"
  by (simp_all add: runtime_defs split: option.splits)

text \<open>
  What one drive may do to a stream that folds to \<open>st\<close>: nothing, or queue the frame of the decision and
  append the dispatches of a prefix of what it dispatches, all of it unless the runtime faults.
\<close>

definition drive_effect :: "int \<Rightarrow> schedule_state \<Rightarrow> drive_world \<Rightarrow> drive_world \<Rightarrow> bool" where
  "drive_effect now st d d' \<longleftrightarrow>
     dw_world d' = dw_world d \<and> dw_followups d' = dw_followups d \<or>
     (\<exists>dd k st' es. dueDecision st now = Inr dd \<and> dispatched dd \<noteq> [] \<and>
        dw_followups d' = dw_followups d @ [decision_text dd] \<and>
        (k = length (dispatched dd) \<or> rs_faulted (dw_runtime d')) \<and>
        schedule_stream (dw_session d') = Inr st' \<and> se_log (dw_session d') = se_log (dw_session d) @ es \<and>
        map ev_data es = map (change_data \<circ> dispatch_of now) (take k (dispatched dd)) \<and>
        due_records st' now = filter (\<lambda>q. sr_id q \<notin> sr_id ` set (take k (dispatched dd))) (due_records st now))"

lemma maintenance_body_due:
  assumes "schedule_stream (dw_session d) = Inr st" "dueDecision st (de_decisionNow env) = Inr dd" "dispatched dd \<noteq> []"
    and "\<not> rs_stopping (dw_runtime d)" "de_liveAfterPreflight env" "de_followupOk env"
    and "append_all (de_append env) (dw_world d) (decision_changes dd) = (w, ok)"
  shows "maintenance_body env d =
    (let d2 = d\<lparr>dw_followups := dw_followups d @ [decision_text dd], dw_world := w\<rparr> in if ok then (d2, True) else (clearTimer (fault d2), False))"
proof (cases dd)
  case (DueWait t)
  with assms(3) show ?thesis by (simp add: dispatched_def)
qed (use assms in \<open>simp_all add: maintenance_body_def readFolded_def decide_def Let_def split: bool.splits\<close>)

lemma maintenance_body_effect:
  assumes st: "schedule_stream (dw_session d) = Inr st" and run: "maintenance_body env d = (d', ok)"
  shows "drive_effect (de_decisionNow env) st d d'"
proof (cases "\<exists>dd. dueDecision st (de_decisionNow env) = Inr dd \<and> dispatched dd \<noteq> []
    \<and> \<not> rs_stopping (dw_runtime d) \<and> de_liveAfterPreflight env \<and> de_followupOk env")
  case False
  have inv: "schedule_inv (se_log (dw_session d)) st" using foldScheduleEvents_inv st by (auto simp: schedule_stream_def)
  have "dw_world d' = dw_world d \<and> dw_followups d' = dw_followups d"
  proof (cases "dueDecision st (de_decisionNow env)")
    case (Inl err)
    with run st show ?thesis by (auto simp: maintenance_body_def readFolded_def decide_def split: if_splits)
  next
    case (Inr dd)
    show ?thesis
    proof (cases "dispatched dd = []")
      case True
      with dueDecision_ok(5) [OF inv Inr] Inr run st show ?thesis
        by (auto simp: maintenance_body_def readFolded_def decide_def split: if_splits)
    next
      case nonempty: False
      with False Inr run st show ?thesis
        by (cases dd) (auto simp: maintenance_body_def readFolded_def decide_def dispatched_def split: if_splits)
    qed
  qed
  then show ?thesis by (simp add: drive_effect_def)
next
  case True
  then obtain dd where dd: "dueDecision st (de_decisionNow env) = Inr dd" "dispatched dd \<noteq> []"
    and env: "\<not> rs_stopping (dw_runtime d)" "de_liveAfterPreflight env" "de_followupOk env" by blast
  let ?now = "de_decisionNow env"
  have inv: "schedule_inv (se_log (dw_session d)) st" using foldScheduleEvents_inv st by (auto simp: schedule_stream_def)
  note D = dueDecision_ok [OF inv dd(1)]
  obtain w ok' where w: "append_all (de_append env) (dw_world d) (decision_changes dd) = (w, ok')" by fastforce
  obtain k st' es where k: "k \<le> length (dispatched dd)" "ok' \<longrightarrow> k = length (dispatched dd)" "schedule_stream (sw_session w) = Inr st'"
    "se_log (sw_session w) = se_log (dw_session d) @ es" "map ev_data es = map (change_data \<circ> dispatch_of ?now) (take k (dispatched dd))"
    "due_records st' ?now = filter (\<lambda>q. sr_id q \<notin> sr_id ` set (take k (dispatched dd))) (due_records st ?now)"
    using append_all_due [OF st D(2,3,4) w [unfolded D(1)]] by blast
  have "d' = (if ok' then d\<lparr>dw_followups := dw_followups d @ [decision_text dd], dw_world := w\<rparr>
      else clearTimer (fault (d\<lparr>dw_followups := dw_followups d @ [decision_text dd], dw_world := w\<rparr>)))"
    using maintenance_body_due [OF st dd env w] run by (simp add: Let_def split: if_splits)
  then have "dw_world d' = w" "dw_followups d' = dw_followups d @ [decision_text dd]" "\<not> ok' \<longrightarrow> rs_faulted (dw_runtime d')"
    by (auto simp: runtime_defs)
  with k dd show ?thesis unfolding drive_effect_def by (intro disjI2 exI [of _ dd] exI [of _ k] exI [of _ st'] exI [of _ es]) auto
qed

lemma drive_effect_same:
  "drive_effect now st d d' \<Longrightarrow> dw_world d = dw_world d0 \<Longrightarrow> dw_followups d = dw_followups d0 \<Longrightarrow>
   dw_world d'' = dw_world d' \<Longrightarrow> dw_followups d'' = dw_followups d' \<Longrightarrow> (rs_faulted (dw_runtime d') \<Longrightarrow> rs_faulted (dw_runtime d'')) \<Longrightarrow>
   drive_effect now st d0 d''"
  unfolding drive_effect_def by (elim disjE exE) auto

lemma driveOnce_effect:
  assumes st: "schedule_stream (dw_session d) = Inr st"
  shows "drive_effect (de_decisionNow env) st d (driveOnce env d)"
proof -
  define d0 where "d0 = clearTimer d"
  have d0: "dw_world d0 = dw_world d" "dw_followups d0 = dw_followups d" by (simp_all add: d0_def runtime_defs)
  then have fold: "readFolded d0 = (d0, Some st)" using st by (simp add: readFolded_def)
  obtain d2 ok where m: "maintenance_body env d0 = (d2, ok)" by fastforce
  have e: "drive_effect (de_decisionNow env) st d0 d2" by (rule maintenance_body_effect [OF _ m]) (simp add: d0 st)
  have "driveOnce env d = d0 \<or> driveOnce env d = waitForIdle d0 \<or> (\<exists>t. driveOnce env d = arm_wait t (de_wakeNow env) d0) \<or>
      driveOnce env d = d2 \<or> driveOnce env d = request_drive d2"
  proof (cases "decide st (de_wakeNow env)")
    case None
    then show ?thesis unfolding driveOnce_def Let_def d0_def [symmetric] fold by simp
  next
    case (Some dd)
    show ?thesis
    proof (cases dd)
      case (DueWait t)
      with Some have "driveOnce env d = d0 \<or> driveOnce env d = arm_wait t (de_wakeNow env) d0"
        unfolding driveOnce_def Let_def d0_def [symmetric] fold by simp
      then show ?thesis by blast
    next
      case (DueOneShot r)
      show ?thesis
        unfolding driveOnce_def Let_def d0_def [symmetric] fold Some DueOneShot m prod.case option.case due_decision.case
        by (cases ok) simp_all
    next
      case (DueEvery ps ac)
      show ?thesis
        unfolding driveOnce_def Let_def d0_def [symmetric] fold Some DueEvery m prod.case option.case due_decision.case
        by (cases ok) simp_all
    qed
  qed
  then consider "driveOnce env d \<in> {d0, waitForIdle d0}" | t where "driveOnce env d = arm_wait t (de_wakeNow env) d0"
    | "driveOnce env d \<in> {d2, request_drive d2}" by blast
  then show ?thesis
  proof cases
    case 3
    then show ?thesis using drive_effect_same [OF e d0, of "driveOnce env d"] by (auto simp: runtime_defs)
  next
    case 1
    then have "dw_world (driveOnce env d) = dw_world d \<and> dw_followups (driveOnce env d) = dw_followups d"
      using d0 by (elim insertE emptyE) (simp_all add: waitForIdle_def)
    then show ?thesis unfolding drive_effect_def by blast
  next
    case (2 t)
    then have "dw_world (driveOnce env d) = dw_world d \<and> dw_followups (driveOnce env d) = dw_followups d"
      using d0 by simp
    then show ?thesis unfolding drive_effect_def by blast
  qed
qed

lemma drive_effect_stream:
  "schedule_stream (dw_session d) = Inr st \<Longrightarrow> drive_effect now st d d' \<Longrightarrow> \<exists>st'. schedule_stream (dw_session d') = Inr st'"
  by (auto simp: drive_effect_def)


section \<open>The loop drains\<close>

definition drive_cooperative :: "drive_env \<Rightarrow> int \<Rightarrow> bool" where
  "drive_cooperative env now \<longleftrightarrow>
     de_live env \<and> de_preflight env \<and> de_liveAfterPreflight env \<and> de_wakeNow env = now \<and> \<not> de_busy env \<and>
     de_decisionNow env = now \<and> de_followupOk env \<and> cooperative (de_append env) \<and> de_barrier env \<and> de_liveAfterBarrier env \<and>
     in_four_digit_range now"

definition running :: "drive_world \<Rightarrow> bool" where
  "running d \<longleftrightarrow> \<not> rs_stopping (dw_runtime d) \<and> \<not> rs_faulted (dw_runtime d)"

lemma drive_waits:
  assumes st: "schedule_stream (dw_session d) = Inr st" and env: "drive_cooperative env now" and "running d" "due_records st now = []"
  shows "driveOnce env d = arm_wait (next_wake (active_records st) now None) now (clearTimer d)"
proof -
  have inv: "schedule_inv (se_log (dw_session d)) st" using foldScheduleEvents_inv st by (auto simp: schedule_stream_def)
  obtain dd where dd: "dueDecision st now = Inr dd" using dueDecision_total [OF inv] env by (auto simp: drive_cooperative_def)
  then have "dd = DueWait (next_wake (active_records st) now None)" using dueDecision_ok(5,6) [OF inv dd] assms(4) by blast
  with dd st env assms(3) show ?thesis
    by (simp add: driveOnce_def drive_cooperative_def running_def readFolded_def decide_def clearTimer_def Let_def)
qed

lemma drive_delivers:
  assumes st: "schedule_stream (dw_session d) = Inr st" and ok: "session_ok (dw_session d)" and env: "drive_cooperative env now"
    and "running d" "due_records st now \<noteq> []"
  shows "\<exists>rs st' es. rs \<noteq> [] \<and> set rs \<subseteq> set (due_records st now) \<and> distinct (map sr_id rs) \<and>
    schedule_stream (dw_session (driveOnce env d)) = Inr st' \<and> session_ok (dw_session (driveOnce env d)) \<and>
    running (driveOnce env d) \<and> rs_requested (dw_runtime (driveOnce env d)) \<and>
    se_log (dw_session (driveOnce env d)) = se_log (dw_session d) @ es \<and> map ev_data es = map (change_data \<circ> dispatch_of now) rs \<and>
    due_records st' now = filter (\<lambda>q. sr_id q \<notin> sr_id ` set rs) (due_records st now)"
proof -
  have inv: "schedule_inv (se_log (dw_session d)) st" using foldScheduleEvents_inv st by (auto simp: schedule_stream_def)
  obtain dd where dd: "dueDecision st now = Inr dd" using dueDecision_total [OF inv] env by (auto simp: drive_cooperative_def)
  note D = dueDecision_ok [OF inv dd]
  have ne: "dispatched dd \<noteq> []" using D(6) assms(5) by blast
  define d0 where "d0 = clearTimer d"
  have d0: "dw_world d0 = dw_world d" "running d0" using assms(4) by (simp_all add: d0_def clearTimer_def running_def)
  obtain w ok' where w: "append_all (de_append env) (dw_world d) (decision_changes dd) = (w, ok')" by fastforce
  obtain st' es where r: "ok'" "schedule_stream (sw_session w) = Inr st'" "se_log (sw_session w) = se_log (dw_session d) @ es"
    "map ev_data es = map (change_data \<circ> dispatch_of now) (dispatched dd)" "session_ok (sw_session w)"
    "due_records st' now = filter (\<lambda>q. sr_id q \<notin> sr_id ` set (dispatched dd)) (due_records st now)"
    using append_all_due [OF st D(2,3,4) w [unfolded D(1)]] ok env by (auto simp: drive_cooperative_def)
  define d2 where "d2 = d0\<lparr>dw_followups := dw_followups d0 @ [decision_text dd], dw_world := w\<rparr>"
  have m: "maintenance_body env d0 = (d2, True)"
    using maintenance_body_due [of d0 st env dd w ok'] st dd ne env d0 w r(1)
    by (simp add: drive_cooperative_def running_def d2_def)
  have "driveOnce env d = request_drive d2"
  proof (cases dd)
    case (DueWait t)
    with ne show ?thesis by (simp add: dispatched_def)
  qed (use m dd st env d0 in \<open>simp_all add: driveOnce_def drive_cooperative_def running_def readFolded_def decide_def d0_def [symmetric] Let_def\<close>,
       (use assms(4) in \<open>simp add: running_def\<close>)+)
  moreover have "running d2" using d0(2) by (simp add: d2_def running_def)
  ultimately have "dw_world (driveOnce env d) = w" "running (driveOnce env d)" "rs_requested (dw_runtime (driveOnce env d))"
    by (simp_all add: d2_def runtime_defs running_def)
  with r D(2,3) ne show ?thesis by (intro exI [of _ "dispatched dd"] exI [of _ st'] exI [of _ es]) simp
qed

lemma take_ids_off:
  assumes "distinct (map sr_id ds)" "set rs \<subseteq> set ds" "distinct (map sr_id rs)"
  shows "mset rs + mset (filter (\<lambda>q. sr_id q \<notin> sr_id ` set rs) ds) = mset ds"
proof -
  have inj: "p = q" if "p \<in> set ds" "q \<in> set ds" "sr_id p = sr_id q" for p q
    using assms(1) that by (simp add: distinct_map inj_on_def)
  have "distinct (rs @ filter (\<lambda>q. sr_id q \<notin> sr_id ` set rs) ds)"
    using assms(1,3) by (auto simp: distinct_map)
  moreover have "set (rs @ filter (\<lambda>q. sr_id q \<notin> sr_id ` set rs) ds) = set ds"
    using assms(2) inj by (auto simp: image_iff)
  moreover have "distinct ds" using assms(1) by (simp add: distinct_map)
  ultimately have "mset (rs @ filter (\<lambda>q. sr_id q \<notin> sr_id ` set rs) ds) = mset ds"
    using set_eq_iff_mset_eq_distinct by blast
  then show ?thesis by simp
qed

lemma runRequested_waits:
  assumes "schedule_stream (dw_session d) = Inr st" and env: "drive_cooperative env now"
    and "running d" "rs_requested (dw_runtime d)" "due_records st now = []"
  shows "\<exists>d'. runRequested env (Suc n) d = Some d' \<and> \<not> rs_requested (dw_runtime d') \<and> dw_world d' = dw_world d \<and>
    rs_timer (dw_runtime d') = map_option (\<lambda>t. min (t - now) MAX_TIMER_DELAY_MS) (next_wake (active_records st) now None)"
proof -
  define d1 where "d1 = set_runtime (\<lambda>r. r\<lparr>rs_requested := False\<rparr>) d"
  have d1: "dw_world d1 = dw_world d" "running d1" using assms(3) by (simp_all add: d1_def running_def)
  have step: "runRequested env (Suc n) d = runRequested env n (driveOnce env d1)"
    using assms(3,4) by (subst runRequested.simps) (simp add: running_def d1_def)
  have w: "driveOnce env d1 = arm_wait (next_wake (active_records st) now None) now (clearTimer d1)"
    using drive_waits [OF _ env d1(2) assms(5)] assms(1) d1(1) by simp
  have nr: "\<not> rs_requested (dw_runtime (driveOnce env d1))" "dw_world (driveOnce env d1) = dw_world d"
    "rs_timer (dw_runtime (driveOnce env d1)) = map_option (\<lambda>t. min (t - now) MAX_TIMER_DELAY_MS) (next_wake (active_records st) now None)"
    unfolding w using d1(1) by (simp_all add: arm_wait_def arm_def clearTimer_def d1_def split: option.split)
  have "runRequested env n (driveOnce env d1) = Some (driveOnce env d1)"
    by (subst runRequested.simps) (simp only: nr(1) simp_thms if_False)
  with step nr show ?thesis by auto
qed

lemma runRequested_drains:
  assumes "schedule_stream (dw_session d) = Inr st" "session_ok (dw_session d)" and env: "drive_cooperative env now"
    and "running d" "rs_requested (dw_runtime d)" "length (due_records st now) \<le> n"
  shows "\<exists>d' st' rs es. runRequested env (Suc n) d = Some d' \<and> \<not> rs_requested (dw_runtime d') \<and>
    schedule_stream (dw_session d') = Inr st' \<and> due_records st' now = [] \<and>
    rs_timer (dw_runtime d') = map_option (\<lambda>t. min (t - now) MAX_TIMER_DELAY_MS) (next_wake (active_records st') now None) \<and>
    se_log (dw_session d') = se_log (dw_session d) @ es \<and> map ev_data es = map (change_data \<circ> dispatch_of now) rs \<and>
    mset rs = mset (due_records st now)"
  using assms(1,2,4-6)
proof (induction n arbitrary: d st)
  case (Suc n)
  define d1 where "d1 = set_runtime (\<lambda>r. r\<lparr>rs_requested := False\<rparr>) d"
  have d1: "dw_world d1 = dw_world d" "running d1" using Suc.prems(3) by (simp_all add: d1_def running_def)
  have step: "runRequested env (Suc (Suc n)) d = runRequested env (Suc n) (driveOnce env d1)"
    using Suc.prems(3,4) by (subst runRequested.simps) (simp add: running_def d1_def)
  have inv: "schedule_inv (se_log (dw_session d)) st" using foldScheduleEvents_inv Suc.prems(1) by (auto simp: schedule_stream_def)
  have dist: "distinct (map sr_id (due_records st now))"
    using active_ids_distinct [OF inv] by (simp add: due_records_def distinct_map_filter)
  show ?case
  proof (cases "due_records st now = []")
    case True
    from runRequested_waits [OF Suc.prems(1) env Suc.prems(3,4) True, of "Suc n"] show ?thesis
      using Suc.prems(1) True by (metis append_Nil2 list.map(1) mset.simps(1))
  next
    case False
    obtain rs st1 es where r: "rs \<noteq> []" "set rs \<subseteq> set (due_records st now)" "distinct (map sr_id rs)"
      "schedule_stream (dw_session (driveOnce env d1)) = Inr st1" "session_ok (dw_session (driveOnce env d1))"
      "running (driveOnce env d1)" "rs_requested (dw_runtime (driveOnce env d1))"
      "se_log (dw_session (driveOnce env d1)) = se_log (dw_session d) @ es" "map ev_data es = map (change_data \<circ> dispatch_of now) rs"
      "due_records st1 now = filter (\<lambda>q. sr_id q \<notin> sr_id ` set rs) (due_records st now)"
      using drive_delivers [of d1 st env now] Suc.prems(1,2) env d1 False by metis
    note ms = take_ids_off [OF dist r(2,3), folded r(10)]
    have "length rs + length (due_records st1 now) = length (due_records st now)" using arg_cong [OF ms, of size] by simp
    moreover have "0 < length rs" using r(1) by simp
    ultimately have "length (due_records st1 now) \<le> n" using Suc.prems(5) by linarith
    from Suc.IH [OF r(4,5,6,7) this] obtain d' st' rs' es' where
      d': "runRequested env (Suc n) (driveOnce env d1) = Some d'" "\<not> rs_requested (dw_runtime d')"
      "schedule_stream (dw_session d') = Inr st'" "due_records st' now = []"
      "rs_timer (dw_runtime d') = map_option (\<lambda>t. min (t - now) MAX_TIMER_DELAY_MS) (next_wake (active_records st') now None)"
      "se_log (dw_session d') = se_log (dw_session (driveOnce env d1)) @ es'"
      "map ev_data es' = map (change_data \<circ> dispatch_of now) rs'" "mset rs' = mset (due_records st1 now)"
      by blast
    with step r(8,9) ms show ?thesis
      by (intro exI [of _ d'] exI [of _ st'] exI [of _ "rs @ rs'"] exI [of _ "es @ es'"]) simp
  qed
next
  case 0
  then have none: "due_records st now = []" by simp
  from runRequested_waits [OF 0(1) env 0(3,4) none, of 0] show ?case
    using 0(1) none by (metis append_Nil2 list.map(1) mset.simps(1))
qed


section \<open>A due reminder\<close>

definition due_world :: schedule_world where
  "due_world = fst (append_change sample_schedule_env \<lparr>sw_session = sample_session, sw_drives = 0\<rparr> (CreateChange sample_every))"

definition due_state :: schedule_state where
  "due_state = \<lparr>ss_retained = [(''schedule-1'', \<lparr>fs_record = sample_every, fs_paused = False\<rparr>)], ss_seen = [''schedule-1'']\<rparr>"

definition due_drive :: drive_world where
  "due_drive = \<lparr>dw_world = due_world,
     dw_runtime = \<lparr>rs_timer = None, rs_requested = True, rs_stopping = False, rs_faulted = False, rs_idleWait = False\<rparr>,
     dw_followups = []\<rparr>"

definition due_env :: drive_env where
  "due_env = \<lparr>de_live = True, de_preflight = True, de_liveAfterPreflight = True, de_wakeNow = 1704068200000, de_busy = False,
     de_decisionNow = 1704068200000, de_followupOk = True, de_append = sample_schedule_env, de_barrier = True,
     de_liveAfterBarrier = True\<rparr>"

lemma sample_session_stream: "schedule_stream sample_session = Inr empty_schedules"
  by code_simp

lemma due_world_stream: "schedule_stream (sw_session due_world) = Inr due_state"
proof -
  let ?w = "\<lparr>sw_session = sample_session, sw_drives = 0\<rparr> :: schedule_world"
  have st: "schedule_stream (sw_session ?w) = Inr empty_schedules" by (simp add: sample_session_stream)
  have wf: "schedule_change_wf (CreateChange sample_every)" by (simp add: sample_every_wf)
  have ap: "apply_schedule_change empty_schedules (CreateChange sample_every) = Inr due_state"
    by (simp add: empty_schedules_def due_state_def retain_def sample_every_def)
  have ok: "session_ok (sw_session ?w)" using session_run_ok [OF sample_session_run] by simp
  have "cooperative sample_schedule_env" by (simp add: cooperative_def sample_schedule_env_def)
  from append_change_succeeds [OF ok st wf ap this] obtain w' where
    w': "append_change sample_schedule_env ?w (CreateChange sample_every) = (w', True)" by blast
  from this st wf show ?thesis
    by (cases rule: append_change_cases) (use w' ap in \<open>simp_all add: due_world_def\<close>)
qed

lemma due_world_run: "session_run (sw_session due_world)"
proof -
  have "sw_session (fst (append_change env w c)) = fst (session_append (sw_session w) (sv_appending env)
      (\<lambda>e. schedule_invariant_veto (sw_session w) e \<or> sv_otherVeto env e) (sv_eventNow env) (change_data c)
      \<lparr>ao_surfaceOp = None, ao_sourceEventSeqs = None, ao_ignorable = False\<rparr>)" for env w c
    by (simp add: append_change_def Let_def split: prod.split sum.split)
  then show ?thesis unfolding due_world_def by (simp add: session_appended sample_session_run)
qed

lemma due_now: "due_records due_state 1704068200000 = [sample_every]"
  using sample_instant
  by (simp add: due_records_def active_records_def folded_schedules_def due_state_def due_def target_of_def sample_every_def)

lemma due_env_cooperative: "drive_cooperative due_env 1704068200000"
  by (simp add: drive_cooperative_def due_env_def cooperative_def sample_schedule_env_def in_four_digit_range_def
      MIN_FOUR_DIGIT_YEAR_MS_def MAX_FOUR_DIGIT_YEAR_MS_def)



end
