(* ===== verification/Schedule_Projection.thy ===== *)
theory Schedule_Projection
  imports Schedule_Domain
begin

text \<open>
  The wire projection of reminders, \<open>schedule/schedule/src/projection.ts\<close>: the same stream folded into
  plain arrays, one committed event at a time, so that the state can be cached and sent to clients.
  The theorem shows that it agrees with the map-based fold of \<open>domain.ts\<close> on every log: it fails on
  the same logs, keeps the same records in the same order and the same seen identities.
\<close>

section \<open>State\<close>

record projection_state =
  pj_schedules :: "folded_schedule list"
  pj_seenIds :: "schedule_id list"

definition emptyScheduleProjectionState :: projection_state where
  "emptyScheduleProjectionState = \<lparr>pj_schedules = [], pj_seenIds = []\<rparr>"

definition replace_at :: "projection_state \<Rightarrow> nat \<Rightarrow> schedule_record \<Rightarrow> bool \<Rightarrow> projection_state" where
  "replace_at st i r isPaused = st\<lparr>pj_schedules := (pj_schedules st)[i := \<lparr>fs_record = r, fs_paused = isPaused\<rparr>]\<rparr>"

definition remove_at :: "projection_state \<Rightarrow> nat \<Rightarrow> projection_state" where
  "remove_at st i = st\<lparr>pj_schedules := take i (pj_schedules st) @ drop (Suc i) (pj_schedules st)\<rparr>"

fun change_target :: "schedule_change \<Rightarrow> string \<times> schedule_id" where
  "change_target (CreateChange r) = (''create'', sr_id r)"
| "change_target (DeleteChange i) = (''delete'', i)"
| "change_target (PauseChange i) = (''pause'', i)"
| "change_target (ResumeChange i) = (''resume'', i)"
| "change_target (DispatchChange i a) = (''dispatch'', i)"

definition applyChange :: "projection_state \<Rightarrow> schedule_change \<Rightarrow> schedule_log_error + projection_state" where
  "applyChange st c =
     (case c of
        CreateChange r \<Rightarrow>
          if sr_id r \<in> set (pj_seenIds st) then Inl (IdReused (sr_id r))
          else Inr \<lparr>pj_schedules = pj_schedules st @ [\<lparr>fs_record = r, fs_paused = False\<rparr>],
                    pj_seenIds = pj_seenIds st @ [sr_id r]\<rparr>
      | _ \<Rightarrow>
          let (op, i) = change_target c in
          (case index_of i (map (sr_id \<circ> fs_record) (pj_schedules st)) of
             None \<Rightarrow> Inl (TargetInactive op i)
           | Some k \<Rightarrow>
               let current = pj_schedules st ! k in
               (case c of
                  DeleteChange _ \<Rightarrow> Inr (remove_at st k)
                | PauseChange _ \<Rightarrow>
                    if fs_paused current then Inl (PauseInactive i) else Inr (replace_at st k (fs_record current) True)
                | ResumeChange _ \<Rightarrow>
                    if \<not> fs_paused current then Inl (ResumeInactive i) else Inr (replace_at st k (fs_record current) False)
                | DispatchChange _ a \<Rightarrow>
                    if fs_paused current then Inl (DispatchInactive i)
                    else bind_result (advanceDispatchedSchedule (fs_record current) a) (\<lambda>nxt.
                      case nxt of Some r \<Rightarrow> Inr (replace_at st k r False) | None \<Rightarrow> Inr (remove_at st k))
                | CreateChange _ \<Rightarrow> Inr st)))"

definition applyScheduleProjection :: "projection_state \<Rightarrow> session_event \<Rightarrow> schedule_log_error + projection_state" where
  "applyScheduleProjection st e =
     (case ev_data e of
        OtherEvent t v \<Rightarrow>
          if t = ''schedule/change'' then bind_result (decodeScheduleChange v) (applyChange st) else Inr st
      | _ \<Rightarrow> Inr st)"

text \<open>The projection service feeds the definition the owned suffix of a session.\<close>

fun fold_projection :: "projection_state \<Rightarrow> session_event list \<Rightarrow> schedule_log_error + projection_state" where
  "fold_projection st [] = Inr st"
| "fold_projection st (e # es) = bind_result (applyScheduleProjection st e) (\<lambda>st'. fold_projection st' es)"

definition projection_view :: "projection_state \<Rightarrow> (schedule_record \<times> bool) list" where
  "projection_view st = map (\<lambda>s. (fs_record s, fs_paused s)) (pj_schedules st)"

section \<open>Agreement with the map fold\<close>

definition projection_of :: "schedule_state \<Rightarrow> projection_state" where
  "projection_of st = \<lparr>pj_schedules = folded_schedules st, pj_seenIds = ss_seen st\<rparr>"

definition success :: "'e + 'a \<Rightarrow> 'a option" where
  "success r = (case r of Inl _ \<Rightarrow> None | Inr x \<Rightarrow> Some x)"

lemma success_simps [simp]: "success (Inl e) = None" "success (Inr x) = Some x"
  by (simp_all add: success_def)

lemma success_bind: "success (bind_result r f) = Option.bind (success r) (\<lambda>x. success (f x))"
  by (cases r) simp_all

lemma map_of_index:
  "map_of xs k = (case index_of k (map_keys xs) of None \<Rightarrow> None | Some i \<Rightarrow> Some (snd (xs ! i)))"
  by (induction xs) (auto split: option.splits)

lemma map_set_index: "index_of k (map_keys xs) = Some i \<Longrightarrow> map snd (map_set k v xs) = (map snd xs)[i := v]"
  by (induction xs arbitrary: i) (auto split: if_splits)

lemma map_set_values: "index_of k (map_keys xs) = None \<Longrightarrow> map snd (map_set k v xs) = map snd xs @ [v]"
  by (induction xs) (auto split: if_splits)

lemma map_delete_index:
  "distinct (map_keys xs) \<Longrightarrow> index_of k (map_keys xs) = Some i \<Longrightarrow>
   map snd (map_delete k xs) = take i (map snd xs) @ drop (Suc i) (map snd xs)"
proof (induction xs arbitrary: i)
  case (Cons p xs)
  show ?case
  proof (cases "fst p = k")
    case True
    with Cons.prems have "map_delete k xs = xs"
      by (intro AList.delete_id) (auto simp: image_iff)
    with True Cons.prems show ?thesis by (auto simp: AList.delete_eq)
  next
    case False
    with Cons.prems obtain j where "i = Suc j" "index_of k (map_keys xs) = Some j" by (auto split: if_splits)
    with Cons False show ?thesis by (simp add: AList.delete_eq case_prod_unfold)
  qed
qed simp

lemma retained_keys: "list_all (retained_ok seen) xs \<Longrightarrow> map (sr_id \<circ> fs_record \<circ> snd) xs = map_keys xs"
  by (induction xs) (auto simp: retained_ok_def)

lemma applyChange_agrees:
  assumes inv: "schedule_inv lg st"
  shows "success (applyChange (projection_of st) c) = map_option projection_of (success (apply_schedule_change st c))"
proof -
  have d: "distinct (map_keys (ss_retained st))" "list_all (retained_ok (ss_seen st)) (ss_retained st)"
    using inv by (simp_all add: schedule_inv_def)
  note keys = retained_keys [OF d(2)]
  have new: "index_of i (map_keys (ss_retained st)) = None" if "i \<notin> set (ss_seen st)" for i
    using d(2) that by (auto simp: index_of_None list_all_iff retained_ok_def)
  have nth: "map snd (ss_retained st) ! k = snd (ss_retained st ! k)" if "index_of i (map_keys (ss_retained st)) = Some k" for i k
    using index_of_Some [OF that] by simp
  show ?thesis
    by (cases c)
      (auto simp: applyChange_def projection_of_def folded_schedules_def keys map_of_index retain_def map_set_values new
        replace_at_def remove_at_def map_set_index map_delete_index [OF d(1)] nth Let_def bind_result_def
        split: option.splits sum.splits if_splits)
qed

lemma applyScheduleProjection_agrees:
  assumes inv: "schedule_inv pre st"
  shows "success (applyScheduleProjection (projection_of st) e) = map_option projection_of (success (schedule_step pre st e))"
proof (cases "\<exists>v. ev_data e = OtherEvent ''schedule/change'' v")
  case True
  then obtain v where "ev_data e = OtherEvent ''schedule/change'' v" by blast
  then show ?thesis
    using applyChange_agrees [OF inv]
    by (cases "decodeScheduleChange v") (simp_all add: applyScheduleProjection_def schedule_step_def)
next
  case False
  then have "applyScheduleProjection (projection_of st) e = Inr (projection_of st)" "schedule_step pre st e = Inr st"
    by (auto simp: applyScheduleProjection_def schedule_step_def split: event_data.splits)
  then show ?thesis by simp
qed

lemma fold_projection_agrees:
  assumes "schedule_inv pre st"
  shows "success (fold_projection (projection_of st) es) = map_option projection_of (success (replay_from schedule_step pre st es))"
  using assms
proof (induction es arbitrary: pre st)
  case (Cons e es)
  note one = applyScheduleProjection_agrees [OF Cons.prems, of e]
  show ?case
  proof (cases "schedule_step pre st e")
    case (Inl err)
    with one have "success (applyScheduleProjection (projection_of st) e) = None" by simp
    with Inl show ?thesis by (simp add: success_bind)
  next
    case (Inr st')
    with one have "success (applyScheduleProjection (projection_of st) e) = Some (projection_of st')" by simp
    with Inr Cons.IH [OF schedule_step_inv [OF Cons.prems Inr]] show ?thesis by (simp add: success_bind)
  qed
qed simp

text \<open>
  C30. The two reminder folds agree. On every log and every admissible fork boundary, folding the wire
  projection over the session-owned suffix succeeds exactly when the strict map fold does, and then it
  holds the retained records with their pause flags in creation order and the identities ever used.
\<close>

theorem projection_equals_fold:
  assumes "safe_int n" "0 \<le> n" "n \<le> int (length lg)"
  shows "success (fold_projection emptyScheduleProjectionState (drop (nat n) lg)) =
         map_option projection_of (success (foldScheduleEvents lg n))"
proof -
  have "projection_of empty_schedules = emptyScheduleProjectionState"
    by (simp add: projection_of_def empty_schedules_def emptyScheduleProjectionState_def folded_schedules_def)
  then show ?thesis
    using fold_projection_agrees [OF schedule_inv_init, of "drop (nat n) lg"] assms by (simp add: foldScheduleEvents_def)
qed

definition sample_schedule_event :: session_event where
  "sample_schedule_event =
     \<lparr>ev_seq = 0, ev_time = 0, ev_data = OtherEvent ''schedule/change'' (schedule_change_json (CreateChange sample_every)),
      ev_surfaceOp = None, ev_sourceEventSeqs = None, ev_ignorable = False\<rparr>"

theorem projection_equals_fold_witness:
  "success (fold_projection emptyScheduleProjectionState [sample_schedule_event]) =
   Some \<lparr>pj_schedules = [\<lparr>fs_record = sample_every, fs_paused = False\<rparr>], pj_seenIds = [''schedule-1'']\<rparr>"
proof -
  have "decodeScheduleChange (schedule_change_json (CreateChange sample_every)) = Inr (CreateChange sample_every)"
    by (rule encoded_change) (simp add: sample_every_wf)
  then have "foldScheduleEvents [sample_schedule_event] 0 = Inr \<lparr>ss_retained = [(''schedule-1'', \<lparr>fs_record = sample_every, fs_paused = False\<rparr>)], ss_seen = [''schedule-1'']\<rparr>"
    by (simp add: foldScheduleEvents_def safe_int_def max_safe_integer_def sample_schedule_event_def schedule_step_def
        empty_schedules_def retain_def sample_every_def)
  moreover have "success (fold_projection emptyScheduleProjectionState (drop (nat 0) [sample_schedule_event])) =
      map_option projection_of (success (foldScheduleEvents [sample_schedule_event] 0))"
    by (rule projection_equals_fold) (simp_all add: safe_int_def max_safe_integer_def)
  ultimately show ?thesis by (simp add: projection_of_def folded_schedules_def)
qed

end
