(* ===== verification/Agent_World.thy ===== *)
theory Agent_World
  imports Inbox Repair Block_Assembler
begin

text \<open>
  The world of one agent of \<open>core/agent-loop/src/agent.ts\<close>: its phase, its session and inbox, the pool
  of the tool scheduler and the commands other code may issue. The driver is asynchronous; it is
  written in a monad over the world whose environment is a script. Every point where other code runs
  (an \<open>await\<close>, an emitted event, the listeners of an append) takes one tick from the script: the
  tick carries what the awaited call answers and the commands issued meanwhile. A script that ends
  cuts the run there, as a crash or a call that never answers does.
\<close>

section \<open>Phases and commands\<close>

datatype phase =
    Idle int
  | Maintenance "cancel_cause option" int bool
  | Running "cancel_cause option" int int bool

fun phase_abort :: "phase \<Rightarrow> cancel_cause option" where
  "phase_abort (Idle _) = None"
| "phase_abort (Maintenance ab _ _) = ab"
| "phase_abort (Running ab _ _ _) = ab"

fun is_idle :: "phase \<Rightarrow> bool" where
  "is_idle (Idle _) = True"
| "is_idle _ = False"

fun is_running :: "phase \<Rightarrow> bool" where
  "is_running (Running _ _ _ _) = True"
| "is_running _ = False"

datatype agent_exn =
    ExAborted cancel_cause
  | ExSession session_error
  | ExInvariant event_data
  | ExInbox "session_error inbox_error"
  | ExLlm llm_failure
  | ExAssemble assemble_error
  | ExNoModel
  | ExThrown string

text \<open>
  What other code may do to a live agent. The nested commands are those of the observers of the
  splice inside the operation, which run before it goes on.
\<close>

datatype external =
    ExtSend message inbox_target bool "external list"
  | ExtCancel cancel_cause bool "external list"
  | ExtInbox inbox_op
  | ExtAppend event_data append_opts

section \<open>Answers of the environment\<close>

record tool_outcome =
  to_content :: "content_block list"
  to_isError :: bool
  to_loadedTools :: "tool_schema list option"
  to_errorInfo :: "(string \<times> string) option"
  to_meta :: "json option"
  to_contexts :: "message list"
  to_concludes :: bool

datatype tool_preparation =
    PrepareDispatch
  | PreparePost tool_outcome
  | PrepareFinal tool_outcome

record prompt_assembly =
  pa_system :: "agent_exn + string"
  pa_sections :: "agent_exn + (string \<times> string) list"
  pa_tools :: "tool_schema list"

datatype pre_step_decision = Reject | Enter "message list"

record prepared_call =
  pr_config :: call_config
  pr_adapterDefaults :: adapter_defaults
  pr_contextWindow :: "rat option"

record tick =
  tk_externals :: "external list"
  tk_settles :: "(nat \<times> (agent_exn + tool_outcome \<times> bool)) list"
  tk_failure :: "agent_exn option"
  tk_assembly :: prompt_assembly
  tk_decision :: "message list \<Rightarrow> pre_step_decision"
  tk_config :: "call_config \<Rightarrow> call_config"
  tk_prepared :: prepared_call
  tk_chunk :: "stream_chunk option"
  tk_retry :: bool
  tk_prepare :: tool_preparation
  tk_finalized :: tool_outcome

record agent_env =
  ae_veto :: "nat \<Rightarrow> session_event \<Rightarrow> bool"
  ae_now :: "nat \<Rightarrow> int"
  ae_uuid :: "nat \<Rightarrow> message_id"
  ae_mode :: "nat \<Rightarrow> call_id \<Rightarrow> string \<Rightarrow> json \<Rightarrow> bool"
  ae_parse :: "string \<Rightarrow> json option"
  ae_finish :: "nat \<Rightarrow> tool_outcome \<Rightarrow> agent_exn + tool_outcome"
  ae_maxParallel :: nat
  ae_provider :: "string option"
  ae_model :: "string option"
  ae_maxTokens :: "rat option"
  ae_errorChain :: "agent_exn \<Rightarrow> string"

section \<open>The world\<close>

text \<open>
  The scheduler state of the running tool group: settled results by position, the dispatches in
  flight in start order, those of them whose promise has settled, in settle order, and the first
  failure.
\<close>

record tool_pool =
  pl_slots :: "(tool_outcome \<times> bool) option list"
  pl_inFlight :: "nat list"
  pl_settled :: "nat list"
  pl_failure :: "agent_exn option"

datatype agent_note =
    StatusNote bool
  | ErrorNote int int agent_exn

text \<open>
  The retained runtime-context snapshot of \<open>RuntimeContextProjection\<close>: none ever existed, none is
  retained, or one with its event and text. The base is what construction restored and the length of
  the log it saw.
\<close>

datatype context_snapshot = NeverRetained | NoneRetained | Retained int "string option"

record agent_world =
  aw_io :: "session inbox_world"
  aw_phase :: phase
  aw_pool :: tool_pool
  aw_headerLogged :: bool
  aw_contextBase :: "nat \<times> context_snapshot"
  aw_notes :: "agent_note list"
  aw_script :: "tick list"
  aw_clock :: nat

definition aw_session :: "agent_world \<Rightarrow> session" where
  "aw_session w = iw_session (aw_io w)"

definition aw_log :: "agent_world \<Rightarrow> session_event list" where
  "aw_log w = se_log (aw_session w)"

definition set_session :: "session \<Rightarrow> agent_world \<Rightarrow> agent_world" where
  "set_session s w = w\<lparr>aw_io := (aw_io w)\<lparr>iw_session := s\<rparr>\<rparr>"

section \<open>Appending\<close>

text \<open>
  An append passes the session invariants, whose companion is a listener of the dispatch, and any other
  listener that may veto.
\<close>

definition invariant_veto :: "session \<Rightarrow> session_event \<Rightarrow> bool" where
  "invariant_veto s e \<longleftrightarrow> isl (seedSession (se_log s @ [e]))"

definition agent_append ::
  "agent_env \<Rightarrow> bool \<Rightarrow> nat \<Rightarrow> session \<Rightarrow> event_data \<Rightarrow> append_opts \<Rightarrow> session \<times> (session_error + session_event)" where
  "agent_append env appending clock s d opts =
     session_append s appending (\<lambda>e. invariant_veto s e \<or> ae_veto env clock e) (ae_now env clock) d opts"

definition agent_commit ::
  "agent_env \<Rightarrow> bool \<Rightarrow> nat \<Rightarrow> session \<Rightarrow> event_data \<Rightarrow> session \<times> (session_error + session_event)" where
  "agent_commit env appending clock s d = agent_append env appending clock s d plain_opts"

section \<open>Commands\<close>

fun wake_phase :: "bool \<Rightarrow> phase \<Rightarrow> phase" where
  "wake_phase wakeAfterAbort (Idle lastTurn) = Running None lastTurn 0 False"
| "wake_phase wakeAfterAbort (Maintenance ab lastTurn wake) =
     Maintenance ab lastTurn (if ab \<noteq> Some CancelDisposed then True else wake)"
| "wake_phase wakeAfterAbort (Running ab turn step wake) =
     Running ab turn step (if ab \<noteq> Some CancelDisposed \<and> wakeAfterAbort then True else wake)"

definition wakeDriver :: "bool \<Rightarrow> agent_world \<Rightarrow> agent_world" where
  "wakeDriver wakeAfterAbort w = w\<lparr>aw_phase := wake_phase wakeAfterAbort (aw_phase w)\<rparr>"

fun clear_wake :: "phase \<Rightarrow> phase" where
  "clear_wake (Idle t) = Idle t"
| "clear_wake (Maintenance ab t _) = Maintenance ab t False"
| "clear_wake (Running ab t s _) = Running ab t s False"

text \<open>An abort controller keeps its first reason.\<close>

fun abort_phase :: "cancel_cause \<Rightarrow> phase \<Rightarrow> phase" where
  "abort_phase cause (Idle t) = Idle t"
| "abort_phase cause (Maintenance ab t wk) = Maintenance (case ab of None \<Rightarrow> Some cause | Some c \<Rightarrow> Some c) t wk"
| "abort_phase cause (Running ab t s wk) = Running (case ab of None \<Rightarrow> Some cause | Some c \<Rightarrow> Some c) t s wk"

text \<open>
  \<open>appending\<close> tells that the commands come from the listeners of an append, where a further append
  is refused. A command that wakes an idle agent runs the driver up to its first \<open>await\<close>; what
  would follow in the list is issued there, so the list ends.
\<close>

fun run_external :: "agent_env \<Rightarrow> bool \<Rightarrow> external \<Rightarrow> agent_world \<Rightarrow> agent_world"
and run_externals :: "agent_env \<Rightarrow> bool \<Rightarrow> external list \<Rightarrow> agent_world \<Rightarrow> agent_world" where
  "run_external env ap (ExtSend m target wakeup reactions) w =
     (let wakingAfterAbort = wakeup \<and> phase_abort (aw_phase w) \<noteq> None;
          resolvedTarget = (if wakingAfterAbort then NextTurn else target) in
      case inbox_splice_op (agent_commit env ap (aw_clock w)) (aw_io w) resolvedTarget JsInf (JsFin 0) [m] of
        (io, Inl _) \<Rightarrow> w\<lparr>aw_io := io\<rparr>
      | (io, Inr _) \<Rightarrow>
          let w1 = run_externals env ap reactions (w\<lparr>aw_io := io\<rparr>)
          in if wakeup then wakeDriver wakingAfterAbort w1 else w1)"
| "run_external env ap (ExtCancel cause keepInbox reactions) w =
     (if keepInbox then w\<lparr>aw_phase := abort_phase cause (aw_phase w)\<rparr>
      else case inbox_clear (agent_commit env ap (aw_clock w)) (aw_io w) of
        (io, Inl _) \<Rightarrow> w\<lparr>aw_io := io\<rparr>
      | (io, Inr _) \<Rightarrow>
          let w1 = run_externals env ap reactions (w\<lparr>aw_io := io\<rparr>)
          in w1\<lparr>aw_phase := abort_phase cause (clear_wake (aw_phase w1))\<rparr>)"
| "run_external env ap (ExtInbox x) w =
     w\<lparr>aw_io := fst (op_step (agent_commit env ap (aw_clock w)) (aw_io w) x)\<rparr>"
| "run_external env ap (ExtAppend d opts) w =
     set_session (fst (agent_append env ap (aw_clock w) (aw_session w) d opts)) w"
| "run_externals env ap [] w = w"
| "run_externals env ap (x # xs) w =
     (let w1 = run_external env ap x w in
      if is_idle (aw_phase w) \<and> is_running (aw_phase w1) then w1 else run_externals env ap xs w1)"

section \<open>The driver monad\<close>

datatype 'a outcome = Ret 'a | Throw agent_exn | Suspended | Spinning

type_synonym 'a agent_m = "agent_world \<Rightarrow> agent_world \<times> 'a outcome"

definition ret :: "'a \<Rightarrow> 'a agent_m" where
  "ret x = (\<lambda>w. (w, Ret x))"

definition throw :: "agent_exn \<Rightarrow> 'a agent_m" where
  "throw e = (\<lambda>w. (w, Throw e))"

definition spin :: "'a agent_m" where
  "spin = (\<lambda>w. (w, Spinning))"

definition seq :: "'a agent_m \<Rightarrow> ('a \<Rightarrow> 'b agent_m) \<Rightarrow> 'b agent_m" where
  "seq m f = (\<lambda>w. case m w of
      (w1, Ret x) \<Rightarrow> f x w1
    | (w1, Throw e) \<Rightarrow> (w1, Throw e)
    | (w1, Suspended) \<Rightarrow> (w1, Suspended)
    | (w1, Spinning) \<Rightarrow> (w1, Spinning))"

text \<open>\<open>try\<close> with a \<open>catch\<close> or a \<open>finally\<close>; a failure of the handler replaces the one it handles.\<close>

definition attempt :: "'a agent_m \<Rightarrow> (agent_exn + 'a) agent_m" where
  "attempt m = (\<lambda>w. case m w of
      (w1, Ret x) \<Rightarrow> (w1, Ret (Inr x))
    | (w1, Throw e) \<Rightarrow> (w1, Ret (Inl e))
    | (w1, Suspended) \<Rightarrow> (w1, Suspended)
    | (w1, Spinning) \<Rightarrow> (w1, Spinning))"

definition of_result :: "agent_exn + 'a \<Rightarrow> 'a agent_m" where
  "of_result r = (case r of Inl e \<Rightarrow> throw e | Inr x \<Rightarrow> ret x)"

definition finally_do :: "'a agent_m \<Rightarrow> unit agent_m \<Rightarrow> 'a agent_m" where
  "finally_do m fin = seq (attempt m) (\<lambda>r. seq fin (\<lambda>_. of_result r))"

definition get_world :: "(agent_world \<Rightarrow> 'a) \<Rightarrow> 'a agent_m" where
  "get_world f = (\<lambda>w. (w, Ret (f w)))"

definition modify :: "(agent_world \<Rightarrow> agent_world) \<Rightarrow> unit agent_m" where
  "modify f = (\<lambda>w. (f w, Ret ()))"

text \<open>Loops take as many rounds as the script has ticks, and one; each round takes a tick.\<close>

definition with_fuel :: "(nat \<Rightarrow> 'a agent_m) \<Rightarrow> 'a agent_m" where
  "with_fuel f = (\<lambda>w. f (Suc (length (aw_script w))) w)"

section \<open>Interaction\<close>

definition settle_one :: "tool_pool \<Rightarrow> nat \<times> (agent_exn + tool_outcome \<times> bool) \<Rightarrow> tool_pool" where
  "settle_one pl s =
     (let i = fst s in
      if i \<notin> set (pl_inFlight pl) \<or> i \<in> set (pl_settled pl) then pl
      else case snd s of
             Inl e \<Rightarrow> pl\<lparr>pl_settled := pl_settled pl @ [i],
                        pl_failure := (case pl_failure pl of None \<Rightarrow> Some e | Some f \<Rightarrow> Some f)\<rparr>
           | Inr slot \<Rightarrow> pl\<lparr>pl_settled := pl_settled pl @ [i], pl_slots := (pl_slots pl)[i := Some slot]\<rparr>)"

text \<open>
  A tick is spent by the synchronous listeners of an event, of an append or not, or by an \<open>await\<close>. Only
  in the latter do promises settle.
\<close>

datatype moment = InAppend | InListener | AtAwait

definition next_tick :: "agent_env \<Rightarrow> moment \<Rightarrow> tick agent_m" where
  "next_tick env mo = (\<lambda>w. case aw_script w of
      [] \<Rightarrow> (w, Suspended)
    | t # ts \<Rightarrow>
        (run_externals env (mo = InAppend) (tk_externals t)
           (w\<lparr>aw_script := ts, aw_clock := aw_clock w + 1,
              aw_pool := (if mo = AtAwait then foldl settle_one (aw_pool w) (tk_settles t) else aw_pool w)\<rparr>), Ret t))"

definition await :: "agent_env \<Rightarrow> tick agent_m" where
  "await env = seq (next_tick env AtAwait) (\<lambda>t. case tk_failure t of Some e \<Rightarrow> throw e | None \<Rightarrow> ret t)"

text \<open>Awaiting an asynchronous function of the driver itself yields once more when it has settled.\<close>

definition awaited :: "agent_env \<Rightarrow> 'a agent_m \<Rightarrow> 'a agent_m" where
  "awaited env m = seq (attempt m) (\<lambda>r. seq (next_tick env AtAwait) (\<lambda>_. of_result r))"

text \<open>Emitting a notification runs its listeners.\<close>

definition emit :: "agent_env \<Rightarrow> agent_note \<Rightarrow> unit agent_m" where
  "emit env n = seq (modify (\<lambda>w. w\<lparr>aw_notes := aw_notes w @ [n]\<rparr>)) (\<lambda>_. seq (next_tick env InListener) (\<lambda>_. ret ()))"

definition append_exn :: "session \<Rightarrow> session_event \<Rightarrow> session_error \<Rightarrow> agent_exn" where
  "append_exn s e err =
     (if err = DispatchVetoed \<and> invariant_veto s e then ExInvariant (ev_data e) else ExSession err)"

definition append_event :: "agent_env \<Rightarrow> event_data \<Rightarrow> append_opts \<Rightarrow> session_event agent_m" where
  "append_event env d opts = (\<lambda>w.
     case agent_append env False (aw_clock w) (aw_session w) d opts of
       (s, Inl err) \<Rightarrow>
         (set_session s w,
          Throw (append_exn (aw_session w) (candidate_event (aw_session w) (ae_now env (aw_clock w)) d opts) err))
     | (s, Inr e) \<Rightarrow> seq (next_tick env InAppend) (\<lambda>_. ret e) (set_session s w))"

definition throwIfAborted :: "unit agent_m" where
  "throwIfAborted = (\<lambda>w. case phase_abort (aw_phase w) of None \<Rightarrow> (w, Ret ()) | Some c \<Rightarrow> (w, Throw (ExAborted c)))"

definition is_aborted :: "agent_world \<Rightarrow> bool" where
  "is_aborted w \<longleftrightarrow> phase_abort (aw_phase w) \<noteq> None"

definition lift_inbox ::
  "(session inbox_world \<Rightarrow> session inbox_world \<times> (session_error inbox_error + 'a)) \<Rightarrow> 'a agent_m" where
  "lift_inbox f = (\<lambda>w. case f (aw_io w) of
      (io, Inl err) \<Rightarrow> (w\<lparr>aw_io := io\<rparr>, Throw (ExInbox err))
    | (io, Inr x) \<Rightarrow> (w\<lparr>aw_io := io\<rparr>, Ret x))"

end
