(* ===== verification/Agent_Tools.thy ===== *)
theory Agent_Tools
  imports Agent_World
begin

text \<open>
  The scheduler of one step's tool calls, \<open>core/agent-loop/src/tool-calls.ts\<close>: exclusive calls run
  alone, parallel calls in a bounded rolling pool, results are committed in model order, an abort
  records synthetic results for the calls it skips, and a failure of the scheduler drains what has
  been dispatched and rethrows. The tool registry answers through the environment: the mode of a
  call, its preparation, the settlement of its dispatch at any later tick, and its final result.
\<close>

section \<open>Calls and their events\<close>

record tool_call =
  tc_id :: call_id
  tc_name :: string
  tc_arguments :: string

fun tool_call_of :: "content_block \<Rightarrow> tool_call option" where
  "tool_call_of (ToolCallBlock i n a) = Some \<lparr>tc_id = i, tc_name = n, tc_arguments = a\<rparr>"
| "tool_call_of _ = None"

definition tool_calls_of :: "content_block list \<Rightarrow> tool_call list" where
  "tool_calls_of bs = List.map_filter tool_call_of bs"

record planned_call =
  pn_call :: tool_call
  pn_arguments :: json

definition parseArguments :: "(string \<Rightarrow> json option) \<Rightarrow> string \<Rightarrow> json" where
  "parseArguments parse raw = (if raw \<noteq> [] then (case parse raw of Some v \<Rightarrow> v | None \<Rightarrow> JStr raw) else JObj [])"

definition plan_call :: "agent_env \<Rightarrow> tool_call \<Rightarrow> planned_call" where
  "plan_call env c = \<lparr>pn_call = c, pn_arguments = parseArguments (ae_parse env) (tc_arguments c)\<rparr>"

text \<open>The registry's mode of a call at this moment; true is \<open>parallel\<close>.\<close>

definition executionMode :: "agent_env \<Rightarrow> planned_call \<Rightarrow> bool agent_m" where
  "executionMode env c = get_world (\<lambda>w. ae_mode env (aw_clock w) (tc_id (pn_call c)) (tc_name (pn_call c)) (pn_arguments c))"

definition TOOL_ABORTED_BEFORE_DISPATCH :: string where
  "TOOL_ABORTED_BEFORE_DISPATCH = ''ABORTED_BEFORE_DISPATCH''"

definition seqs_json :: "int list \<Rightarrow> json" where
  "seqs_json qs = JArr (map (\<lambda>q. JNum (of_int q)) qs)"

definition surface_opts :: "int list \<Rightarrow> append_opts" where
  "surface_opts qs = \<lparr>ao_surfaceOp = Some (JStr ''append''), ao_sourceEventSeqs = Some (seqs_json qs), ao_ignorable = False\<rparr>"

definition tool_result_message :: "message_id \<Rightarrow> call_id \<Rightarrow> tool_outcome \<Rightarrow> message" where
  "tool_result_message mid i r =
     \<lparr>msg_id = mid, msg_role = UserRole,
      msg_content = [ToolResultBlock i (to_content r) (Some (to_isError r))
        (if \<not> to_isError r then to_loadedTools r else None)],
      msg_source = ToolSource i\<rparr>"

definition appendToolCall :: "agent_env \<Rightarrow> int \<Rightarrow> int \<Rightarrow> tool_call \<Rightarrow> int agent_m" where
  "appendToolCall env turn step c =
     seq (append_event env (ToolCall turn step (tc_id c) (tc_name c) (tc_arguments c)) plain_opts)
       (\<lambda>e. ret (ev_seq e))"

definition appendToolResult :: "agent_env \<Rightarrow> int \<Rightarrow> int \<Rightarrow> tool_call \<Rightarrow> tool_outcome \<Rightarrow> int \<Rightarrow> unit agent_m" where
  "appendToolResult env turn step c r callSeq =
     seq (get_world aw_clock) (\<lambda>clock.
     seq (append_event env
            (ToolResult turn step (tool_result_message (ae_uuid env clock) (tc_id c) r) (to_errorInfo r) (to_meta r))
            (surface_opts [callSeq]))
       (\<lambda>_. ret ()))"

definition skipped_outcome :: tool_outcome where
  "skipped_outcome =
     \<lparr>to_content = [TextBlock ''Error: tool call aborted before dispatch''], to_isError = True, to_loadedTools = None,
      to_errorInfo = Some (''AbortError'', TOOL_ABORTED_BEFORE_DISPATCH), to_meta = None, to_contexts = [],
      to_concludes = False\<rparr>"

definition appendSkippedToolCall :: "agent_env \<Rightarrow> int \<Rightarrow> int \<Rightarrow> tool_call \<Rightarrow> unit agent_m" where
  "appendSkippedToolCall env turn step c =
     seq (appendToolCall env turn step c) (\<lambda>callSeq. appendToolResult env turn step c skipped_outcome callSeq)"

fun skip_calls :: "agent_env \<Rightarrow> int \<Rightarrow> int \<Rightarrow> planned_call list \<Rightarrow> unit agent_m" where
  "skip_calls env turn step [] = ret ()"
| "skip_calls env turn step (c # cs) =
     seq (appendSkippedToolCall env turn step (pn_call c)) (\<lambda>_. skip_calls env turn step cs)"

text \<open>\<open>acceptContext\<close>: the machine stages result context at the end of its next-step inbox.\<close>

fun accept_contexts :: "agent_env \<Rightarrow> message list \<Rightarrow> unit agent_m" where
  "accept_contexts env [] = ret ()"
| "accept_contexts env (m # ms) =
     seq (get_world aw_clock) (\<lambda>clock.
     seq (lift_inbox (\<lambda>io. inbox_splice_op (agent_commit env False clock) io NextStep
            (JsFin (of_nat (length (ib_nextStep (iw_inbox io))))) (JsFin 0) [m])) (\<lambda>_.
     seq (next_tick env InListener) (\<lambda>_. accept_contexts env ms)))"

section \<open>One group\<close>

record group_state =
  gs_callSeqs :: "int list"
  gs_nextToStart :: nat
  gs_committed :: nat
  gs_started :: nat
  gs_aborted :: bool
  gs_concluded :: bool

definition throwSchedulerFailure :: "unit agent_m" where
  "throwSchedulerFailure =
     seq (get_world (\<lambda>w. pl_failure (aw_pool w))) (\<lambda>f. case f of Some e \<Rightarrow> throw e | None \<Rightarrow> ret ())"

definition set_slot :: "nat \<Rightarrow> tool_outcome \<times> bool \<Rightarrow> unit agent_m" where
  "set_slot i s = modify (\<lambda>w. w\<lparr>aw_pool := (aw_pool w)\<lparr>pl_slots := (pl_slots (aw_pool w))[i := Some s]\<rparr>\<rparr>)"

definition add_inFlight :: "nat \<Rightarrow> unit agent_m" where
  "add_inFlight i = modify (\<lambda>w. w\<lparr>aw_pool := (aw_pool w)\<lparr>pl_inFlight := pl_inFlight (aw_pool w) @ [i]\<rparr>\<rparr>)"

definition delete_inFlight :: "nat \<Rightarrow> unit agent_m" where
  "delete_inFlight i = modify (\<lambda>w. w\<lparr>aw_pool := (aw_pool w)
     \<lparr>pl_inFlight := filter (\<lambda>j. j \<noteq> i) (pl_inFlight (aw_pool w)),
      pl_settled := filter (\<lambda>j. j \<noteq> i) (pl_settled (aw_pool w))\<rparr>\<rparr>)"

definition final_result :: "agent_env \<Rightarrow> tool_outcome \<times> bool \<Rightarrow> tool_outcome agent_m" where
  "final_result env slot =
     (if snd slot then seq (await env) (\<lambda>t. ret (tk_finalized t))
      else seq (get_world aw_clock) (\<lambda>clock. of_result (ae_finish env clock (fst slot))))"

text \<open>\<open>commitReady\<close>: the rest of the group from the first uncommitted call.\<close>

fun commit_ready ::
  "agent_env \<Rightarrow> int \<Rightarrow> int \<Rightarrow> planned_call list \<Rightarrow> group_state \<Rightarrow> group_state agent_m" where
  "commit_ready env turn step [] gs = ret gs"
| "commit_ready env turn step (c # cs) gs =
     seq (get_world (\<lambda>w. pl_slots (aw_pool w) ! gs_committed gs)) (\<lambda>s.
       case s of
         None \<Rightarrow> ret gs
       | Some slot \<Rightarrow>
           seq (final_result env slot) (\<lambda>r.
           seq (appendToolResult env turn step (pn_call c) r (gs_callSeqs gs ! gs_committed gs)) (\<lambda>_.
           seq (accept_contexts env (to_contexts r)) (\<lambda>_.
             commit_ready env turn step cs
               (gs\<lparr>gs_concluded := (gs_concluded gs \<or> to_concludes r), gs_committed := gs_committed gs + 1\<rparr>)))))"

definition startCall ::
  "agent_env \<Rightarrow> int \<Rightarrow> int \<Rightarrow> planned_call \<Rightarrow> group_state \<Rightarrow> group_state agent_m" where
  "startCall env turn step c gs =
     (let i = gs_nextToStart gs in
      seq (appendToolCall env turn step (pn_call c)) (\<lambda>q.
      let gs1 = gs\<lparr>gs_callSeqs := (gs_callSeqs gs)[i := q], gs_started := gs_started gs + 1\<rparr> in
      seq (await env) (\<lambda>t.
      seq throwSchedulerFailure (\<lambda>_.
      seq (case tk_prepare t of
             PrepareDispatch \<Rightarrow> add_inFlight i
           | PreparePost r \<Rightarrow> set_slot i (r, True)
           | PrepareFinal r \<Rightarrow> set_slot i (r, False)) (\<lambda>_. ret gs1)))))"

text \<open>\<open>fillPool\<close>: the rest of the group from the first unstarted call.\<close>

fun fill_pool ::
  "agent_env \<Rightarrow> int \<Rightarrow> int \<Rightarrow> planned_call list \<Rightarrow> bool \<Rightarrow> planned_call list \<Rightarrow> group_state \<Rightarrow> group_state agent_m" where
  "fill_pool env turn step grp parallel [] gs = ret gs"
| "fill_pool env turn step grp parallel (c # cs) gs =
     seq (get_world (\<lambda>w. length (pl_inFlight (aw_pool w)))) (\<lambda>inFlight.
       if gs_aborted gs \<or> \<not> inFlight < ae_maxParallel env then ret gs
       else
         seq (executionMode env c) (\<lambda>mode.
           if 0 < gs_nextToStart gs \<and> parallel \<and> \<not> mode then ret gs
           else
             seq (awaited env (startCall env turn step c gs)) (\<lambda>gs1.
             let gs2 = gs1\<lparr>gs_nextToStart := gs_nextToStart gs1 + 1\<rparr> in
             seq throwSchedulerFailure (\<lambda>_.
             seq (awaited env (commit_ready env turn step (drop (gs_committed gs2) grp) gs2)) (\<lambda>gs3.
             seq throwSchedulerFailure (\<lambda>_.
             seq (get_world is_aborted) (\<lambda>ab.
               fill_pool env turn step grp parallel cs (gs3\<lparr>gs_aborted := (gs_aborted gs3 \<or> ab)\<rparr>))))))))"

text \<open>
  \<open>Promise.race\<close> over the dispatches in flight: one that has settled before the call wins in start
  order, otherwise the first to settle.
\<close>

fun race_pending :: "agent_env \<Rightarrow> nat \<Rightarrow> nat agent_m" where
  "race_pending env 0 = spin"
| "race_pending env (Suc n) =
     seq (next_tick env AtAwait) (\<lambda>_.
     seq (get_world (\<lambda>w. pl_settled (aw_pool w))) (\<lambda>settled.
       case settled of i # _ \<Rightarrow> ret i | [] \<Rightarrow> race_pending env n))"

definition race :: "agent_env \<Rightarrow> nat agent_m" where
  "race env =
     seq (get_world (\<lambda>w. List.find (\<lambda>i. i \<in> set (pl_settled (aw_pool w))) (pl_inFlight (aw_pool w)))) (\<lambda>r.
       case r of
         Some i \<Rightarrow> seq (next_tick env AtAwait) (\<lambda>_. ret i)
       | None \<Rightarrow> with_fuel (race_pending env))"

fun drain_pool ::
  "agent_env \<Rightarrow> int \<Rightarrow> int \<Rightarrow> planned_call list \<Rightarrow> bool \<Rightarrow> nat \<Rightarrow> group_state \<Rightarrow> group_state agent_m" where
  "drain_pool env turn step grp parallel 0 gs = spin"
| "drain_pool env turn step grp parallel (Suc n) gs =
     seq (get_world (\<lambda>w. length (pl_inFlight (aw_pool w)))) (\<lambda>inFlight.
       if inFlight = 0 then ret gs
       else
         seq (race env) (\<lambda>i.
         seq (delete_inFlight i) (\<lambda>_.
         seq throwSchedulerFailure (\<lambda>_.
         seq (awaited env (commit_ready env turn step (drop (gs_committed gs) grp) gs)) (\<lambda>gs1.
         seq throwSchedulerFailure (\<lambda>_.
         seq (get_world is_aborted) (\<lambda>ab.
         seq (awaited env (fill_pool env turn step grp parallel (drop (gs_nextToStart gs1) grp)
                (gs1\<lparr>gs_aborted := (gs_aborted gs1 \<or> ab)\<rparr>))) (\<lambda>gs2.
           drain_pool env turn step grp parallel n gs2))))))))"

text \<open>\<open>Promise.allSettled\<close>.\<close>

fun all_settled :: "agent_env \<Rightarrow> nat \<Rightarrow> unit agent_m" where
  "all_settled env 0 = spin"
| "all_settled env (Suc n) =
     seq (next_tick env AtAwait) (\<lambda>_.
     seq (get_world (\<lambda>w. list_all (\<lambda>i. i \<in> set (pl_settled (aw_pool w))) (pl_inFlight (aw_pool w)))) (\<lambda>ok.
       if ok then ret () else all_settled env n))"

definition record_failure :: "agent_exn \<Rightarrow> unit agent_m" where
  "record_failure e = modify (\<lambda>w. w\<lparr>aw_pool := (aw_pool w)
     \<lparr>pl_failure := (case pl_failure (aw_pool w) of None \<Rightarrow> Some e | Some f \<Rightarrow> Some f)\<rparr>\<rparr>)"

definition fail_group :: "agent_env \<Rightarrow> agent_exn \<Rightarrow> 'a agent_m" where
  "fail_group env e =
     seq (record_failure e) (\<lambda>_.
     seq (with_fuel (all_settled env)) (\<lambda>_.
     seq (get_world (\<lambda>w. pl_failure (aw_pool w))) (\<lambda>f.
       throw (case f of Some f \<Rightarrow> f | None \<Rightarrow> e))))"

record group_outcome =
  go_consumed :: nat
  go_aborted :: bool
  go_concluded :: bool

definition new_group :: "planned_call list \<Rightarrow> bool \<Rightarrow> group_state" where
  "new_group grp ab =
     \<lparr>gs_callSeqs = map (\<lambda>_. -1) grp, gs_nextToStart = 0, gs_committed = 0, gs_started = 0,
      gs_aborted = ab, gs_concluded = False\<rparr>"

definition runGroup ::
  "agent_env \<Rightarrow> int \<Rightarrow> int \<Rightarrow> planned_call list \<Rightarrow> bool \<Rightarrow> group_outcome agent_m" where
  "runGroup env turn step grp parallel =
     seq (modify (\<lambda>w. w\<lparr>aw_pool := \<lparr>pl_slots = map (\<lambda>_. None) grp, pl_inFlight = [], pl_settled = [],
                                   pl_failure = None\<rparr>\<rparr>)) (\<lambda>_.
     seq (get_world is_aborted) (\<lambda>ab.
     seq (attempt (seq (awaited env (fill_pool env turn step grp parallel grp (new_group grp ab))) (\<lambda>gs.
            with_fuel (\<lambda>n. drain_pool env turn step grp parallel n gs)))) (\<lambda>r.
       case r of
         Inl e \<Rightarrow> fail_group env e
       | Inr gs \<Rightarrow>
           if gs_aborted gs then
             seq (skip_calls env turn step (drop (gs_started gs) grp)) (\<lambda>_.
               ret \<lparr>go_consumed = length grp, go_aborted = True, go_concluded = gs_concluded gs\<rparr>)
           else if gs_committed gs \<noteq> gs_started gs then throw (ExThrown ''tool-call scheduler: uncommitted settled calls'')
           else ret \<lparr>go_consumed = gs_started gs, go_aborted = False, go_concluded = gs_concluded gs\<rparr>)))"

section \<open>All calls of a step\<close>

fun run_groups :: "agent_env \<Rightarrow> int \<Rightarrow> int \<Rightarrow> nat \<Rightarrow> planned_call list \<Rightarrow> bool \<Rightarrow> bool agent_m" where
  "run_groups env turn step 0 rest concluded = spin"
| "run_groups env turn step (Suc n) rest concluded =
     (case rest of
        [] \<Rightarrow> ret concluded
      | first # _ \<Rightarrow>
          seq (executionMode env first) (\<lambda>parallel.
          seq (awaited env (runGroup env turn step (if parallel then rest else [first]) parallel)) (\<lambda>r.
          let rest' = drop (go_consumed r) rest; concluded' = (concluded \<or> go_concluded r) in
            if go_aborted r then seq (skip_calls env turn step rest') (\<lambda>_. ret concluded')
            else run_groups env turn step n rest' concluded')))"

definition executeToolCalls :: "agent_env \<Rightarrow> int \<Rightarrow> int \<Rightarrow> tool_call list \<Rightarrow> bool agent_m" where
  "executeToolCalls env turn step calls =
     with_fuel (\<lambda>n. run_groups env turn step n (map (plan_call env) calls) False)"

end
