(* ===== verification/Agent_Driver.thy ===== *)
theory Agent_Driver
  imports Agent_Tools
begin

text \<open>
  The driver of \<open>core/agent-loop/src/agent.ts\<close> with the context projection of \<open>runtime-context.ts\<close>:
  composing a request, one step of model calls and tools, one turn, the loop over turns, and the
  activities of an agent (a driver, a maintenance job) with the wakes latched behind them.
\<close>

section \<open>Runtime context\<close>

definition CONTEXT_SOURCE :: string where
  "CONTEXT_SOURCE = ''@deepseek-ai/dsh-system-prompt''"

definition CLEARED :: string where
  "CLEARED = ''Current runtime context: none. Earlier runtime-context snapshots no longer apply.''"

definition isOwned :: "message \<Rightarrow> bool" where
  "isOwned m = (case msg_source m of PluginSource p _ \<Rightarrow> p = CONTEXT_SOURCE | _ \<Rightarrow> False)"

definition textOf :: "message \<Rightarrow> string option" where
  "textOf m = (case msg_content m of [TextBlock t] \<Rightarrow> Some t | _ \<Rightarrow> None)"

definition cites :: "session_event \<Rightarrow> int \<Rightarrow> bool" where
  "cites e q = (case ev_sourceEventSeqs e of Some (JArr vs) \<Rightarrow> JNum (of_int q) \<in> set vs | _ \<Rightarrow> False)"

text \<open>Construction: scan backwards for the last owned message that is still on the surface.\<close>

fun restore_context :: "int list \<Rightarrow> session_event list \<Rightarrow> context_snapshot \<Rightarrow> context_snapshot" where
  "restore_context surface [] st = st"
| "restore_context surface (e # es) st =
     (case ev_data e of
        UserMessage m \<Rightarrow>
          if \<not> isOwned m then restore_context surface es st
          else if ev_seq e \<in> set surface then Retained (ev_seq e) (textOf m)
          else restore_context surface es NoneRetained
      | _ \<Rightarrow> restore_context surface es st)"

text \<open>The listener that follows the session afterwards.\<close>

definition context_event :: "context_snapshot \<Rightarrow> session_event \<Rightarrow> context_snapshot" where
  "context_event st e =
     (case ev_data e of
        UserMessage m \<Rightarrow> if isOwned m then Retained (ev_seq e) (textOf m)
          else (case st of
             Retained q t \<Rightarrow> if isReplacementSurfaceEvent e \<and> cites e q then NoneRetained else st
           | _ \<Rightarrow> st)
      | _ \<Rightarrow> (case st of
             Retained q t \<Rightarrow> if isReplacementSurfaceEvent e \<and> cites e q then NoneRetained else st
           | _ \<Rightarrow> st))"

definition retained_context :: "agent_world \<Rightarrow> context_snapshot" where
  "retained_context w = foldl context_event (snd (aw_contextBase w)) (drop (fst (aw_contextBase w)) (aw_log w))"

fun join_blank :: "string list \<Rightarrow> string" where
  "join_blank [] = []"
| "join_blank [s] = s"
| "join_blank (s # ss) = s @ [CHR 0x0A, CHR 0x0A] @ join_blank ss"

definition joinContextSections :: "(string \<times> string) list \<Rightarrow> string" where
  "joinContextSections sections =
     (let body = join_blank (map snd sections) in
      if body = [] then []
      else ''Current runtime context. This snapshot supersedes earlier runtime-context snapshots.''
             @ [CHR 0x0A, CHR 0x0A] @ body)"

definition context_source :: "(string \<times> string) list \<Rightarrow> message_source" where
  "context_source sections =
     (if sections = [] then PluginSource CONTEXT_SOURCE []
      else PluginSource CONTEXT_SOURCE
        [(''form'', JStr ''snapshot''),
         (''sections'', JArr (map (\<lambda>(n, t). JObj [(''name'', JStr n), (''text'', JStr t)]) sections))])"

definition project_context :: "context_snapshot \<Rightarrow> message_id \<Rightarrow> string \<Rightarrow> (string \<times> string) list \<Rightarrow> message option" where
  "project_context st mid current sections =
     (if st = NeverRetained \<and> current = [] then None
      else let snapshot = (if current = [] then CLEARED else current) in
        if (case st of Retained _ t \<Rightarrow> t = Some snapshot | _ \<Rightarrow> False) then None
        else Some \<lparr>msg_id = mid, msg_role = UserRole, msg_content = [TextBlock snapshot],
                   msg_source = context_source sections\<rparr>)"

section \<open>The request\<close>

record agent_request =
  rq_config :: call_config
  rq_messages :: "message list"
  rq_system :: "string option"
  rq_tools :: "tool_schema list option"

definition requestProposal :: "epoch_header \<Rightarrow> call_config" where
  "requestProposal h =
     (case eh_adapterDefaults h of
        None \<Rightarrow> eh_config h
      | Some d \<Rightarrow>
          let c1 = (if ad_reasoningEffort d then (eh_config h)\<lparr>cc_reasoningEffort := None\<rparr> else eh_config h)
          in if ad_maxTokens d then c1\<lparr>cc_maxTokens := None\<rparr> else c1)"

definition read_header :: "epoch_header option agent_m" where
  "read_header = (\<lambda>w. case requestHeader (aw_session w) of (s, h) \<Rightarrow> (set_session s w, Ret h))"

definition read_context :: "request_context option agent_m" where
  "read_context = (\<lambda>w. case requestContext (aw_session w) of (s, c) \<Rightarrow> (set_session s w, Ret c))"

definition derive_messages :: "message list agent_m" where
  "derive_messages = (\<lambda>w. case deriveMessages (aw_session w) of
      (s, Inl err) \<Rightarrow> (set_session s w, Throw (ExSession err))
    | (s, Inr ms) \<Rightarrow> (set_session s w, Ret ms))"

definition or_empty :: "string option \<Rightarrow> string" where
  "or_empty x = (case x of Some s \<Rightarrow> s | None \<Rightarrow> [])"

text \<open>The configuration of a loop instance that has not logged a header yet.\<close>

definition first_config :: "agent_env \<Rightarrow> epoch_header option \<Rightarrow> call_config" where
  "first_config env persisted =
     (let provider = or_empty (ae_provider env); model = or_empty (ae_model env) in
      \<lparr>cc_provider = provider, cc_model = model,
       cc_reasoningEffort = (case persisted of
          None \<Rightarrow> None
        | Some h \<Rightarrow>
            if cc_provider (eh_config h) = provider \<and> cc_model (eh_config h) = model
               \<and> \<not> (case eh_adapterDefaults h of Some d \<Rightarrow> ad_reasoningEffort d | None \<Rightarrow> False)
            then cc_reasoningEffort (eh_config h) else None),
       cc_temperature = None, cc_maxTokens = ae_maxTokens env, cc_stop = None\<rparr>)"

definition seed_config :: "agent_env \<Rightarrow> call_config agent_m" where
  "seed_config env =
     seq read_header (\<lambda>persisted.
     seq (get_world aw_headerLogged) (\<lambda>logged.
       if \<not> logged then ret (first_config env persisted)
       else case persisted of Some h \<Rightarrow> ret (requestProposal h) | None \<Rightarrow> throw (ExThrown ''no header'')))"

text \<open>\<open>prepareCall\<close>; a missing adapter leaves the proposed configuration, any other failure escapes.\<close>

definition prepare_call :: "agent_env \<Rightarrow> prepared_call option agent_m" where
  "prepare_call env =
     seq (attempt (await env)) (\<lambda>r. case r of
         Inr t \<Rightarrow> ret (Some (tk_prepared t))
       | Inl (ExLlm f) \<Rightarrow> if lf_code f = ''NO_ADAPTER'' then ret None else throw (ExLlm f)
       | Inl e \<Rightarrow> throw e)"

definition step_header :: "call_config \<Rightarrow> prepared_call option \<Rightarrow> string \<Rightarrow> tool_schema list \<Rightarrow> epoch_header" where
  "step_header config prepared system tools =
     canonicalHeader \<lparr>eh_config = config, eh_adapterDefaults = map_option pr_adapterDefaults prepared,
       eh_system = (if system \<noteq> [] then Some system else None), eh_tools = (if tools \<noteq> [] then Some tools else None)\<rparr>"

definition log_header :: "agent_env \<Rightarrow> epoch_header \<Rightarrow> unit agent_m" where
  "log_header env h =
     seq read_header (\<lambda>baseline.
     seq (get_world aw_headerLogged) (\<lambda>logged.
       if \<not> logged then
         seq (append_event env (RequestHeader h (if baseline = None then ''initial'' else ''resume'')) plain_opts) (\<lambda>_.
           modify (\<lambda>w. w\<lparr>aw_headerLogged := True\<rparr>))
       else if (case baseline of None \<Rightarrow> True | Some b \<Rightarrow> \<not> headerEquals b h) then
         seq (append_event env (RequestHeader h ''change'') plain_opts) (\<lambda>_. ret ())
       else ret ()))"

definition log_context :: "agent_env \<Rightarrow> request_context \<Rightarrow> unit agent_m" where
  "log_context env c =
     seq read_context (\<lambda>previous.
       if previous \<noteq> Some c then seq (append_event env (RequestContext c) plain_opts) (\<lambda>_. ret ()) else ret ())"

definition buildRequest ::
  "agent_env \<Rightarrow> tool_schema list \<Rightarrow> string \<Rightarrow> message list \<Rightarrow> agent_request agent_m" where
  "buildRequest env tools system boundaryMessages =
     seq (seed_config env) (\<lambda>seed.
     seq (await env) (\<lambda>t.
     let proposed = tk_config t seed in
     seq throwIfAborted (\<lambda>_.
     if cc_provider proposed = [] \<or> cc_model proposed = [] then throw ExNoModel
     else
       seq (prepare_call env) (\<lambda>prepared.
       let config = (case prepared of Some p \<Rightarrow> pr_config p | None \<Rightarrow> proposed) in
       seq throwIfAborted (\<lambda>_.
       let h = step_header config prepared system tools in
       seq (log_header env h) (\<lambda>_.
       seq (log_context env \<lparr>rc_provider = cc_provider config, rc_model = cc_model config,
              rc_contextWindow = Option.bind prepared pr_contextWindow\<rparr>) (\<lambda>_.
       seq throwIfAborted (\<lambda>_.
         ret \<lparr>rq_config = eh_config h, rq_messages = boundaryMessages, rq_system = eh_system h, rq_tools = eh_tools h\<rparr>))))))))"

section \<open>One step\<close>

datatype step_end = StepCompleted | StepMaxTokens

text \<open>
  The stream: each chunk is logged, then pushed. What has been assembled when the loop ends is kept,
  with the failure that ended it; a failure in the body of the loop first closes the iterator.
\<close>

fun stream_chunks ::
  "agent_env \<Rightarrow> int \<Rightarrow> int \<Rightarrow> nat \<Rightarrow> assembler \<Rightarrow> int list \<Rightarrow> (assembler \<times> int list \<times> agent_exn option) agent_m" where
  "stream_chunks env turn step 0 a qs = spin"
| "stream_chunks env turn step (Suc n) a qs =
     seq (attempt (await env)) (\<lambda>r.
       case r of
         Inl e \<Rightarrow> ret (a, qs, Some e)
       | Inr t \<Rightarrow>
           (case tk_chunk t of
              None \<Rightarrow> ret (a, qs, None)
            | Some c \<Rightarrow>
                seq (attempt (seq throwIfAborted (\<lambda>_. append_event env (AssistantChunk turn step c) plain_opts))) (\<lambda>r.
                  case r of
                    Inl e \<Rightarrow> seq (next_tick env AtAwait) (\<lambda>_. ret (a, qs, Some e))
                  | Inr e \<Rightarrow> stream_chunks env turn step n (push a c) (qs @ [ev_seq e]))))"

definition stream_all ::
  "agent_env \<Rightarrow> int \<Rightarrow> int \<Rightarrow> (assembler \<times> int list \<times> agent_exn option) agent_m" where
  "stream_all env turn step =
     seq (attempt throwIfAborted) (\<lambda>r. case r of
       Inl e \<Rightarrow> ret (new_assembler, [], Some e)
     | Inr _ \<Rightarrow> with_fuel (\<lambda>n. stream_chunks env turn step n new_assembler []))"

definition assistant_message :: "message_id \<Rightarrow> agent_request \<Rightarrow> json option \<Rightarrow> content_block list \<Rightarrow> message" where
  "assistant_message mid rq replay content =
     \<lparr>msg_id = mid, msg_role = AssistantRole, msg_content = content,
      msg_source = ModelSource (cc_provider (rq_config rq)) (cc_model (rq_config rq)) replay\<rparr>"

definition replay_json :: "replay_envelope \<Rightarrow> json" where
  "replay_json r = JObj ((''response'', re_response r) # opt_field ''blocks'' JArr (re_blocks r))"

definition append_assistant ::
  "agent_env \<Rightarrow> int \<Rightarrow> int \<Rightarrow> message \<Rightarrow> token_usage option \<Rightarrow> bool \<Rightarrow> int list \<Rightarrow> unit agent_m" where
  "append_assistant env turn step m usage interrupted qs =
     seq (append_event env (AssistantMessage turn step m usage interrupted) (surface_opts qs)) (\<lambda>_. ret ())"

text \<open>The \<open>catch\<close> of the stream: an abort keeps the visible part of the answer.\<close>

definition stream_failed ::
  "agent_env \<Rightarrow> int \<Rightarrow> int \<Rightarrow> agent_request \<Rightarrow> assembler \<Rightarrow> int list \<Rightarrow> agent_exn \<Rightarrow> 'a agent_m" where
  "stream_failed env turn step rq a qs e =
     seq (get_world is_aborted) (\<lambda>ab.
     seq (if ab then
            seq (of_result (map_sum ExAssemble id (interruptedBlocks a))) (\<lambda>content.
            seq (get_world aw_clock) (\<lambda>clock.
              if content \<noteq> [] then
                append_assistant env turn step (assistant_message (ae_uuid env clock) rq None content) (as_usage a) True qs
              else ret ()))
          else ret ()) (\<lambda>_. throw e))"

text \<open>A finished answer: log it, then run its tools.\<close>

definition finish_step ::
  "agent_env \<Rightarrow> int \<Rightarrow> int \<Rightarrow> agent_request \<Rightarrow> assembler \<Rightarrow> int list \<Rightarrow> step_end option agent_m" where
  "finish_step env turn step rq a qs =
     seq (of_result (map_sum ExAssemble id (blocks_of a))) (\<lambda>content.
     seq (of_result (map_sum ExAssemble id (replayState_of a))) (\<lambda>replay.
     seq (get_world aw_clock) (\<lambda>clock.
     seq (append_assistant env turn step
            (assistant_message (ae_uuid env clock) rq (map_option replay_json replay) content) (as_usage a) False qs) (\<lambda>_.
       if finish_of a = FinishMaxTokens then ret (Some StepMaxTokens)
       else let calls = tool_calls_of content in
         if calls = [] then ret (Some StepCompleted)
         else seq (awaited env (executeToolCalls env turn step calls)) (\<lambda>concluded.
                ret (if concluded then Some StepCompleted else None))))))"

definition finish_failure :: "finish_reason \<Rightarrow> llm_failure option" where
  "finish_failure r = (case r of FinishError f \<Rightarrow> Some f | FinishAborted f \<Rightarrow> Some f | _ \<Rightarrow> None)"

fun step_attempts ::
  "agent_env \<Rightarrow> int \<Rightarrow> int \<Rightarrow> tool_schema list \<Rightarrow> string \<Rightarrow> nat \<Rightarrow> step_end option agent_m" where
  "step_attempts env turn step tools system 0 = spin"
| "step_attempts env turn step tools system (Suc n) =
     seq derive_messages (\<lambda>msgs.
     seq (awaited env (buildRequest env tools system msgs)) (\<lambda>rq.
     seq (stream_all env turn step) (\<lambda>(a, qs, failed).
       case failed of
         Some e \<Rightarrow> stream_failed env turn step rq a qs e
       | None \<Rightarrow>
           seq (attempt throwIfAborted) (\<lambda>r. case r of
             Inl e \<Rightarrow> stream_failed env turn step rq a qs e
           | Inr _ \<Rightarrow>
               (case finish_failure (finish_of a) of
                  Some f \<Rightarrow>
                    seq (await env) (\<lambda>t.
                    seq throwIfAborted (\<lambda>_.
                      if \<not> tk_retry t then throw (ExLlm f) else step_attempts env turn step tools system n))
                | None \<Rightarrow> finish_step env turn step rq a qs)))))"

definition run_step :: "agent_env \<Rightarrow> int \<Rightarrow> int \<Rightarrow> prompt_assembly \<Rightarrow> step_end option agent_m" where
  "run_step env turn step assembly =
     seq throwIfAborted (\<lambda>_.
     seq (of_result (pa_system assembly)) (\<lambda>system.
       with_fuel (step_attempts env turn step (pa_tools assembly) system)))"

section \<open>One turn\<close>

datatype prepared_step = StepRejected | StepEntered "message list" prompt_assembly

definition preStep :: "agent_env \<Rightarrow> inbox_target \<Rightarrow> int \<Rightarrow> prepared_step agent_m" where
  "preStep env target turn =
     seq (get_world aw_clock) (\<lambda>clock.
     seq (lift_inbox (\<lambda>io. inbox_claim (agent_commit env False clock) io target turn)) (\<lambda>claimed.
     seq (await env) (\<lambda>t.
     let assembly = tk_assembly t in
     seq throwIfAborted (\<lambda>_.
     seq (of_result (pa_sections assembly)) (\<lambda>sections.
     seq (get_world (\<lambda>w. project_context (retained_context w) (ae_uuid env (aw_clock w)) (joinContextSections sections) sections)) (\<lambda>context.
     seq (await env) (\<lambda>t.
     let decision = tk_decision t (case context of None \<Rightarrow> claimed | Some m \<Rightarrow> claimed @ [m]) in
     seq throwIfAborted (\<lambda>_.
       ret (case decision of Reject \<Rightarrow> StepRejected | Enter ms \<Rightarrow> StepEntered ms assembly)))))))))"

definition running_step :: "agent_world \<Rightarrow> int" where
  "running_step w = (case aw_phase w of Running _ _ s _ \<Rightarrow> s | _ \<Rightarrow> 0)"

definition set_step :: "int \<Rightarrow> unit agent_m" where
  "set_step k = modify (\<lambda>w. case aw_phase w of Running ab t s wk \<Rightarrow> w\<lparr>aw_phase := Running ab t k wk\<rparr> | _ \<Rightarrow> w)"

definition set_turn :: "int \<Rightarrow> unit agent_m" where
  "set_turn n = modify (\<lambda>w. case aw_phase w of Running ab t s wk \<Rightarrow> w\<lparr>aw_phase := Running ab n s wk\<rparr> | _ \<Rightarrow> w)"

fun append_users :: "agent_env \<Rightarrow> message list \<Rightarrow> unit agent_m" where
  "append_users env [] = ret ()"
| "append_users env (m # ms) =
     seq (append_event env (UserMessage m)
            \<lparr>ao_surfaceOp = Some (JStr ''append''), ao_sourceEventSeqs = None, ao_ignorable = False\<rparr>) (\<lambda>_.
       append_users env ms)"

fun end_reason :: "step_end \<Rightarrow> turn_end_reason" where
  "end_reason StepCompleted = TurnCompleted"
| "end_reason StepMaxTokens = TurnMaxTokens"

definition nextStep_empty :: "agent_world \<Rightarrow> bool" where
  "nextStep_empty w \<longleftrightarrow> length (ib_nextStep (iw_inbox (aw_io w))) = 0"

text \<open>
  The step loop of a turn: the reason the turn ends with and whether the driver stops after it
  (\<open>return false\<close>) or goes on to look for more work (\<open>break\<close>).
\<close>

fun turn_steps ::
  "agent_env \<Rightarrow> int \<Rightarrow> nat \<Rightarrow> inbox_target \<Rightarrow> step_end option \<Rightarrow> (turn_end_reason \<times> bool) agent_m" where
  "turn_steps env turn 0 target ends = spin"
| "turn_steps env turn (Suc n) target ends =
     seq throwIfAborted (\<lambda>_.
     seq (get_world running_step) (\<lambda>last.
     let step = last + 1 in
     seq (awaited env (preStep env target turn)) (\<lambda>decision.
       case decision of
         StepRejected \<Rightarrow> ret (TurnBlocked, True)
       | StepEntered ms assembly \<Rightarrow>
           if ends \<noteq> None \<and> ms = [] then ret (end_reason (the ends), False)
           else if last = 0 \<and> ms = [] then ret (TurnCompleted, True)
           else
             seq throwIfAborted (\<lambda>_.
             seq (append_event env (StepStart turn step) plain_opts) (\<lambda>_.
             seq (set_step step) (\<lambda>_.
             seq (finally_do
                    (seq (append_users env ms) (\<lambda>_. awaited env (run_step env turn step assembly)))
                    (seq (append_event env (StepEnd turn step) plain_opts) (\<lambda>_. ret ()))) (\<lambda>stepEnd.
             let ends' = (if ends \<noteq> Some StepMaxTokens then stepEnd else ends) in
             seq throwIfAborted (\<lambda>_.
             seq (get_world nextStep_empty) (\<lambda>quiet.
             seq (if ends' \<noteq> None \<and> quiet then seq (await env) (\<lambda>_. throwIfAborted) else ret ()) (\<lambda>_.
             seq (get_world nextStep_empty) (\<lambda>quiet.
               if ends' \<noteq> None \<and> quiet then ret (end_reason (the ends'), False)
               else turn_steps env turn n NextStep ends')))))))))))"

text \<open>\<open>throwError\<close>: report, then throw.\<close>

definition position_of :: "agent_world \<Rightarrow> int \<times> int" where
  "position_of w = (case aw_phase w of Running _ t s _ \<Rightarrow> (t, s) | Maintenance _ t _ \<Rightarrow> (t, 0) | Idle t \<Rightarrow> (t, 0))"

definition throwError :: "agent_env \<Rightarrow> agent_exn \<Rightarrow> 'a agent_m" where
  "throwError env e =
     seq (get_world position_of) (\<lambda>p. seq (emit env (ErrorNote (fst p) (snd p) e)) (\<lambda>_. throw e))"

definition append_reporting :: "agent_env \<Rightarrow> event_data \<Rightarrow> unit agent_m" where
  "append_reporting env d =
     seq (attempt (append_event env d plain_opts)) (\<lambda>r. case r of Inl e \<Rightarrow> throwError env e | Inr _ \<Rightarrow> ret ())"

definition failure_of :: "agent_env \<Rightarrow> agent_exn \<Rightarrow> llm_failure" where
  "failure_of env e =
     (case e of
        ExLlm f \<Rightarrow> f
      | _ \<Rightarrow> \<lparr>lf_message = ae_errorChain env e, lf_code = ''UNKNOWN'', lf_status = None,
              lf_providerRetryAfterMs = None, lf_requestId = None\<rparr>)"

text \<open>The \<open>catch\<close> of the turn with the reason it leaves for the \<open>finally\<close>.\<close>

definition turn_failed :: "agent_env \<Rightarrow> int \<Rightarrow> agent_exn \<Rightarrow> bool agent_m" where
  "turn_failed env turn e =
     seq (get_world (\<lambda>w. phase_abort (aw_phase w))) (\<lambda>ab. case ab of
       Some cause \<Rightarrow> finally_do (throw e) (append_reporting env (TurnEnd turn (TurnAborted cause)))
     | None \<Rightarrow> finally_do (throwError env e) (append_reporting env (TurnEnd turn (TurnError (failure_of env e)))))"

definition has_pending :: "agent_world \<Rightarrow> bool" where
  "has_pending w = hasPending (iw_inbox (aw_io w))"

definition next_turn_phase :: "unit agent_m" where
  "next_turn_phase = modify (\<lambda>w. case aw_phase w of Running ab t s wk \<Rightarrow> w\<lparr>aw_phase := Running None t 0 False\<rparr> | _ \<Rightarrow> w)"

definition run_turn :: "agent_env \<Rightarrow> bool agent_m" where
  "run_turn env =
     seq throwIfAborted (\<lambda>_.
     seq (get_world position_of) (\<lambda>p.
     let turn = fst p + 1 in
     seq (append_reporting env (TurnStart turn)) (\<lambda>_.
     seq (set_turn turn) (\<lambda>_.
     seq (attempt (with_fuel (\<lambda>n. turn_steps env turn n NextTurn None))) (\<lambda>r.
       case r of
         Inl e \<Rightarrow> turn_failed env turn e
       | Inr (reason, stops) \<Rightarrow>
           seq (append_reporting env (TurnEnd turn reason)) (\<lambda>_.
             if stops then ret False
             else seq (get_world has_pending) (\<lambda>pending.
               if \<not> pending then ret False else seq next_turn_phase (\<lambda>_. ret True))))))))"

section \<open>The driver\<close>

fun run_turns :: "agent_env \<Rightarrow> nat \<Rightarrow> unit agent_m" where
  "run_turns env 0 = spin"
| "run_turns env (Suc n) =
     seq (attempt (awaited env (run_turn env))) (\<lambda>r. case r of
       Inr True \<Rightarrow> run_turns env n
     | _ \<Rightarrow> ret ())"

definition latched :: "agent_world \<Rightarrow> bool" where
  "latched w = (case aw_phase w of Running _ _ _ wk \<Rightarrow> wk | Maintenance _ _ wk \<Rightarrow> wk | Idle _ \<Rightarrow> False)"

definition go_idle :: "unit agent_m" where
  "go_idle = modify (\<lambda>w. w\<lparr>aw_phase := Idle (fst (position_of w))\<rparr>)"

text \<open>
  \<open>kick\<close>, from the status event of the wake to the status event of the end: the latch is read before
  the phase changes, and a replayed wake needs pending input.
\<close>

definition kick :: "agent_env \<Rightarrow> unit agent_m" where
  "kick env =
     seq (emit env (StatusNote True)) (\<lambda>_.
     seq (with_fuel (run_turns env)) (\<lambda>_.
     seq (get_world latched) (\<lambda>wake.
     seq go_idle (\<lambda>_.
     seq (emit env (StatusNote False)) (\<lambda>_.
       modify (\<lambda>w. if wake \<and> has_pending w then wakeDriver False w else w))))))"

fun run_drivers :: "agent_env \<Rightarrow> nat \<Rightarrow> unit agent_m" where
  "run_drivers env 0 = spin"
| "run_drivers env (Suc n) =
     seq (get_world (\<lambda>w. is_running (aw_phase w))) (\<lambda>r.
       if r then seq (kick env) (\<lambda>_. run_drivers env n) else ret ())"

text \<open>A maintenance job that awaits \<open>k\<close> times.\<close>

fun job_awaits :: "agent_env \<Rightarrow> nat \<Rightarrow> unit agent_m" where
  "job_awaits env 0 = ret ()"
| "job_awaits env (Suc k) = seq (next_tick env AtAwait) (\<lambda>_. job_awaits env k)"

definition runMaintenance :: "agent_env \<Rightarrow> nat \<Rightarrow> unit agent_m" where
  "runMaintenance env k =
     seq (get_world (\<lambda>w. is_idle (aw_phase w))) (\<lambda>idle.
       if \<not> idle then throw (ExThrown ''already has active work'')
       else
         seq (modify (\<lambda>w. w\<lparr>aw_phase := Maintenance None (fst (position_of w)) False\<rparr>)) (\<lambda>_.
         seq (job_awaits env k) (\<lambda>_.
         seq (get_world latched) (\<lambda>wake.
         seq go_idle (\<lambda>_.
           modify (\<lambda>w. if wake \<and> has_pending w then wakeDriver False w else w))))))"

text \<open>
  What happens to an idle agent: a command from outside, or a maintenance job. Whatever driver it
  wakes is run, and those woken when it ends.
\<close>

datatype activity = OutsideCommand external | MaintenanceJob nat

definition run_activity :: "agent_env \<Rightarrow> activity \<Rightarrow> unit agent_m" where
  "run_activity env a =
     seq (case a of
            OutsideCommand x \<Rightarrow> modify (run_external env False x)
          | MaintenanceJob k \<Rightarrow> seq (attempt (runMaintenance env k)) (\<lambda>_. ret ())) (\<lambda>_.
       with_fuel (run_drivers env))"

fun run_activities :: "agent_env \<Rightarrow> activity list \<Rightarrow> unit agent_m" where
  "run_activities env [] = ret ()"
| "run_activities env (a # acts) = seq (run_activity env a) (\<lambda>_. run_activities env acts)"

section \<open>Construction\<close>

definition last_turn :: "session_event list \<Rightarrow> int" where
  "last_turn es =
     (case List.find (\<lambda>e. started_turn (ev_data e) \<noteq> None) (rev es) of
        None \<Rightarrow> 0
      | Some e \<Rightarrow> (case started_turn (ev_data e) of Some t \<Rightarrow> t | None \<Rightarrow> 0))"

text \<open>The script and the clock are those of the environment the agent will meet.\<close>

definition new_agent :: "session \<Rightarrow> tick list \<Rightarrow> nat \<Rightarrow> agent_exn + agent_world" where
  "new_agent s script clock =
     (case session_events s of (s1, es) \<Rightarrow>
        (case inbox_of es (sh_seedLength (se_header s1)) of
           Inl err \<Rightarrow> Inl (ExInbox err)
         | Inr ib \<Rightarrow>
             (case manager_nodes (se_surface s1) (se_log s1) of
                (m, Inl err) \<Rightarrow> Inl (ExSession (SurfaceRejected err))
              | (m, Inr surface) \<Rightarrow>
                  Inr \<lparr>aw_io = \<lparr>iw_session = s1\<lparr>se_surface := m\<rparr>, iw_inbox = ib, iw_notes = []\<rparr>,
                       aw_phase = Idle (last_turn es),
                       aw_pool = \<lparr>pl_slots = [], pl_inFlight = [], pl_settled = [], pl_failure = None\<rparr>,
                       aw_headerLogged = False,
                       aw_contextBase = (length es, restore_context surface (rev es) NeverRetained),
                       aw_notes = [], aw_script = script, aw_clock = clock\<rparr>)))"

end
