(* ===== verification/Agent_Logic.thy ===== *)
theory Agent_Logic
  imports Agent_Driver
begin

text \<open>
  The program logic of the driver monad. \<open>keeps I m\<close>: the world invariant \<open>I\<close> survives \<open>m\<close> whatever its
  outcome, so also at every point where a run is cut. \<open>ticks_in n m\<close>: from a script of at most \<open>n\<close> ticks
  \<open>m\<close> does not spin and does not lengthen the script. Both are proved along the text of a program by
  the rules collected here; only loops need an induction.
\<close>

named_theorems keeps_rules
named_theorems bound_rules

lemmas monad_defs = ret_def throw_def seq_def attempt_def of_result_def get_world_def modify_def

section \<open>Invariants\<close>

definition keeps :: "(agent_world \<Rightarrow> bool) \<Rightarrow> 'a agent_m \<Rightarrow> bool" where
  "keeps I m \<longleftrightarrow> (\<forall>w. I w \<longrightarrow> I (fst (m w)))"

lemma keepsD: "keeps I m \<Longrightarrow> I w \<Longrightarrow> m w = (w', r) \<Longrightarrow> I w'"
  by (auto simp: keeps_def)

lemma keeps_pure [keeps_rules]:
  "keeps I (ret x)" "keeps I (throw e)" "keeps I (get_world f)" "keeps I (of_result r)" "keeps I spin" "keeps I throwIfAborted"
  by (auto simp: keeps_def monad_defs spin_def throwIfAborted_def split: sum.split option.split)

lemma keeps_seq [keeps_rules]: "keeps I m \<Longrightarrow> (\<And>x. keeps I (f x)) \<Longrightarrow> keeps I (seq m f)"
  unfolding keeps_def seq_def by (fastforce split: prod.splits outcome.splits)

lemma keeps_attempt [keeps_rules]: "keeps I m \<Longrightarrow> keeps I (attempt m)"
  unfolding keeps_def attempt_def by (fastforce split: prod.splits outcome.splits)

lemma keeps_finally [keeps_rules]: "keeps I m \<Longrightarrow> keeps I fin \<Longrightarrow> keeps I (finally_do m fin)"
  unfolding finally_do_def by (intro keeps_rules)

lemma keeps_with_fuel [keeps_rules]: "(\<And>n. keeps I (f n)) \<Longrightarrow> keeps I (with_fuel f)"
  by (simp add: keeps_def with_fuel_def)

lemma keeps_cases [keeps_rules]:
  "keeps I a \<Longrightarrow> keeps I b \<Longrightarrow> keeps I (if c then a else b)"
  "keeps I a \<Longrightarrow> (\<And>y. keeps I (f y)) \<Longrightarrow> keeps I (case x of None \<Rightarrow> a | Some y \<Rightarrow> f y)"
  "(\<And>e. keeps I (g e)) \<Longrightarrow> (\<And>y. keeps I (f' y)) \<Longrightarrow> keeps I (case s of Inl e \<Rightarrow> g e | Inr y \<Rightarrow> f' y)"
  "(\<And>y z. keeps I (h y z)) \<Longrightarrow> keeps I (case p of (y, z) \<Rightarrow> h y z)"
  "keeps I a \<Longrightarrow> (\<And>y ys. keeps I (k y ys)) \<Longrightarrow> keeps I (case l of [] \<Rightarrow> a | y # ys \<Rightarrow> k y ys)"
  by (auto split: option.split sum.split prod.split list.split)

lemma keeps_let [keeps_rules]: "(\<And>y. keeps I (f y)) \<Longrightarrow> keeps I (let y = x in f y)"
  by simp

section \<open>Termination\<close>

definition ticks_in :: "nat \<Rightarrow> 'a agent_m \<Rightarrow> bool" where
  "ticks_in n m \<longleftrightarrow> (\<forall>w. length (aw_script w) \<le> n \<longrightarrow>
     snd (m w) \<noteq> Spinning \<and> length (aw_script (fst (m w))) \<le> length (aw_script w))"

definition strictly :: "nat \<Rightarrow> 'a agent_m \<Rightarrow> bool" where
  "strictly n m \<longleftrightarrow> ticks_in n m \<and>
     (\<forall>w x. length (aw_script w) \<le> n \<longrightarrow> snd (m w) = Ret x \<longrightarrow> length (aw_script (fst (m w))) < length (aw_script w))"

lemma ticks_inD:
  "ticks_in n m \<Longrightarrow> length (aw_script w) \<le> n \<Longrightarrow> m w = (w', r) \<Longrightarrow>
   r \<noteq> Spinning \<and> length (aw_script w') \<le> length (aw_script w)"
  by (auto simp: ticks_in_def)

lemma ticks_pure [bound_rules]:
  "ticks_in n (ret x)" "ticks_in n (throw e)" "ticks_in n (get_world f)" "ticks_in n (of_result r)" "ticks_in n throwIfAborted"
  by (auto simp: ticks_in_def monad_defs throwIfAborted_def split: sum.split option.split)

lemma ticks_modify [bound_rules]: "(\<And>w. aw_script (f w) = aw_script w) \<Longrightarrow> ticks_in n (modify f)"
  by (simp add: ticks_in_def monad_defs)

lemma ticks_seq [bound_rules]:
  assumes "ticks_in n m" "\<And>x. ticks_in n (f x)"
  shows "ticks_in n (seq m f)"
  unfolding ticks_in_def
proof (intro allI impI)
  fix w :: agent_world
  assume n: "length (aw_script w) \<le> n"
  obtain w1 r where m: "m w = (w1, r)" by (cases "m w")
  with assms(1) n have "r \<noteq> Spinning" "length (aw_script w1) \<le> length (aw_script w)" by (auto simp: ticks_in_def)
  moreover have "snd (f x w1) \<noteq> Spinning \<and> length (aw_script (fst (f x w1))) \<le> length (aw_script w1)" if "r = Ret x" for x
    using calculation(2) n ticks_inD [OF assms(2) [of x], of w1] by (cases "f x w1") simp
  ultimately show "snd (seq m f w) \<noteq> Spinning \<and> length (aw_script (fst (seq m f w))) \<le> length (aw_script w)"
    using m by (cases r) (auto simp: seq_def)
qed

lemma ticks_strict:
  assumes "strictly n m" "\<And>x k. n = Suc k \<Longrightarrow> ticks_in k (f x)"
  shows "ticks_in n (seq m f)"
  unfolding ticks_in_def
proof (intro allI impI)
  fix w :: agent_world
  assume n: "length (aw_script w) \<le> n"
  obtain w1 r where m: "m w = (w1, r)" by (cases "m w")
  from assms(1) n m have 1: "r \<noteq> Spinning" "length (aw_script w1) \<le> length (aw_script w)"
    and 2: "r = Ret x \<Longrightarrow> length (aw_script w1) < length (aw_script w)" for x
    by (force simp: strictly_def ticks_in_def)+
  show "snd (seq m f w) \<noteq> Spinning \<and> length (aw_script (fst (seq m f w))) \<le> length (aw_script w)"
  proof (cases r)
    case (Ret x)
    with 2 have lt: "length (aw_script w1) < length (aw_script w)" by blast
    with n obtain k where k: "n = Suc k" "length (aw_script w1) \<le> k" by (cases n) auto
    from ticks_inD [OF assms(2) [OF k(1), of x] k(2)] lt m Ret show ?thesis by (cases "f x w1") (simp add: seq_def)
  qed (use m 1 in \<open>auto simp: seq_def\<close>)
qed

lemma strictly_strict:
  assumes "strictly n m" "\<And>x k. n = Suc k \<Longrightarrow> ticks_in k (f x)"
  shows "strictly n (seq m f)"
proof -
  have "ticks_in n (seq m f)" by (rule ticks_strict [OF assms])
  moreover have "length (aw_script (fst (seq m f w))) < length (aw_script w)"
    if n: "length (aw_script w) \<le> n" and r: "snd (seq m f w) = Ret y" for w y
  proof -
    obtain w1 q where m: "m w = (w1, q)" by (cases "m w")
    with r obtain x where q: "q = Ret x" by (cases q) (auto simp: seq_def)
    with assms(1) m n have lt: "length (aw_script w1) < length (aw_script w)" by (force simp: strictly_def)
    with n obtain k where k: "n = Suc k" "length (aw_script w1) \<le> k" by (cases n) auto
    from ticks_inD [OF assms(2) [OF k(1), of x] k(2)] lt m q show ?thesis by (cases "f x w1") (simp add: seq_def)
  qed
  ultimately show ?thesis by (simp add: strictly_def)
qed

lemma ticks_in_mono: "ticks_in n m \<Longrightarrow> k \<le> n \<Longrightarrow> ticks_in k m"
  by (simp add: ticks_in_def)

lemma strictly_seq: "strictly n m \<Longrightarrow> (\<And>x. ticks_in n (f x)) \<Longrightarrow> strictly n (seq m f)"
  by (rule strictly_strict) (auto intro: ticks_in_mono [of n])

text \<open>A round of a loop: what follows a strict operation has one tick less.\<close>

lemma ticks_round:
  "strictly 0 m \<Longrightarrow> ticks_in 0 (seq m f)"
  "strictly (Suc n) m \<Longrightarrow> (\<And>x. ticks_in n (f x)) \<Longrightarrow> ticks_in (Suc n) (seq m f)"
  by (rule ticks_strict; simp)+

lemma strictly_get_world: "(\<And>x. strictly n (g x)) \<Longrightarrow> strictly n (seq (get_world f) g)"
  by (simp add: strictly_def ticks_in_def seq_def get_world_def)

lemma ticks_attempt [bound_rules]: "ticks_in n m \<Longrightarrow> ticks_in n (attempt m)"
  unfolding ticks_in_def attempt_def by (fastforce split: prod.splits outcome.splits)

lemma ticks_finally [bound_rules]: "ticks_in n m \<Longrightarrow> ticks_in n fin \<Longrightarrow> ticks_in n (finally_do m fin)"
  unfolding finally_do_def by (intro bound_rules)

lemma ticks_with_fuel [bound_rules]: "(\<And>k. k \<le> n \<Longrightarrow> ticks_in k (f (Suc k))) \<Longrightarrow> ticks_in n (with_fuel f)"
  by (simp add: ticks_in_def with_fuel_def)

lemma ticks_cases [bound_rules]:
  "ticks_in n a \<Longrightarrow> ticks_in n b \<Longrightarrow> ticks_in n (if c then a else b)"
  "ticks_in n a \<Longrightarrow> (\<And>y. ticks_in n (f y)) \<Longrightarrow> ticks_in n (case x of None \<Rightarrow> a | Some y \<Rightarrow> f y)"
  "(\<And>e. ticks_in n (g e)) \<Longrightarrow> (\<And>y. ticks_in n (f' y)) \<Longrightarrow> ticks_in n (case s of Inl e \<Rightarrow> g e | Inr y \<Rightarrow> f' y)"
  "(\<And>y z. ticks_in n (h y z)) \<Longrightarrow> ticks_in n (case p of (y, z) \<Rightarrow> h y z)"
  "ticks_in n a \<Longrightarrow> (\<And>y ys. ticks_in n (k y ys)) \<Longrightarrow> ticks_in n (case l of [] \<Rightarrow> a | y # ys \<Rightarrow> k y ys)"
  by (auto split: option.split sum.split prod.split list.split)

lemma ticks_let [bound_rules]: "(\<And>y. ticks_in n (f y)) \<Longrightarrow> ticks_in n (let y = x in f y)"
  by simp

section \<open>What commands do\<close>

text \<open>
  Everything a command does is a sequence of inbox operations, appends and changes of the phase. The
  predicate \<open>F\<close> holds of the data that other code appends.
\<close>

fun ext_ok :: "(event_data \<Rightarrow> bool) \<Rightarrow> external \<Rightarrow> bool" where
  "ext_ok F (ExtSend m t wk rs) = list_all (ext_ok F) rs"
| "ext_ok F (ExtCancel c k rs) = list_all (ext_ok F) rs"
| "ext_ok F (ExtInbox x) = (case x of DoForeign d \<Rightarrow> F d | _ \<Rightarrow> True)"
| "ext_ok F (ExtAppend d opts) = F d"

inductive moves :: "(event_data \<Rightarrow> bool) \<Rightarrow> agent_env \<Rightarrow> bool \<Rightarrow> agent_world \<Rightarrow> agent_world \<Rightarrow> bool" for F env ap where
  moves_refl: "moves F env ap w w"
| moves_inbox: "moves F env ap w w1 \<Longrightarrow> (case x of DoForeign d \<Rightarrow> F d | _ \<Rightarrow> True) \<Longrightarrow>
    moves F env ap w (w1\<lparr>aw_io := fst (op_step (agent_commit env ap (aw_clock w1)) (aw_io w1) x)\<rparr>)"
| moves_append: "moves F env ap w w1 \<Longrightarrow> F d \<Longrightarrow>
    moves F env ap w (set_session (fst (agent_append env ap (aw_clock w1) (aw_session w1) d opts)) w1)"
| moves_wake: "moves F env ap w w1 \<Longrightarrow> moves F env ap w (wakeDriver b w1)"
| moves_clear: "moves F env ap w w1 \<Longrightarrow> moves F env ap w (w1\<lparr>aw_phase := clear_wake (aw_phase w1)\<rparr>)"
| moves_abort: "moves F env ap w w1 \<Longrightarrow> moves F env ap w (w1\<lparr>aw_phase := abort_phase c (aw_phase w1)\<rparr>)"

lemma moves_trans: "moves F env ap w1 w2 \<Longrightarrow> moves F env ap w0 w1 \<Longrightarrow> moves F env ap w0 w2"
  by (induction rule: moves.induct) (auto intro: moves.intros)

lemma op_step_splice: "fst (op_step commit io (DoSplice t a b ms)) = fst (inbox_splice_op commit io t a b ms)"
  by simp

lemma op_step_clear: "fst (op_step commit io DoClear) = fst (inbox_clear commit io)"
  by simp

lemma run_externals_moves:
  "ext_ok F x \<Longrightarrow> moves F env ap w (run_external env ap x w)"
  "list_all (ext_ok F) xs \<Longrightarrow> moves F env ap w (run_externals env ap xs w)"
proof (induction env ap x w and env ap xs w rule: run_external_run_externals.induct)
  case (1 env ap m target wakeup reactions w)
  define after where "after = (wakeup \<and> phase_abort (aw_phase w) \<noteq> None)"
  define t where "t = (if after then NextTurn else target)"
  have ext: "run_external env ap (ExtSend m target wakeup reactions) w =
    (case inbox_splice_op (agent_commit env ap (aw_clock w)) (aw_io w) t JsInf (JsFin 0) [m] of
       (io, Inl _) \<Rightarrow> w\<lparr>aw_io := io\<rparr>
     | (io, Inr _) \<Rightarrow> let w1 = run_externals env ap reactions (w\<lparr>aw_io := io\<rparr>)
                      in if wakeup then wakeDriver after w1 else w1)"
    by (simp only: run_external.simps after_def t_def Let_def)
  obtain io r where s: "inbox_splice_op (agent_commit env ap (aw_clock w)) (aw_io w) t JsInf (JsFin 0) [m] = (io, r)" by fastforce
  have io: "moves F env ap w (w\<lparr>aw_io := io\<rparr>)"
    using moves_inbox [of F env ap w w "DoSplice t JsInf (JsFin 0) [m]"] s
    by (simp del: op_step.simps add: op_step_splice moves_refl)
  show ?case
  proof (cases r)
    case (Inl err)
    with s io show ?thesis by (simp only: ext prod.case sum.case)
  next
    case (Inr ms)
    with 1 s have "moves F env ap (w\<lparr>aw_io := io\<rparr>) (run_externals env ap reactions (w\<lparr>aw_io := io\<rparr>))"
      by (simp add: after_def t_def)
    from moves_trans [OF this io] have "moves F env ap w (run_externals env ap reactions (w\<lparr>aw_io := io\<rparr>))" .
    with s Inr moves_wake [OF this] show ?thesis by (simp add: ext Let_def del: run_external.simps)
  qed
next
  case (2 env ap cause keepInbox reactions w)
  obtain io r where s: "inbox_clear (agent_commit env ap (aw_clock w)) (aw_io w) = (io, r)" by fastforce
  have io: "moves F env ap w (w\<lparr>aw_io := io\<rparr>)"
    using moves_inbox [of F env ap w w DoClear] s by (simp del: op_step.simps add: op_step_clear moves_refl)
  show ?case
  proof (cases "keepInbox \<or> isl r")
    case True
    with s io moves_abort [of F env ap w w cause] moves_refl [of F env ap w] show ?thesis by (cases r) auto
  next
    case False
    with 2 s have "moves F env ap (w\<lparr>aw_io := io\<rparr>) (run_externals env ap reactions (w\<lparr>aw_io := io\<rparr>))" by (cases r) auto
    from moves_abort [OF moves_clear [OF moves_trans [OF this io]], where c = cause] False s show ?thesis
      by (cases r) (simp_all add: Let_def)
  qed
next
  case (3 env ap x w)
  then show ?case by (auto intro: moves_inbox [OF moves_refl])
next
  case (4 env ap d opts w)
  then show ?case by (auto intro: moves_append [OF moves_refl])
next
  case (6 env ap x xs w)
  then show ?case by (auto simp: Let_def intro: moves_trans)
qed (simp_all add: moves_refl)

text \<open>Commands leave the script, the clock, the pool and the notes alone.\<close>

lemma moves_fields:
  "moves F env ap w w' \<Longrightarrow> aw_script w' = aw_script w \<and> aw_clock w' = aw_clock w \<and> aw_pool w' = aw_pool w \<and>
     aw_notes w' = aw_notes w \<and> aw_headerLogged w' = aw_headerLogged w \<and> aw_contextBase w' = aw_contextBase w"
  by (induction rule: moves.induct) (auto simp: set_session_def wakeDriver_def)

lemma ext_ok_True [simp]: "ext_ok (\<lambda>_. True) x"
  by (induction x) (auto simp: list_all_iff split: inbox_op.split)

lemma run_externals_script [simp]: "aw_script (run_externals env ap xs w) = aw_script w"
proof -
  have "list_all (ext_ok (\<lambda>_. True)) xs" by (simp add: list_all_iff)
  from run_externals_moves(2) [OF this] moves_fields show ?thesis by blast
qed

lemma strictly_next_tick: "strictly n (next_tick env mo)"
  by (auto simp: strictly_def ticks_in_def next_tick_def split: list.split)

lemma ticks_next_tick [bound_rules]: "ticks_in n (next_tick env mo)"
  using strictly_next_tick by (simp add: strictly_def)

lemma strictly_await: "strictly n (await env)"
  unfolding await_def by (rule strictly_seq [OF strictly_next_tick]) (intro bound_rules)

lemma ticks_await [bound_rules]: "ticks_in n (await env)"
  using strictly_await by (simp add: strictly_def)

lemma strictly_awaited: "ticks_in n m \<Longrightarrow> strictly n (awaited env m)"
proof -
  assume m: "ticks_in n m"
  have "ticks_in n (awaited env m)" unfolding awaited_def by (intro bound_rules m)
  moreover have "length (aw_script (fst (awaited env m w))) < length (aw_script w)"
    if n: "length (aw_script w) \<le> n" and r: "snd (awaited env m w) = Ret y" for w y
  proof -
    obtain w1 q where q: "m w = (w1, q)" by (cases "m w")
    with m n have "length (aw_script w1) \<le> length (aw_script w)" by (force simp: ticks_in_def)
    with q r show ?thesis
      by (cases q) (auto simp: awaited_def monad_defs next_tick_def split: list.splits sum.splits)
  qed
  ultimately show ?thesis by (simp add: strictly_def)
qed

lemma ticks_awaited [bound_rules]: "ticks_in n m \<Longrightarrow> ticks_in n (awaited env m)"
  using strictly_awaited by (auto simp: strictly_def)

lemma ticks_emit [bound_rules]: "ticks_in n (emit env x)"
  unfolding emit_def by (intro bound_rules) simp

lemma append_event_cases:
  obtains (Refused) s err e where "append_event env d opts w = (set_session s w, Throw e)"
      "agent_append env False (aw_clock w) (aw_session w) d opts = (s, Inl err)"
  | (Accepted) s e where "append_event env d opts w = seq (next_tick env InAppend) (\<lambda>_. ret e) (set_session s w)"
      "agent_append env False (aw_clock w) (aw_session w) d opts = (s, Inr e)"
  by (cases "agent_append env False (aw_clock w) (aw_session w) d opts"; cases "snd (agent_append env False (aw_clock w) (aw_session w) d opts)")
    (auto simp: append_event_def)

lemma strictly_append_event: "strictly n (append_event env d opts)"
proof -
  have len: "aw_script (set_session s w) = aw_script w" for s w by (simp add: set_session_def)
  have "snd (append_event env d opts w) \<noteq> Spinning \<and>
      length (aw_script (fst (append_event env d opts w))) \<le> length (aw_script w) \<and>
      (\<forall>x. snd (append_event env d opts w) = Ret x \<longrightarrow>
         length (aw_script (fst (append_event env d opts w))) < length (aw_script w))" for w
    by (cases rule: append_event_cases [of env d opts w]) (auto simp: monad_defs next_tick_def len split: list.splits)
  then show ?thesis by (simp add: strictly_def ticks_in_def)
qed

lemma ticks_append_event [bound_rules]: "ticks_in n (append_event env d opts)"
  using strictly_append_event by (simp add: strictly_def)

lemma ticks_lift_inbox [bound_rules]: "ticks_in n (lift_inbox f)"
  by (auto simp: ticks_in_def lift_inbox_def split: prod.split sum.split)

section \<open>The driver waits only for its environment\<close>

lemma ticks_tool_preparation [bound_rules]:
  "ticks_in n a \<Longrightarrow> (\<And>r. ticks_in n (f r)) \<Longrightarrow> (\<And>r. ticks_in n (g r)) \<Longrightarrow>
   ticks_in n (case p of PrepareDispatch \<Rightarrow> a | PreparePost r \<Rightarrow> f r | PrepareFinal r \<Rightarrow> g r)"
  by (cases p) auto

lemma ticks_prepared_step [bound_rules]:
  "ticks_in n a \<Longrightarrow> (\<And>ms p. ticks_in n (f ms p)) \<Longrightarrow>
   ticks_in n (case d of StepRejected \<Rightarrow> a | StepEntered ms p \<Rightarrow> f ms p)"
  by (cases d) auto

lemma ticks_reply [bound_rules]:
  "(\<And>y. ticks_in n (f y)) \<Longrightarrow> (\<And>e. ticks_in n (g e)) \<Longrightarrow> (\<And>x. ticks_in n (h x)) \<Longrightarrow>
   ticks_in n (case r of Inr t \<Rightarrow> f t | Inl (ExLlm y) \<Rightarrow> g y | Inl e \<Rightarrow> h e)"
  by (auto split: sum.split agent_exn.split)

lemma ticks_modifies [bound_rules]:
  "ticks_in n (set_slot i s)" "ticks_in n (add_inFlight i)" "ticks_in n (delete_inFlight i)" "ticks_in n (record_failure e)"
  "ticks_in n (set_step k)" "ticks_in n (set_turn k)" "ticks_in n next_turn_phase" "ticks_in n go_idle"
  by (auto simp: set_slot_def add_inFlight_def delete_inFlight_def record_failure_def set_step_def set_turn_def
      next_turn_phase_def go_idle_def intro!: ticks_modify split: phase.split)

lemma ticks_reads [bound_rules]:
  "ticks_in n read_header" "ticks_in n read_context" "ticks_in n derive_messages"
  by (auto simp: ticks_in_def read_header_def read_context_def derive_messages_def set_session_def split: prod.split sum.split)

lemma ticks_small [bound_rules]:
  "ticks_in n (executionMode env c)" "ticks_in n (appendToolCall env turn step tc)"
  "ticks_in n (appendToolResult env turn step tc r q)" "ticks_in n (appendSkippedToolCall env turn step tc)"
  "ticks_in n throwSchedulerFailure" "ticks_in n (final_result env slot)"
  unfolding executionMode_def appendToolCall_def appendToolResult_def appendSkippedToolCall_def throwSchedulerFailure_def
    final_result_def by (intro bound_rules)+

lemma ticks_skip_calls [bound_rules]: "ticks_in n (skip_calls env turn step cs)"
  by (induction cs) (auto intro: bound_rules)

lemma ticks_accept_contexts [bound_rules]: "ticks_in n (accept_contexts env ms)"
  by (induction ms) (auto intro!: bound_rules)

lemma ticks_commit_ready [bound_rules]: "ticks_in n (commit_ready env turn step cs gs)"
  by (induction cs arbitrary: gs) (auto intro!: bound_rules)

lemma ticks_startCall [bound_rules]: "ticks_in n (startCall env turn step c gs)"
  unfolding startCall_def by (intro bound_rules)

lemma ticks_fill_pool [bound_rules]: "ticks_in n (fill_pool env turn step grp par cs gs)"
  by (induction cs arbitrary: gs) (auto intro!: bound_rules)

lemma strictly_ticks: "strictly n m \<Longrightarrow> ticks_in n m"
  by (simp add: strictly_def)

declare race_pending.simps [simp del] drain_pool.simps [simp del] all_settled.simps [simp del] run_groups.simps [simp del]
  stream_chunks.simps [simp del] step_attempts.simps [simp del] turn_steps.simps [simp del] run_turns.simps [simp del]
  run_drivers.simps [simp del]

lemma strictly_race_pending: "strictly n (race_pending env (Suc n))"
proof (induction n)
  case 0
  show ?case by (subst race_pending.simps) (rule strictly_strict [OF strictly_next_tick], simp)
next
  case (Suc n)
  show ?case
    by (subst race_pending.simps, rule strictly_strict [OF strictly_next_tick], simp)
      (intro bound_rules strictly_ticks [OF Suc])
qed

lemma strictly_race: "strictly n (race env)"
proof -
  have "strictly n (with_fuel (race_pending env))"
    using strictly_race_pending by (fastforce simp: strictly_def ticks_in_def with_fuel_def)
  moreover have "strictly n (seq (next_tick env AtAwait) (\<lambda>_. ret i))" for i
    by (intro strictly_seq [OF strictly_next_tick] bound_rules)
  ultimately show ?thesis
    unfolding race_def by (intro strictly_get_world) (auto split: option.split)
qed

lemma ticks_drain_pool [bound_rules]: "ticks_in n (drain_pool env turn step grp par (Suc n) gs)"
proof (induction n arbitrary: gs)
  case 0
  show ?case by (subst drain_pool.simps) (rule ticks_seq ticks_round(1) [OF strictly_race] bound_rules)+
next
  case (Suc n)
  show ?case by (subst drain_pool.simps) (rule ticks_round(2) [OF strictly_race] Suc bound_rules)+
qed

lemma ticks_all_settled [bound_rules]: "ticks_in n (all_settled env (Suc n))"
proof (induction n)
  case 0
  show ?case by (subst all_settled.simps) (rule ticks_round(1) [OF strictly_next_tick])
next
  case (Suc n)
  show ?case by (subst all_settled.simps) (rule ticks_round(2) [OF strictly_next_tick] Suc bound_rules)+
qed

lemma ticks_runGroup [bound_rules]: "ticks_in n (runGroup env turn step grp par)"
  unfolding runGroup_def fail_group_def by (intro bound_rules) simp

lemma ticks_run_groups [bound_rules]: "ticks_in n (run_groups env turn step (Suc n) rest c)"
proof (induction n arbitrary: rest c)
  case 0
  show ?case
    by (subst run_groups.simps) (rule ticks_round(1) [OF strictly_awaited] bound_rules)+
next
  case (Suc n)
  show ?case
    by (subst run_groups.simps) (rule ticks_round(2) [OF strictly_awaited] Suc bound_rules)+
qed

lemma ticks_executeToolCalls [bound_rules]: "ticks_in n (executeToolCalls env turn step calls)"
  unfolding executeToolCalls_def by (intro bound_rules)

lemma ticks_buildRequest [bound_rules]: "ticks_in n (buildRequest env tools system msgs)"
  unfolding buildRequest_def seed_config_def prepare_call_def log_header_def log_context_def
  by (intro bound_rules) simp_all

text \<open>An \<open>await\<close> spends its tick whether or not what it awaits fails.\<close>

lemma strictly_attempt:
  "strictly n (attempt (await env))"
  "ticks_in n m \<Longrightarrow> strictly n (attempt (awaited env m))"
proof -
  show "strictly n (attempt (await env))"
    by (auto simp: strictly_def ticks_in_def await_def monad_defs next_tick_def split: list.split option.split)
  assume m: "ticks_in n m"
  have "ticks_in n (attempt (awaited env m))" by (intro bound_rules m)
  moreover have "length (aw_script (fst (attempt (awaited env m) w))) < length (aw_script w)"
    if n: "length (aw_script w) \<le> n" and r: "snd (attempt (awaited env m) w) = Ret y" for w y
  proof -
    obtain w1 q where q: "m w = (w1, q)" by (cases "m w")
    with m n have "length (aw_script w1) \<le> length (aw_script w)" by (force simp: ticks_in_def)
    with q r show ?thesis
      by (cases q) (auto simp: awaited_def monad_defs next_tick_def split: list.splits sum.splits)
  qed
  ultimately show "strictly n (attempt (awaited env m))" by (simp add: strictly_def)
qed

lemma ticks_stream_chunks [bound_rules]: "ticks_in n (stream_chunks env turn step (Suc n) a qs)"
proof (induction n arbitrary: a qs)
  case 0
  show ?case by (subst stream_chunks.simps) (rule ticks_round(1) [OF strictly_attempt(1)])
next
  case (Suc n)
  show ?case by (subst stream_chunks.simps) (rule ticks_round(2) [OF strictly_attempt(1)] Suc bound_rules)+
qed

lemma ticks_stream_all [bound_rules]: "ticks_in n (stream_all env turn step)"
  unfolding stream_all_def by (intro bound_rules)

lemma ticks_stream_failed [bound_rules]: "ticks_in n (stream_failed env turn step rq a qs e)"
  unfolding stream_failed_def append_assistant_def by (intro bound_rules)

lemma ticks_finish_step [bound_rules]: "ticks_in n (finish_step env turn step rq a qs)"
  unfolding finish_step_def append_assistant_def by (intro bound_rules)

lemma ticks_step_attempts [bound_rules]: "ticks_in n (step_attempts env turn step tools system (Suc n))"
proof (induction n)
  case 0
  show ?case by (subst step_attempts.simps) (rule ticks_round(1) [OF strictly_awaited] bound_rules)+
next
  case (Suc n)
  show ?case by (subst step_attempts.simps) (rule ticks_round(2) [OF strictly_awaited] Suc bound_rules)+
qed

lemma ticks_run_step [bound_rules]: "ticks_in n (run_step env turn step assembly)"
  unfolding run_step_def by (intro bound_rules)

lemma ticks_preStep [bound_rules]: "ticks_in n (preStep env target turn)"
  unfolding preStep_def by (intro bound_rules)

lemma ticks_append_users [bound_rules]: "ticks_in n (append_users env ms)"
  by (induction ms) (auto intro!: bound_rules)

lemma ticks_turn_steps [bound_rules]: "ticks_in n (turn_steps env turn (Suc n) target ends)"
proof (induction n arbitrary: target ends)
  case 0
  show ?case by (subst turn_steps.simps) (rule ticks_round(1) [OF strictly_awaited] bound_rules)+
next
  case (Suc n)
  show ?case by (subst turn_steps.simps) (rule ticks_round(2) [OF strictly_awaited] Suc bound_rules)+
qed

lemma ticks_reporting [bound_rules]:
  "ticks_in n (throwError env e)" "ticks_in n (append_reporting env d)" "ticks_in n (turn_failed env turn e)"
  unfolding throwError_def append_reporting_def turn_failed_def by (intro bound_rules)+

lemma ticks_run_turn [bound_rules]: "ticks_in n (run_turn env)"
  unfolding run_turn_def by (intro bound_rules)

lemma ticks_reply_bool [bound_rules]:
  "ticks_in n a \<Longrightarrow> ticks_in n b \<Longrightarrow> ticks_in n (case r of Inr True \<Rightarrow> a | _ \<Rightarrow> b)"
  by (auto split: sum.split bool.split)

lemma ticks_run_turns [bound_rules]: "ticks_in n (run_turns env (Suc n))"
proof (induction n)
  case 0
  show ?case by (subst run_turns.simps) (rule ticks_round(1) [OF strictly_attempt(2)] bound_rules)+
next
  case (Suc n)
  show ?case by (subst run_turns.simps) (rule ticks_round(2) [OF strictly_attempt(2)] Suc bound_rules)+
qed

lemma strictly_emit: "strictly n (emit env x)"
  by (auto simp: strictly_def ticks_in_def emit_def monad_defs next_tick_def split: list.split)

lemma ticks_wake: "ticks_in n (modify (\<lambda>w. if c w then wakeDriver b w else w))"
  by (rule ticks_modify) (simp add: wakeDriver_def)

lemma strictly_kick: "strictly n (kick env)"
  unfolding kick_def by (rule strictly_seq [OF strictly_emit]) (intro bound_rules ticks_wake)

lemma ticks_run_drivers [bound_rules]: "ticks_in n (run_drivers env (Suc n))"
proof (induction n)
  case 0
  show ?case by (subst run_drivers.simps) (rule ticks_round(1) [OF strictly_kick] bound_rules)+
next
  case (Suc n)
  show ?case by (subst run_drivers.simps) (rule ticks_round(2) [OF strictly_kick] Suc bound_rules)+
qed

lemma ticks_job_awaits [bound_rules]: "ticks_in n (job_awaits env k)"
  by (induction k) (auto intro!: bound_rules)

lemma run_external_script [simp]: "aw_script (run_external env ap x w) = aw_script w"
  using moves_fields [OF run_externals_moves(1) [OF ext_ok_True]] by simp

lemma ticks_run_activity: "ticks_in n (run_activity env a)"
  unfolding run_activity_def runMaintenance_def
  by (cases a; simp; intro bound_rules ticks_wake; simp)

section \<open>Claims\<close>


end
