(* ===== verification/Agent_Frame.thy ===== *)
theory Agent_Frame
  imports Agent_Logic
begin

text \<open>
  What the driver leaves alone. A contract is a property of the session that survives every append of
  certain data, with a property of the phase that survives commands: it holds throughout a run in
  which other code appends only such data. \<open>session_contract\<close> gives it for the interaction with other
  code, \<open>step_contract\<close> for the whole text of a step, whose own data it must then allow. The
  interpretations are the brackets of the log, the header of a request and the tool events of a group.
\<close>

definition tick_ok :: "(event_data \<Rightarrow> bool) \<Rightarrow> tick \<Rightarrow> bool" where
  "tick_ok F t \<longleftrightarrow> list_all (ext_ok F) (tk_externals t)"

definition frame ::
  "(session \<Rightarrow> bool) \<Rightarrow> (event_data \<Rightarrow> bool) \<Rightarrow> (phase \<Rightarrow> bool) \<Rightarrow> agent_world \<Rightarrow> bool" where
  "frame J F Sh w \<longleftrightarrow> J (aw_session w) \<and> Sh (aw_phase w) \<and> list_all (tick_ok F) (aw_script w)"

lemma aw_session_simps [simp]:
  "aw_session (set_session s w) = s"
  "aw_session (w\<lparr>aw_phase := p\<rparr>) = aw_session w" "aw_session (w\<lparr>aw_script := ts\<rparr>) = aw_session w"
  "aw_session (w\<lparr>aw_clock := k\<rparr>) = aw_session w" "aw_session (w\<lparr>aw_pool := pl\<rparr>) = aw_session w"
  "aw_session (w\<lparr>aw_notes := ns\<rparr>) = aw_session w" "aw_session (w\<lparr>aw_headerLogged := h\<rparr>) = aw_session w"
  "aw_session (w\<lparr>aw_io := io\<rparr>) = iw_session io" "aw_session (wakeDriver bb w) = aw_session w"
  by (simp_all add: aw_session_def set_session_def wakeDriver_def)

lemma set_session_simps [simp]:
  "aw_phase (set_session s w) = aw_phase w" "aw_script (set_session s w) = aw_script w"
  "aw_clock (set_session s w) = aw_clock w" "iw_inbox (aw_io (set_session s w)) = iw_inbox (aw_io w)"
  by (simp_all add: set_session_def)

lemma frame_set_session: "frame J F Sh w \<Longrightarrow> J' s \<Longrightarrow> frame J' F Sh (set_session s w)"
  by (simp add: frame_def)

lemma keeps_modify: "(\<And>w. I w \<Longrightarrow> I (f w)) \<Longrightarrow> keeps I (modify f)"
  by (simp add: keeps_def modify_def)

lemma keeps_pool [keeps_rules]:
  "keeps (frame J F Sh) (set_slot i s)" "keeps (frame J F Sh) (add_inFlight i)" "keeps (frame J F Sh) (delete_inFlight i)"
  "keeps (frame J F Sh) (record_failure e)" "keeps (frame J F Sh) (modify (\<lambda>w. w\<lparr>aw_pool := pl w\<rparr>))"
  "keeps (frame J F Sh) (modify (\<lambda>w. w\<lparr>aw_headerLogged := h w\<rparr>))"
  unfolding set_slot_def add_inFlight_def delete_inFlight_def record_failure_def
  by (rule keeps_modify, simp add: frame_def)+

lemma keeps_decisions [keeps_rules]:
  "keeps I a \<Longrightarrow> (\<And>r. keeps I (f r)) \<Longrightarrow> (\<And>r. keeps I (g r)) \<Longrightarrow>
   keeps I (case p of PrepareDispatch \<Rightarrow> a | PreparePost r \<Rightarrow> f r | PrepareFinal r \<Rightarrow> g r)"
  "(\<And>y. keeps I (f' y)) \<Longrightarrow> (\<And>e. keeps I (g' e)) \<Longrightarrow> (\<And>x. keeps I (h x)) \<Longrightarrow>
   keeps I (case r of Inr t \<Rightarrow> f' t | Inl (ExLlm y) \<Rightarrow> g' y | Inl e \<Rightarrow> h e)"
  by (cases p; simp) (auto split: sum.split agent_exn.split)

section \<open>Appends of an agent\<close>

lemma agent_append_parts:
  assumes "agent_append env ap clock s d opts = (s', r)"
  shows "(\<exists>err m. r = Inl err \<and> s' = s\<lparr>se_surface := m\<rparr>) \<or>
    (\<exists>e tr. r = Inr e \<and> e = candidate_event s (ae_now env clock) d opts \<and> se_log s' = se_log s @ [e] \<and>
       seedSession (se_log s @ [e]) = Inr tr)"
  using assms unfolding agent_append_def
proof (cases rule: session_append_cases)
  case (Accepted m e)
  then show ?thesis by (auto simp: invariant_veto_def split: sum.splits) (metis isl_def old.sum.exhaust)
qed auto

lemma agent_append_sound:
  assumes "session_ok s" "derived_ok s" "agent_append env ap clock s d opts = (s', r)"
  shows "session_ok s' \<and> derived_ok s'"
  using assms session_append_ok session_append_derived unfolding agent_append_def by blast

lemma candidate_data [simp]: "ev_data (candidate_event s now d opts) = d" "ev_seq (candidate_event s now d opts) = int (length (se_log s))"
  by (simp_all add: candidate_event_def)

lemma reads_log:
  "se_log (fst (requestHeader s)) = se_log s" "se_log (fst (requestContext s)) = se_log s"
  "se_log (fst (deriveMessages s)) = se_log s"
  by (simp_all add: requestHeader_def requestContext_def deriveMessages_def Let_def split: prod.split sum.split)

lemma reads_sound:
  assumes "session_ok s" "derived_ok s"
  shows "session_ok (fst (requestHeader s)) \<and> derived_ok (fst (requestHeader s))"
    "session_ok (fst (requestContext s)) \<and> derived_ok (fst (requestContext s))"
    "session_ok (fst (deriveMessages s)) \<and> derived_ok (fst (deriveMessages s))"
  using assms requestHeader_ok requestContext_ok derived_ok_reads deriveMessages_run [OF assms] by (simp_all) (metis fst_conv)

section \<open>Interaction\<close>

locale session_contract =
  fixes J :: "session \<Rightarrow> bool" and F :: "event_data \<Rightarrow> bool" and Sh :: "phase \<Rightarrow> bool"
  assumes keep_append: "J s \<Longrightarrow> F d \<Longrightarrow> J (fst (agent_append env ap clock s d opts))"
    and keep_reads: "J s \<Longrightarrow> J (fst (requestHeader s))" "J s \<Longrightarrow> J (fst (requestContext s))"
      "J s \<Longrightarrow> J (fst (deriveMessages s))"
    and own_splice: "F (InboxSpliced sp)"
    and keep_phase: "Sh p \<Longrightarrow> Sh (wake_phase b p)" "Sh p \<Longrightarrow> Sh (clear_wake p)" "Sh p \<Longrightarrow> Sh (abort_phase c p)"
begin

lemma mutate_keeps:
  assumes "J (iw_session io)" "mutate (agent_commit env ap clock) io t x y ms disc = (io', r)"
  shows "J (iw_session io')"
proof -
  have "J (fst (agent_commit env ap clock (iw_session io) (InboxSpliced sp)))" for sp
    using keep_append [OF assms(1) own_splice] by (simp add: agent_commit_def)
  moreover have "iw_session io' = iw_session io \<or>
      (\<exists>sp. iw_session io' = fst (agent_commit env ap clock (iw_session io) (InboxSpliced sp)))"
    using assms(2) unfolding mutate_def Let_def
    by (auto split: sum.splits prod.splits if_splits) (metis fst_conv)+
  ultimately show ?thesis using assms(1) by auto
qed

lemma splice_keeps:
  "J (iw_session io) \<Longrightarrow> inbox_splice_op (agent_commit env ap clock) io t x y ms = (io', r) \<Longrightarrow> J (iw_session io')"
  unfolding inbox_splice_op_def by (rule mutate_keeps)

lemma claim_keeps:
  "J (iw_session io) \<Longrightarrow> inbox_claim (agent_commit env ap clock) io t n = (io', r) \<Longrightarrow> J (iw_session io')"
  by (fastforce simp: inbox_claim_def dest: mutate_keeps split: prod.splits sum.splits if_splits)

lemma op_keeps:
  assumes "J (iw_session io)" "case x of DoForeign d \<Rightarrow> F d | _ \<Rightarrow> True"
    "op_step (agent_commit env ap clock) io x = (io', ok)"
  shows "J (iw_session io')"
proof (cases x)
  case (DoClaim t n)
  with assms(1,3) show ?thesis by (auto simp: map_prod_id_Pair dest: claim_keeps)
next
  case DoClear
  with assms(1,3) show ?thesis
    by (auto simp: map_prod_id_Pair inbox_clear_def dest: splice_keeps split: prod.splits sum.splits)
next
  case (DoForeign d)
  with assms keep_append [of "iw_session io" d env ap clock plain_opts] show ?thesis
    by (cases d) (auto simp: agent_commit_def split: prod.splits)
qed (use assms(1,3) in \<open>auto simp: map_prod_id_Pair inbox_append_def inbox_prepend_def inbox_replace_def
      inbox_remove_def dest: splice_keeps split: option.splits prod.splits sum.splits\<close>)

lemma moves_keeps: "moves F env ap w w' \<Longrightarrow> frame J F Sh w \<Longrightarrow> frame J F Sh w'"
proof (induction rule: moves.induct)
  case (moves_inbox w w1 x)
  then have w1: "frame J F Sh w1" by blast
  obtain io ok where op: "op_step (agent_commit env ap (aw_clock w1)) (aw_io w1) x = (io, ok)" by fastforce
  from w1 have "J (iw_session (aw_io w1))" by (simp add: frame_def aw_session_def)
  from op_keeps [OF this moves_inbox(2) op] w1 show ?case by (simp add: frame_def op)
next
  case (moves_append w w1 d opts)
  then show ?case using keep_append by (simp add: frame_def)
qed (simp_all add: frame_def wakeDriver_def keep_phase)

lemma keeps_tick [keeps_rules]: "keeps (frame J F Sh) (next_tick env mo)"
  unfolding keeps_def
proof (intro allI impI)
  fix w assume w: "frame J F Sh w"
  show "frame J F Sh (fst (next_tick env mo w))"
  proof (cases "aw_script w")
    case Nil
    with w show ?thesis by (simp add: next_tick_def)
  next
    case (Cons t ts)
    define w0 where "w0 = w\<lparr>aw_script := ts, aw_clock := aw_clock w + 1,
      aw_pool := (if mo = AtAwait then foldl settle_one (aw_pool w) (tk_settles t) else aw_pool w)\<rparr>"
    from w Cons have ok: "list_all (ext_ok F) (tk_externals t)" and w0: "frame J F Sh w0"
      by (auto simp: frame_def tick_ok_def w0_def)
    from moves_keeps [OF run_externals_moves(2) [OF ok] w0]
    have "frame J F Sh (run_externals env (mo = InAppend) (tk_externals t) w0)" .
    with Cons show ?thesis by (simp add: next_tick_def w0_def)
  qed
qed

lemma keeps_await [keeps_rules]: "keeps (frame J F Sh) (await env)"
  unfolding await_def by (intro keeps_rules)

lemma keeps_awaited [keeps_rules]: "keeps (frame J F Sh) m \<Longrightarrow> keeps (frame J F Sh) (awaited env m)"
  unfolding awaited_def by (intro keeps_rules)

lemma keeps_emit [keeps_rules]: "keeps (frame J F Sh) (emit env n)"
  unfolding emit_def by (intro keeps_rules keeps_modify) (simp add: frame_def)

lemma keeps_append_event [keeps_rules]: "F d \<Longrightarrow> keeps (frame J F Sh) (append_event env d opts)"
  unfolding keeps_def
proof (intro allI impI)
  fix w assume d: "F d" and w: "frame J F Sh w"
  from w have w': "J (fst (agent_append env False (aw_clock w) (aw_session w) d opts))"
    using keep_append d by (simp add: frame_def)
  have k: "keeps (frame J F Sh) (seq (next_tick env InAppend) (\<lambda>_. ret e))" for e :: session_event by (intro keeps_rules)
  show "frame J F Sh (fst (append_event env d opts w))"
    by (cases rule: append_event_cases [of env d opts w])
      (use w w' k in \<open>auto simp: frame_set_session keeps_def\<close>)
qed

lemma keeps_lift_inbox:
  assumes "\<And>io io' r. J (iw_session io) \<Longrightarrow> f io = (io', r) \<Longrightarrow> J (iw_session io')"
  shows "keeps (frame J F Sh) (lift_inbox f)"
  unfolding keeps_def
proof (intro allI impI)
  fix w assume w: "frame J F Sh w"
  obtain io r where f: "f (aw_io w) = (io, r)" by fastforce
  from w have "J (iw_session (aw_io w))" by (simp add: frame_def aw_session_def)
  from assms [OF this f] w f show "frame J F Sh (fst (lift_inbox f w))"
    by (cases r) (simp_all add: lift_inbox_def frame_def)
qed

lemma keeps_inbox [keeps_rules]:
  "keeps (frame J F Sh) (lift_inbox (\<lambda>io. inbox_claim (agent_commit env ap clock) io target turn))"
  "keeps (frame J F Sh) (lift_inbox (\<lambda>io. inbox_splice_op (agent_commit env ap clock) io target (x io) y ms))"
  by (rule keeps_lift_inbox, erule claim_keeps, assumption) (rule keeps_lift_inbox, erule splice_keeps, assumption)

lemma keeps_reads [keeps_rules]:
  "keeps (frame J F Sh) read_header" "keeps (frame J F Sh) read_context" "keeps (frame J F Sh) derive_messages"
  using keep_reads by (fastforce simp: keeps_def read_header_def read_context_def derive_messages_def frame_def
      split: prod.split sum.split)+

text \<open>The parts of the scheduler that append nothing but inbox splices.\<close>

lemma keeps_quiet [keeps_rules]:
  "keeps (frame J F Sh) (executionMode env c)" "keeps (frame J F Sh) throwSchedulerFailure"
  "keeps (frame J F Sh) (final_result env slot)"
  unfolding executionMode_def throwSchedulerFailure_def final_result_def by (intro keeps_rules)+

lemma keeps_accept_contexts [keeps_rules]: "keeps (frame J F Sh) (accept_contexts env ms)"
  by (induction ms) (auto intro!: keeps_rules)

lemma keeps_race [keeps_rules]: "keeps (frame J F Sh) (race_pending env n)" "keeps (frame J F Sh) (race env)"
proof -
  show 1: "keeps (frame J F Sh) (race_pending env n)" for n
    by (induction n; subst race_pending.simps; (intro keeps_rules)?; assumption?)
  show "keeps (frame J F Sh) (race env)" unfolding race_def by (intro keeps_rules 1)
qed

lemma keeps_all_settled [keeps_rules]: "keeps (frame J F Sh) (all_settled env n)"
  by (induction n; subst all_settled.simps) (rule keeps_rules | assumption)+

lemma keeps_fail_group [keeps_rules]: "keeps (frame J F Sh) (fail_group env e)"
  unfolding fail_group_def by (intro keeps_rules)

lemma keeps_throwError [keeps_rules]: "keeps (frame J F Sh) (throwError env e)"
  unfolding throwError_def by (intro keeps_rules)

lemma keeps_job_awaits [keeps_rules]: "keeps (frame J F Sh) (job_awaits env k)"
  by (induction k) (auto intro!: keeps_rules)

lemma keeps_preStep [keeps_rules]: "keeps (frame J F Sh) (preStep env target turn)"
  unfolding preStep_def by (intro keeps_rules)

end

section \<open>The text of a step\<close>

locale step_contract = session_contract +
  assumes own_chunk: "F (AssistantChunk turn step c)" and own_message: "F (AssistantMessage turn step m u i)"
    and own_call: "F (ToolCall turn step ci n a)" and own_result: "F (ToolResult turn step m er mt)"
    and own_header: "F (RequestHeader h reason)" and own_context: "F (RequestContext rc)"
    and own_user: "F (UserMessage m)"
begin

lemmas own_data [keeps_rules] = own_chunk own_message own_call own_result own_header own_context own_user

lemma keeps_tool_events [keeps_rules]:
  "keeps (frame J F Sh) (appendToolCall env turn step tc)" "keeps (frame J F Sh) (appendToolResult env turn step tc r q)"
  "keeps (frame J F Sh) (appendSkippedToolCall env turn step tc)"
  unfolding appendToolCall_def appendToolResult_def appendSkippedToolCall_def by (intro keeps_rules)+

lemma keeps_skip_calls [keeps_rules]: "keeps (frame J F Sh) (skip_calls env turn step cs)"
  by (induction cs) (auto intro: keeps_rules)

lemma keeps_commit_ready [keeps_rules]: "keeps (frame J F Sh) (commit_ready env turn step cs gs)"
  by (induction cs arbitrary: gs) (auto intro!: keeps_rules)

lemma keeps_startCall [keeps_rules]: "keeps (frame J F Sh) (startCall env turn step c gs)"
  unfolding startCall_def by (intro keeps_rules)

lemma keeps_fill_pool [keeps_rules]: "keeps (frame J F Sh) (fill_pool env turn step grp par cs gs)"
  by (induction cs arbitrary: gs) (auto intro!: keeps_rules)

lemma keeps_drain_pool [keeps_rules]: "keeps (frame J F Sh) (drain_pool env turn step grp par n gs)"
  by (induction n arbitrary: gs; subst drain_pool.simps) (rule keeps_rules | assumption)+

lemma keeps_runGroup [keeps_rules]: "keeps (frame J F Sh) (runGroup env turn step grp par)"
  unfolding runGroup_def by (intro keeps_rules)

lemma keeps_run_groups [keeps_rules]: "keeps (frame J F Sh) (run_groups env turn step n rest c)"
  by (induction n arbitrary: rest c; subst run_groups.simps) (rule keeps_rules | assumption)+

lemma keeps_buildRequest [keeps_rules]: "keeps (frame J F Sh) (buildRequest env tools system msgs)"
  unfolding buildRequest_def seed_config_def prepare_call_def log_header_def log_context_def
  by (intro keeps_rules)

lemma keeps_stream_chunks [keeps_rules]: "keeps (frame J F Sh) (stream_chunks env turn step n a qs)"
  by (induction n arbitrary: a qs; subst stream_chunks.simps) (rule keeps_rules | assumption)+

lemma keeps_step_parts [keeps_rules]:
  "keeps (frame J F Sh) (stream_all env turn step)" "keeps (frame J F Sh) (executeToolCalls env turn step calls)"
  "keeps (frame J F Sh) (append_assistant env turn step m u i qs)"
  unfolding stream_all_def executeToolCalls_def append_assistant_def by (intro keeps_rules)+

lemma keeps_step_ends [keeps_rules]:
  "keeps (frame J F Sh) (stream_failed env turn step rq a qs e)" "keeps (frame J F Sh) (finish_step env turn step rq a qs)"
  unfolding stream_failed_def finish_step_def by (intro keeps_rules)+

lemma keeps_step_attempts [keeps_rules]: "keeps (frame J F Sh) (step_attempts env turn step tools system n)"
  by (induction n; subst step_attempts.simps) (rule keeps_rules | assumption)+

lemma keeps_run_step [keeps_rules]: "keeps (frame J F Sh) (run_step env turn step assembly)"
  unfolding run_step_def by (intro keeps_rules)

lemma keeps_append_users [keeps_rules]: "keeps (frame J F Sh) (append_users env ms)"
  by (induction ms) (auto intro!: keeps_rules)

end

end
