(* ===== verification/Agent_Brackets.thy ===== *)
theory Agent_Brackets
  imports Agent_Frame
begin

text \<open>
  The turn and step brackets a live agent leaves in its log. The log determines the brackets (the open
  turn and step and the next numbers); everything but the four boundary events leaves them, so the
  text of a step keeps them, and the driver's own boundary events move them as the phase moves.
\<close>

section \<open>Brackets of a session\<close>

fun bracket_free :: "event_data \<Rightarrow> bool" where
  "bracket_free (TurnStart _) = False"
| "bracket_free (TurnEnd _ _) = False"
| "bracket_free (StepStart _ _) = False"
| "bracket_free (StepEnd _ _) = False"
| "bracket_free _ = True"

fun closes_bracket :: "event_data \<Rightarrow> bool" where
  "closes_bracket (TurnEnd _ _) = True"
| "closes_bracket (StepEnd _ _) = True"
| "closes_bracket _ = False"

record brackets =
  br_turn :: "int option"
  br_step :: "int option"
  br_nextTurn :: int
  br_nextStep :: int

definition brackets_of :: "session_trace \<Rightarrow> brackets" where
  "brackets_of tr = \<lparr>br_turn = openTurn tr, br_step = openStep tr, br_nextTurn = nextTurn tr, br_nextStep = nextStep tr\<rparr>"

definition session_at :: "brackets \<Rightarrow> session \<Rightarrow> bool" where
  "session_at b s \<longleftrightarrow> session_ok s \<and> derived_ok s \<and>
     (\<exists>tr. seedSession (se_log s) = Inr tr \<and> brackets_of tr = b)"

lemma bracket_free_step:
  "trace_step pre tr e = Inr tr' \<Longrightarrow> bracket_free (ev_data e) \<Longrightarrow> brackets_of tr' = brackets_of tr"
  by (cases "ev_data e")
    (auto simp: brackets_of_def trace_step_def validateEvent_def result_simps applyTransition_def
      unchanged_transition_def requireOpenStep_def Let_def split: if_splits option.splits)

text \<open>A boundary event that fits the brackets, and what it makes of them.\<close>

fun enter :: "brackets \<Rightarrow> event_data \<Rightarrow> brackets option" where
  "enter b (TurnStart t) =
     (if br_turn b = None \<and> t = br_nextTurn b then Some (b\<lparr>br_turn := Some t, br_nextStep := 1\<rparr>) else None)"
| "enter b (TurnEnd t r) =
     (if br_turn b = Some t \<and> br_step b = None then Some (b\<lparr>br_turn := None, br_nextTurn := br_nextTurn b + 1\<rparr>) else None)"
| "enter b (StepStart t k) =
     (if br_turn b = Some t \<and> br_step b = None \<and> k = br_nextStep b then Some (b\<lparr>br_step := Some k\<rparr>) else None)"
| "enter b (StepEnd t k) =
     (if br_turn b = Some t \<and> br_step b = Some k then Some (b\<lparr>br_step := None, br_nextStep := br_nextStep b + 1\<rparr>) else None)"
| "enter b d = Some b"

lemma trace_step_enter:
  "trace_step pre tr e = Inr tr' \<Longrightarrow> enter (brackets_of tr) (ev_data e) = Some (brackets_of tr')"
  by (cases "ev_data e")
    (auto simp: brackets_of_def trace_step_def validateEvent_def result_simps applyTransition_def
      unchanged_transition_def requireOpenStep_def Let_def split: if_splits option.splits)

lemma trace_step_boundary:
  assumes "enter (brackets_of tr) (ev_data e) = Some b" "\<not> bracket_free (ev_data e)" "lastSeq tr < ev_seq e"
  shows "\<exists>tr'. trace_step pre tr e = Inr tr' \<and> brackets_of tr' = b"
  using assms
  by (cases "ev_data e")
    (auto simp: brackets_of_def trace_step_def validateEvent_def applyTransition_def ensure_def
      unchanged_transition_def requireOpenStep_def split: if_splits)

lemma session_at_trace:
  assumes "session_at b s"
  obtains tr where "seedSession (se_log s) = Inr tr" "brackets_of tr = b" "lastSeq tr < int (length (se_log s))"
proof -
  from assms obtain tr where tr: "seedSession (se_log s) = Inr tr" "brackets_of tr = b" and ok: "session_ok s"
    by (auto simp: session_at_def)
  have "lastSeq tr < int (length (se_log s))"
  proof (cases "se_log s" rule: rev_exhaust)
    case Nil
    with tr(1) have "tr = freshTrace" by (simp add: seedSession_project)
    with Nil show ?thesis by (simp add: freshTrace_def)
  next
    case (snoc es e)
    then have log: "se_log s = es @ [e]" .
    with tr(1) obtain tr0 where "trace_step es tr0 e = Inr tr"
      by (auto simp: seedSession_project trace.project_snoc result_simps)
    moreover from session_ok_seqs(1) [OF ok] have "ev_seq e = int (length es)"
      by (simp add: log)
    ultimately show ?thesis using trace_step_seq by (simp add: log)
  qed
  with tr that show thesis by blast
qed

section \<open>Appends\<close>

lemma session_at_append:
  assumes at: "session_at b s" and app: "agent_append env ap clock s d opts = (s', r)"
  shows "(\<exists>err. r = Inl err \<and> session_at b s') \<or> (\<exists>e b'. r = Inr e \<and> enter b d = Some b' \<and> session_at b' s')"
proof -
  from at have ok: "session_ok s" "derived_ok s" by (auto simp: session_at_def)
  note sound = agent_append_sound [OF ok app]
  from at obtain tr where tr: "seedSession (se_log s) = Inr tr" "brackets_of tr = b" by (auto simp: session_at_def)
  from agent_append_parts [OF app] show ?thesis
  proof (elim disjE exE conjE)
    fix err m assume "r = Inl err" "s' = s\<lparr>se_surface := m\<rparr>"
    with sound tr show ?thesis by (auto simp: session_at_def)
  next
    fix e tr' assume e: "r = Inr e" "e = candidate_event s (ae_now env clock) d opts" "se_log s' = se_log s @ [e]"
      and tr': "seedSession (se_log s @ [e]) = Inr tr'"
    from tr(1) tr' have "trace_step (se_log s) tr e = Inr tr'"
      by (simp add: seedSession_project trace.project_snoc)
    with trace_step_enter [OF this] tr(2) e tr' sound show ?thesis by (auto simp: session_at_def)
  qed
qed

text \<open>A closing boundary that fits is never refused.\<close>

definition spares_closings :: "agent_env \<Rightarrow> bool" where
  "spares_closings env \<longleftrightarrow> (\<forall>clock e. closes_bracket (ev_data e) \<longrightarrow> \<not> ae_veto env clock e)"

lemma closing_accepted:
  assumes at: "session_at b s" and fits: "enter b d = Some b'" and d: "closes_bracket d" and env: "spares_closings env"
  shows "\<exists>s' e. agent_append env False clock s d plain_opts = (s', Inr e) \<and> session_at b' s'"
proof -
  let ?e = "candidate_event s (ae_now env clock) d plain_opts"
  obtain tr where tr: "seedSession (se_log s) = Inr tr" "brackets_of tr = b" "lastSeq tr < int (length (se_log s))"
    using session_at_trace [OF at] .
  have "\<not> bracket_free d" using d by (cases d) auto
  with trace_step_boundary [of tr ?e b' "se_log s"] fits tr obtain tr' where
    "trace_step (se_log s) tr ?e = Inr tr'" "brackets_of tr' = b'" by auto
  with tr(1) have acc: "\<not> invariant_veto s ?e"
    by (simp add: invariant_veto_def seedSession_project trace.project_snoc)
  from at obtain p where run: "manager_run (se_surface s) (se_log s)" and p: "foldSurface (se_log s) = Inr p"
    by (auto simp: session_at_def session_ok_def)
  have "surface_step (se_log s) st ?e = Inr st" for st
    using d ineligible_boundaries by (cases d) (auto simp: plain_opts_def candidate_event_def intro!: surface_step_log_only)
  with p have "\<exists>q. foldSurface (se_log s @ [?e]) = Inr q"
    by (auto simp: foldSurface_project surface.project_snoc result_simps)
  with validateNext_fold [OF run p, of ?e] obtain m where v: "validateNext (se_surface s) (se_log s) ?e = (m, None)"
    by (cases "validateNext (se_surface s) (se_log s) ?e") (auto split: sum.splits)
  have "\<not> ae_veto env clock ?e" using env d by (simp add: spares_closings_def)
  with v acc have "\<exists>s'. agent_append env False clock s d plain_opts = (s', Inr ?e)"
    using d by (cases d) (auto simp: agent_append_def session_append_def assertSupportedRequestHeader_def Let_def)
  with session_at_append [OF at] fits show ?thesis by fastforce
qed

section \<open>Worlds\<close>

datatype activity_shape = InIdle int | InJob int | InRun int int

fun shape_of :: "phase \<Rightarrow> activity_shape" where
  "shape_of (Idle t) = InIdle t"
| "shape_of (Maintenance _ t _) = InJob t"
| "shape_of (Running _ t k _) = InRun t k"

abbreviation live_at :: "activity_shape \<Rightarrow> brackets \<Rightarrow> agent_world \<Rightarrow> bool" where
  "live_at sh b \<equiv> frame (session_at b) bracket_free (\<lambda>p. shape_of p = sh)"

abbreviation in_run :: "int \<Rightarrow> int \<Rightarrow> brackets \<Rightarrow> agent_world \<Rightarrow> bool" where
  "in_run t k b \<equiv> live_at (InRun t k) b"

text \<open>An agent at rest, or one that a command has woken.\<close>

abbreviation resting :: "int \<Rightarrow> brackets \<Rightarrow> agent_world \<Rightarrow> bool" where
  "resting t b \<equiv> frame (session_at b) bracket_free (\<lambda>p. shape_of p = InIdle t \<or> shape_of p = InRun t 0)"

lemma bracket_free_enter: "bracket_free d \<Longrightarrow> enter b d = Some b"
  by (cases d) auto

lemma session_at_free:
  "session_at b s \<Longrightarrow> bracket_free d \<Longrightarrow> session_at b (fst (agent_append env ap clock s d opts))"
  using session_at_append [of b s env ap clock d opts] bracket_free_enter
  by (cases "agent_append env ap clock s d opts") fastforce

lemma session_at_reads:
  assumes "session_at b s"
  shows "session_at b (fst (requestHeader s))" "session_at b (fst (requestContext s))" "session_at b (fst (deriveMessages s))"
  using assms reads_sound [of s] by (auto simp: session_at_def reads_log)

lemma shape_simps [simp]:
  "shape_of (clear_wake p) = shape_of p" "shape_of (abort_phase c p) = shape_of p"
  "\<not> is_idle p \<Longrightarrow> shape_of (wake_phase bb p) = shape_of p"
  by (cases p; simp)+

lemma shape_wake:
  "shape_of p = InRun t k \<Longrightarrow> shape_of (wake_phase bb p) = InRun t k"
  "shape_of p = InJob t \<Longrightarrow> shape_of (wake_phase bb p) = InJob t"
  "shape_of p = InIdle t \<Longrightarrow> shape_of (wake_phase bb p) = InRun t 0"
  by (cases p; simp)+

text \<open>Commands and the text of a step keep the brackets and where the agent stands.\<close>

interpretation running: step_contract "session_at b" bracket_free "\<lambda>p. shape_of p = InRun t k" for b t k
  by unfold_locales (simp_all add: session_at_free session_at_reads shape_wake)

interpretation maintaining: session_contract "session_at b" bracket_free "\<lambda>p. shape_of p = InJob t" for b t
  by unfold_locales (simp_all add: session_at_free session_at_reads shape_wake)

interpretation resting: session_contract "session_at b" bracket_free "\<lambda>p. shape_of p = InIdle t \<or> shape_of p = InRun t 0" for b t
  by unfold_locales (auto simp: session_at_free session_at_reads shape_wake)

text \<open>An append of the driver moves the brackets as its data says; the listeners then keep them.\<close>

lemma frame_session: "live_at sh b w \<Longrightarrow> session_at b (aw_session w)"
  by (simp add: frame_def)

lemma live_at_set_session: "live_at sh b w \<Longrightarrow> session_at b' s \<Longrightarrow> live_at sh b' (set_session s w)"
  by (simp add: frame_def)

lemma append_event_moves:
  assumes w: "in_run t k b w" and m: "append_event env d opts w = (w', r)"
  shows "(\<exists>e. r = Throw e \<and> in_run t k b w') \<or> (\<exists>b'. (\<forall>e. r \<noteq> Throw e) \<and> enter b d = Some b' \<and> in_run t k b' w')"
proof (cases rule: append_event_cases [of env d opts w])
  case (Refused s err e)
  with session_at_append [OF frame_session [OF w] Refused(2)] m live_at_set_session [OF w] show ?thesis by auto
next
  case (Accepted s e)
  with session_at_append [OF frame_session [OF w] Accepted(2)] obtain b' where b': "enter b d = Some b'" "session_at b' s" by auto
  have "keeps (in_run t k b') (seq (next_tick env InAppend) (\<lambda>_. ret e))" by (intro keeps_rules)
  moreover have "\<nexists>x. r = Throw x"
    using m Accepted(1) by (auto simp: monad_defs next_tick_def split: list.splits)
  ultimately show ?thesis
    using keepsD live_at_set_session [OF w b'(2)] m Accepted(1) b'(1) by metis
qed

end
