(* ===== verification/Agent_Triple.thy ===== *)
theory Agent_Triple
  imports Agent_Frame
begin

text \<open>
  Hoare triples for the driver monad: a precondition, one postcondition for a return, one for a throw, and
  one for a run that is cut short, which every interruption point must establish.
\<close>

section \<open>Triples\<close>

definition triple ::
  "(agent_world \<Rightarrow> bool) \<Rightarrow> (agent_world \<Rightarrow> bool) \<Rightarrow> 'a agent_m \<Rightarrow> ('a \<Rightarrow> agent_world \<Rightarrow> bool) \<Rightarrow> (agent_world \<Rightarrow> bool) \<Rightarrow> bool" where
  "triple C P m Q E \<longleftrightarrow> (\<forall>w. P w \<longrightarrow>
     (case m w of
        (w', Ret x) \<Rightarrow> Q x w'
      | (w', Throw e) \<Rightarrow> E w'
      | (w', Suspended) \<Rightarrow> C w'
      | (w', Spinning) \<Rightarrow> C w'))"

lemma triple_conseq:
  "triple C P m Q E \<Longrightarrow> (\<And>w. P' w \<Longrightarrow> P w) \<Longrightarrow> (\<And>x w. Q x w \<Longrightarrow> Q' x w) \<Longrightarrow> (\<And>w. E w \<Longrightarrow> E' w) \<Longrightarrow> triple C P' m Q' E'"
  unfolding triple_def by (fastforce split: outcome.splits)

lemma triple_no_throw:
  assumes "triple C P m Q E'" "\<And>w e. P w \<Longrightarrow> snd (m w) \<noteq> Throw e"
  shows "triple C P m Q E"
  unfolding triple_def
proof (intro allI impI)
  fix w assume w: "P w"
  obtain w' r where m: "m w = (w', r)" by fastforce
  with assms(1) w have "case (w', r) of (w', Ret x) \<Rightarrow> Q x w' | (w', Throw e) \<Rightarrow> E' w' | (w', Suspended) \<Rightarrow> C w'
    | (w', Spinning) \<Rightarrow> C w'" by (auto simp: triple_def)
  with m assms(2) [OF w] show "case m w of (w', Ret x) \<Rightarrow> Q x w' | (w', Throw e) \<Rightarrow> E w' | (w', Suspended) \<Rightarrow> C w'
    | (w', Spinning) \<Rightarrow> C w'" by (cases r) auto
qed

lemma triple_ex: "(\<And>n. triple C (P n) m Q E) \<Longrightarrow> triple C (\<lambda>w. \<exists>n. P n w) m Q E"
  unfolding triple_def by (intro allI impI) (elim exE, simp)

lemma triple_pure:
  "(\<And>w. P w \<Longrightarrow> Q x w) \<Longrightarrow> triple C P (ret x) Q E"
  "(\<And>w. P w \<Longrightarrow> E w) \<Longrightarrow> triple C P (throw e) Q E"
  "(\<And>w. P w \<Longrightarrow> Q (f w) w) \<Longrightarrow> triple C P (get_world f) Q E"
  "(\<And>w. P w \<Longrightarrow> C w) \<Longrightarrow> triple C P spin Q E"
  by (simp_all add: triple_def monad_defs spin_def)

lemma triple_get: "(\<And>x. triple C P (g x) Q E) \<Longrightarrow> triple C P (seq (get_world f) g) Q E"
  by (simp add: triple_def seq_def get_world_def)

lemma triple_False: "triple C (\<lambda>_. False) m Q E"
  by (simp add: triple_def)

lemma triple_modify: "(\<And>w. P w \<Longrightarrow> Q () (g w)) \<Longrightarrow> triple C P (modify g) Q E"
  by (simp add: triple_def monad_defs)

lemma triple_seq:
  assumes "triple C P m R E" "\<And>x. triple C (R x) (f x) Q E"
  shows "triple C P (seq m f) Q E"
  unfolding triple_def
proof (intro allI impI)
  fix w assume "P w"
  with assms(1) have m: "case m w of (w', Ret x) \<Rightarrow> R x w' | (w', Throw e) \<Rightarrow> E w' | (w', Suspended) \<Rightarrow> C w'
    | (w', Spinning) \<Rightarrow> C w'" by (simp add: triple_def)
  obtain w1 r where "m w = (w1, r)" by (cases "m w")
  with m assms(2) show "case seq m f w of (w', Ret x) \<Rightarrow> Q x w' | (w', Throw e) \<Rightarrow> E w' | (w', Suspended) \<Rightarrow> C w'
    | (w', Spinning) \<Rightarrow> C w'"
    by (cases r) (simp_all add: seq_def triple_def)
qed

lemma triple_attempt:
  "triple C P m Q E \<Longrightarrow> triple C P (attempt m) (\<lambda>r w. case r of Inl e \<Rightarrow> E w | Inr x \<Rightarrow> Q x w) E'"
  unfolding triple_def attempt_def by (fastforce split: outcome.splits prod.splits)

lemma triple_sum:
  "(\<And>e. r = Inl e \<Longrightarrow> triple C P (f e) Q E) \<Longrightarrow> (\<And>x. r = Inr x \<Longrightarrow> triple C P' (g x) Q E) \<Longrightarrow>
   triple C (\<lambda>w. case r of Inl e \<Rightarrow> P w | Inr x \<Rightarrow> P' w) (case r of Inl e \<Rightarrow> f e | Inr x \<Rightarrow> g x) Q E"
  by (cases r) simp_all

lemma triple_finally:
  assumes "triple C P m R R'" "\<And>x. triple C (R x) fin (\<lambda>_. Q x) E" "triple C R' fin (\<lambda>_. E) E"
  shows "triple C P (finally_do m fin) Q E"
  unfolding finally_do_def
proof (rule triple_seq [OF triple_attempt [OF assms(1)]])
  fix r :: "agent_exn + 'a"
  show "triple C (\<lambda>w. case r of Inl e \<Rightarrow> R' w | Inr x \<Rightarrow> R x w) (seq fin (\<lambda>_. of_result r)) Q E"
  proof (cases r)
    case (Inl e)
    with assms(3) show ?thesis by (auto simp: of_result_def intro!: triple_seq triple_pure)
  next
    case (Inr x)
    then show ?thesis by (auto simp: of_result_def intro!: triple_seq [OF assms(2)] triple_pure)
  qed
qed

lemma triple_keeps: "keeps I m \<Longrightarrow> (\<And>w. I w \<Longrightarrow> C w) \<Longrightarrow> triple C I m (\<lambda>_. I) I"
  unfolding triple_def keeps_def by (fastforce split: prod.splits outcome.splits)

lemma keeps_ex: "(\<And>n. keeps (I n) m) \<Longrightarrow> keeps (\<lambda>w. \<exists>n. I n w) m"
  by (auto simp: keeps_def)

lemma triple_awaited:
  assumes "triple C P m Q E" "\<And>x. keeps (Q x) (next_tick env AtAwait)" "keeps E (next_tick env AtAwait)"
    and "\<And>x w. Q x w \<Longrightarrow> C w" "\<And>w. E w \<Longrightarrow> C w"
  shows "triple C P (awaited env m) Q E"
  unfolding awaited_def
proof (rule triple_seq [OF triple_attempt [OF assms(1)]])
  fix r :: "agent_exn + 'a"
  have no: "snd (next_tick env AtAwait w) \<noteq> Throw e" for w e by (simp add: next_tick_def split: list.split)
  show "triple C (\<lambda>w. case r of Inl e \<Rightarrow> E w | Inr x \<Rightarrow> Q x w) (seq (next_tick env AtAwait) (\<lambda>_. of_result r)) Q E"
  proof (cases r)
    case (Inl e)
    with triple_keeps [OF assms(3,5)] show ?thesis by (auto simp: of_result_def intro!: triple_seq triple_pure)
  next
    case (Inr x)
    have "triple C (Q x) (next_tick env AtAwait) (\<lambda>_. Q x) E"
      by (rule triple_no_throw [OF triple_keeps [OF assms(2) assms(4)]]) (assumption, rule no)
    with Inr show ?thesis by (auto simp: of_result_def intro!: triple_seq triple_pure)
  qed
qed

lemma seq_assoc: "seq (seq m f) g = seq m (\<lambda>x. seq (f x) g)"
  by (auto simp: seq_def fun_eq_iff split: outcome.split prod.split)

lemma triple_if: "(c \<Longrightarrow> triple C P m Q E) \<Longrightarrow> (\<not> c \<Longrightarrow> triple C P m' Q E) \<Longrightarrow> triple C P (if c then m else m') Q E"
  by simp

end
