(* ===== verification/Agent_Samples.thy ===== *)
theory Agent_Samples
  imports Agent_Logic
begin

text \<open>A concrete environment, session and world, for the inputs of the witnesses about the agent.\<close>

definition sample_config :: call_config where
  "sample_config = \<lparr>cc_provider = ''p'', cc_model = ''m'', cc_reasoningEffort = None, cc_temperature = None,
     cc_maxTokens = None, cc_stop = None\<rparr>"

definition sample_env :: agent_env where
  "sample_env = \<lparr>ae_veto = (\<lambda>_ _. False), ae_now = int, ae_uuid = (\<lambda>_. ''u''), ae_mode = (\<lambda>_ _ _ _. True),
     ae_parse = (\<lambda>_. None), ae_finish = (\<lambda>_ r. Inr r), ae_maxParallel = 2, ae_provider = Some ''p'',
     ae_model = Some ''m'', ae_maxTokens = None, ae_errorChain = (\<lambda>_. ''failed'')\<rparr>"

definition sample_outcome :: tool_outcome where
  "sample_outcome = \<lparr>to_content = [TextBlock ''ok''], to_isError = False, to_loadedTools = None, to_errorInfo = None,
     to_meta = None, to_contexts = [], to_concludes = True\<rparr>"

definition sample_tick :: "stream_chunk option \<Rightarrow> tick" where
  "sample_tick c = \<lparr>tk_externals = [], tk_settles = [(0, Inr (sample_outcome, False)), (1, Inr (sample_outcome, False))],
     tk_failure = None,
     tk_assembly = \<lparr>pa_system = Inr ''sys'', pa_sections = Inr [], pa_tools = []\<rparr>,
     tk_decision = Enter, tk_config = id,
     tk_prepared = \<lparr>pr_config = sample_config, pr_adapterDefaults = \<lparr>ad_reasoningEffort = False, ad_maxTokens = False\<rparr>,
       pr_contextWindow = None\<rparr>,
     tk_chunk = c, tk_retry = False, tk_prepare = PrepareDispatch, tk_finalized = sample_outcome\<rparr>"

definition agent_session :: session where
  "agent_session = (case new_session False ''s'' None (header_json (sample_header\<lparr>sh_seedLength := None\<rparr>)) 0 of
     Inr s \<Rightarrow> s | Inl _ \<Rightarrow> blank_session sample_header)"

definition sample_world_of :: "session \<Rightarrow> tick list \<Rightarrow> agent_world" where
  "sample_world_of s script = \<lparr>aw_io = \<lparr>iw_session = s, iw_inbox = empty_inbox, iw_notes = []\<rparr>,
     aw_phase = Running None 1 1 False,
     aw_pool = \<lparr>pl_slots = [], pl_inFlight = [], pl_settled = [], pl_failure = None\<rparr>, aw_headerLogged = False,
     aw_contextBase = (0, NeverRetained), aw_notes = [], aw_script = script, aw_clock = 0\<rparr>"

text \<open>The session inside the first step of its first turn.\<close>

definition step_session :: session where
  "step_session = fst (agent_commit sample_env False 1 (fst (agent_commit sample_env False 0 agent_session (TurnStart 1)))
     (StepStart 1 1))"

lemma agent_session_run: "session_run agent_session"
proof -
  have "\<not> isl (new_session False ''s'' None (header_json (sample_header\<lparr>sh_seedLength := None\<rparr>)) 0)" by code_simp
  then show ?thesis by (auto simp: agent_session_def intro: session_start split: sum.split)
qed

lemma agent_session_log: "se_log agent_session = []"
  by code_simp

end
