(* ===== verification/Agent_Safety.thy ===== *)
theory Agent_Safety
  imports Agent_Brackets Agent_Triple Agent_Samples
begin

text \<open>
  The control flow of the driver as Hoare triples over the brackets: one postcondition for a return,
  one for a throw, and for a run that is cut short the promise that the log is accepted. The
  properties of a whole agent follow from the triple of an activity.
\<close>

definition accepted :: "agent_world \<Rightarrow> bool" where
  "accepted w \<longleftrightarrow> (\<exists>b. session_at b (aw_session w))"

section \<open>Where the driver stands\<close>

definition outside :: "int \<Rightarrow> int \<Rightarrow> brackets" where
  "outside t n = \<lparr>br_turn = None, br_step = None, br_nextTurn = t + 1, br_nextStep = n\<rparr>"

definition between_steps :: "int \<Rightarrow> int \<Rightarrow> brackets" where
  "between_steps t k = \<lparr>br_turn = Some t, br_step = None, br_nextTurn = t, br_nextStep = k + 1\<rparr>"

definition inside_step :: "int \<Rightarrow> int \<Rightarrow> brackets" where
  "inside_step t k = \<lparr>br_turn = Some t, br_step = Some k, br_nextTurn = t, br_nextStep = k\<rparr>"

lemmas bracket_defs = outside_def between_steps_def inside_step_def

definition at_boundary :: "int \<Rightarrow> agent_world \<Rightarrow> bool" where
  "at_boundary t w \<longleftrightarrow> (\<exists>n. in_run t 0 (outside t n) w)"

definition after_turn :: "int \<Rightarrow> agent_world \<Rightarrow> bool" where
  "after_turn t w \<longleftrightarrow> (\<exists>k n. in_run t k (outside t n) w)"

definition in_turn :: "int \<Rightarrow> int \<Rightarrow> agent_world \<Rightarrow> bool" where
  "in_turn t k w \<longleftrightarrow> in_run t k (between_steps t k) w"

definition in_step :: "int \<Rightarrow> int \<Rightarrow> agent_world \<Rightarrow> bool" where
  "in_step t k w \<longleftrightarrow> in_run t k (inside_step t k) w"

definition at_rest :: "agent_world \<Rightarrow> bool" where
  "at_rest w \<longleftrightarrow> (\<exists>t n. live_at (InIdle t) (outside t n) w)"

definition woken :: "agent_world \<Rightarrow> bool" where
  "woken w \<longleftrightarrow> at_rest w \<or> (\<exists>t. at_boundary t w)"

lemma live_accepted: "live_at sh b w \<Longrightarrow> accepted w"
  by (auto simp: frame_def accepted_def)

lemma standing_accepted:
  "at_boundary t w \<Longrightarrow> accepted w" "after_turn t w \<Longrightarrow> accepted w" "in_turn t k w \<Longrightarrow> accepted w"
  "in_step t k w \<Longrightarrow> accepted w" "at_rest w \<Longrightarrow> accepted w" "woken w \<Longrightarrow> accepted w"
  by (auto simp: at_boundary_def after_turn_def in_turn_def in_step_def at_rest_def woken_def intro: live_accepted)

lemma keeps_in_turn: "(\<And>b. keeps (in_run t k b) m) \<Longrightarrow> keeps (in_turn t k) m"
  "(\<And>b. keeps (in_run t k b) m) \<Longrightarrow> keeps (in_step t k) m"
  by (simp_all add: in_turn_def [abs_def] in_step_def [abs_def])

lemma keeps_outside:
  "(\<And>b. keeps (in_run t 0 b) m) \<Longrightarrow> keeps (at_boundary t) m"
  "(\<And>k b. keeps (in_run t k b) m) \<Longrightarrow> keeps (after_turn t) m"
  by (simp_all add: at_boundary_def [abs_def] after_turn_def [abs_def] keeps_ex)

lemma triple_in_turn: "(\<And>b. keeps (in_run t k b) m) \<Longrightarrow> triple accepted (in_turn t k) m (\<lambda>_. in_turn t k) (in_turn t k)"
  by (rule triple_keeps [OF keeps_in_turn(1)]) (simp_all add: standing_accepted)

lemma triple_in_step: "(\<And>b. keeps (in_run t k b) m) \<Longrightarrow> triple accepted (in_step t k) m (\<lambda>_. in_step t k) (in_step t k)"
  by (rule triple_keeps [OF keeps_in_turn(2)]) (simp_all add: standing_accepted)

text \<open>The boundary events of the driver.\<close>

lemma triple_append:
  assumes "enter b d = Some b'"
  shows "triple accepted (in_run t k b) (append_event env d opts) (\<lambda>_. in_run t k b') (in_run t k b)"
  unfolding triple_def
proof (intro allI impI)
  fix w assume w: "in_run t k b w"
  obtain w' r where m: "append_event env d opts w = (w', r)" by fastforce
  from append_event_moves [OF w m] assms live_accepted m
  show "case append_event env d opts w of (w', Ret x) \<Rightarrow> in_run t k b' w' | (w', Throw e) \<Rightarrow> in_run t k b w'
    | (w', Suspended) \<Rightarrow> accepted w' | (w', Spinning) \<Rightarrow> accepted w'"
    by (cases r) auto
qed

lemma triple_close:
  assumes "enter b d = Some b'" "closes_bracket d" "spares_closings env"
  shows "triple accepted (in_run t k b) (append_event env d plain_opts) (\<lambda>_. in_run t k b') E"
proof -
  have no: "snd (append_event env d plain_opts w) \<noteq> Throw e" if w: "in_run t k b w" for w e
    using closing_accepted [OF frame_session [OF w] assms, of "aw_clock w"]
    by (auto simp: append_event_def monad_defs next_tick_def split: list.splits)
  show ?thesis
    using triple_append [OF assms(1), of t k env plain_opts] by (rule triple_no_throw) (rule no)
qed

section \<open>Steps of a turn\<close>

lemma triple_position: "triple accepted (in_turn t k) (get_world running_step) (\<lambda>x w. x = k \<and> in_turn t k w) E"
proof (rule triple_pure(3))
  fix w assume w: "in_turn t k w"
  then show "running_step w = k \<and> in_turn t k w"
    by (cases "aw_phase w") (auto simp: in_turn_def frame_def running_step_def)
qed

lemma triple_one_step:
  assumes env: "spares_closings env"
  shows "triple accepted (in_turn t k)
    (seq (append_event env (StepStart t (k + 1)) plain_opts) (\<lambda>_.
     seq (set_step (k + 1)) (\<lambda>_.
       finally_do (seq (append_users env ms) (\<lambda>_. awaited env (run_step env t (k + 1) assembly)))
         (seq (append_event env (StepEnd t (k + 1)) plain_opts) (\<lambda>_. ret ())))))
    (\<lambda>_ w. \<exists>j. in_turn t j w) (\<lambda>w. \<exists>j. in_turn t j w)"
proof (rule triple_seq)
  have "enter (between_steps t k) (StepStart t (k + 1)) = Some (inside_step t (k + 1))"
    by (simp add: bracket_defs)
  from triple_append [OF this, of t k env plain_opts]
  show "triple accepted (in_turn t k) (append_event env (StepStart t (k + 1)) plain_opts)
      (\<lambda>_. in_run t k (inside_step t (k + 1))) (\<lambda>w. \<exists>j. in_turn t j w)"
    by (rule triple_conseq) (auto simp: in_turn_def)
  show "triple accepted (in_run t k (inside_step t (k + 1))) (seq (set_step (k + 1)) (\<lambda>_.
       finally_do (seq (append_users env ms) (\<lambda>_. awaited env (run_step env t (k + 1) assembly)))
         (seq (append_event env (StepEnd t (k + 1)) plain_opts) (\<lambda>_. ret ()))))
      (\<lambda>_ w. \<exists>j. in_turn t j w) (\<lambda>w. \<exists>j. in_turn t j w)"
  proof (rule triple_seq)
    show "triple accepted (in_run t k (inside_step t (k + 1))) (set_step (k + 1)) (\<lambda>_. in_step t (k + 1)) (\<lambda>w. \<exists>j. in_turn t j w)"
      unfolding set_step_def
      by (rule triple_modify) (auto simp: in_step_def frame_def split: phase.splits)
    show "triple accepted (in_step t (k + 1))
        (finally_do (seq (append_users env ms) (\<lambda>_. awaited env (run_step env t (k + 1) assembly)))
          (seq (append_event env (StepEnd t (k + 1)) plain_opts) (\<lambda>_. ret ())))
        (\<lambda>_ w. \<exists>j. in_turn t j w) (\<lambda>w. \<exists>j. in_turn t j w)"
    proof (rule triple_finally)
      show "triple accepted (in_step t (k + 1)) (seq (append_users env ms) (\<lambda>_. awaited env (run_step env t (k + 1) assembly)))
          (\<lambda>_. in_step t (k + 1)) (in_step t (k + 1))"
        by (intro triple_in_step keeps_rules)
      have "enter (inside_step t (k + 1)) (StepEnd t (k + 1)) = Some (between_steps t (k + 1))"
        by (simp add: bracket_defs)
      from triple_close [OF this _ env, of t "k + 1" "\<lambda>_. False"]
      have close: "triple accepted (in_step t (k + 1)) (append_event env (StepEnd t (k + 1)) plain_opts) (\<lambda>_. in_turn t (k + 1)) (\<lambda>_. False)"
        by (simp add: in_step_def [abs_def] in_turn_def [abs_def])
      have fin: "triple accepted (in_step t (k + 1)) (seq (append_event env (StepEnd t (k + 1)) plain_opts) (\<lambda>_. ret ()))
          (\<lambda>_ w. \<exists>j. in_turn t j w) (\<lambda>w. \<exists>j. in_turn t j w)"
        by (rule triple_seq [where R = "\<lambda>_. in_turn t (k + 1)"], rule triple_conseq [OF close]) (auto intro: triple_pure)
      show "triple accepted (in_step t (k + 1)) (seq (append_event env (StepEnd t (k + 1)) plain_opts) (\<lambda>_. ret ()))
          (\<lambda>_ w. \<exists>j. in_turn t j w) (\<lambda>w. \<exists>j. in_turn t j w)" by (rule fin)
      show "triple accepted (in_step t (k + 1)) (seq (append_event env (StepEnd t (k + 1)) plain_opts) (\<lambda>_. ret ()))
          (\<lambda>_ w. \<exists>j. in_turn t j w) (\<lambda>w. \<exists>j. in_turn t j w)" by (rule fin)
    qed
  qed
qed

text \<open>The same with what follows the step.\<close>

lemma triple_one_step_then:
  assumes "spares_closings env" "\<And>x j. triple accepted (in_turn t j) (g x) Q (\<lambda>w. \<exists>j. in_turn t j w)"
  shows "triple accepted (in_turn t k)
    (seq (append_event env (StepStart t (k + 1)) plain_opts) (\<lambda>_.
     seq (set_step (k + 1)) (\<lambda>_.
     seq (finally_do (seq (append_users env ms) (\<lambda>_. awaited env (run_step env t (k + 1) assembly)))
         (seq (append_event env (StepEnd t (k + 1)) plain_opts) (\<lambda>_. ret ()))) g)))
    Q (\<lambda>w. \<exists>j. in_turn t j w)"
  using triple_seq [OF triple_one_step [OF assms(1)] triple_ex [OF assms(2)]] by (simp add: seq_assoc)

text \<open>Between its steps a turn stands at some step.\<close>

lemma triple_seq_in_turn:
  assumes "\<And>b. keeps (in_run t k b) m" "\<And>x. triple accepted (in_turn t k) (f x) Q (\<lambda>w. \<exists>j. in_turn t j w)"
  shows "triple accepted (in_turn t k) (seq m f) Q (\<lambda>w. \<exists>j. in_turn t j w)"
  by (rule triple_seq [OF triple_conseq [OF triple_in_turn [OF assms(1)]] assms(2)]) auto

lemma triple_seq_position:
  "triple accepted (in_turn t k) (f k) Q E \<Longrightarrow> triple accepted (in_turn t k) (seq (get_world running_step) f) Q E"
  by (rule triple_seq [OF triple_position]) (auto simp: triple_def)

lemma triple_turn_steps:
  assumes env: "spares_closings env"
  shows "triple accepted (in_turn t k) (turn_steps env t n target ends) (\<lambda>_ w. \<exists>j. in_turn t j w) (\<lambda>w. \<exists>j. in_turn t j w)"
proof (induction n arbitrary: k target ends)
  case 0
  show ?case by (subst turn_steps.simps) (rule triple_pure, rule standing_accepted)
next
  case (Suc n)
  have ends: "triple accepted (in_turn t j) (ret x) (\<lambda>_ w. \<exists>j. in_turn t j w) (\<lambda>w. \<exists>j. in_turn t j w)" for j and x :: "turn_end_reason \<times> bool"
    by (rule triple_pure) blast
  have tail: "triple accepted (in_turn t j)
      (let ends' = c in
       seq throwIfAborted (\<lambda>_. seq (get_world nextStep_empty) (\<lambda>quiet.
       seq (if ends' \<noteq> None \<and> quiet then seq (await env) (\<lambda>_. throwIfAborted) else ret ()) (\<lambda>_.
       seq (get_world nextStep_empty) (\<lambda>quiet.
         if ends' \<noteq> None \<and> quiet then ret (end_reason (the ends'), False)
         else turn_steps env t n NextStep ends')))))
      (\<lambda>_ w. \<exists>j. in_turn t j w) (\<lambda>w. \<exists>j. in_turn t j w)" for j c
    unfolding Let_def by (rule triple_seq_in_turn triple_if ends Suc keeps_rules)+
  show ?case
    unfolding turn_steps.simps Let_def
    apply (rule triple_seq_position triple_seq_in_turn keeps_rules)+
    subgoal for u decision
      by (cases decision; simp only: prepared_step.case;
          (rule triple_if triple_seq_in_turn keeps_rules ends triple_one_step_then [OF env] tail [unfolded Let_def])+)
    done
qed

section \<open>Turns\<close>

lemma triple_reporting_close:
  assumes "enter b d = Some b'" "closes_bracket d" "spares_closings env"
  shows "triple accepted (in_run t k b) (append_reporting env d) (\<lambda>_. in_run t k b') E"
  unfolding append_reporting_def
  by (rule triple_seq, rule triple_attempt, rule triple_close [OF assms], rule triple_sum, rule triple_False)
    (rule triple_pure, assumption)

lemma triple_turn_end:
  assumes env: "spares_closings env"
  shows "triple accepted (\<lambda>w. \<exists>j. in_turn t j w) (append_reporting env (TurnEnd t reason)) (\<lambda>_. after_turn t) E"
proof (rule triple_ex)
  fix j
  have "enter (between_steps t j) (TurnEnd t reason) = Some (outside t (j + 1))" by (simp add: bracket_defs)
  from triple_reporting_close [OF this _ env, of t j E]
  have "triple accepted (in_turn t j) (append_reporting env (TurnEnd t reason)) (\<lambda>_. in_run t j (outside t (j + 1))) E"
    by (simp add: in_turn_def [abs_def])
  then show "triple accepted (in_turn t j) (append_reporting env (TurnEnd t reason)) (\<lambda>_. after_turn t) E"
    by (rule triple_conseq) (auto simp: after_turn_def)
qed

lemma triple_some_turn:
  "(\<And>k b. keeps (in_run t k b) m) \<Longrightarrow> triple accepted (\<lambda>w. \<exists>j. in_turn t j w) m (\<lambda>_ w. \<exists>j. in_turn t j w) (\<lambda>w. \<exists>j. in_turn t j w)"
  by (rule triple_keeps, rule keeps_ex, rule keeps_in_turn) (auto simp: standing_accepted)

lemma triple_turn_failed:
  assumes env: "spares_closings env"
  shows "triple accepted (\<lambda>w. \<exists>j. in_turn t j w) (turn_failed env t e) Q (after_turn t)"
proof -
  have fin: "triple accepted (\<lambda>w. \<exists>j. in_turn t j w) (finally_do m (append_reporting env (TurnEnd t reason))) Q (after_turn t)"
    if "triple accepted (\<lambda>w. \<exists>j. in_turn t j w) m (\<lambda>_ _. False) (\<lambda>w. \<exists>j. in_turn t j w)" for m :: "bool agent_m" and reason
    by (rule triple_finally [OF that triple_False triple_turn_end [OF env]])
  have thrown: "triple accepted (\<lambda>w. \<exists>j. in_turn t j w) (throw e) (\<lambda>_ _. False) (\<lambda>w. \<exists>j. in_turn t j w)"
    by (rule triple_pure)
  have "triple accepted (\<lambda>w. \<exists>j. in_turn t j w) (throwError env e) (\<lambda>_ _. False) (\<lambda>w. \<exists>j. in_turn t j w)"
    unfolding throwError_def
    by (rule triple_get, rule triple_seq, rule triple_some_turn, rule keeps_rules, rule thrown)
  note ended = fin [OF thrown] fin [OF this]
  show ?thesis
    unfolding turn_failed_def by (intro triple_get keeps_rules) (auto split: option.split intro: ended)
qed

lemma triple_boundary_position:
  "triple accepted (at_boundary t) (get_world position_of) (\<lambda>p w. fst p = t \<and> at_boundary t w) E"
  by (rule triple_pure, rename_tac w, case_tac "aw_phase w") (auto simp: at_boundary_def frame_def position_of_def)

lemma triple_at_boundary: "(\<And>b. keeps (in_run t 0 b) m) \<Longrightarrow> triple accepted (at_boundary t) m (\<lambda>_. at_boundary t) (at_boundary t)"
  by (rule triple_keeps [OF keeps_outside(1)]) (simp_all add: standing_accepted)

lemma triple_after_turn: "(\<And>k b. keeps (in_run t k b) m) \<Longrightarrow> triple accepted (after_turn t) m (\<lambda>_. after_turn t) (after_turn t)"
  by (rule triple_keeps [OF keeps_outside(2)]) (simp_all add: standing_accepted)

lemma boundary_after: "at_boundary t w \<Longrightarrow> after_turn t w"
  by (auto simp: at_boundary_def after_turn_def)

text \<open>The turn number advances with the event of the turn.\<close>

lemma triple_turn_start:
  "triple accepted (at_boundary t) (seq (append_reporting env (TurnStart (t + 1))) (\<lambda>_. set_turn (t + 1)))
     (\<lambda>_. in_turn (t + 1) 0) (after_turn t)"
proof -
  let ?mid = "\<lambda>w. in_run t 0 (between_steps (t + 1) 0) w"
  have app: "triple accepted (at_boundary t) (append_event env (TurnStart (t + 1)) plain_opts) (\<lambda>_. ?mid) (at_boundary t)"
    unfolding at_boundary_def [abs_def]
  proof (rule triple_ex)
    fix n
    have "enter (outside t n) (TurnStart (t + 1)) = Some (between_steps (t + 1) 0)" by (simp add: bracket_defs)
    from triple_append [OF this, of t 0 env plain_opts]
    show "triple accepted (in_run t 0 (outside t n)) (append_event env (TurnStart (t + 1)) plain_opts) (\<lambda>_. ?mid)
        (\<lambda>w. \<exists>n. in_run t 0 (outside t n) w)" by (rule triple_conseq) auto
  qed
  have report: "triple accepted (at_boundary t) (throwError env e) (\<lambda>_. ?mid) (after_turn t)" for e
    unfolding throwError_def
    by (rule triple_get, rule triple_seq, rule triple_conseq [OF triple_at_boundary], rule keeps_rules, assumption,
        assumption, erule boundary_after, rule triple_pure, erule boundary_after)
  show ?thesis
  proof (rule triple_seq)
    show "triple accepted (at_boundary t) (append_reporting env (TurnStart (t + 1))) (\<lambda>_. ?mid) (after_turn t)"
      unfolding append_reporting_def
      by (rule triple_seq, rule triple_attempt [OF app], rule triple_sum, rule report) (rule triple_pure, assumption)
    show "triple accepted ?mid (set_turn (t + 1)) (\<lambda>_. in_turn (t + 1) 0) (after_turn t)"
      unfolding set_turn_def
      by (rule triple_modify) (auto simp: in_turn_def frame_def split: phase.splits)
  qed
qed

lemma triple_run_turn:
  assumes env: "spares_closings env"
  shows "triple accepted (at_boundary t) (run_turn env)
    (\<lambda>again w. if again then \<exists>t. at_boundary t w else \<exists>t. after_turn t w) (\<lambda>w. \<exists>t. after_turn t w)"
proof -
  let ?Q = "\<lambda>again w. if again then \<exists>t. at_boundary t w else \<exists>t. after_turn t w"
  have finish: "triple accepted (after_turn t) (if stops then ret False
      else seq (get_world has_pending) (\<lambda>pending. if \<not> pending then ret False else seq next_turn_phase (\<lambda>_. ret True)))
      ?Q (\<lambda>w. \<exists>t. after_turn t w)" for t stops
  proof (intro triple_if triple_get)
    show "triple accepted (after_turn t) (seq next_turn_phase (\<lambda>_. ret True)) ?Q (\<lambda>w. \<exists>t. after_turn t w)"
    proof (rule triple_seq)
      show "triple accepted (after_turn t) next_turn_phase (\<lambda>_. at_boundary t) (\<lambda>w. \<exists>t. after_turn t w)"
        unfolding next_turn_phase_def
        by (rule triple_modify) (auto simp: after_turn_def at_boundary_def frame_def split: phase.splits)
    qed (auto intro: triple_pure)
  qed (auto intro: triple_pure)
  have result: "triple accepted (\<lambda>w. case r of Inl e \<Rightarrow> \<exists>j. in_turn t' j w | Inr x \<Rightarrow> \<exists>j. in_turn t' j w)
      (case r of Inl e \<Rightarrow> turn_failed env t' e
       | Inr (reason, stops) \<Rightarrow>
           seq (append_reporting env (TurnEnd t' reason)) (\<lambda>_.
             if stops then ret False
             else seq (get_world has_pending) (\<lambda>pending.
               if \<not> pending then ret False else seq next_turn_phase (\<lambda>_. ret True))))
      ?Q (\<lambda>w. \<exists>t. after_turn t w)" for t' and r :: "agent_exn + turn_end_reason \<times> bool"
  proof (rule triple_sum)
    show "triple accepted (\<lambda>w. \<exists>j. in_turn t' j w) (turn_failed env t' e) ?Q (\<lambda>w. \<exists>t. after_turn t w)" for e
      by (rule triple_conseq [OF triple_turn_failed [OF env]]) auto
    show "triple accepted (\<lambda>w. \<exists>j. in_turn t' j w)
        (case x of (reason, stops) \<Rightarrow> seq (append_reporting env (TurnEnd t' reason)) (\<lambda>_.
             if stops then ret False
             else seq (get_world has_pending) (\<lambda>pending.
               if \<not> pending then ret False else seq next_turn_phase (\<lambda>_. ret True))))
        ?Q (\<lambda>w. \<exists>t. after_turn t w)" for x
      by (cases x, simp only: prod.case) (rule triple_seq [OF triple_turn_end [OF env] finish])
  qed
  have loop: "triple accepted (in_turn t' 0) (attempt (with_fuel (\<lambda>n. turn_steps env t' n NextTurn None)))
      (\<lambda>r w. case r of Inl e \<Rightarrow> \<exists>j. in_turn t' j w | Inr x \<Rightarrow> \<exists>j. in_turn t' j w) (\<lambda>w. \<exists>t. after_turn t w)" for t'
    by (rule triple_attempt) (use triple_turn_steps [OF env] in \<open>simp add: triple_def with_fuel_def\<close>)
  have started: "triple accepted (at_boundary t) (seq (append_reporting env (TurnStart (t + 1))) (\<lambda>_. seq (set_turn (t + 1)) g))
      ?Q (\<lambda>w. \<exists>t. after_turn t w)"
    if "triple accepted (in_turn (t + 1) 0) (g ()) ?Q (\<lambda>w. \<exists>t. after_turn t w)" for g
  proof -
    have 1: "triple accepted (at_boundary t) (seq (append_reporting env (TurnStart (t + 1))) (\<lambda>_. set_turn (t + 1)))
        (\<lambda>_. in_turn (t + 1) 0) (\<lambda>w. \<exists>t. after_turn t w)"
      by (rule triple_conseq [OF triple_turn_start]) auto
    have 2: "triple accepted (in_turn (t + 1) 0) (g x) ?Q (\<lambda>w. \<exists>t. after_turn t w)" for x using that by simp
    from triple_seq [OF 1 2] show ?thesis by (simp only: seq_assoc)
  qed
  show ?thesis
    unfolding run_turn_def Let_def
  proof (rule triple_seq)
    show "triple accepted (at_boundary t) throwIfAborted (\<lambda>_. at_boundary t) (\<lambda>w. \<exists>t. after_turn t w)"
      by (rule triple_conseq [OF triple_at_boundary]) (auto intro: keeps_rules boundary_after)
    show "triple accepted (at_boundary t) (seq (get_world position_of) (\<lambda>p.
       seq (append_reporting env (TurnStart (fst p + 1))) (\<lambda>_.
       seq (set_turn (fst p + 1)) (\<lambda>_.
       seq (attempt (with_fuel (\<lambda>n. turn_steps env (fst p + 1) n NextTurn None))) (\<lambda>r.
       case r of
         Inl e \<Rightarrow> turn_failed env (fst p + 1) e
       | Inr (reason, stops) \<Rightarrow>
           seq (append_reporting env (TurnEnd (fst p + 1) reason)) (\<lambda>_.
             if stops then ret False
             else seq (get_world has_pending) (\<lambda>pending.
               if \<not> pending then ret False else seq next_turn_phase (\<lambda>_. ret True))))))))
      ?Q (\<lambda>w. \<exists>t. after_turn t w)"
    proof (rule triple_seq [OF triple_boundary_position])
      fix p
      show "triple accepted (\<lambda>w. fst p = t \<and> at_boundary t w) (seq (append_reporting env (TurnStart (fst p + 1))) (\<lambda>_.
         seq (set_turn (fst p + 1)) (\<lambda>_.
         seq (attempt (with_fuel (\<lambda>n. turn_steps env (fst p + 1) n NextTurn None))) (\<lambda>r.
         case r of
           Inl e \<Rightarrow> turn_failed env (fst p + 1) e
         | Inr (reason, stops) \<Rightarrow>
             seq (append_reporting env (TurnEnd (fst p + 1) reason)) (\<lambda>_.
               if stops then ret False
               else seq (get_world has_pending) (\<lambda>pending.
                 if \<not> pending then ret False else seq next_turn_phase (\<lambda>_. ret True)))))))
        ?Q (\<lambda>w. \<exists>t. after_turn t w)"
        using started [OF triple_seq [OF loop result]] by (cases "fst p = t") (simp_all add: triple_def)
    qed
  qed
qed

section \<open>Drivers and activities\<close>

lemma triple_run_turns:
  assumes env: "spares_closings env"
  shows "triple accepted (\<lambda>w. \<exists>t. at_boundary t w) (run_turns env n) (\<lambda>_ w. \<exists>t. after_turn t w) (\<lambda>_. False)"
proof (induction n)
  case 0
  show ?case by (subst run_turns.simps) (auto intro: triple_pure simp: standing_accepted)
next
  case (Suc n)
  let ?Q = "\<lambda>again w. if again then \<exists>t. at_boundary t w else \<exists>t. after_turn t w"
  have "triple accepted (\<lambda>w. \<exists>t. at_boundary t w) (awaited env (run_turn env)) ?Q (\<lambda>w. \<exists>t. after_turn t w)"
  proof (rule triple_awaited)
    show "triple accepted (\<lambda>w. \<exists>t. at_boundary t w) (run_turn env) ?Q (\<lambda>w. \<exists>t. after_turn t w)"
      by (rule triple_ex) (rule triple_run_turn [OF env])
    show "keeps (?Q again) (next_tick env AtAwait)" for again
      by (cases again) (auto intro!: keeps_ex keeps_outside keeps_rules)
  qed (auto intro!: keeps_ex keeps_outside keeps_rules simp: standing_accepted split: if_splits)
  note turn = triple_attempt [OF this]
  show ?case
    unfolding run_turns.simps
  proof (rule triple_seq [OF turn])
    fix r :: "agent_exn + bool"
    show "triple accepted (\<lambda>w. case r of Inl e \<Rightarrow> \<exists>t. after_turn t w | Inr again \<Rightarrow> ?Q again w)
        (case r of Inr True \<Rightarrow> run_turns env n | _ \<Rightarrow> ret ()) (\<lambda>_ w. \<exists>t. after_turn t w) (\<lambda>_. False)"
    proof (cases r)
      case (Inl e)
      then show ?thesis by (auto intro: triple_pure)
    next
      case (Inr again)
      with Suc show ?thesis by (cases again) (auto intro: triple_pure)
    qed
  qed
qed

text \<open>After the status event of the end the agent rests, or a listener has woken it.\<close>

lemma moves_rest:
  assumes w: "live_at (InIdle t) b w" and mv: "moves bracket_free env ap w w'"
  shows "live_at (InIdle t) b w' \<or> in_run t 0 b w'"
  using resting.moves_keeps [OF mv, of b t] w by (auto simp: frame_def)

lemma triple_idle_emit:
  "triple accepted at_rest (emit env n) (\<lambda>_. woken) E"
proof -
  have "case emit env n w of (w', Ret x) \<Rightarrow> woken w' | (w', Throw e) \<Rightarrow> E w' | (w', Suspended) \<Rightarrow> accepted w'
    | (w', Spinning) \<Rightarrow> accepted w'" if w: "live_at (InIdle t) (outside t k) w" for t k w
  proof (cases "aw_script w")
    case Nil
    then show ?thesis using live_accepted [OF w]
      by (simp add: emit_def monad_defs next_tick_def accepted_def)
  next
    case (Cons tk ts)
    define w0 where "w0 = w\<lparr>aw_notes := aw_notes w @ [n], aw_script := ts, aw_clock := aw_clock w + 1\<rparr>"
    from w Cons have ok: "list_all (ext_ok bracket_free) (tk_externals tk)" and w0: "live_at (InIdle t) (outside t k) w0"
      by (auto simp: frame_def tick_ok_def w0_def)
    from moves_rest [OF w0 run_externals_moves(2) [OF ok], of env False]
    have "woken (run_externals env False (tk_externals tk) w0)"
      by (auto simp: woken_def at_rest_def at_boundary_def)
    moreover have "emit env n w = (run_externals env False (tk_externals tk) w0, Ret ())"
      using Cons by (simp add: emit_def monad_defs next_tick_def w0_def)
    ultimately show ?thesis by simp
  qed
  then show ?thesis unfolding triple_def at_rest_def by (intro allI impI) (elim exE)
qed

lemma wake_woken: "woken w \<Longrightarrow> woken (if c then wakeDriver False w else w)"
proof -
  assume w: "woken w"
  have "woken (wakeDriver False w)" if "live_at sh b w" "sh = InIdle t \<or> sh = InRun t 0" "b = outside t n" for sh b t n
    using that
    by (cases "aw_phase w") (auto simp: frame_def woken_def at_rest_def at_boundary_def wakeDriver_def)
  with w show ?thesis by (auto simp: woken_def at_rest_def at_boundary_def)
qed

text \<open>What a driver and a maintenance job do when they end.\<close>

lemma triple_settle:
  assumes "\<And>w. P w \<Longrightarrow> at_rest (w\<lparr>aw_phase := Idle (fst (position_of w))\<rparr>)"
  shows "triple accepted P (seq go_idle (\<lambda>_. seq (emit env (StatusNote False)) (\<lambda>_.
       modify (\<lambda>w. if wake \<and> has_pending w then wakeDriver False w else w)))) (\<lambda>_. woken) E"
proof (rule triple_seq)
  show "triple accepted P go_idle (\<lambda>_. at_rest) E"
    unfolding go_idle_def by (rule triple_modify) (rule assms)
  show "triple accepted at_rest (seq (emit env (StatusNote False)) (\<lambda>_.
       modify (\<lambda>w. if wake \<and> has_pending w then wakeDriver False w else w))) (\<lambda>_. woken) E"
    by (rule triple_seq [OF triple_idle_emit], rule triple_modify, erule wake_woken)
qed

lemma idle_after_turn: "after_turn t w \<Longrightarrow> at_rest (w\<lparr>aw_phase := Idle (fst (position_of w))\<rparr>)"
  by (cases "aw_phase w") (auto simp: after_turn_def at_rest_def frame_def position_of_def)

lemma triple_kick:
  assumes env: "spares_closings env"
  shows "triple accepted (\<lambda>w. \<exists>t. at_boundary t w) (kick env) (\<lambda>_. woken) (\<lambda>_. False)"
  unfolding kick_def
proof (rule triple_seq)
  have no: "snd (emit env n w) \<noteq> Throw e" for n w e by (simp add: emit_def monad_defs next_tick_def split: list.split)
  have "triple accepted (\<lambda>w. \<exists>t. at_boundary t w) (emit env (StatusNote True)) (\<lambda>_ w. \<exists>t. at_boundary t w) (\<lambda>w. \<exists>t. at_boundary t w)"
    by (rule triple_keeps, rule keeps_ex, rule keeps_outside, rule keeps_rules) (auto simp: standing_accepted)
  then show "triple accepted (\<lambda>w. \<exists>t. at_boundary t w) (emit env (StatusNote True)) (\<lambda>_ w. \<exists>t. at_boundary t w) (\<lambda>_. False)"
    by (rule triple_no_throw) (rule no)
  show "triple accepted (\<lambda>w. \<exists>t. at_boundary t w) (seq (with_fuel (run_turns env)) (\<lambda>_.
     seq (get_world latched) (\<lambda>wake.
     seq go_idle (\<lambda>_.
     seq (emit env (StatusNote False)) (\<lambda>_.
       modify (\<lambda>w. if wake \<and> has_pending w then wakeDriver False w else w)))))) (\<lambda>_. woken) (\<lambda>_. False)"
  proof (rule triple_seq)
    show "triple accepted (\<lambda>w. \<exists>t. at_boundary t w) (with_fuel (run_turns env)) (\<lambda>_ w. \<exists>t. after_turn t w) (\<lambda>_. False)"
      using triple_run_turns [OF env] by (simp add: triple_def with_fuel_def)
    show "triple accepted (\<lambda>w. \<exists>t. after_turn t w) (seq (get_world latched) (\<lambda>wake. seq go_idle (\<lambda>_.
        seq (emit env (StatusNote False)) (\<lambda>_.
          modify (\<lambda>w. if wake \<and> has_pending w then wakeDriver False w else w))))) (\<lambda>_. woken) (\<lambda>_. False)"
      by (rule triple_get, rule triple_settle) (elim exE, rule idle_after_turn)
  qed
qed

lemma triple_run_drivers:
  assumes env: "spares_closings env"
  shows "triple accepted woken (run_drivers env n) (\<lambda>_. at_rest) (\<lambda>_. False)"
proof (induction n)
  case 0
  show ?case by (subst run_drivers.simps) (rule triple_pure, rule standing_accepted)
next
  case (Suc n)
  have read: "triple accepted woken (get_world (\<lambda>w. is_running (aw_phase w)))
      (\<lambda>r w. if r then \<exists>t. at_boundary t w else at_rest w) (\<lambda>_. False)"
    by (rule triple_pure, rename_tac w, case_tac "aw_phase w")
      (auto simp: woken_def at_rest_def at_boundary_def frame_def)
  show ?case
    unfolding run_drivers.simps
  proof (rule triple_seq [OF read])
    fix r
    show "triple accepted (\<lambda>w. if r then \<exists>t. at_boundary t w else at_rest w)
        (if r then seq (kick env) (\<lambda>_. run_drivers env n) else ret ()) (\<lambda>_. at_rest) (\<lambda>_. False)"
      using triple_seq [OF triple_kick [OF env] Suc] by (cases r) (auto intro: triple_pure)
  qed
qed

lemma triple_maintenance: "triple accepted at_rest (runMaintenance env k) (\<lambda>_. woken) (\<lambda>_. False)"
proof -
  let ?job = "\<lambda>w. \<exists>t n. live_at (InJob t) (outside t n) w"
  have awaits: "keeps (live_at (InJob t) b) (job_awaits env k)" for t b
    by (induction k) (auto intro!: keeps_rules)
  have no: "snd (job_awaits env k w) \<noteq> Throw e" for w e
    by (induction k arbitrary: w) (auto simp: monad_defs next_tick_def split: list.split)
  have "triple accepted ?job (job_awaits env k) (\<lambda>_. ?job) ?job"
    by (rule triple_keeps, intro keeps_ex awaits) (auto intro: live_accepted)
  then have job: "triple accepted ?job (job_awaits env k) (\<lambda>_. ?job) (\<lambda>_. False)" by (rule triple_no_throw) (rule no)
  have idle: "at_rest (w\<lparr>aw_phase := Idle (fst (position_of w))\<rparr>)" if "?job w" for w
    using that by (cases "aw_phase w") (auto simp: at_rest_def frame_def position_of_def)
  have rest: "triple accepted ?job (seq (get_world latched) (\<lambda>wake. seq go_idle (\<lambda>_.
      modify (\<lambda>w. if wake \<and> has_pending w then wakeDriver False w else w)))) (\<lambda>_. woken) (\<lambda>_. False)"
  proof (rule triple_get)
    fix wake
    have "triple accepted ?job go_idle (\<lambda>_. at_rest) (\<lambda>_. False)"
      unfolding go_idle_def by (rule triple_modify) (use idle in blast)
    moreover have "triple accepted at_rest (modify (\<lambda>w. if wake \<and> has_pending w then wakeDriver False w else w)) (\<lambda>_. woken) (\<lambda>_. False)"
      by (rule triple_modify, rule wake_woken) (simp add: woken_def)
    ultimately show "triple accepted ?job (seq go_idle (\<lambda>_. modify (\<lambda>w. if wake \<and> has_pending w then wakeDriver False w else w)))
        (\<lambda>_. woken) (\<lambda>_. False)" by (rule triple_seq)
  qed
  have enter: "triple accepted at_rest (modify (\<lambda>w. w\<lparr>aw_phase := Maintenance None (fst (position_of w)) False\<rparr>)) (\<lambda>_. ?job) (\<lambda>_. False)"
    by (rule triple_modify, rename_tac w, case_tac "aw_phase w")
      (auto simp: at_rest_def frame_def position_of_def)
  have read: "triple accepted at_rest (get_world (\<lambda>w. is_idle (aw_phase w))) (\<lambda>idle w. idle \<and> at_rest w) (\<lambda>_. False)"
    by (rule triple_pure, rename_tac w, case_tac "aw_phase w") (auto simp: at_rest_def frame_def)
  show ?thesis
    unfolding runMaintenance_def
  proof (rule triple_seq [OF read])
    fix idle
    show "triple accepted (\<lambda>w. idle \<and> at_rest w)
        (if \<not> idle then throw (ExThrown ''already has active work'')
         else seq (modify (\<lambda>w. w\<lparr>aw_phase := Maintenance None (fst (position_of w)) False\<rparr>)) (\<lambda>_.
           seq (job_awaits env k) (\<lambda>_. seq (get_world latched) (\<lambda>wake. seq go_idle (\<lambda>_.
             modify (\<lambda>w. if wake \<and> has_pending w then wakeDriver False w else w))))))
        (\<lambda>_. woken) (\<lambda>_. False)"
      using triple_seq [OF enter triple_seq [OF job rest]] by (cases idle) (simp_all add: triple_False)
  qed
qed

fun activity_ok :: "activity \<Rightarrow> bool" where
  "activity_ok (OutsideCommand x) = ext_ok bracket_free x"
| "activity_ok (MaintenanceJob k) = True"

lemma triple_run_activity:
  assumes env: "spares_closings env" and a: "activity_ok a"
  shows "triple accepted at_rest (run_activity env a) (\<lambda>_. at_rest) (\<lambda>_. False)"
  unfolding run_activity_def
proof (rule triple_seq)
  show "triple accepted woken (with_fuel (run_drivers env)) (\<lambda>_. at_rest) (\<lambda>_. False)"
    using triple_run_drivers [OF env] by (simp add: triple_def with_fuel_def)
  show "triple accepted at_rest (case a of OutsideCommand x \<Rightarrow> modify (run_external env False x)
      | MaintenanceJob k \<Rightarrow> seq (attempt (runMaintenance env k)) (\<lambda>_. ret ())) (\<lambda>_. woken) (\<lambda>_. False)"
  proof (cases a)
    case (OutsideCommand x)
    have "woken (run_external env False x w)" if "live_at (InIdle t) (outside t n) w" for t n w
      using moves_rest [OF that run_externals_moves(1) [of bracket_free x env False w]] a OutsideCommand
      by (auto simp: woken_def at_rest_def at_boundary_def)
    then have "triple accepted at_rest (modify (run_external env False x)) (\<lambda>_. woken) (\<lambda>_. False)"
      by (intro triple_modify) (auto simp: at_rest_def)
    with OutsideCommand show ?thesis by simp
  next
    case (MaintenanceJob k)
    have "triple accepted at_rest (attempt (runMaintenance env k)) (\<lambda>_. woken) (\<lambda>_. False)"
      by (rule triple_conseq [OF triple_attempt [OF triple_maintenance]]) (auto split: sum.splits)
    from triple_seq [OF this, of "\<lambda>_. ret ()" "\<lambda>_. woken"] MaintenanceJob show ?thesis by (auto intro: triple_pure)
  qed
qed

lemma triple_run_activities:
  assumes "spares_closings env" "list_all activity_ok acts"
  shows "triple accepted at_rest (run_activities env acts) (\<lambda>_. at_rest) (\<lambda>_. False)"
  using assms(2)
proof (induction acts)
  case Nil
  show ?case by (auto intro: triple_pure)
next
  case (Cons a acts)
  then have "activity_ok a" "triple accepted at_rest (run_activities env acts) (\<lambda>_. at_rest) (\<lambda>_. False)" by simp_all
  from triple_seq [OF triple_run_activity [OF assms(1) this(1)] this(2)] show ?case by simp
qed

section \<open>Construction\<close>

lemma last_turn_starts: "last_turn es = (if turn_starts es = [] then 0 else last (turn_starts es))"
proof (induction es rule: rev_induct)
  case Nil
  show ?case by (simp add: last_turn_def turn_starts_def map_filter_def)
next
  case (snoc e es)
  then show ?case by (cases "started_turn (ev_data e)") (auto simp: last_turn_def)
qed

lemma new_agent_at_rest:
  assumes s: "session_run s" and tr: "seedSession (se_log s) = Inr tr" "openTurn tr = None"
    and script: "list_all (tick_ok bracket_free) script" and w: "new_agent s script clock = Inr w"
  shows "at_rest w"
proof -
  from session_run_ok [OF s] have ok: "session_ok s" "derived_ok s" by simp_all
  obtain s1 where s1: "session_events s = (s1, se_log s)" "se_log s1 = se_log s" "se_surface s1 = se_surface s"
    "session_ok s1" "derived_ok s1"
    using session_events_ok [OF ok(1)] derived_ok_reads(3) [OF ok(2)]
    by (cases "session_events s") (auto simp: session_events_def split: option.splits)
  obtain m ns where m: "manager_nodes (se_surface s1) (se_log s1) = (m, Inr ns)"
    using w s1(1) by (cases "manager_nodes (se_surface s1) (se_log s1)")
      (auto simp: new_agent_def split: sum.splits)
  have run: "manager_run m (se_log s1)" using run_nodes [of "se_surface s1" "se_log s1"] s1(4) m by (simp add: session_ok_def)
  define s2 where "s2 = s1\<lparr>se_surface := m\<rparr>"
  have s2: "session_ok s2" "derived_ok s2" "se_log s2 = se_log s"
    using s1 run by (simp_all add: s2_def session_ok_def derived_ok_def)
  have inv: "trace_inv (se_log s) tr" using trace.project_inv tr(1) by (simp add: seedSession_project)
  then have wf: "openStep tr = None" "1 \<le> nextTurn tr" using tr(2) by (auto simp: trace_inv_def trace_wf_def)
  have "turn_starts (se_log s) = [1..nextTurn tr - 1]" using inv tr(2) by (simp add: trace_inv_def)
  with wf(2) have last: "last_turn (se_log s) = nextTurn tr - 1"
    by (auto simp: last_turn_starts upto_rec2 [of 1 "nextTurn tr - 1"])
  have "session_at (outside (last_turn (se_log s)) (nextStep tr)) s2"
    using s2 tr wf last by (auto simp: session_at_def outside_def brackets_of_def)
  moreover from w s1(1) m have "aw_session w = s2" "aw_phase w = Idle (last_turn (se_log s))" "aw_script w = script"
    by (auto simp: new_agent_def s2_def aw_session_def split: sum.splits)
  ultimately show ?thesis using script by (auto simp: at_rest_def frame_def)
qed

section \<open>Claims\<close>

lemma ticks_run_activities: "ticks_in n (run_activities env acts)"
  by (induction acts) (auto intro!: bound_rules ticks_run_activity)

text \<open>A turn of one step that the model ends with a short answer.\<close>

definition sample_script :: "tick list" where
  "sample_script = replicate 12 (sample_tick None)
     @ concat (map (\<lambda>c. [sample_tick (Some c), sample_tick None])
         [TextDelta 0 ''hi'', Finish FinishStop None])
     @ replicate 9 (sample_tick None)"

definition sample_activity :: activity where
  "sample_activity = OutsideCommand (ExtSend (sample_prompt ''q'') NextTurn True [])"

definition sample_run :: "agent_world \<times> unit outcome" where
  "sample_run = (case new_agent agent_session sample_script 0 of
     Inr w \<Rightarrow> run_activities sample_env [sample_activity] w
   | Inl e \<Rightarrow> (sample_world_of agent_session [], Throw e))"

definition run_summary :: "agent_world \<times> unit outcome \<Rightarrow> bool \<times> string list" where
  "run_summary p = (case snd p of Ret _ \<Rightarrow> True | _ \<Rightarrow> False, map (\<lambda>e. event_type (ev_data e)) (aw_log (fst p)))"

lemma sample_run_completes:
  "run_summary sample_run = (True,
     [''agent/inbox/spliced'', ''turn/start'', ''agent/inbox/spliced'', ''step/start'', ''user/message'',
      ''request/header'', ''request/context'', ''assistant/chunk'', ''assistant/chunk'', ''assistant/message'',
      ''step/end'', ''turn/end''])"
  by code_simp

lemma sample_agent_exists: "\<exists>w. new_agent agent_session sample_script 0 = Inr w"
proof -
  have "\<not> isl (new_agent agent_session sample_script 0)" by code_simp
  then show ?thesis by (cases "new_agent agent_session sample_script 0") auto
qed

text \<open>
  C13. A live agent keeps its log well bracketed. Whatever the environment answers and whatever other
  code does at every interruption point (send, cancel, inbox edits, appends of anything but turn and
  step boundaries), the driver never escapes with an exception, the log is always one the session
  invariants accept, and when the agent is idle again no turn or step is open and the next turn follows
  the last. A run that is cut anywhere leaves a log that crash repair closes.
\<close>

theorem agent_keeps_brackets:
  assumes session: "session_run s" "seedSession (se_log s) = Inr tr" "openTurn tr = None"
    and agent: "new_agent s script clock = Inr w"
    and foreign: "list_all (tick_ok bracket_free) script" "list_all activity_ok acts" "spares_closings env"
    and run: "run_activities env acts w = (w', r)"
  shows "(r = Ret () \<or> r = Suspended) \<and>
    (\<exists>tr'. seedSession (aw_log w') = Inr tr' \<and>
       (r = Ret () \<longrightarrow> openTurn tr' = None \<and> openStep tr' = None \<and> aw_phase w' = Idle (nextTurn tr' - 1))) \<and>
    (\<exists>tr'. seedSession (aw_log w' @ interruptedTurnClosers (aw_log w')) = Inr tr' \<and>
       openTurn tr' = None \<and> openStep tr' = None)"
proof -
  from triple_run_activities [OF foreign(3,2)] new_agent_at_rest [OF session foreign(1) agent] run
  have out: "case r of Ret x \<Rightarrow> at_rest w' | Throw e \<Rightarrow> False | _ \<Rightarrow> accepted w'"
    unfolding triple_def by (metis (mono_tags, lifting) case_prod_conv outcome.exhaust outcome.simps)
  have "r \<noteq> Spinning" using ticks_inD [OF ticks_run_activities le_refl run] by simp
  with out have r: "r = Ret () \<or> r = Suspended" by (cases r) auto
  have "accepted w'" using out r standing_accepted(5) by auto
  then obtain tr' where tr': "seedSession (aw_log w') = Inr tr'"
    by (auto simp: accepted_def session_at_def aw_log_def)
  have "openTurn tr' = None \<and> openStep tr' = None \<and> aw_phase w' = Idle (nextTurn tr' - 1)" if "r = Ret ()"
  proof -
    from out that obtain t n where at: "live_at (InIdle t) (outside t n) w'" by (auto simp: at_rest_def)
    with tr' have "brackets_of tr' = outside t n" by (auto simp: frame_def session_at_def aw_log_def)
    with at show ?thesis by (cases "aw_phase w'") (auto simp: frame_def brackets_of_def outside_def)
  qed
  moreover obtain tr'' where "trace.project (aw_log w' @ interruptedTurnClosers (aw_log w')) = Inr tr''"
    "openTurn tr'' = None" "openStep tr'' = None"
    using replay_closers tr' by (fastforce simp: seedSession_project)
  ultimately show ?thesis using r tr' by (auto simp: seedSession_project)
qed

theorem agent_keeps_brackets_witness:
  "\<exists>tr'. seedSession (aw_log (fst sample_run)) = Inr tr' \<and> openTurn tr' = None \<and>
    aw_phase (fst sample_run) = Idle (nextTurn tr' - 1)"
proof -
  obtain w where w: "new_agent agent_session sample_script 0 = Inr w" using sample_agent_exists by blast
  obtain w' r where run: "run_activities sample_env [sample_activity] w = (w', r)" by fastforce
  with w have sample: "sample_run = (w', r)" by (simp add: sample_run_def)
  have script: "list_all (tick_ok bracket_free) sample_script" "list_all activity_ok [sample_activity]"
    by (auto simp: list_all_iff sample_script_def sample_tick_def tick_ok_def sample_activity_def)
  have env: "spares_closings sample_env" by (simp add: spares_closings_def sample_env_def)
  have trace: "seedSession (se_log agent_session) = Inr freshTrace" "openTurn freshTrace = None"
    by (simp_all add: agent_session_log seedSession_def freshTrace_def)
  have "fst (run_summary sample_run)" by (simp add: sample_run_completes)
  then have "r \<noteq> Suspended" by (auto simp: sample run_summary_def)
  with agent_keeps_brackets [OF agent_session_run trace w script env run] show ?thesis by (auto simp: sample)
qed

end
