(* ===== verification/Agent_Request.thy ===== *)
theory Agent_Request
  imports Agent_Triple Agent_Samples
begin

text \<open>
  The request-reconstruction companion of \<open>core/agent-loop/src/invariant.ts\<close> and why the loop passes it:
  the request a step sends can be rebuilt from the log at the moment it is sent. The configuration, the
  system prompt and the tools are those of the last logged header, the messages those the surface derives.
\<close>

section \<open>The companion\<close>

datatype request_desync = NoStepStart | NoRequestHeader | DeriveFailed session_error | MessagesDiverge | HeaderDiverges

definition header_matches :: "agent_request \<Rightarrow> epoch_header \<Rightarrow> bool" where
  "header_matches rq h \<longleftrightarrow>
     cc_model (rq_config rq) = cc_model (eh_config h) \<and> rq_system rq = eh_system h \<and>
     cc_temperature (rq_config rq) = cc_temperature (eh_config h) \<and>
     cc_maxTokens (rq_config rq) = cc_maxTokens (eh_config h) \<and> cc_stop (rq_config rq) = cc_stop (eh_config h) \<and>
     (case rq_tools rq of Some ts \<Rightarrow> ts | None \<Rightarrow> []) = (case eh_tools h of Some ts \<Rightarrow> ts | None \<Rightarrow> [])"

definition request_companion :: "session \<Rightarrow> agent_request \<Rightarrow> session \<times> request_desync option" where
  "request_companion s rq =
     (case session_events s of (s1, events) \<Rightarrow>
        if \<not> list_ex (\<lambda>e. event_type (ev_data e) = ''step/start'') events then (s1, Some NoStepStart)
        else (case foldRequestHeader events None of
           None \<Rightarrow> (s1, Some NoRequestHeader)
         | Some h \<Rightarrow>
             (case deriveMessages s1 of
                (s2, Inl err) \<Rightarrow> (s2, Some (DeriveFailed err))
              | (s2, Inr expected) \<Rightarrow>
                  (s2, if rq_messages rq \<noteq> expected then Some MessagesDiverge
                       else if \<not> header_matches rq h then Some HeaderDiverges else None))))"

text \<open>The request of one attempt: derive the messages, then build.\<close>

definition step_request :: "agent_env \<Rightarrow> tool_schema list \<Rightarrow> string \<Rightarrow> agent_request agent_m" where
  "step_request env tools system = seq derive_messages (\<lambda>msgs. awaited env (buildRequest env tools system msgs))"

section \<open>What the log derives\<close>

definition derives :: "message list \<Rightarrow> epoch_header option \<Rightarrow> session \<Rightarrow> bool" where
  "derives ms ho s \<longleftrightarrow> session_ok s \<and> derived_ok s \<and>
     (\<exists>ns reps. foldSurface (se_log s) = Inr (ns, reps) \<and> project_nodes (se_log s) ns = ms) \<and>
     foldRequestHeader (se_log s) None = ho \<and>
     list_ex (\<lambda>e. event_type (ev_data e) = ''step/start'') (se_log s)"

text \<open>Data that other code may append while a request is being built.\<close>

definition log_only :: "event_data \<Rightarrow> bool" where
  "log_only d \<longleftrightarrow> \<not> isSurfaceEligibleType (event_type d) \<and> event_type d \<noteq> ''request/header''"

lemma foldSurface_log_only:
  assumes "foldSurface es = Inr (ns, reps)" "foldSurface (es @ [e]) = Inr p"
    "\<not> isSurfaceEligibleType (event_type (ev_data e))"
  shows "foldSurface (es @ [e]) = Inr (ns, reps) \<and> project_nodes (es @ [e]) ns = project_nodes es ns"
proof -
  from assms(1) obtain st where st: "surface.project es = Inr (st, reps)" "nodes st = ns" by (auto simp: foldSurface_Inr)
  from assms(2) obtain p' where p': "surface_step es (st, reps) e = Inr p'"
    by (cases p) (auto simp: foldSurface_Inr surface.project_snoc st result_simps)
  have "surfaceOpOf e = Inr None \<or> (\<exists>x. surfaceOpOf e = Inl x)"
    using assms(3) by (simp add: surfaceOpOf_def Let_def)
  moreover from p' obtain x where "surfaceOpOf e = Inr x"
    by (auto simp: surface_step_def applySurfaceEvent_def planSurfaceEvent_def result_simps)
  ultimately have "surfaceOpOf e = Inr None" by auto
  with p' have "surface_step es (st, reps) e = Inr (st, reps)"
    by (auto simp: surface_step_def applySurfaceEvent_def planSurfaceEvent_def result_simps)
  with st have "foldSurface (es @ [e]) = Inr (ns, reps)"
    by (simp add: foldSurface_project surface.project_snoc)
  moreover have "project_nodes (es @ [e]) ns = project_nodes es ns"
    using project_nodes_take [of "length es" "es @ [e]" ns reps] assms(1) by simp
  ultimately show ?thesis by simp
qed

lemma derives_append:
  assumes at: "derives ms ho s" and app: "agent_append env ap clock s d opts = (s', r)"
    and d: "\<not> isSurfaceEligibleType (event_type d)"
  shows "(\<exists>err. r = Inl err \<and> derives ms ho s') \<or>
    (\<exists>e. r = Inr e \<and> derives ms (case d of RequestHeader h _ \<Rightarrow> Some (canonicalHeader h) | _ \<Rightarrow> ho) s')"
proof -
  from at have ok: "session_ok s" "derived_ok s" by (auto simp: derives_def)
  note sound = agent_append_sound [OF ok app]
  from agent_append_parts [OF app] show ?thesis
  proof (elim disjE exE conjE)
    fix err m assume "r = Inl err" "s' = s\<lparr>se_surface := m\<rparr>"
    with sound at show ?thesis by (auto simp: derives_def)
  next
    fix e tr' assume e: "r = Inr e" "e = candidate_event s (ae_now env clock) d opts" "se_log s' = se_log s @ [e]"
    from at obtain ns reps where f: "foldSurface (se_log s) = Inr (ns, reps)" "project_nodes (se_log s) ns = ms"
      by (auto simp: derives_def)
    from sound session_ok_seqs(2) obtain p where "foldSurface (se_log s @ [e]) = Inr p" by (fastforce simp: e(3))
    from foldSurface_log_only [OF f(1) this] d have "foldSurface (se_log s') = Inr (ns, reps) \<and> project_nodes (se_log s') ns = ms"
      by (simp add: e f(2))
    with sound at e d show ?thesis by (auto simp: derives_def foldRequestHeader_append split: event_data.splits)
  qed
qed

lemma derives_free:
  "derives ms ho s \<Longrightarrow> log_only d \<Longrightarrow> derives ms ho (fst (agent_append env ap clock s d opts))"
  using derives_append [of ms ho s env ap clock d opts]
  by (cases "agent_append env ap clock s d opts") (auto simp: log_only_def split: event_data.splits)

lemma derives_reads:
  assumes "derives ms ho s"
  shows "derives ms ho (fst (requestHeader s))" "derives ms ho (fst (requestContext s))" "derives ms ho (fst (deriveMessages s))"
  using assms reads_sound [of s] by (auto simp: derives_def reads_log)

lemma ineligible_own:
  "\<not> isSurfaceEligibleType ''agent/inbox/spliced''" "\<not> isSurfaceEligibleType ''request/context''"
  "\<not> isSurfaceEligibleType ''request/header''"
  by (simp_all add: isSurfaceEligibleType_def surface_event_types_def)

interpretation deriving: session_contract "derives ms ho" log_only "\<lambda>_. True" for ms ho
  by unfold_locales (simp_all add: derives_free derives_reads log_only_def ineligible_own)

abbreviation deriving_at :: "message list \<Rightarrow> epoch_header option \<Rightarrow> agent_world \<Rightarrow> bool" where
  "deriving_at ms ho \<equiv> frame (derives ms ho) log_only (\<lambda>_. True)"

section \<open>Building a request\<close>

text \<open>Only what a returned request says matters here: nothing is promised of a throw or a cut.\<close>

abbreviation returns :: "(agent_world \<Rightarrow> bool) \<Rightarrow> 'a agent_m \<Rightarrow> ('a \<Rightarrow> agent_world \<Rightarrow> bool) \<Rightarrow> bool" where
  "returns P m Q \<equiv> triple (\<lambda>_. True) P m Q (\<lambda>_. True)"

lemma returns_keeps: "keeps I m \<Longrightarrow> returns I m (\<lambda>_. I)"
  by (rule triple_conseq [OF triple_keeps]) auto

lemma returns_header:
  "returns (deriving_at ms ho) (append_event env (RequestHeader h reason) plain_opts)
     (\<lambda>_. deriving_at ms (Some (canonicalHeader h)))"
proof -
  have "case append_event env (RequestHeader h reason) plain_opts w of (w', Ret e) \<Rightarrow> deriving_at ms (Some (canonicalHeader h)) w' | _ \<Rightarrow> True"
    if w: "deriving_at ms ho w" for w
  proof (cases rule: append_event_cases [of env "RequestHeader h reason" plain_opts w])
    case (Accepted s e)
    with derives_append [OF _ Accepted(2)] w ineligible_own(3) have "derives ms (Some (canonicalHeader h)) s"
      by (fastforce simp: frame_def)
    with w have "deriving_at ms (Some (canonicalHeader h)) (set_session s w)" by (simp add: frame_def)
    with keepsD [OF deriving.keeps_tick this] Accepted(1) show ?thesis
      by (cases "next_tick env InAppend (set_session s w)") (auto simp: monad_defs split: outcome.split)
  qed simp
  then show ?thesis unfolding triple_def by (auto split: outcome.split)
qed

lemma read_header_folds: "returns (deriving_at ms ho) read_header (\<lambda>h w. h = ho \<and> deriving_at ms ho w)"
  unfolding triple_def
proof (intro allI impI)
  fix w assume w: "deriving_at ms ho w"
  then have ok: "session_ok (aw_session w)" "foldRequestHeader (se_log (aw_session w)) None = ho"
    by (simp_all add: frame_def derives_def)
  from requestHeader_result [OF ok(1)] ok(2) keepsD [OF deriving.keeps_reads(1) w]
  show "case read_header w of (w', Ret h) \<Rightarrow> h = ho \<and> deriving_at ms ho w' | (w', _) \<Rightarrow> True"
    by (auto simp: read_header_def split: prod.split)
qed

lemma folded_canonical: "derives ms (Some b) s \<Longrightarrow> canonical b"
  using foldRequestHeader_canonical [of None "se_log s" b] by (simp add: derives_def)

text \<open>The header is logged when it is new and left alone when the last one says the same.\<close>

lemma returns_log_header:
  assumes h: "canonicalHeader h = h"
  shows "returns (deriving_at ms ho) (log_header env h) (\<lambda>_. deriving_at ms (Some h))"
  unfolding log_header_def
proof (rule triple_seq [OF read_header_folds], rule triple_get)
  fix baseline logged
  let ?P = "\<lambda>w. baseline = ho \<and> deriving_at ms ho w"
  have app: "returns ?P (append_event env (RequestHeader h reason) plain_opts) (\<lambda>_. deriving_at ms (Some h))" for reason
    using returns_header [of ms ho env h reason] h by (auto intro: triple_conseq)
  have first: "returns ?P (seq (append_event env (RequestHeader h reason) plain_opts) (\<lambda>_. modify (\<lambda>w. w\<lparr>aw_headerLogged := True\<rparr>)))
      (\<lambda>_. deriving_at ms (Some h))" for reason
    by (rule triple_seq [OF app], rule returns_keeps, rule keeps_rules)
  have change: "returns ?P (seq (append_event env (RequestHeader h ''change'') plain_opts) (\<lambda>_. ret ())) (\<lambda>_. deriving_at ms (Some h))"
    by (rule triple_seq [OF app]) (rule triple_pure)
  have same: "returns ?P (ret ()) (\<lambda>_. deriving_at ms (Some h))"
    if "\<not> (case baseline of None \<Rightarrow> True | Some b \<Rightarrow> \<not> headerEquals b h)"
  proof (rule triple_pure)
    fix w assume w: "baseline = ho \<and> deriving_at ms ho w"
    with that obtain b where b: "ho = Some b" "headerEquals b h" by (auto split: option.splits)
    with w have "canonical b" by (auto simp: frame_def dest: folded_canonical)
    with b(2) h have "b = h" using headerEquals_decides [of b h] canonicalHeader_id by metis
    with w b(1) show "deriving_at ms (Some h) w" by simp
  qed
  show "returns ?P
      (if \<not> logged then
         seq (append_event env (RequestHeader h (if baseline = None then ''initial'' else ''resume'')) plain_opts) (\<lambda>_.
           modify (\<lambda>w. w\<lparr>aw_headerLogged := True\<rparr>))
       else if (case baseline of None \<Rightarrow> True | Some b \<Rightarrow> \<not> headerEquals b h) then
         seq (append_event env (RequestHeader h ''change'') plain_opts) (\<lambda>_. ret ())
       else ret ()) (\<lambda>_. deriving_at ms (Some h))"
    by (rule triple_if, rule first, rule triple_if, rule change, erule same)
qed

definition request_of :: "message list \<Rightarrow> epoch_header \<Rightarrow> agent_request \<Rightarrow> bool" where
  "request_of ms h rq \<longleftrightarrow> rq_config rq = eh_config h \<and> rq_system rq = eh_system h \<and> rq_tools rq = eh_tools h \<and> rq_messages rq = ms"

lemma log_only_context: "log_only (RequestContext c)"
  by (simp add: log_only_def ineligible_own)

lemma returns_quiet:
  "keeps (deriving_at ms ho) (seed_config env)" "keeps (deriving_at ms ho) (prepare_call env)"
  "keeps (deriving_at ms ho) (log_context env c)"
  unfolding seed_config_def prepare_call_def log_context_def by (intro keeps_rules log_only_context)+

lemma returns_step:
  "keeps (deriving_at ms ho) m \<Longrightarrow> (\<And>x. returns (deriving_at ms ho) (f x) Q) \<Longrightarrow> returns (deriving_at ms ho) (seq m f) Q"
  by (rule triple_seq [OF returns_keeps])

lemma returns_buildRequest:
  "returns (deriving_at ms ho) (buildRequest env tools system msgs) (\<lambda>rq w. \<exists>h. request_of msgs h rq \<and> deriving_at ms (Some h) w)"
proof -
  have canon: "canonicalHeader (step_header c p s ts) = step_header c p s ts" for c p s ts
    by (simp add: step_header_def canonicalHeader_id canonicalHeader_canonical)
  note quiet = returns_quiet deriving.keeps_await keeps_pure(6)
  let ?Q = "\<lambda>rq w. \<exists>h. request_of msgs h rq \<and> deriving_at ms (Some h) w"
  have sent: "returns (deriving_at ms (Some h))
      (ret \<lparr>rq_config = eh_config h, rq_messages = msgs, rq_system = eh_system h, rq_tools = eh_tools h\<rparr>) ?Q" for h
    by (rule triple_pure, rule exI [of _ h]) (simp add: request_of_def)
  have checked: "returns (deriving_at ms (Some h)) (seq (log_context env c) (\<lambda>_. seq throwIfAborted (\<lambda>_.
      ret \<lparr>rq_config = eh_config h, rq_messages = msgs, rq_system = eh_system h, rq_tools = eh_tools h\<rparr>))) ?Q" for h c
    by (intro returns_step quiet sent)
  have logged: "returns (deriving_at ms ho) (seq (log_header env (step_header config prepared system tools)) (\<lambda>_.
      seq (log_context env c) (\<lambda>_. seq throwIfAborted (\<lambda>_.
        ret \<lparr>rq_config = eh_config (step_header config prepared system tools), rq_messages = msgs,
          rq_system = eh_system (step_header config prepared system tools),
          rq_tools = eh_tools (step_header config prepared system tools)\<rparr>)))) ?Q" for config prepared c
    by (rule triple_seq [OF returns_log_header [OF canon] checked])
  show ?thesis
    unfolding buildRequest_def Let_def
    by (rule logged returns_step quiet triple_if triple_pure(2) TrueI)+
qed

lemma returns_derive: "returns (deriving_at ms ho) derive_messages (\<lambda>x w. x = ms \<and> deriving_at ms ho w)"
  unfolding triple_def
proof (intro allI impI)
  fix w assume w: "deriving_at ms ho w"
  then have ok: "session_ok (aw_session w)" "derived_ok (aw_session w)" by (simp_all add: frame_def derives_def)
  from w obtain ns reps where ms: "foldSurface (se_log (aw_session w)) = Inr (ns, reps)" "project_nodes (se_log (aw_session w)) ns = ms"
    by (auto simp: frame_def derives_def)
  obtain s' ns' reps' where "foldSurface (se_log (aw_session w)) = Inr (ns', reps')"
    "deriveMessages (aw_session w) = (s', Inr (project_nodes (se_log (aw_session w)) ns'))" by (rule deriveMessages_run [OF ok])
  with ms have "deriveMessages (aw_session w) = (s', Inr ms)" by simp
  with keepsD [OF deriving.keeps_reads(3) w]
  show "case derive_messages w of (w', Ret x) \<Rightarrow> x = ms \<and> deriving_at ms ho w' | (w', _) \<Rightarrow> True"
    by (auto simp: derive_messages_def)
qed

lemma returns_step_request:
  "returns (deriving_at ms ho) (step_request env tools system) (\<lambda>rq w. \<exists>h. request_of ms h rq \<and> deriving_at ms (Some h) w)"
  unfolding step_request_def
proof (rule triple_seq [OF returns_derive])
  fix x
  have "returns (deriving_at ms ho) (awaited env (buildRequest env tools system ms)) (\<lambda>rq w. \<exists>h. request_of ms h rq \<and> deriving_at ms (Some h) w)"
  proof (rule triple_awaited [OF returns_buildRequest])
    show "keeps (\<lambda>w. \<exists>h. request_of ms h rq \<and> deriving_at ms (Some h) w) (next_tick env AtAwait)" for rq
      using deriving.keeps_tick by (auto simp: keeps_def)
  qed (simp_all add: keeps_def)
  then show "returns (\<lambda>w. x = ms \<and> deriving_at ms ho w) (awaited env (buildRequest env tools system x))
      (\<lambda>rq w. \<exists>h. request_of ms h rq \<and> deriving_at ms (Some h) w)"
    by (cases "x = ms") (simp_all add: triple_def)
qed

lemma companion_passes:
  assumes "derives ms (Some h) s" "request_of ms h rq"
  shows "snd (request_companion s rq) = None"
proof -
  from assms(1) obtain ns reps where s: "session_ok s" "derived_ok s" "foldRequestHeader (se_log s) None = Some h"
    "list_ex (\<lambda>e. event_type (ev_data e) = ''step/start'') (se_log s)"
    "foldSurface (se_log s) = Inr (ns, reps)" "project_nodes (se_log s) ns = ms" by (auto simp: derives_def)
  obtain s1 where s1: "session_events s = (s1, se_log s)" "se_log s1 = se_log s" "session_ok s1" "derived_ok s1"
    using session_events_ok [OF s(1)] derived_ok_reads(3) [OF s(2)]
    by (cases "session_events s") (auto simp: session_events_def split: option.splits)
  obtain s2 ns' reps' where "foldSurface (se_log s1) = Inr (ns', reps')"
    "deriveMessages s1 = (s2, Inr (project_nodes (se_log s1) ns'))" by (rule deriveMessages_run [OF s1(3,4)])
  with s1(2) s(5,6) have "deriveMessages s1 = (s2, Inr ms)" by simp
  with s s1 assms(2) show ?thesis by (simp add: request_companion_def request_of_def header_matches_def)
qed

section \<open>Claims\<close>


definition step_world :: agent_world where
  "step_world = sample_world_of step_session (replicate 8 (sample_tick None))"


end
