(* ===== verification/Agent_Order.thy ===== *)
theory Agent_Order
  imports Agent_Triple Agent_Samples
begin

text \<open>
  The order the scheduler of \<open>core/agent-loop/src/tool-calls.ts\<close> promises: dispatches overlap, but the
  calls of a step and their results enter the log in the order of the model, each result citing its own
  call. A ledger relates the tool events a step has written to its calls; an invariant of the pool says
  where every started call is, and holds whatever settles meanwhile.
\<close>

section \<open>The tool events of a log\<close>

definition called_of :: "session_event \<Rightarrow> (int \<times> int \<times> int \<times> call_id \<times> string \<times> string) option" where
  "called_of e = (case ev_data e of ToolCall turn step i n a \<Rightarrow> Some (ev_seq e, turn, step, i, n, a) | _ \<Rightarrow> None)"

definition answered_of :: "session_event \<Rightarrow> (int \<times> int \<times> call_id option \<times> json option) option" where
  "answered_of e = (case ev_data e of
     ToolResult turn step m _ _ \<Rightarrow>
       Some (turn, step, case msg_content m of [ToolResultBlock i _ _ _] \<Rightarrow> Some i | _ \<Rightarrow> None, ev_sourceEventSeqs e)
   | _ \<Rightarrow> None)"

definition called :: "session_event list \<Rightarrow> (int \<times> int \<times> int \<times> call_id \<times> string \<times> string) list" where
  "called es = List.map_filter called_of es"

definition answered :: "session_event list \<Rightarrow> (int \<times> int \<times> call_id option \<times> json option) list" where
  "answered es = List.map_filter answered_of es"

definition call_entry :: "int \<Rightarrow> int \<Rightarrow> tool_call \<Rightarrow> int \<Rightarrow> int \<times> int \<times> int \<times> call_id \<times> string \<times> string" where
  "call_entry turn step c q = (q, turn, step, tc_id c, tc_name c, tc_arguments c)"

definition result_entry :: "int \<Rightarrow> int \<Rightarrow> tool_call \<Rightarrow> int \<Rightarrow> int \<times> int \<times> call_id option \<times> json option" where
  "result_entry turn step c q = (turn, step, Some (tc_id c), Some (seqs_json [q]))"

definition tool_free :: "event_data \<Rightarrow> bool" where
  "tool_free d \<longleftrightarrow> (case d of ToolCall _ _ _ _ _ \<Rightarrow> False | ToolResult _ _ _ _ _ \<Rightarrow> False | _ \<Rightarrow> True)"

lemma called_simps [simp]: "called [] = []" "called (es @ fs) = called es @ called fs"
  by (simp_all add: called_def List.map_filter_def)

lemma answered_simps [simp]: "answered [] = []" "answered (es @ fs) = answered es @ answered fs"
  by (simp_all add: answered_def List.map_filter_def)

lemma tool_free_event:
  assumes "tool_free (ev_data e)"
  shows "called [e] = []" "answered [e] = []"
  using assms by (auto simp: tool_free_def called_def answered_def called_of_def answered_of_def map_filter_simps
      split: event_data.splits)

section \<open>The ledger\<close>

text \<open>Of the calls of a step, \<open>qs\<close> are the events of those started so far and \<open>k\<close> counts the answered ones.\<close>

definition ledger ::
  "session_event list \<Rightarrow> int \<Rightarrow> int \<Rightarrow> tool_call list \<Rightarrow> int list \<Rightarrow> nat \<Rightarrow> session \<Rightarrow> bool" where
  "ledger base turn step calls qs k s \<longleftrightarrow> (\<exists>new. se_log s = base @ new \<and>
     length qs \<le> length calls \<and> k \<le> length qs \<and>
     called new = map2 (call_entry turn step) (take (length qs) calls) qs \<and>
     answered new = map2 (result_entry turn step) (take k calls) (take k qs))"

lemma ledger_log: "ledger base turn step calls qs k s \<Longrightarrow> se_log s' = se_log s \<Longrightarrow> ledger base turn step calls qs k s'"
  by (simp add: ledger_def)

lemma ledger_free:
  assumes "ledger base turn step calls qs k s" "tool_free d"
  shows "ledger base turn step calls qs k (fst (agent_append env ap clock s d opts))"
proof -
  obtain s' r where app: "agent_append env ap clock s d opts = (s', r)" by fastforce
  from agent_append_parts [OF app] show ?thesis
  proof (elim disjE exE conjE)
    fix err m assume "s' = s\<lparr>se_surface := m\<rparr>"
    with assms(1) show ?thesis by (simp add: app ledger_def)
  next
    fix e tr assume e: "e = candidate_event s (ae_now env clock) d opts" "se_log s' = se_log s @ [e]"
    from assms(2) e have "tool_free (ev_data e)" by simp
    note [simp] = tool_free_event [OF this]
    from assms(1) e(2) show ?thesis by (auto simp: app ledger_def)
  qed
qed

lemma take_Suc_zip: "k < length xs \<Longrightarrow> k < length ys \<Longrightarrow>
  map2 f (take (Suc k) xs) (take (Suc k) ys) = map2 f (take k xs) (take k ys) @ [f (xs ! k) (ys ! k)]"
  by (simp add: take_Suc_conv_app_nth)

lemma ledger_call:
  assumes "ledger base turn step calls qs k s" "length qs < length calls" "c = calls ! length qs"
    and "agent_append env ap clock s (ToolCall turn step (tc_id c) (tc_name c) (tc_arguments c)) opts = (s', r)"
  shows "(\<exists>err. r = Inl err \<and> ledger base turn step calls qs k s') \<or>
    (\<exists>e. r = Inr e \<and> ledger base turn step calls (qs @ [ev_seq e]) k s')"
  using agent_append_parts [OF assms(4)]
proof (elim disjE exE conjE)
  fix err m assume "r = Inl err" "s' = s\<lparr>se_surface := m\<rparr>"
  with assms(1) show ?thesis by (simp add: ledger_def)
next
  fix e tr
  assume e: "r = Inr e" "e = candidate_event s (ae_now env clock) (ToolCall turn step (tc_id c) (tc_name c) (tc_arguments c)) opts"
    "se_log s' = se_log s @ [e]"
  have "called [e] = [call_entry turn step c (ev_seq e)]" "answered [e] = []"
    by (simp_all add: e(2) called_def answered_def called_of_def answered_of_def call_entry_def map_filter_simps)
  with assms(1-3) e(1,3) show ?thesis
    by (auto simp: ledger_def take_Suc_conv_app_nth zip_append1)
qed

lemma ledger_result:
  assumes "ledger base turn step calls qs k s" "k < length qs" "c = calls ! k"
    and "agent_append env ap clock s (ToolResult turn step (tool_result_message mid (tc_id c) res) er mt) (surface_opts [qs ! k]) = (s', r)"
  shows "(\<exists>err. r = Inl err \<and> ledger base turn step calls qs k s') \<or>
    (\<exists>e. r = Inr e \<and> ledger base turn step calls qs (Suc k) s')"
  using agent_append_parts [OF assms(4)]
proof (elim disjE exE conjE)
  fix err m assume "r = Inl err" "s' = s\<lparr>se_surface := m\<rparr>"
  with assms(1) show ?thesis by (simp add: ledger_def)
next
  fix e tr
  assume e: "r = Inr e" "e = candidate_event s (ae_now env clock)
      (ToolResult turn step (tool_result_message mid (tc_id c) res) er mt) (surface_opts [qs ! k])" "se_log s' = se_log s @ [e]"
  have "called [e] = []" "answered [e] = [result_entry turn step c (qs ! k)]"
    by (simp_all add: e(2) candidate_event_def surface_opts_def tool_result_message_def called_def answered_def called_of_def
        answered_of_def result_entry_def map_filter_simps)
  with assms(1-3) e(1,3) show ?thesis by (auto simp: ledger_def take_Suc_zip)
qed

section \<open>The pool\<close>

text \<open>
  In a group of \<open>len\<close> calls of which the first \<open>st\<close> are started and the first \<open>c\<close> committed: a started,
  uncommitted call has its result or is in flight, nothing else is, and no more than \<open>mx\<close> are in flight.
\<close>

definition pool_inv :: "nat \<Rightarrow> nat \<Rightarrow> nat \<Rightarrow> nat \<Rightarrow> tool_pool \<Rightarrow> bool" where
  "pool_inv mx len c st pl \<longleftrightarrow> length (pl_slots pl) = len \<and> st \<le> len \<and> length (pl_inFlight pl) \<le> mx \<and>
     set (pl_inFlight pl) \<subseteq> {..<st} \<and> set (pl_settled pl) \<subseteq> set (pl_inFlight pl) \<and>
     (\<forall>i<len. st \<le> i \<longrightarrow> pl_slots pl ! i = None) \<and>
     (\<forall>i<st. c \<le> i \<longrightarrow> pl_slots pl ! i \<noteq> None \<or> i \<in> set (pl_inFlight pl)) \<and>
     (\<forall>i\<in>set (pl_settled pl). pl_slots pl ! i \<noteq> None \<or> pl_failure pl \<noteq> None)"

lemma settle_inFlight [simp]: "pl_inFlight (settle_one pl x) = pl_inFlight pl"
  by (simp add: settle_one_def Let_def split: sum.split)

lemma pool_inv_settle:
  assumes inv: "pool_inv mx len c st pl"
  shows "pool_inv mx len c st (settle_one pl x)"
proof (cases "fst x \<notin> set (pl_inFlight pl) \<or> fst x \<in> set (pl_settled pl)")
  case True
  with inv show ?thesis by (simp add: settle_one_def Let_def)
next
  case False
  show ?thesis
  proof (cases "snd x")
    case (Inl e)
    with inv False show ?thesis by (auto simp: pool_inv_def settle_one_def Let_def split: option.split)
  next
    case (Inr y)
    with False have pl: "settle_one pl x = pl\<lparr>pl_settled := pl_settled pl @ [fst x], pl_slots := (pl_slots pl)[fst x := Some y]\<rparr>"
      by (simp add: settle_one_def Let_def)
    from inv have len: "length (pl_slots pl) = len" "set (pl_inFlight pl) \<subseteq> {..<st}" "st \<le> len" by (simp_all add: pool_inv_def)
    with False have x: "fst x < st" by auto
    have slot: "(pl_slots pl)[fst x := Some y] ! i = (if i = fst x then Some y else pl_slots pl ! i)" for i
      using x len by simp
    from inv x False show ?thesis unfolding pl pool_inv_def by (simp add: slot) blast
  qed
qed

lemma filter_bound: "length xs \<le> n \<Longrightarrow> length (filter P xs) \<le> n"
  by (rule order.trans [OF length_filter_le])

lemma pool_inv_delete:
  assumes inv: "pool_inv mx len c st pl" and i: "i \<in> set (pl_settled pl)" "pl_failure pl = None"
  shows "pool_inv mx len c st (pl\<lparr>pl_inFlight := filter (\<lambda>j. j \<noteq> i) (pl_inFlight pl),
    pl_settled := filter (\<lambda>j. j \<noteq> i) (pl_settled pl)\<rparr>)"
proof -
  from inv have "length (filter (\<lambda>j. j \<noteq> i) (pl_inFlight pl)) \<le> mx"
    by (simp add: pool_inv_def filter_bound)
  moreover from inv i have "\<forall>j<st. c \<le> j \<longrightarrow> pl_slots pl ! j \<noteq> None \<or> j \<in> set (filter (\<lambda>j. j \<noteq> i) (pl_inFlight pl))"
    by (auto simp: pool_inv_def)
  ultimately show ?thesis using inv i by (auto simp: pool_inv_def)
qed

section \<open>What stays true while other code runs\<close>

definition pooled ::
  "(session \<Rightarrow> bool) \<Rightarrow> (event_data \<Rightarrow> bool) \<Rightarrow> (phase \<Rightarrow> bool) \<Rightarrow> (tool_pool \<Rightarrow> bool) \<Rightarrow> agent_world \<Rightarrow> bool" where
  "pooled J F Sh Pi w \<longleftrightarrow> frame J F Sh w \<and> Pi (aw_pool w)"

lemma foldl_settle: "(\<And>pl x. Pi pl \<Longrightarrow> Pi (settle_one pl x)) \<Longrightarrow> Pi pl \<Longrightarrow> Pi (foldl settle_one pl xs)"
  by (induction xs arbitrary: pl) simp_all

lemma run_externals_pool [simp]: "aw_pool (run_externals env ap xs w) = aw_pool w"
  using moves_fields [OF run_externals_moves(2) [of "\<lambda>_. True" xs]] by (simp add: list_all_iff)

lemma lift_inbox_pool: "aw_pool (fst (lift_inbox f w)) = aw_pool w"
  by (simp add: lift_inbox_def split: prod.split sum.split)

locale pool_contract = session_contract J F Sh for J F Sh +
  fixes Pi :: "tool_pool \<Rightarrow> bool"
  assumes settle: "Pi pl \<Longrightarrow> Pi (settle_one pl x)"
begin

lemma pooled_tick [keeps_rules]: "keeps (pooled J F Sh Pi) (next_tick env mo)"
proof -
  have "Pi (aw_pool (fst (next_tick env mo w)))" if "Pi (aw_pool w)" for w
    using that foldl_settle [of Pi, OF settle] by (simp add: next_tick_def split: list.split)
  with keeps_tick [of env mo] show ?thesis by (simp add: keeps_def pooled_def)
qed

lemma pooled_await [keeps_rules]: "keeps (pooled J F Sh Pi) (await env)"
  unfolding await_def by (intro keeps_rules)

lemma pooled_splice [keeps_rules]:
  "keeps (pooled J F Sh Pi) (lift_inbox (\<lambda>io. inbox_splice_op (agent_commit env ap clock) io target (x io) y ms))"
  using keeps_inbox(2) [of env ap clock target x y ms] by (simp add: keeps_def pooled_def lift_inbox_pool)

lemma pooled_quiet [keeps_rules]:
  "keeps (pooled J F Sh Pi) (executionMode env c)" "keeps (pooled J F Sh Pi) throwSchedulerFailure"
  "keeps (pooled J F Sh Pi) (final_result env slot)"
  unfolding executionMode_def throwSchedulerFailure_def final_result_def by (intro keeps_rules)+

lemma pooled_accept_contexts [keeps_rules]: "keeps (pooled J F Sh Pi) (accept_contexts env ms)"
  by (induction ms) (auto intro!: keeps_rules)

lemma pooled_all_settled [keeps_rules]: "keeps (pooled J F Sh Pi) (all_settled env n)"
  by (induction n; subst all_settled.simps) (rule keeps_rules | assumption)+

end

lemma ledger_reads:
  assumes "ledger base turn step calls qs k s"
  shows "ledger base turn step calls qs k (fst (requestHeader s))" "ledger base turn step calls qs k (fst (requestContext s))"
    "ledger base turn step calls qs k (fst (deriveMessages s))"
  using assms by (auto intro: ledger_log simp: reads_log)

interpretation ledgers: session_contract "ledger base turn step calls qs k" tool_free "\<lambda>_. True"
  for base turn step calls qs k
  by unfold_locales (simp_all add: ledger_free ledger_reads tool_free_def)

abbreviation kept :: "session_event list \<Rightarrow> int \<Rightarrow> int \<Rightarrow> tool_call list \<Rightarrow> int list \<Rightarrow> nat \<Rightarrow> (tool_pool \<Rightarrow> bool) \<Rightarrow> agent_world \<Rightarrow> bool" where
  "kept base turn step calls qs k \<equiv> pooled (ledger base turn step calls qs k) tool_free (\<lambda>_. True)"

text \<open>What holds at every interruption point: some calls are written, some are answered, and the pool is bounded.\<close>

definition in_order :: "nat \<Rightarrow> session_event list \<Rightarrow> int \<Rightarrow> int \<Rightarrow> tool_call list \<Rightarrow> agent_world \<Rightarrow> bool" where
  "in_order mx base turn step calls w \<longleftrightarrow>
     (\<exists>qs k. kept base turn step calls qs k (\<lambda>pl. length (pl_inFlight pl) \<le> mx) w)"

lemma triple_append_event:
  assumes "\<And>w s e. P w \<Longrightarrow> agent_append env False (aw_clock w) (aw_session w) d opts = (s, Inr e) \<Longrightarrow> Q e (set_session s w)"
    and "\<And>w s err. P w \<Longrightarrow> agent_append env False (aw_clock w) (aw_session w) d opts = (s, Inl err) \<Longrightarrow> E (set_session s w)"
    and "\<And>e. keeps (Q e) (next_tick env InAppend)" "\<And>e w. Q e w \<Longrightarrow> C w"
  shows "triple C P (append_event env d opts) Q E"
  unfolding triple_def
proof (intro allI impI)
  fix w assume w: "P w"
  show "case append_event env d opts w of (w', Ret x) \<Rightarrow> Q x w' | (w', Throw e) \<Rightarrow> E w' | (w', Suspended) \<Rightarrow> C w'
    | (w', Spinning) \<Rightarrow> C w'"
  proof (cases rule: append_event_cases [of env d opts w])
    case (Refused s err e)
    with assms(2) [OF w] show ?thesis by simp
  next
    case (Accepted s e)
    with assms(1) [OF w] assms(3) [of e] have "Q e (fst (next_tick env InAppend (set_session s w)))"
      by (simp add: keeps_def)
    with assms(4) Accepted(1) show ?thesis
      by (auto simp: monad_defs next_tick_def split: list.splits)
  qed
qed

locale pool_law =
  fixes Pi :: "tool_pool \<Rightarrow> bool" and mx :: nat
  assumes law_settle: "Pi pl \<Longrightarrow> Pi (settle_one pl x)" and law_bound: "Pi pl \<Longrightarrow> length (pl_inFlight pl) \<le> mx"

sublocale pool_law \<subseteq> working: pool_contract "ledger base turn step calls qs k" tool_free "\<lambda>_. True" Pi
  for base turn step calls qs k
  by unfold_locales (rule law_settle)

context pool_law
begin

lemma kept_in_order: "kept base turn step calls qs k Pi w \<Longrightarrow> in_order mx base turn step calls w"
  using law_bound by (auto simp: in_order_def pooled_def)

lemma kept_set_session:
  "kept base turn step calls qs k Pi w \<Longrightarrow> ledger base turn step calls qs' k' s \<Longrightarrow> kept base turn step calls qs' k' Pi (set_session s w)"
  by (auto simp: pooled_def frame_def) (simp add: set_session_def)

lemma kept_ledger: "kept base turn step calls qs k Pi w \<Longrightarrow> ledger base turn step calls qs k (aw_session w)"
  by (simp add: pooled_def frame_def)

lemma triple_appendToolCall:
  assumes "length qs < length calls" "c = calls ! length qs"
  shows "triple (in_order mx base turn step calls) (kept base turn step calls qs k Pi) (appendToolCall env turn step c)
    (\<lambda>q. kept base turn step calls (qs @ [q]) k Pi) (in_order mx base turn step calls)"
  unfolding appendToolCall_def
proof (rule triple_seq [OF triple_append_event [where Q = "\<lambda>e. kept base turn step calls (qs @ [ev_seq e]) k Pi"]])
  fix w s e
  assume "kept base turn step calls qs k Pi w"
    "agent_append env False (aw_clock w) (aw_session w) (ToolCall turn step (tc_id c) (tc_name c) (tc_arguments c)) plain_opts = (s, Inr e)"
  with ledger_call [OF kept_ledger assms] show "kept base turn step calls (qs @ [ev_seq e]) k Pi (set_session s w)"
    by (blast intro: kept_set_session)
next
  fix w s err
  assume "kept base turn step calls qs k Pi w"
    "agent_append env False (aw_clock w) (aw_session w) (ToolCall turn step (tc_id c) (tc_name c) (tc_arguments c)) plain_opts = (s, Inl err)"
  with ledger_call [OF kept_ledger assms] show "in_order mx base turn step calls (set_session s w)"
    by (blast intro: kept_set_session kept_in_order)
qed (auto intro: triple_pure keeps_rules kept_in_order)

lemma triple_appendToolResult:
  assumes "k < length qs" "c = calls ! k" "q = qs ! k"
  shows "triple (in_order mx base turn step calls) (kept base turn step calls qs k Pi) (appendToolResult env turn step c r q)
    (\<lambda>_. kept base turn step calls qs (Suc k) Pi) (in_order mx base turn step calls)"
  unfolding appendToolResult_def assms(3)
proof (rule triple_get, rule triple_seq [OF triple_append_event [where Q = "\<lambda>e. kept base turn step calls qs (Suc k) Pi"]])
  fix x w s e
  assume "kept base turn step calls qs k Pi w" "agent_append env False (aw_clock w) (aw_session w)
    (ToolResult turn step (tool_result_message (ae_uuid env x) (tc_id c) r) (to_errorInfo r) (to_meta r)) (surface_opts [qs ! k]) = (s, Inr e)"
  with ledger_result [OF kept_ledger assms(1,2)] show "kept base turn step calls qs (Suc k) Pi (set_session s w)"
    by (blast intro: kept_set_session)
next
  fix x w s err
  assume "kept base turn step calls qs k Pi w" "agent_append env False (aw_clock w) (aw_session w)
    (ToolResult turn step (tool_result_message (ae_uuid env x) (tc_id c) r) (to_errorInfo r) (to_meta r)) (surface_opts [qs ! k]) = (s, Inl err)"
  with ledger_result [OF kept_ledger assms(1,2)] show "in_order mx base turn step calls (set_session s w)"
    by (blast intro: kept_set_session kept_in_order)
qed (auto intro: triple_pure keeps_rules kept_in_order)

lemma triple_quiet:
  "keeps (kept base turn step calls qs k Pi) m \<Longrightarrow>
   triple (in_order mx base turn step calls) (kept base turn step calls qs k Pi) m (\<lambda>_. kept base turn step calls qs k Pi)
     (in_order mx base turn step calls)"
  using triple_keeps [of "kept base turn step calls qs k Pi" m "in_order mx base turn step calls", OF _ kept_in_order]
  by (rule triple_conseq) (auto intro: kept_in_order)

end

lemma pool_law_bound: "pool_law (\<lambda>pl. length (pl_inFlight pl) \<le> mx) mx"
  by unfold_locales simp_all

interpretation bounded: pool_law "\<lambda>pl. length (pl_inFlight pl) \<le> mx" mx for mx
  by (rule pool_law_bound)

lemma in_order_tick: "keeps (in_order mx base turn step calls) (next_tick env mo)"
  unfolding in_order_def by (intro keeps_ex bounded.working.pooled_tick)

lemma triple_awaited_order:
  assumes "triple (in_order mx base turn step calls) P m Q (in_order mx base turn step calls)"
    and "\<And>x. keeps (Q x) (next_tick env AtAwait)" "\<And>x w. Q x w \<Longrightarrow> in_order mx base turn step calls w"
  shows "triple (in_order mx base turn step calls) P (awaited env m) Q (in_order mx base turn step calls)"
  by (rule triple_awaited [OF assms(1,2) in_order_tick assms(3)]) simp_all

lemma triple_get_value: "(\<And>x. triple C (\<lambda>w. P w \<and> f w = x) (g x) Q E) \<Longrightarrow> triple C P (seq (get_world f) g) Q E"
  by (simp add: triple_def seq_def get_world_def)

lemma triple_pre: "(\<And>w. P w \<Longrightarrow> b) \<Longrightarrow> (b \<Longrightarrow> triple C P m Q E) \<Longrightarrow> triple C P m Q E"
  by (cases b) (auto simp: triple_def)

lemma keeps_fact: "(b \<Longrightarrow> keeps I m) \<Longrightarrow> keeps (\<lambda>w. b \<and> I w) m"
  by (auto simp: keeps_def)

section \<open>One group\<close>

text \<open>
  The pool of a group; with \<open>waits\<close>, the first uncommitted call is in flight, which a loop over the pool
  relies on.
\<close>

definition pool_ok :: "nat \<Rightarrow> nat \<Rightarrow> nat \<Rightarrow> nat \<Rightarrow> bool \<Rightarrow> tool_pool \<Rightarrow> bool" where
  "pool_ok mx len c st waits pl \<longleftrightarrow> pool_inv mx len c st pl \<and> c \<le> st \<and> (waits \<longrightarrow> c < st \<longrightarrow> c \<in> set (pl_inFlight pl))"

lemma pool_ok_settle: "pool_ok mx len c st waits pl \<Longrightarrow> pool_ok mx len c st waits (settle_one pl x)"
  by (simp add: pool_ok_def pool_inv_settle)

lemma pool_ok_bound: "pool_ok mx len c st waits pl \<Longrightarrow> length (pl_inFlight pl) \<le> mx"
  unfolding pool_ok_def pool_inv_def by blast

interpretation pools: pool_law "pool_ok mx len c st waits" mx for mx len c st waits
  by unfold_locales (erule pool_ok_settle, erule pool_ok_bound)

interpretation starting: pool_law "pool_ok (mx - 1) len c st waits" mx for mx len c st waits
  by unfold_locales (erule pool_ok_settle, drule pool_ok_bound, simp)

lemma settled_grows: "i \<in> set (pl_settled pl) \<Longrightarrow> i \<in> set (pl_settled (settle_one pl x))"
  by (simp add: settle_one_def Let_def split: sum.split)

interpretation raced: pool_law "\<lambda>pl. pool_ok mx len c st waits pl \<and> i \<in> set (pl_settled pl)" mx for mx len c st waits i
  by unfold_locales (blast intro: pool_ok_settle settled_grows, blast dest: pool_ok_bound)

text \<open>A group is a segment of the calls of the step, from call \<open>b\<close> on; \<open>st\<close> of them are started.\<close>

definition part_of :: "tool_call list \<Rightarrow> nat \<Rightarrow> planned_call list \<Rightarrow> bool" where
  "part_of calls b grp \<longleftrightarrow> b + length grp \<le> length calls \<and> (\<forall>i<length grp. pn_call (grp ! i) = calls ! (b + i))"

definition group_ok :: "int list \<Rightarrow> nat \<Rightarrow> nat \<Rightarrow> nat \<Rightarrow> group_state \<Rightarrow> bool" where
  "group_ok qs b len st gs \<longleftrightarrow> gs_nextToStart gs = st \<and> gs_started gs = st \<and> st \<le> len \<and> length (gs_callSeqs gs) = len \<and>
     length qs = b + st \<and> (\<forall>i<st. gs_callSeqs gs ! i = qs ! (b + i))"

text \<open>Committing takes the results in the order of the calls and stops at the first that has none.\<close>

lemma triple_commit_ready:
  assumes part: "part_of calls b grp" and ok: "group_ok qs b (length grp) st gs" and cs: "cs = drop (gs_committed gs) grp"
  shows "triple (in_order mx base turn step calls)
    (kept base turn step calls qs (b + gs_committed gs) (pool_ok mx (length grp) (gs_committed gs) st False))
    (commit_ready env turn step cs gs)
    (\<lambda>gs' w. group_ok qs b (length grp) st gs' \<and>
       kept base turn step calls qs (b + gs_committed gs') (pool_ok mx (length grp) (gs_committed gs') st True) w)
    (in_order mx base turn step calls)"
  using ok cs
proof (induction cs arbitrary: gs)
  case Nil
  then have "length grp \<le> gs_committed gs" "st \<le> length grp" by (simp_all add: group_ok_def)
  with Nil(1) show ?case by (auto intro!: triple_pure simp: pooled_def pool_ok_def)
next
  case (Cons c cs)
  let ?O = "in_order mx base turn step calls" and ?c = "gs_committed gs"
  let ?K = "\<lambda>k c. kept base turn step calls qs k (pool_ok mx (length grp) c st False)"
  let ?Q = "\<lambda>gs' w. group_ok qs b (length grp) st gs' \<and>
    kept base turn step calls qs (b + gs_committed gs') (pool_ok mx (length grp) (gs_committed gs') st True) w"
  from Cons(3) have lt: "?c < length grp" by (metis drop_all list.distinct(1) not_le)
  with Cons(3) have c: "c = grp ! ?c" and cs: "cs = drop (Suc ?c) grp" by (simp_all add: Cons_nth_drop_Suc [symmetric])
  show ?case
    unfolding commit_ready.simps
  proof (rule triple_get_value)
    fix x
    show "triple ?O (\<lambda>w. ?K (b + ?c) ?c w \<and> pl_slots (aw_pool w) ! ?c = x)
      (case x of None \<Rightarrow> ret gs
       | Some slot \<Rightarrow> seq (final_result env slot) (\<lambda>r.
           seq (appendToolResult env turn step (pn_call c) r (gs_callSeqs gs ! ?c)) (\<lambda>_.
           seq (accept_contexts env (to_contexts r)) (\<lambda>_. commit_ready env turn step cs
             (gs\<lparr>gs_concluded := gs_concluded gs \<or> to_concludes r, gs_committed := ?c + 1\<rparr>))))) ?Q ?O"
    proof (cases x)
      case None
      with Cons(2) show ?thesis
        by (auto intro!: triple_pure simp: pooled_def pool_ok_def pool_inv_def)
    next
      case (Some slot)
      have rest: "triple ?O (?K (b + ?c) ?c) (seq (final_result env slot) (\<lambda>r.
           seq (appendToolResult env turn step (pn_call c) r (gs_callSeqs gs ! ?c)) (\<lambda>_.
           seq (accept_contexts env (to_contexts r)) (\<lambda>_. commit_ready env turn step cs
             (gs\<lparr>gs_concluded := gs_concluded gs \<or> to_concludes r, gs_committed := ?c + 1\<rparr>))))) ?Q ?O" if st: "?c < st"
      proof (rule triple_seq [OF pools.triple_quiet], rule keeps_rules, rule triple_seq)
        fix r
        from part Cons(2) lt st have "b + ?c < length qs" "pn_call c = calls ! (b + ?c)" "gs_callSeqs gs ! ?c = qs ! (b + ?c)"
          by (auto simp: part_of_def group_ok_def c)
        from pools.triple_appendToolResult [OF this]
        show "triple ?O (?K (b + ?c) ?c) (appendToolResult env turn step (pn_call c) r (gs_callSeqs gs ! ?c))
          (\<lambda>_. ?K (Suc (b + ?c)) (Suc ?c)) ?O"
          by (rule triple_conseq) (use st in \<open>auto simp: pooled_def pool_ok_def pool_inv_def\<close>)
        let ?gs = "gs\<lparr>gs_concluded := gs_concluded gs \<or> to_concludes r, gs_committed := ?c + 1\<rparr>"
        from Cons(2) have "group_ok qs b (length grp) st ?gs" by (simp add: group_ok_def)
        from Cons(1) [OF this] cs
        have "triple ?O (?K (Suc (b + ?c)) (Suc ?c)) (commit_ready env turn step cs ?gs) ?Q ?O" by simp
        then show "triple ?O (?K (Suc (b + ?c)) (Suc ?c)) (seq (accept_contexts env (to_contexts r))
          (\<lambda>_. commit_ready env turn step cs ?gs)) ?Q ?O"
          by (rule triple_seq [OF pools.triple_quiet, rotated]) (rule keeps_rules)
      qed
      show ?thesis
      proof (rule triple_pre [where b = "?c < st"])
        fix w assume "?K (b + ?c) ?c w \<and> pl_slots (aw_pool w) ! ?c = x"
        with Some lt show "?c < st" by (auto simp: pooled_def pool_ok_def pool_inv_def not_less)
      next
        assume "?c < st"
        from rest [OF this] Some show "triple ?O (\<lambda>w. ?K (b + ?c) ?c w \<and> pl_slots (aw_pool w) ! ?c = x)
          (case x of None \<Rightarrow> ret gs
           | Some slot \<Rightarrow> seq (final_result env slot) (\<lambda>r.
               seq (appendToolResult env turn step (pn_call c) r (gs_callSeqs gs ! ?c)) (\<lambda>_.
               seq (accept_contexts env (to_contexts r)) (\<lambda>_. commit_ready env turn step cs
                 (gs\<lparr>gs_concluded := gs_concluded gs \<or> to_concludes r, gs_committed := ?c + 1\<rparr>))))) ?Q ?O"
          by (auto intro: triple_conseq)
      qed
    qed
  qed
qed

text \<open>Between two operations of the scheduler.\<close>

definition group_at ::
  "nat \<Rightarrow> session_event list \<Rightarrow> int \<Rightarrow> int \<Rightarrow> tool_call list \<Rightarrow> nat \<Rightarrow> nat \<Rightarrow> bool \<Rightarrow> nat \<Rightarrow> group_state \<Rightarrow> agent_world \<Rightarrow> bool" where
  "group_at mx base turn step calls b len waits st gs w \<longleftrightarrow> (\<exists>qs. group_ok qs b len st gs \<and>
     kept base turn step calls qs (b + gs_committed gs) (pool_ok mx len (gs_committed gs) st waits) w)"

lemma group_in_order: "group_at mx base turn step calls b len waits st gs w \<Longrightarrow> in_order mx base turn step calls w"
  by (auto simp: group_at_def dest: pools.kept_in_order)

lemma keeps_group:
  "(\<And>qs k Pi. pool_law Pi mx \<Longrightarrow> keeps (kept base turn step calls qs k Pi) m) \<Longrightarrow>
   keeps (group_at mx base turn step calls b len waits st gs) m"
  unfolding group_at_def by (intro keeps_ex keeps_fact) (blast intro: pools.pool_law_axioms)

lemma group_tick: "keeps (group_at mx base turn step calls b len waits st gs) (next_tick env mo)"
  unfolding group_at_def by (intro keeps_ex keeps_fact keeps_rules)

lemma group_throw: "triple (in_order mx base turn step calls) (group_at mx base turn step calls b len waits st gs)
    throwSchedulerFailure (\<lambda>_. group_at mx base turn step calls b len waits st gs) (in_order mx base turn step calls)"
proof -
  have "keeps (group_at mx base turn step calls b len waits st gs) throwSchedulerFailure"
    unfolding group_at_def by (intro keeps_ex keeps_fact keeps_rules)
  from triple_keeps [OF this group_in_order] show ?thesis by (rule triple_conseq) (auto intro: group_in_order)
qed

lemma triple_fact: "(b \<Longrightarrow> triple C P m Q E) \<Longrightarrow> triple C (\<lambda>w. b \<and> P w) m Q E"
  by (cases b) (auto simp: triple_def)

lemma group_committed:
  assumes "part_of calls b grp"
  shows "triple (in_order mx base turn step calls) (group_at mx base turn step calls b (length grp) False st gs)
    (awaited env (commit_ready env turn step (drop (gs_committed gs) grp) gs))
    (\<lambda>gs'. group_at mx base turn step calls b (length grp) True st gs') (in_order mx base turn step calls)"
proof (rule triple_awaited_order)
  have "triple (in_order mx base turn step calls) (group_at mx base turn step calls b (length grp) False st gs)
      (commit_ready env turn step (drop (gs_committed gs) grp) gs)
      (\<lambda>gs' w. \<exists>qs. group_ok qs b (length grp) st gs' \<and>
         kept base turn step calls qs (b + gs_committed gs') (pool_ok mx (length grp) (gs_committed gs') st True) w)
      (in_order mx base turn step calls)"
    unfolding group_at_def
    by (intro triple_ex triple_fact, rule triple_conseq [OF triple_commit_ready [OF assms]]) auto
  then show "triple (in_order mx base turn step calls) (group_at mx base turn step calls b (length grp) False st gs)
      (commit_ready env turn step (drop (gs_committed gs) grp) gs)
      (\<lambda>gs'. group_at mx base turn step calls b (length grp) True st gs') (in_order mx base turn step calls)"
    by (simp add: group_at_def [abs_def])
qed (rule group_tick, erule group_in_order)

lemma pool_ok_started:
  assumes "pool_ok (mx - 1) len c st waits pl" "0 < mx" "st < len"
  shows "pool_ok mx len c (Suc st) False (pl\<lparr>pl_inFlight := pl_inFlight pl @ [st]\<rparr>)"
    "pool_ok mx len c (Suc st) False (pl\<lparr>pl_slots := (pl_slots pl)[st := Some y]\<rparr>)"
proof -
  from assms(1) have inv: "pool_inv (mx - 1) len c st pl" "c \<le> st" by (simp_all add: pool_ok_def)
  from inv(1) assms(2,3) show "pool_ok mx len c (Suc st) False (pl\<lparr>pl_inFlight := pl_inFlight pl @ [st]\<rparr>)"
    using inv(2) by (auto simp: pool_ok_def pool_inv_def less_Suc_eq)
  from inv(1) have "length (pl_slots pl) = len" by (simp add: pool_inv_def)
  with assms(3) have slot: "(pl_slots pl)[st := Some y] ! i = (if i = st then Some y else pl_slots pl ! i)" for i by simp
  from inv(1) assms(2,3) show "pool_ok mx len c (Suc st) False (pl\<lparr>pl_slots := (pl_slots pl)[st := Some y]\<rparr>)"
    using inv(2) unfolding pool_ok_def pool_inv_def by (simp add: slot less_Suc_eq) auto
qed

lemma pooled_set_pool: "pooled J F Sh Pi w \<Longrightarrow> Pi' pl \<Longrightarrow> pooled J F Sh Pi' (w\<lparr>aw_pool := pl\<rparr>)"
  by (simp add: pooled_def frame_def)

lemma triple_startCall:
  assumes part: "part_of calls b grp" and ok: "group_ok qs b (length grp) st gs" and st: "st < length grp" "c = grp ! st" and mx: "0 < mx"
  shows "triple (in_order mx base turn step calls)
    (kept base turn step calls qs (b + gs_committed gs) (pool_ok (mx - 1) (length grp) (gs_committed gs) st waits))
    (startCall env turn step c gs)
    (\<lambda>gs1. group_at mx base turn step calls b (length grp) False (Suc st) (gs1\<lparr>gs_nextToStart := gs_nextToStart gs1 + 1\<rparr>))
    (in_order mx base turn step calls)"
proof -
  let ?O = "in_order mx base turn step calls" and ?k = "b + gs_committed gs"
  let ?P = "pool_ok (mx - 1) (length grp) (gs_committed gs) st waits"
  let ?gs = "\<lambda>q. gs\<lparr>gs_callSeqs := (gs_callSeqs gs)[gs_nextToStart gs := q], gs_started := gs_started gs + 1\<rparr>"
  let ?Q = "\<lambda>gs1. group_at mx base turn step calls b (length grp) False (Suc st) (gs1\<lparr>gs_nextToStart := gs_nextToStart gs1 + 1\<rparr>)"
  from part ok st have call: "length qs < length calls" "pn_call c = calls ! length qs" by (simp_all add: part_of_def group_ok_def)
  have ok': "group_ok (qs @ [q]) b (length grp) (Suc st) ((?gs q)\<lparr>gs_nextToStart := gs_nextToStart (?gs q) + 1\<rparr>)" for q
    using ok st by (auto simp: group_ok_def nth_append less_Suc_eq)
  have i: "gs_nextToStart gs = st" using ok by (simp add: group_ok_def)
  have place: "triple ?O (kept base turn step calls (qs @ [q]) ?k ?P)
      (seq (case p of PrepareDispatch \<Rightarrow> add_inFlight (gs_nextToStart gs)
             | PreparePost r \<Rightarrow> set_slot (gs_nextToStart gs) (r, True)
             | PrepareFinal r \<Rightarrow> set_slot (gs_nextToStart gs) (r, False)) (\<lambda>_. ret (?gs q))) ?Q ?O" for q p
  proof (rule triple_seq [where R = "\<lambda>_. kept base turn step calls (qs @ [q]) ?k (pool_ok mx (length grp) (gs_committed gs) (Suc st) False)"])
    show "triple ?O (kept base turn step calls (qs @ [q]) ?k ?P)
      (case p of PrepareDispatch \<Rightarrow> add_inFlight (gs_nextToStart gs)
         | PreparePost r \<Rightarrow> set_slot (gs_nextToStart gs) (r, True) | PrepareFinal r \<Rightarrow> set_slot (gs_nextToStart gs) (r, False))
      (\<lambda>_. kept base turn step calls (qs @ [q]) ?k (pool_ok mx (length grp) (gs_committed gs) (Suc st) False)) ?O"
      using pool_ok_started [OF _ mx st(1)]
      by (cases p) (auto simp: i add_inFlight_def set_slot_def pooled_def frame_def intro!: triple_modify)
    show "triple ?O (kept base turn step calls (qs @ [q]) ?k (pool_ok mx (length grp) (gs_committed gs) (Suc st) False))
      (ret (?gs q)) ?Q ?O" for x :: unit
      using ok' [of q] unfolding group_at_def by (intro triple_pure exI [of _ "qs @ [q]"]) simp
  qed
  show ?thesis
    unfolding startCall_def Let_def
    by (rule triple_seq [OF starting.triple_appendToolCall [OF call]], rule triple_seq [OF starting.triple_quiet], rule keeps_rules,
        rule triple_seq [OF starting.triple_quiet], rule keeps_rules, rule place)
qed

lemma triple_fill_pool:
  assumes part: "part_of calls b grp" and mx: "mx = ae_maxParallel env" and cs: "cs = drop st grp"
  shows "triple (in_order mx base turn step calls) (group_at mx base turn step calls b (length grp) True st gs)
    (fill_pool env turn step grp parallel cs gs)
    (\<lambda>gs' w. \<exists>st'. group_at mx base turn step calls b (length grp) True st' gs' w) (in_order mx base turn step calls)"
  using cs
proof (induction cs arbitrary: st gs)
  case Nil
  show ?case by (auto intro!: triple_pure)
next
  case (Cons c cs)
  let ?O = "in_order mx base turn step calls" and ?G = "group_at mx base turn step calls b (length grp)"
  let ?Q = "\<lambda>gs' w. \<exists>st'. ?G True st' gs' w"
  from Cons(2) have lt: "st < length grp" by (metis drop_all list.distinct(1) not_le)
  with Cons(2) have c: "c = grp ! st" and cs: "cs = drop (Suc st) grp" by (simp_all add: Cons_nth_drop_Suc [symmetric])
  have start: "triple ?O (\<lambda>w. ?G True st gs w \<and> length (pl_inFlight (aw_pool w)) = x) (awaited env (startCall env turn step c gs))
      (\<lambda>gs1. ?G False (Suc st) (gs1\<lparr>gs_nextToStart := gs_nextToStart gs1 + 1\<rparr>)) ?O" if x: "x < mx" for x
  proof (rule triple_awaited_order)
    have "triple ?O (\<lambda>w. \<exists>qs. group_ok qs b (length grp) st gs \<and>
         kept base turn step calls qs (b + gs_committed gs) (pool_ok (mx - 1) (length grp) (gs_committed gs) st True) w)
      (startCall env turn step c gs) (\<lambda>gs1. ?G False (Suc st) (gs1\<lparr>gs_nextToStart := gs_nextToStart gs1 + 1\<rparr>)) ?O"
      by (intro triple_ex triple_fact, rule triple_startCall [OF part _ lt c]) (use x in auto)
    then show "triple ?O (\<lambda>w. ?G True st gs w \<and> length (pl_inFlight (aw_pool w)) = x) (startCall env turn step c gs)
      (\<lambda>gs1. ?G False (Suc st) (gs1\<lparr>gs_nextToStart := gs_nextToStart gs1 + 1\<rparr>)) ?O"
      by (rule triple_conseq) (use x in \<open>auto simp: group_at_def pooled_def pool_ok_def pool_inv_def\<close>)
  qed (rule group_tick, erule group_in_order)
  have next_round: "triple ?O (?G True (Suc st) gs3) (seq throwSchedulerFailure (\<lambda>_. seq (get_world is_aborted) (\<lambda>ab.
      fill_pool env turn step grp parallel cs (gs3\<lparr>gs_aborted := gs_aborted gs3 \<or> ab\<rparr>)))) ?Q ?O" for gs3
  proof (rule triple_seq [OF group_throw], rule triple_get)
    fix ab
    show "triple ?O (?G True (Suc st) gs3) (fill_pool env turn step grp parallel cs (gs3\<lparr>gs_aborted := gs_aborted gs3 \<or> ab\<rparr>)) ?Q ?O"
      by (rule triple_conseq [OF Cons(1) [OF cs, of "gs3\<lparr>gs_aborted := gs_aborted gs3 \<or> ab\<rparr>"]])
        (auto simp: group_at_def group_ok_def)
  qed
  have stop: "triple ?O (\<lambda>w. ?G True st gs w \<and> length (pl_inFlight (aw_pool w)) = x) (ret gs) ?Q ?O" for x
    by (auto intro!: triple_pure)
  show ?case
    unfolding fill_pool.simps executionMode_def
  proof (rule triple_get_value, intro triple_if triple_get stop)
    fix x mode
    assume "\<not> (gs_aborted gs \<or> \<not> x < ae_maxParallel env)"
    with mx have "x < mx" by simp
    from start [OF this]
    show "triple ?O (\<lambda>w. ?G True st gs w \<and> length (pl_inFlight (aw_pool w)) = x)
      (seq (awaited env (startCall env turn step c gs)) (\<lambda>gs1.
         let gs2 = gs1\<lparr>gs_nextToStart := gs_nextToStart gs1 + 1\<rparr> in
         seq throwSchedulerFailure (\<lambda>_.
         seq (awaited env (commit_ready env turn step (drop (gs_committed gs2) grp) gs2)) (\<lambda>gs3.
         seq throwSchedulerFailure (\<lambda>_. seq (get_world is_aborted) (\<lambda>ab.
           fill_pool env turn step grp parallel cs (gs3\<lparr>gs_aborted := gs_aborted gs3 \<or> ab\<rparr>))))))) ?Q ?O"
      unfolding Let_def
      by (rule triple_seq) (rule triple_seq [OF group_throw], rule triple_seq [OF group_committed [OF part]], rule next_round)
  qed
qed

text \<open>The race yields a call whose dispatch has settled.\<close>

lemma triple_race_pending:
  "triple (in_order mx base turn step calls) (kept base turn step calls qs k (pool_ok mx len c st waits)) (race_pending env n)
     (\<lambda>i. kept base turn step calls qs k (\<lambda>pl. pool_ok mx len c st waits pl \<and> i \<in> set (pl_settled pl)))
     (in_order mx base turn step calls)"
proof (induction n)
  case 0
  show ?case by (subst race_pending.simps) (rule triple_pure, erule pools.kept_in_order)
next
  case (Suc n)
  have "triple (in_order mx base turn step calls)
      (\<lambda>w. kept base turn step calls qs k (pool_ok mx len c st waits) w \<and> pl_settled (aw_pool w) = settled)
      (case settled of [] \<Rightarrow> race_pending env n | i # _ \<Rightarrow> ret i)
      (\<lambda>i. kept base turn step calls qs k (\<lambda>pl. pool_ok mx len c st waits pl \<and> i \<in> set (pl_settled pl)))
      (in_order mx base turn step calls)" for settled
  proof (cases settled)
    case Nil
    then show ?thesis by simp (rule triple_conseq [OF Suc], auto)
  qed (auto intro!: triple_pure simp: pooled_def)
  then show ?case
    by (subst race_pending.simps) (rule triple_seq [OF pools.triple_quiet], rule keeps_rules, rule triple_get_value)
qed

lemma triple_with_fuel: "(\<And>n. triple C P (f n) Q E) \<Longrightarrow> triple C P (with_fuel f) Q E"
  by (simp add: triple_def with_fuel_def)

lemma triple_race:
  "triple (in_order mx base turn step calls) (kept base turn step calls qs k (pool_ok mx len c st waits)) (race env)
     (\<lambda>i. kept base turn step calls qs k (\<lambda>pl. pool_ok mx len c st waits pl \<and> i \<in> set (pl_settled pl)))
     (in_order mx base turn step calls)"
  unfolding race_def
proof (rule triple_get_value)
  fix x
  show "triple (in_order mx base turn step calls)
      (\<lambda>w. kept base turn step calls qs k (pool_ok mx len c st waits) w \<and>
         List.find (\<lambda>i. i \<in> set (pl_settled (aw_pool w))) (pl_inFlight (aw_pool w)) = x)
      (case x of None \<Rightarrow> with_fuel (race_pending env) | Some i \<Rightarrow> seq (next_tick env AtAwait) (\<lambda>_. ret i))
      (\<lambda>i. kept base turn step calls qs k (\<lambda>pl. pool_ok mx len c st waits pl \<and> i \<in> set (pl_settled pl)))
      (in_order mx base turn step calls)"
  proof (cases x)
    case None
    then show ?thesis by simp (rule triple_conseq [OF triple_with_fuel [OF triple_race_pending]], auto)
  next
    case (Some i)
    have "triple (in_order mx base turn step calls)
        (kept base turn step calls qs k (\<lambda>pl. pool_ok mx len c st waits pl \<and> i \<in> set (pl_settled pl)))
        (seq (next_tick env AtAwait) (\<lambda>_. ret i))
        (\<lambda>i. kept base turn step calls qs k (\<lambda>pl. pool_ok mx len c st waits pl \<and> i \<in> set (pl_settled pl)))
        (in_order mx base turn step calls)"
      by (rule triple_seq [OF raced.triple_quiet], rule keeps_rules, rule triple_pure)
    then show ?thesis
      unfolding Some option.case by (rule triple_conseq) (auto simp: pooled_def find_Some_iff)
  qed
qed

text \<open>Taking a settled call out of flight either reports the failure of the group or leaves its result in the pool.\<close>

lemma triple_take_settled:
  "triple (in_order mx base turn step calls)
     (kept base turn step calls qs k (\<lambda>pl. pool_ok mx len c st waits pl \<and> i \<in> set (pl_settled pl)))
     (seq (delete_inFlight i) (\<lambda>_. throwSchedulerFailure))
     (\<lambda>_. kept base turn step calls qs k (pool_ok mx len c st False)) (in_order mx base turn step calls)"
  unfolding triple_def
proof (intro allI impI)
  fix w :: agent_world
  let ?P = "kept base turn step calls qs k (\<lambda>pl. pool_ok mx len c st waits pl \<and> i \<in> set (pl_settled pl))"
  let ?pl = "(aw_pool w)\<lparr>pl_inFlight := filter (\<lambda>j. j \<noteq> i) (pl_inFlight (aw_pool w)),
    pl_settled := filter (\<lambda>j. j \<noteq> i) (pl_settled (aw_pool w))\<rparr>"
  assume w: "?P w"
  then have inv: "pool_ok mx len c st waits (aw_pool w)" "i \<in> set (pl_settled (aw_pool w))" by (simp_all add: pooled_def)
  have "length (pl_inFlight ?pl) \<le> mx"
    using pool_ok_bound [OF inv(1)] by (simp add: filter_bound)
  with w have "in_order mx base turn step calls (w\<lparr>aw_pool := ?pl\<rparr>)"
    unfolding in_order_def by (blast intro: pooled_set_pool)
  moreover have "kept base turn step calls qs k (pool_ok mx len c st False) (w\<lparr>aw_pool := ?pl\<rparr>)" if "pl_failure (aw_pool w) = None"
    using w pool_inv_delete [OF _ inv(2) that] inv(1) by (intro pooled_set_pool) (simp_all add: pool_ok_def)
  ultimately show "case seq (delete_inFlight i) (\<lambda>_. throwSchedulerFailure) w of
      (w', Ret x) \<Rightarrow> kept base turn step calls qs k (pool_ok mx len c st False) w' | (w', Throw e) \<Rightarrow> in_order mx base turn step calls w'
    | (w', Suspended) \<Rightarrow> in_order mx base turn step calls w' | (w', Spinning) \<Rightarrow> in_order mx base turn step calls w'"
    by (auto simp: delete_inFlight_def throwSchedulerFailure_def monad_defs split: option.split)
qed

lemma group_raced:
  "triple (in_order mx base turn step calls) (group_at mx base turn step calls b len True st gs)
     (seq (race env) (\<lambda>i. seq (delete_inFlight i) (\<lambda>_. throwSchedulerFailure)))
     (\<lambda>_. group_at mx base turn step calls b len False st gs) (in_order mx base turn step calls)"
  unfolding group_at_def
  by (intro triple_ex triple_fact, rule triple_conseq [OF triple_seq [OF triple_race triple_take_settled]]) auto

lemma triple_drain_pool:
  assumes part: "part_of calls b grp" and mx: "mx = ae_maxParallel env"
  shows "triple (in_order mx base turn step calls) (group_at mx base turn step calls b (length grp) True st gs)
    (drain_pool env turn step grp parallel n gs)
    (\<lambda>gs' w. \<exists>st'. group_at mx base turn step calls b (length grp) True st' gs' w \<and> pl_inFlight (aw_pool w) = [])
    (in_order mx base turn step calls)"
proof (induction n arbitrary: st gs)
  case 0
  show ?case by (subst drain_pool.simps) (rule triple_pure, erule group_in_order)
next
  case (Suc n)
  let ?O = "in_order mx base turn step calls" and ?G = "group_at mx base turn step calls b (length grp)"
  let ?Q = "\<lambda>gs' w. \<exists>st'. ?G True st' gs' w \<and> pl_inFlight (aw_pool w) = []"
  have again: "triple ?O (?G True st gs1) (seq (awaited env (fill_pool env turn step grp parallel (drop (gs_nextToStart gs1) grp)
      (gs1\<lparr>gs_aborted := gs_aborted gs1 \<or> ab\<rparr>))) (\<lambda>gs2. drain_pool env turn step grp parallel n gs2)) ?Q ?O" for st gs1 ab
  proof (rule triple_pre [where b = "gs_nextToStart gs1 = st"])
    assume next_call: "gs_nextToStart gs1 = st"
    let ?gs = "gs1\<lparr>gs_aborted := gs_aborted gs1 \<or> ab\<rparr>"
    have "triple ?O (?G True st ?gs) (awaited env (fill_pool env turn step grp parallel (drop st grp) ?gs))
        (\<lambda>gs' w. \<exists>st'. ?G True st' gs' w) ?O"
      by (rule triple_awaited_order [OF triple_fill_pool [OF part mx refl]], intro keeps_ex group_tick) (auto dest: group_in_order)
    then have "triple ?O (?G True st gs1) (awaited env (fill_pool env turn step grp parallel (drop st grp) ?gs))
        (\<lambda>gs' w. \<exists>st'. ?G True st' gs' w) ?O"
      by (rule triple_conseq) (auto simp: group_at_def group_ok_def)
    then show "triple ?O (?G True st gs1) (seq (awaited env (fill_pool env turn step grp parallel (drop (gs_nextToStart gs1) grp) ?gs))
        (\<lambda>gs2. drain_pool env turn step grp parallel n gs2)) ?Q ?O"
      unfolding next_call by (rule triple_seq) (intro triple_ex Suc)
  qed (auto simp: group_at_def group_ok_def)
  have round: "triple ?O (?G True st gs) (seq (seq (race env) (\<lambda>i. seq (delete_inFlight i) (\<lambda>_. throwSchedulerFailure))) (\<lambda>_.
      seq (awaited env (commit_ready env turn step (drop (gs_committed gs) grp) gs)) (\<lambda>gs1.
      seq throwSchedulerFailure (\<lambda>_. seq (get_world is_aborted) (\<lambda>ab.
      seq (awaited env (fill_pool env turn step grp parallel (drop (gs_nextToStart gs1) grp)
        (gs1\<lparr>gs_aborted := gs_aborted gs1 \<or> ab\<rparr>))) (\<lambda>gs2. drain_pool env turn step grp parallel n gs2)))))) ?Q ?O"
    by (rule triple_seq [OF group_raced], rule triple_seq [OF group_committed [OF part]], rule triple_seq [OF group_throw],
        rule triple_get, rule again)
  show ?case
  proof (subst drain_pool.simps, rule triple_get_value, rule triple_if)
    fix x :: nat
    assume "x = 0"
    then show "triple ?O (\<lambda>w. ?G True st gs w \<and> length (pl_inFlight (aw_pool w)) = x) (ret gs) ?Q ?O"
      by (auto intro!: triple_pure)
  next
    fix x :: nat
    assume "x \<noteq> 0"
    from round [unfolded seq_assoc]
    show "triple ?O (\<lambda>w. ?G True st gs w \<and> length (pl_inFlight (aw_pool w)) = x)
      (seq (race env) (\<lambda>i. seq (delete_inFlight i) (\<lambda>_. seq throwSchedulerFailure (\<lambda>_.
       seq (awaited env (commit_ready env turn step (drop (gs_committed gs) grp) gs)) (\<lambda>gs1.
       seq throwSchedulerFailure (\<lambda>_. seq (get_world is_aborted) (\<lambda>ab.
       seq (awaited env (fill_pool env turn step grp parallel (drop (gs_nextToStart gs1) grp)
         (gs1\<lparr>gs_aborted := gs_aborted gs1 \<or> ab\<rparr>))) (\<lambda>gs2. drain_pool env turn step grp parallel n gs2)))))))) ?Q ?O"
      by (rule triple_conseq) auto
  qed
qed

section \<open>All groups\<close>

text \<open>Between two groups, the first \<open>j\<close> calls of the step are started and answered.\<close>

definition answered_upto :: "nat \<Rightarrow> session_event list \<Rightarrow> int \<Rightarrow> int \<Rightarrow> tool_call list \<Rightarrow> nat \<Rightarrow> agent_world \<Rightarrow> bool" where
  "answered_upto mx base turn step calls j w \<longleftrightarrow>
     (\<exists>qs. length qs = j \<and> kept base turn step calls qs j (\<lambda>pl. length (pl_inFlight pl) \<le> mx) w)"

lemma answered_in_order: "answered_upto mx base turn step calls j w \<Longrightarrow> in_order mx base turn step calls w"
  by (auto simp: answered_upto_def in_order_def)

lemma answered_tick: "keeps (answered_upto mx base turn step calls j) (next_tick env mo)"
  unfolding answered_upto_def by (intro keeps_ex keeps_fact bounded.working.pooled_tick)

lemma part_of_drop: "part_of calls b grp \<Longrightarrow> n \<le> length grp \<Longrightarrow> part_of calls (b + n) (drop n grp)"
  by (simp add: part_of_def add.assoc)

lemma triple_appendSkipped:
  assumes "j < length calls" "c = calls ! j"
  shows "triple (in_order mx base turn step calls) (answered_upto mx base turn step calls j)
    (appendSkippedToolCall env turn step c) (\<lambda>_. answered_upto mx base turn step calls (Suc j)) (in_order mx base turn step calls)"
proof -
  have "triple (in_order mx base turn step calls) (kept base turn step calls qs j (\<lambda>pl. length (pl_inFlight pl) \<le> mx))
      (appendSkippedToolCall env turn step c) (\<lambda>_. answered_upto mx base turn step calls (Suc j)) (in_order mx base turn step calls)"
    if qs: "length qs = j" for qs
    unfolding appendSkippedToolCall_def
  proof (rule triple_seq [OF bounded.triple_appendToolCall])
    fix q
    have k: "j < length (qs @ [q])" "q = (qs @ [q]) ! j" by (simp_all add: qs [symmetric])
    show "triple (in_order mx base turn step calls) (kept base turn step calls (qs @ [q]) j (\<lambda>pl. length (pl_inFlight pl) \<le> mx))
      (appendToolResult env turn step c skipped_outcome q) (\<lambda>_. answered_upto mx base turn step calls (Suc j))
      (in_order mx base turn step calls)"
      by (rule triple_conseq [OF bounded.triple_appendToolResult [OF k(1) assms(2) k(2)]])
        (use qs in \<open>auto simp: answered_upto_def intro!: exI [of _ "qs @ [q]"]\<close>)
  qed (use assms qs in simp_all)
  then show ?thesis unfolding answered_upto_def by (intro triple_ex triple_fact)
qed

lemma triple_skip_calls:
  "part_of calls j cs \<Longrightarrow>
   triple (in_order mx base turn step calls) (answered_upto mx base turn step calls j) (skip_calls env turn step cs)
     (\<lambda>_. answered_upto mx base turn step calls (j + length cs)) (in_order mx base turn step calls)"
proof (induction cs arbitrary: j)
  case Nil
  show ?case by (auto intro: triple_pure)
next
  case (Cons c cs)
  from Cons(2) have "j < length calls" "pn_call c = calls ! j" by (auto simp: part_of_def)
  moreover from part_of_drop [OF Cons(2), of 1] have "part_of calls (Suc j) cs" by simp
  ultimately show ?case using Cons(1) [of "Suc j"] by (auto intro: triple_seq [OF triple_appendSkipped])
qed

lemma order_fail_group:
  "triple (in_order mx base turn step calls) (in_order mx base turn step calls) (fail_group env e) Q (in_order mx base turn step calls)"
proof -
  have all: "keeps (in_order mx base turn step calls) (all_settled env n)" for n
    unfolding in_order_def by (intro keeps_ex bounded.working.pooled_all_settled)
  have recorded: "triple (in_order mx base turn step calls) (in_order mx base turn step calls) (record_failure e)
      (\<lambda>_. in_order mx base turn step calls) (in_order mx base turn step calls)"
    unfolding record_failure_def in_order_def by (rule triple_modify) (auto simp: pooled_def frame_def)
  show ?thesis
    unfolding fail_group_def
    by (rule triple_seq [OF recorded], rule triple_seq [OF triple_with_fuel [OF triple_keeps [OF all]]], assumption,
        rule triple_get, rule triple_pure)
qed

lemma triple_either:
  "(\<And>e. triple C (P e) (f e) Q E) \<Longrightarrow> (\<And>x. triple C (P' x) (g x) Q E) \<Longrightarrow>
   triple C (\<lambda>w. case r of Inl e \<Rightarrow> P e w | Inr x \<Rightarrow> P' x w) (case r of Inl e \<Rightarrow> f e | Inr x \<Rightarrow> g x) Q E"
  by (cases r) simp_all

lemma triple_runGroup:
  assumes part: "part_of calls b grp" and mx: "mx = ae_maxParallel env"
  shows "triple (in_order mx base turn step calls) (answered_upto mx base turn step calls b) (runGroup env turn step grp parallel)
    (\<lambda>r w. go_consumed r \<le> length grp \<and> answered_upto mx base turn step calls (b + go_consumed r) w)
    (in_order mx base turn step calls)"
proof -
  let ?O = "in_order mx base turn step calls" and ?G = "group_at mx base turn step calls b (length grp) True"
  let ?Q = "\<lambda>r w. go_consumed r \<le> length grp \<and> answered_upto mx base turn step calls (b + go_consumed r) w"
  have reset: "triple ?O (answered_upto mx base turn step calls b)
      (modify (\<lambda>w. w\<lparr>aw_pool := \<lparr>pl_slots = map (\<lambda>_. None) grp, pl_inFlight = [], pl_settled = [], pl_failure = None\<rparr>\<rparr>))
      (\<lambda>_ w. \<forall>ab. ?G 0 (new_group grp ab) w) ?O"
  proof (rule triple_modify, intro allI)
    fix w :: agent_world and ab
    assume "answered_upto mx base turn step calls b w"
    then obtain qs where qs: "length qs = b" "kept base turn step calls qs b (\<lambda>pl. length (pl_inFlight pl) \<le> mx) w"
      by (auto simp: answered_upto_def)
    let ?pl = "\<lparr>pl_slots = map (\<lambda>_. None) grp, pl_inFlight = [], pl_settled = [], pl_failure = None\<rparr>"
    have "pool_ok mx (length grp) 0 0 True ?pl" by (simp add: pool_ok_def pool_inv_def)
    from pooled_set_pool [OF qs(2), where Pi' = "pool_ok mx (length grp) 0 0 True", OF this] qs(1)
    show "?G 0 (new_group grp ab) (w\<lparr>aw_pool := ?pl\<rparr>)" by (auto simp: group_at_def group_ok_def new_group_def)
  qed
  have pool: "triple ?O (?G 0 (new_group grp ab)) (seq (awaited env (fill_pool env turn step grp parallel grp (new_group grp ab))) (\<lambda>gs.
      with_fuel (\<lambda>n. drain_pool env turn step grp parallel n gs)))
      (\<lambda>gs w. \<exists>st. ?G st gs w \<and> pl_inFlight (aw_pool w) = []) ?O" for ab
  proof (rule triple_seq)
    have "grp = drop 0 grp" by simp
    show "triple ?O (?G 0 (new_group grp ab)) (awaited env (fill_pool env turn step grp parallel grp (new_group grp ab)))
      (\<lambda>gs w. \<exists>st. ?G st gs w) ?O"
      by (rule triple_awaited_order [OF triple_fill_pool [OF part mx \<open>grp = drop 0 grp\<close>]], intro keeps_ex group_tick)
        (auto dest: group_in_order)
    show "triple ?O (\<lambda>w. \<exists>st. ?G st gs w) (with_fuel (\<lambda>n. drain_pool env turn step grp parallel n gs))
      (\<lambda>gs w. \<exists>st. ?G st gs w \<and> pl_inFlight (aw_pool w) = []) ?O" for gs
      by (intro triple_ex triple_with_fuel triple_drain_pool [OF part mx])
  qed
  have drained: "gs_started gs \<le> length grp \<and> answered_upto mx base turn step calls (b + gs_started gs) w"
    if "?G st gs w" "pl_inFlight (aw_pool w) = []" for st gs w
    using that by (auto simp: group_at_def group_ok_def pool_ok_def pooled_def answered_upto_def)
  have finish: "triple ?O (\<lambda>w. \<exists>st. ?G st gs w \<and> pl_inFlight (aw_pool w) = [])
      (if gs_aborted gs then seq (skip_calls env turn step (drop (gs_started gs) grp)) (\<lambda>_.
         ret \<lparr>go_consumed = length grp, go_aborted = True, go_concluded = gs_concluded gs\<rparr>)
       else if gs_committed gs \<noteq> gs_started gs then throw (ExThrown ''tool-call scheduler: uncommitted settled calls'')
       else ret \<lparr>go_consumed = gs_started gs, go_aborted = False, go_concluded = gs_concluded gs\<rparr>) ?Q ?O" for gs
  proof (rule triple_conseq)
    let ?P = "\<lambda>w. gs_started gs \<le> length grp \<and> answered_upto mx base turn step calls (b + gs_started gs) w"
    show "triple ?O ?P
      (if gs_aborted gs then seq (skip_calls env turn step (drop (gs_started gs) grp)) (\<lambda>_.
         ret \<lparr>go_consumed = length grp, go_aborted = True, go_concluded = gs_concluded gs\<rparr>)
       else if gs_committed gs \<noteq> gs_started gs then throw (ExThrown ''tool-call scheduler: uncommitted settled calls'')
       else ret \<lparr>go_consumed = gs_started gs, go_aborted = False, go_concluded = gs_concluded gs\<rparr>) ?Q ?O"
    proof (intro triple_fact triple_if)
      assume le: "gs_started gs \<le> length grp"
      then have len: "b + gs_started gs + length (drop (gs_started gs) grp) = b + length grp" by simp
      from triple_skip_calls [OF part_of_drop [OF part le]] show "triple ?O (answered_upto mx base turn step calls (b + gs_started gs))
        (seq (skip_calls env turn step (drop (gs_started gs) grp)) (\<lambda>_.
           ret \<lparr>go_consumed = length grp, go_aborted = True, go_concluded = gs_concluded gs\<rparr>)) ?Q ?O"
        unfolding len by (rule triple_seq) (rule triple_pure, simp)
    qed (auto intro: triple_pure dest: answered_in_order)
  qed (auto dest: drained)
  show ?thesis
    unfolding runGroup_def
  proof (rule triple_seq [OF reset], rule triple_get, rule triple_seq)
    fix ab
    show "triple ?O (\<lambda>w. \<forall>ab. ?G 0 (new_group grp ab) w)
      (attempt (seq (awaited env (fill_pool env turn step grp parallel grp (new_group grp ab))) (\<lambda>gs.
         with_fuel (\<lambda>n. drain_pool env turn step grp parallel n gs))))
      (\<lambda>r w. case r of Inl e \<Rightarrow> ?O w | Inr gs \<Rightarrow> \<exists>st. ?G st gs w \<and> pl_inFlight (aw_pool w) = []) ?O"
      by (rule triple_conseq [OF triple_attempt [OF pool [of ab]]]) auto
  qed (rule triple_either, rule order_fail_group, rule finish)
qed

lemma triple_run_groups:
  assumes mx: "mx = ae_maxParallel env"
  shows "part_of calls b rest \<Longrightarrow> b + length rest = length calls \<Longrightarrow>
    triple (in_order mx base turn step calls) (answered_upto mx base turn step calls b)
      (run_groups env turn step n rest concluded)
      (\<lambda>_. answered_upto mx base turn step calls (length calls)) (in_order mx base turn step calls)"
proof (induction n arbitrary: b rest concluded)
  case 0
  show ?case by (subst run_groups.simps) (rule triple_pure, erule answered_in_order)
next
  case (Suc n)
  let ?O = "in_order mx base turn step calls" and ?A = "answered_upto mx base turn step calls"
  show ?case
  proof (cases rest)
    case Nil
    with Suc(3) show ?thesis by (subst run_groups.simps) (auto intro: triple_pure)
  next
    case (Cons first tail)
    have part: "part_of calls b (if parallel then rest else [first])" for parallel
      using Suc(2) Cons by (auto simp: part_of_def)
    have grp: "triple ?O (?A b) (awaited env (runGroup env turn step (if parallel then rest else [first]) parallel))
        (\<lambda>r w. go_consumed r \<le> length rest \<and> ?A (b + go_consumed r) w) ?O" for parallel
      by (rule triple_awaited_order [OF triple_conseq [OF triple_runGroup [OF part mx]]])
        (use Cons in \<open>auto intro: keeps_fact answered_tick dest: answered_in_order split: if_splits\<close>)
    have go: "triple ?O (\<lambda>w. go_consumed r \<le> length rest \<and> ?A (b + go_consumed r) w)
        (if go_aborted r then seq (skip_calls env turn step (drop (go_consumed r) rest)) (\<lambda>_. ret c)
         else run_groups env turn step n (drop (go_consumed r) rest) c) (\<lambda>_. ?A (length calls)) ?O" for r c
    proof (intro triple_fact triple_if)
      assume le: "go_consumed r \<le> length rest"
      note part' = part_of_drop [OF Suc(2) le]
      from le Suc(3) have len: "b + go_consumed r + length (drop (go_consumed r) rest) = length calls" by simp
      from Suc(1) [OF part' len] show "triple ?O (?A (b + go_consumed r)) (run_groups env turn step n (drop (go_consumed r) rest) c)
        (\<lambda>_. ?A (length calls)) ?O" .
      from triple_skip_calls [OF part'] show "triple ?O (?A (b + go_consumed r))
        (seq (skip_calls env turn step (drop (go_consumed r) rest)) (\<lambda>_. ret c)) (\<lambda>_. ?A (length calls)) ?O"
        unfolding len by (rule triple_seq) (rule triple_pure)
    qed
    show ?thesis
      unfolding run_groups.simps Cons list.case executionMode_def Let_def
      by (rule triple_get, rule triple_seq [OF grp [unfolded Cons]], rule go [unfolded Cons])
  qed
qed

section \<open>Claims\<close>

text \<open>
  C24. Tool calls run together but are written in the order of the model. Whatever settles when, whatever
  is cancelled, reclassified or fails, and wherever the run is cut: the call events of a step are those of
  its first calls, in the order the model made them and each once; the result events answer the first of
  these, in the same order, each citing the event of its own call; and never more than the configured
  number of dispatches is in flight. A run that returns, cancelled or not, has written and answered every
  call.
\<close>

theorem tool_calls_in_model_order:
  assumes foreign: "list_all (tick_ok tool_free) (aw_script w)"
    and start: "length (pl_inFlight (aw_pool w)) \<le> ae_maxParallel env"
    and run: "executeToolCalls env turn step calls w = (w', r)"
  shows "\<exists>new qs k. aw_log w' = aw_log w @ new \<and> k \<le> length qs \<and> length qs \<le> length calls \<and>
    called new = map2 (call_entry turn step) (take (length qs) calls) qs \<and>
    answered new = map2 (result_entry turn step) (take k calls) (take k qs) \<and>
    length (pl_inFlight (aw_pool w')) \<le> ae_maxParallel env \<and>
    ((\<exists>concluded. r = Ret concluded) \<longrightarrow> k = length calls)"
proof -
  let ?O = "in_order (ae_maxParallel env) (aw_log w) turn step calls"
  let ?A = "answered_upto (ae_maxParallel env) (aw_log w) turn step calls"
  have part: "part_of calls 0 (map (plan_call env) calls)" by (simp add: part_of_def plan_call_def)
  have "triple ?O (?A 0) (executeToolCalls env turn step calls) (\<lambda>_. ?A (length calls)) ?O"
    unfolding executeToolCalls_def by (rule triple_with_fuel, rule triple_run_groups [OF refl part]) simp
  moreover have "?A 0 w"
    using foreign start by (simp add: answered_upto_def pooled_def frame_def ledger_def aw_log_def)
  ultimately have out: "case r of Ret x \<Rightarrow> ?A (length calls) w' | _ \<Rightarrow> ?O w'"
    using run unfolding triple_def by (metis (mono_tags, lifting) case_prod_conv outcome.exhaust outcome.simps)
  show ?thesis
  proof (cases "\<exists>x. r = Ret x")
    case True
    with out obtain qs new where "length qs = length calls" "aw_log w' = aw_log w @ new"
      "called new = map2 (call_entry turn step) calls qs" "answered new = map2 (result_entry turn step) calls qs"
      "length (pl_inFlight (aw_pool w')) \<le> ae_maxParallel env"
      by (auto simp: answered_upto_def pooled_def frame_def ledger_def aw_log_def)
    then show ?thesis by (intro exI [of _ new] exI [of _ qs] exI [of _ "length calls"]) simp
  next
    case False
    with out have "?O w'" by (cases r) auto
    with False show ?thesis by (auto simp: in_order_def pooled_def frame_def ledger_def aw_log_def)
  qed
qed

text \<open>Two parallel calls, of which the second settles first.\<close>

definition sample_calls :: "tool_call list" where
  "sample_calls = [\<lparr>tc_id = ''a'', tc_name = ''t'', tc_arguments = []\<rparr>, \<lparr>tc_id = ''b'', tc_name = ''t'', tc_arguments = []\<rparr>]"

definition settling :: "(nat \<times> (agent_exn + tool_outcome \<times> bool)) list \<Rightarrow> tick" where
  "settling ss = (sample_tick None)\<lparr>tk_settles := ss\<rparr>"

definition order_script :: "tick list" where
  "order_script = replicate 9 (settling []) @ [settling [(1, Inr (sample_outcome, False))]]
     @ replicate 6 (settling []) @ [settling [(0, Inr (sample_outcome, True))]] @ replicate 20 (settling [])"

definition order_run :: "agent_world \<times> bool outcome" where
  "order_run = executeToolCalls sample_env 1 1 sample_calls (sample_world_of step_session order_script)"

lemma order_run_returns: "case snd order_run of Ret c \<Rightarrow> c | _ \<Rightarrow> False"
  by code_simp

theorem tool_calls_in_model_order_witness:
  "map (\<lambda>(q, t, s, i, n, a). i) (called (drop 2 (aw_log (fst order_run)))) = [''a'', ''b''] \<and>
   map (\<lambda>(t, s, i, c). i) (answered (drop 2 (aw_log (fst order_run)))) = [Some ''a'', Some ''b'']"
proof -
  let ?w = "sample_world_of step_session order_script"
  have w: "list_all (tick_ok tool_free) (aw_script ?w)" "length (pl_inFlight (aw_pool ?w)) \<le> ae_maxParallel sample_env"
    by (auto simp: sample_world_of_def order_script_def settling_def sample_tick_def tick_ok_def list_all_iff)
  obtain w' x where run: "executeToolCalls sample_env 1 1 sample_calls ?w = (w', x)" by fastforce
  with order_run_returns obtain c where x: "x = Ret c" by (cases x) (auto simp: order_run_def)
  have log: "length (aw_log ?w) = 2" by code_simp
  from tool_calls_in_model_order [OF w run] x obtain new qs where n: "aw_log w' = aw_log ?w @ new"
    "length qs = length sample_calls"
    "called new = map2 (call_entry 1 1) sample_calls qs" "answered new = map2 (result_entry 1 1) sample_calls qs"
    by auto
  from n(2) obtain q1 q2 where "qs = [q1, q2]" by (auto simp: sample_calls_def length_Suc_conv)
  with n log run show ?thesis by (simp add: order_run_def sample_calls_def call_entry_def result_entry_def)
qed

end
