(* ===== verification/Spec2Isabelle.thy ===== *)
theory Spec2Isabelle
  imports Surface Session_Trace Repair Session_Log Inbox Block_Assembler Chunk_Rows Tool_Pairing Compaction_Trace Compaction_Txn Goal_Service Team_Board Session_Fork
    Schedule_Runtime Schedule_Projection Agent_Safety Agent_Request Agent_Order "HOL-Library.Sublist"
begin

text \<open>
  A verification of the event-sourced core of the agent harness (\<open>src/packages\<close>).

  \<^bold>\<open>The program.\<close> A session is an append-only log of typed events. Everything else is a projection of that
  log: the model-visible surface (which events the model sees, after replacements), the derived messages
  and request headers, the turn and step structure, the agent's inbox, the compaction bracket, the goal,
  the team and the reminders. Components keep incremental caches of their projection, validate a candidate event before
  it is appended, and rebuild their state by replay after a crash. Correctness is therefore mostly of one
  kind: the cache equals the replay, what a component writes is accepted by the replay, and a rejected
  operation changes nothing.

  \<^bold>\<open>Conventions.\<close> A function that may throw returns \<open>'e + 'a\<close>, with one error constructor per throw site
  or per stable code; stateful classes are records passed explicitly; a \<open>Map\<close> whose order is observable is
  an association list updated in place (\<open>AList.update\<close>); JSON payloads that the code validates at run time
  are values of the datatype \<open>json\<close>, numbers being rationals (finite doubles other than negative zero) and
  \<open>js_number\<close> where the other doubles can reach the code; a sequence or time is an \<open>int\<close>. Strings are
  lists of characters with codes below 256. The clock, fresh identities, dispatch vetoes, flush outcomes,
  token meter, summarizer and abort signals are arguments of the operations that use them. An
  asynchronous operation that the code serializes is one transition; every point where another part may
  append in between is an explicit argument or a step of a run relation.

  \<^bold>\<open>The library.\<close> \<open>Prelude\<close> has results, array operations, decimal rendering, ordered maps and the
  locale \<open>log_replay\<close>: a step over an append-only log with an invariant, from which the prefix, snoc and
  replay facts follow once. It is interpreted by the surface, the session trace, the inbox, the goal fold,
  the team fold and the schedule fold. The locale \<open>event_appender\<close> (\<open>Session_Log\<close>) is what a client relies
  on from an append; the session model interprets it and the inbox is proved over it; \<open>schedule_writer\<close>
  extends it for a writer whose invariant companion vetoes what the replay would refuse. \<open>session_contract\<close> and
  \<open>step_contract\<close> (\<open>Agent_Frame\<close>) are what the driver relies on while other code runs: an invariant of the
  session that every admissible foreign append and every read keeps; they are interpreted for the brackets
  of a running, maintaining and resting agent, for the derivation of a request and for the ledger of tool
  events. \<open>pool_contract\<close> and \<open>pool_law\<close> (\<open>Agent_Order\<close>) add an invariant of the tool pool that survives
  every settlement. \<open>Json\<close> is the lossless value
  domain with the structural equality; \<open>Session_Types\<close> is the vocabulary of messages, stream chunks and
  events.

  \<^bold>\<open>The components.\<close>

  \<^item> \<open>Surface\<close> (\<open>core/session/src/surface.ts\<close>): the complete fold, the planner of one event, and the
    incremental manager with its candidate validation. C1 to C5: nodes are conserved, the manager equals
    the fold, replacements cite what they shadow, admission is exact, a tool-result rewrite changes
    content only.
  \<^item> \<open>Session_Trace\<close> (\<open>invariant.ts\<close>): the turn and step trace and the staged companion. C6: an
    accepted log is well bracketed; the companion is exact across vetoes (\<open>companion_tracks_log\<close>).
  \<^item> \<open>Repair\<close> (\<open>repair.ts\<close>): the scan and the synthetic closers. C8, C9: the repaired log is accepted
    and answers every call; it only appends to the surface (\<open>repair_extends_surface\<close>).
  \<^item> \<open>Session_Log\<close> (\<open>index.ts\<close>, \<open>request-header.ts\<close>, \<open>llm/call-config.ts\<close>): construction, append, derived
    messages and request projections. C11: the derived messages are exact; appends are atomic
    (\<open>append_atomic\<close>); the request projections are exact, headers compare and round trip (\<open>request_projections_exact\<close>,
    \<open>headerEquals_decides\<close>, \<open>sessionHeader_roundtrip\<close>).
  \<^item> \<open>Session_Store\<close>, \<open>Session_Fork\<close> (\<open>index.ts\<close>, the store): preparing, entering, announcing, appending to,
    detaching and forking live sessions, with heaps for session objects and entries and the stack of open
    synchronous calls in the state, so that listeners may call back. C39: the lifecycle notifications are
    paired and deferred detaches are never lost. C40, in this theory: a fork is a sound session for the
    trace, the repair and the surface.
  \<^item> \<open>Inbox\<close> (\<open>core/agent/src/inbox.ts\<close>, \<open>consumed-work.ts\<close>): every mutation over the append interface.
    C16, C17, C19: the inbox is its log, no message is lost or duplicated, the account of consumed work is
    exact; a claim takes the right batch (\<open>claim_takes_batch\<close>).
  \<^item> \<open>Block_Assembler\<close> (\<open>llm/llm/src/assembler.ts\<close>): C20, C21: interleaving is irrelevant, alignment is
    kept and unsafe calls are withheld; interruption always finalizes (\<open>interruptedBlocks_total\<close>).
  \<^item> \<open>Chunk_Rows\<close> (\<open>chunk-rows.ts\<close>): the packed storage rows with double arithmetic. C23: packing
    is lossless; the run check is exact (\<open>continues_exact\<close>); the decoder's sequence bound misses one value
    (\<open>decoder_accepts_unsafe_seq\<close>).
  \<^item> \<open>Tool_Pairing\<close> (\<open>compaction/tool-pairing.ts\<close>, the span readers of \<open>compaction-basic/region.ts\<close>):
    C26 to C28: cached cut reads are exact, the selected span is the greatest balanced one, replacing a
    validated span keeps the surface paired.
  \<^item> \<open>Compaction_Trace\<close> (\<open>compaction/invariant.ts\<close>, \<open>checkpoint.ts\<close>, the entry scan of \<open>region.ts\<close>): C29:
    the two readers of the lock agree; a successful bracket has its summary and checkpoint
    (\<open>successful_bracket_shape\<close>); the live trace is the replay (\<open>live_trace_is_replay\<close>).
  \<^item> \<open>Compaction_Txn\<close> (\<open>compaction-basic/region.ts\<close>): the whole transaction over the session model. C32:
    its four outcomes.
  \<^item> \<open>Goal_Fold\<close>, \<open>Goal_Service\<close> (\<open>goal/goal/src\<close>): strict decoder, replay, projection, and the
    compare-and-set service. C33 to C35: decoding inverts writing, a goal history is well formed, the
    service keeps the stream valid.
  \<^item> \<open>Team_Graph\<close>, \<open>Team_Fold\<close>, \<open>Team_Board\<close> (\<open>experimental/agent-team/src\<close>): the dependency-graph validator,
    the team replay and the task board. C36 to C38: the validator is exact and ends, a team history is
    well formed, the board keeps the stream valid and authorizes its transitions.
  \<^item> \<open>Agent_World\<close>, \<open>Agent_Tools\<close>, \<open>Agent_Driver\<close> (\<open>core/agent-loop/src\<close>: \<open>agent.ts\<close>, \<open>tool-calls.ts\<close>,
    \<open>runtime-context.ts\<close>): the phase machine with its cancellation and latched wakes, the turn and step
    driver, the composition of a request, the streaming of an answer, the rolling pool of tool calls and the
    projection of runtime context, in a monad over the world of one agent. The environment is a script:
    every \<open>await\<close>, every emitted event and every append takes one tick, which holds what the awaited call
    answers and the commands other code issues meanwhile; a script that ends cuts the run there, as a crash
    does. \<open>Agent_Logic\<close>, C18: no environment makes the driver loop without meeting it.
    \<open>Agent_Frame\<close>, \<open>Agent_Triple\<close>: what the environment may change, and the Hoare rules of the monad.
    \<open>Agent_Brackets\<close>, \<open>Agent_Safety\<close>, C13: the driver keeps the turn and step brackets under any
    cancellation, failure or send and returns to rest with everything closed. \<open>Agent_Request\<close>, C31: what is
    sent to the model is what the log rebuilds (with the companion of \<open>invariant.ts\<close>).
    \<open>Agent_Order\<close>, C24: tool calls overlap, but calls and results enter the log in the order of the model,
    each result citing its call, with a bounded number in flight.
    \<open>Agent_Samples\<close> has the concrete agent of the witnesses.
  \<^item> \<open>Calendar\<close>, \<open>Schedule_Time\<close> (the JavaScript date, \<open>schedule/schedule/src/domain.ts\<close>): proleptic Gregorian
    arithmetic, the instant patterns, offset and local time inputs. C25: a local time resolves to the first
    instant that shows it.
  \<^item> \<open>Schedule_Domain\<close>, \<open>Schedule_Projection\<close>, \<open>Schedule_Framing\<close> (\<open>domain.ts\<close>, \<open>types.ts\<close>, \<open>projection.ts\<close>):
    the strict decoder, fixed-rate arithmetic, the replay, the wire projection and the model-visible framing.
    C14, C15, C22, C30: decoding inverts writing, a fixed-rate decision is exact, framing resists injection,
    the two folds agree.
  \<^item> \<open>Schedule_Service\<close>, \<open>Schedule_Runtime\<close> (\<open>tools.ts\<close>, \<open>index.ts\<close>, \<open>invariant.ts\<close>, \<open>runtime.ts\<close>): the tools, the
    remote mutations and the timer loop over the session model. C10, C12, C7: commands keep the stream
    valid, a drive dispatches only what is due, the loop drains and arms the next wake. A checkpoint, an
    abort, the liveness of the agent and each clock reading are fields of the environment; a transaction
    that the code serializes per session is one transition.

  \<^bold>\<open>Bounds and fuel.\<close> All recursions are structural or have a termination proof, except the depth-first
  search of \<open>Team_Graph\<close>, which takes fuel. The validator supplies one more than the number of tasks; each
  nested call adds a task to the visiting set, so the fuel is never spent (part of C36). The reminder loop \<open>runRequested\<close> takes fuel because a failing
  environment may retrigger it for ever; C7 shows that one more than the number of due reminders is
  enough when the environment cooperates. Safe-integer
  bounds are written out where the code tests them; the loops of the agent driver that have no bound of
  their own take one more round than the script has ticks, and every round takes a tick, so their fuel is
  never spent (C18); the loop that mints a session identity ends because
  the store is finite; C38 assumes a log shorter than the greatest safe
  integer, which bounds the revisions.

  \<^bold>\<open>Hypotheses.\<close> The zod schemas of the team fold are third-party parsers; \<open>schemas_ok\<close> states the
  bounds they declare, and \<open>reading_schemas\<close> is an instance. The token meter of C27 is assumed to return
  non-negative counts. The time zone data of C25 are those of the host: \<open>zone_formatter\<close> says that the formatter
  prints the local fields and the offset of an instant, \<open>one_transition\<close> that the zone changes its offset
  at most once within two days. Times are integers: the quotient of the fixed-rate decision is floored
  exactly, as it is in double arithmetic for operands of the tested ranges. Of other code, C13 assumes that it
  appends no turn or step boundary to the log of a live agent (\<open>bracket_free\<close>) and that no listener but the
  session invariants vetoes an end marker (\<open>spares_closings\<close>); C31 assumes that what it appends between the
  derivation of the messages and the dispatch neither enters the surface nor is a request header
  (\<open>log_only\<close>); C24 assumes that it appends no tool calls or results (\<open>tool_free\<close>). Every theorem with a hypothesis is applied to a concrete input.

  \<^bold>\<open>Not modelled.\<close> The effect of the plugin framework that runs \<open>create\<close> and rolls it back, the walker that snapshots arbitrary host objects to JSON, the promise queue of the team journal, the
  team roster and mailbox, the ownership, registration and publication of agents (\<open>agent-loop/src/index.ts\<close>),
  the assembly of the system prompt, the tool registry, the compaction trigger policy, retry and
  image offload, jobs and todo lists: these are lifecycles over host objects, plugin fibers and external
  services, whose state is that of promises and host handles. Of the schedules, the preparation of a
  cold session by the persistence coordinator, the promise queue of the transactions and the tool
  schemas are left out. Persistence backends, host,
  gateway, browser, client, extensions and build tooling are input and output, rendering or generated
  catalogs and are left out.
\<close>

section \<open>Properties across components\<close>

text \<open>
  C40. A fork is a sound session. A rejected fork changes no session and no store entry, and an
  open-turn rejection is one where crash repair would have had a turn to close. A fork that succeeds leaves
  every other session as it was and builds one new session, under an identity not in the store, whose log
  is a prefix of the source's log followed by at most a seed marker. Its header names the source and the
  length of the prefix. It needs no repair; if the source's log keeps the session invariants, so does
  the child's, with no turn or step open; and its surface is the surface of the prefix.
\<close>

theorem fork_sound:
  assumes "fork st src b child now = (st', r)"
  shows "case r of
      Inl err \<Rightarrow> st_sessions st' = st_sessions st \<and> st_store st' = st_store st
        \<and> (err = ForkOpenTurn \<longrightarrow> (\<exists>s n. resolveForkSource st src = Inr s \<and> interruptedTurnClosers (take n (se_log (st_sessions st s))) \<noteq> []))
    | Inr c \<Rightarrow> \<exists>s seed marker. resolveForkSource st src = Inr s \<and> c = st_sessionCount st
        \<and> (\<forall>t. t \<noteq> c \<longrightarrow> st_sessions st' t = st_sessions st t) \<and> store_get st (session_ident (st_sessions st' c)) = None
        \<and> prefix seed (se_log (st_sessions st s)) \<and> se_log (st_sessions st' c) = seed @ marker \<and> map ev_data marker \<in> {[], [EndSeed]}
        \<and> sh_parentSession (se_header (st_sessions st' c)) = Some (session_ident (st_sessions st s))
        \<and> sh_seedLength (se_header (st_sessions st' c)) = Some (int (length seed))
        \<and> interruptedTurnClosers (se_log (st_sessions st' c)) = []
        \<and> (\<forall>tr. seedSession (se_log (st_sessions st s)) = Inr tr \<longrightarrow>
              (\<exists>tr'. seedSession (se_log (st_sessions st' c)) = Inr tr' \<and> openTurn tr' = None \<and> openStep tr' = None))
        \<and> (\<exists>p. foldSurface (se_log (st_sessions st' c)) = Inr p \<and> foldSurface seed = Inr p)"
proof (cases r)
  case (Inl err)
  have "\<exists>s n. resolveForkSource st src = Inr s \<and> interruptedTurnClosers (take n (se_log (st_sessions st s))) \<noteq> []"
    if "err = ForkOpenTurn"
  proof -
    from assms Inl that obtain s where "resolveForkSource st src = Inr s" "forkSeed (se_log (st_sessions st s)) b = Inl ForkOpenTurn"
      by (auto simp: fork_def prepare_def resolveForkSource_def Let_def split: option.splits if_splits sum.splits fork_source.splits)
    with forkSeed_open_turn show ?thesis by blast
  qed
  with Inl fork_unchanged [of st src b child now st' err] assms show ?thesis by simp
next
  case (Inr c)
  from assms Inr obtain s seed where s: "resolveForkSource st src = Inr s" "forkSeed (se_log (st_sessions st s)) b = Inr seed"
    and prep: "prepare st child (FromMeta (Some seed) (fork_meta (st_sessions st s) (length seed)) None) now = (st', Inr c)"
    by (auto simp: fork_def split: option.splits if_splits sum.splits)
  from prepare_Inr [OF prep] obtain sid where c: "c = st_sessionCount st" "\<forall>t. t \<noteq> c \<longrightarrow> st_sessions st' t = st_sessions st t"
      "map_of (st_store st) sid = None"
    and new: "new_session False sid (Some seed)
        (header_json ((fork_meta (st_sessions st s) (length seed))\<lparr>sh_id := sid, sh_createdAt := now\<rparr>)) now = Inr (st_sessions st' c)"
    by (auto simp: prepared_session_def)
  from forkSeed_Inr [OF s(2)] obtain n where n: "seed = take n (se_log (st_sessions st s))" "rs_openTurn (scan_log seed) = None" by blast
  have lineage: "sh_parentSession (se_header (st_sessions st' c)) = Some (session_ident (st_sessions st s))"
      "sh_seedLength (se_header (st_sessions st' c)) = Some (int (length seed))" "session_ident (st_sessions st' c) = sid"
    using new_session_log [OF new] by (auto simp: fork_meta_def)
  have "store_get st (session_ident (st_sessions st' c)) = None" using c(3) lineage(3) by (simp add: store_get_def)
  moreover have "prefix seed (se_log (st_sessions st s))" by (simp add: n(1) take_is_prefix)
  ultimately show ?thesis using Inr s(1) c lineage(1,2) fork_child [OF new n] by auto
qed

definition fork_store :: store_state where
  "fork_store = foldl store_step new_store
     [OpPrepare (Some ''s'') (FromMeta (Some (sample_log @ [sample_rewrite])) empty_header None) 1, OpEnter 0]"

theorem fork_sound_witness:
  "(let x = fork fork_store (ForkById ''s'') (Some (JsFin 2)) None 2; y = st_sessions (fst x) 1 in
     snd x = Inr 1 \<and> length (se_log y) = 4 \<and> sh_parentSession (se_header y) = Some ''s'' \<and> interruptedTurnClosers (se_log y) = [])"
proof -
  let ?x = "fork fork_store (ForkById ''s'') (Some (JsFin 2)) None 2"
  have r: "snd ?x = Inr 1" and n: "length (se_log (st_sessions (fst ?x) 1)) = 4" by code_simp+
  have s: "resolveForkSource fork_store (ForkById ''s'') = Inr 0" "session_ident (st_sessions fork_store 0) = ''s''" by code_simp+
  have "?x = (fst ?x, Inr 1)" by (metis r surjective_pairing)
  from fork_sound [OF this] obtain s0 where "resolveForkSource fork_store (ForkById ''s'') = Inr s0"
    "sh_parentSession (se_header (st_sessions (fst ?x) 1)) = Some (session_ident (st_sessions fork_store s0))"
    "interruptedTurnClosers (se_log (st_sessions (fst ?x) 1)) = []" by auto
  with s r n show ?thesis by (simp add: Let_def)
qed

end
